(* ===== verification/Xv6_Prelude.thy ===== *)
theory Xv6_Prelude
  imports Main "HOL-Library.Word"
begin

text \<open>
  What every component of the development shares: the C integer types of \<^verbatim>\<open>types.h\<close>,
  the constants of \<^verbatim>\<open>param.h\<close>, the result type of kernel code (a value, a call of
  \<^verbatim>\<open>panic\<close>, or undefined behaviour of C) with its sequencing operator, and generic
  lemmas on lists and words.

  Conventions. An unsigned C integer is a word of its width. A C \<^verbatim>\<open>int\<close> is a HOL
  integer where the code never relies on its width (signed overflow is undefined in C);
  the conversions between the two are written out (\<^term>\<open>sint\<close> reads a word as C
  converts \<^verbatim>\<open>uint\<close> to \<^verbatim>\<open>int\<close>, \<^term>\<open>word_of_int\<close> is the other way).
\<close>

unbundle bit_operations_syntax

section \<open>C types and kernel parameters\<close>

type_synonym uint = "32 word"
type_synonym ushort = "16 word"
type_synonym uchar = "8 word"

named_theorems param_defs
  \<comment> \<open>the numeric parameters of the kernel, unfolded where their values matter\<close>

definition NPROC :: nat where [param_defs]: "NPROC = 64"
definition KSTACKSIZE :: nat where [param_defs]: "KSTACKSIZE = 4096"
definition NCPU :: nat where [param_defs]: "NCPU = 8"
definition NOFILE :: nat where [param_defs]: "NOFILE = 16"
definition NFILE :: nat where [param_defs]: "NFILE = 100"
definition NINODE :: nat where [param_defs]: "NINODE = 50"
definition NDEV :: nat where [param_defs]: "NDEV = 10"
definition ROOTDEV :: uint where [param_defs]: "ROOTDEV = 1"
definition MAXARG :: nat where [param_defs]: "MAXARG = 32"
definition MAXOPBLOCKS :: nat where [param_defs]: "MAXOPBLOCKS = 10"
definition LOGSIZE :: nat where [param_defs]: "LOGSIZE = MAXOPBLOCKS * 3"
definition NBUF :: nat where [param_defs]: "NBUF = MAXOPBLOCKS * 3"
definition FSSIZE :: nat where [param_defs]: "FSSIZE = 1000"

section \<open>Outcomes of kernel code\<close>

text \<open>
  \<^verbatim>\<open>panic\<close> never returns: it freezes the machine, so it ends the computation with its
  message. \<^term>\<open>Undef\<close> marks what C leaves undefined (an access outside an array, a
  dereference of a null pointer). \<^term>\<open>Sleeps\<close> is the outcome of code that finds a sleep
  lock taken or a condition unmet and gives up the CPU before it is done. A theorem that an
  operation returns \<^term>\<open>Ok\<close> shows that none of the three happens.
\<close>

datatype 'a res = Ok 'a | Panic string | Undef | Sleeps

primrec bindR :: "'a res \<Rightarrow> ('a \<Rightarrow> 'b res) \<Rightarrow> 'b res" where
  "bindR (Ok x) f = f x"
| "bindR (Panic m) f = Panic m"
| "bindR Undef f = Undef"
| "bindR Sleeps f = Sleeps"

definition guardR :: "bool \<Rightarrow> string \<Rightarrow> unit res" where
  "guardR b msg = (if b then Ok () else Panic msg)"

definition nthR :: "'a list \<Rightarrow> nat \<Rightarrow> 'a res" where
  "nthR xs i = (if i < length xs then Ok (xs ! i) else Undef)"

definition derefR :: "'a option \<Rightarrow> 'a res" where
  "derefR p = (case p of None \<Rightarrow> Undef | Some x \<Rightarrow> Ok x)"

lemma bindR_eq_Ok_iff: "bindR m f = Ok y \<longleftrightarrow> (\<exists>x. m = Ok x \<and> f x = Ok y)"
  by (cases m) auto

lemma bindR_OkE:
  assumes "bindR m f = Ok y"
  obtains x where "m = Ok x" and "f x = Ok y"
  using assms by (auto simp: bindR_eq_Ok_iff)

lemma bindR_assoc: "bindR (bindR m f) g = bindR m (\<lambda>x. bindR (f x) g)"
  by (cases m) auto

lemma bindR_cong [fundef_cong]:
  "m = m' \<Longrightarrow> (\<And>x. m' = Ok x \<Longrightarrow> f x = f' x) \<Longrightarrow> bindR m f = bindR m' f'"
  by (cases m') auto

lemma guardR_Ok_iff [simp]: "guardR b msg = Ok u \<longleftrightarrow> b"
  by (simp add: guardR_def)

lemma guardR_simps [simp]: "guardR True msg = Ok ()" "guardR False msg = Panic msg"
  by (simp_all add: guardR_def)

lemma nthR_Ok_iff [simp]: "nthR xs i = Ok y \<longleftrightarrow> i < length xs \<and> y = xs ! i"
  by (auto simp: nthR_def)

lemma nthR_in [simp]: "i < length xs \<Longrightarrow> nthR xs i = Ok (xs ! i)"
  by (simp add: nthR_def)

lemma derefR_simps [simp]: "derefR (Some x) = Ok x" "derefR None = Undef"
  by (simp_all add: derefR_def)

lemma derefR_Ok_iff [simp]: "derefR p = Ok x \<longleftrightarrow> p = Some x"
  by (auto simp: derefR_def split: option.splits)

section \<open>Wait channels\<close>

text \<open>
  A wait channel is the address of a kernel object; one constructor per kind of object
  that the code sleeps on.
\<close>

datatype chan = NoChan | ProcChan nat | TicksChan | LogChan | PipeNread uint | PipeNwrite uint
  | BufLockChan nat | InodeLockChan nat | BufChan nat | InputChan

section \<open>Array loops\<close>

text \<open>
  The first index of a table whose entry satisfies a test: the shape of every
  \<^verbatim>\<open>for(p = table; p < &table[N]; p++) if(...) goto found;\<close> loop of the kernel.
\<close>

fun find_index_from :: "nat \<Rightarrow> ('a \<Rightarrow> bool) \<Rightarrow> 'a list \<Rightarrow> nat option" where
  "find_index_from k P [] = None"
| "find_index_from k P (x # xs) = (if P x then Some k else find_index_from (Suc k) P xs)"

definition find_index :: "('a \<Rightarrow> bool) \<Rightarrow> 'a list \<Rightarrow> nat option" where
  "find_index P xs = find_index_from 0 P xs"

lemma find_index_from_SomeD:
  "find_index_from k P xs = Some i \<Longrightarrow>
     k \<le> i \<and> i < k + length xs \<and> P (xs ! (i - k)) \<and> (\<forall>j < i - k. \<not> P (xs ! j))"
proof (induction xs arbitrary: k)
  case Nil
  then show ?case by simp
next
  case (Cons x xs)
  show ?case
  proof (cases "P x")
    case True
    with Cons.prems show ?thesis by simp
  next
    case False
    with Cons.prems have "find_index_from (Suc k) P xs = Some i" by simp
    from Cons.IH [OF this]
    have ih: "Suc k \<le> i" "i < Suc k + length xs" "P (xs ! (i - Suc k))"
      "\<forall>j < i - Suc k. \<not> P (xs ! j)" by auto
    moreover from ih(1) have "i - k = Suc (i - Suc k)" by arith
    moreover have "\<not> P ((x # xs) ! j)" if "j < i - k" for j
      using that ih False \<open>i - k = Suc (i - Suc k)\<close> by (cases j) auto
    ultimately show ?thesis by auto
  qed
qed

lemma find_index_SomeD:
  assumes "find_index P xs = Some i"
  shows "i < length xs" and "P (xs ! i)" and "j < i \<Longrightarrow> \<not> P (xs ! j)"
  using find_index_from_SomeD [OF assms [unfolded find_index_def]] by auto

lemma find_index_from_None_iff: "find_index_from k P xs = None \<longleftrightarrow> (\<forall>x \<in> set xs. \<not> P x)"
  by (induction xs arbitrary: k) auto

lemma find_index_None_iff: "find_index P xs = None \<longleftrightarrow> (\<forall>x \<in> set xs. \<not> P x)"
  by (simp add: find_index_def find_index_from_None_iff)

lemma find_index_Some_ex: "x \<in> set xs \<Longrightarrow> P x \<Longrightarrow> \<exists>i. find_index P xs = Some i"
  using find_index_None_iff [of P xs] by (cases "find_index P xs") auto

lemma find_index_eqI:
  assumes "i < length xs" "P (xs ! i)" "\<And>j. j < i \<Longrightarrow> \<not> P (xs ! j)"
  shows "find_index P xs = Some i"
proof -
  obtain k where k: "find_index P xs = Some k"
    using find_index_Some_ex [of "xs ! i" xs P] assms(1,2) by auto
  note kD = find_index_SomeD [OF k]
  have "\<not> k < i" using assms(3) kD(2) by blast
  moreover have "\<not> i < k" using kD(3) assms(2) by blast
  ultimately have "k = i" by simp
  with k show ?thesis by simp
qed

section \<open>Lists\<close>

lemma nth_list_update_if:
  "i < length xs \<Longrightarrow> xs[j := v] ! i = (if i = j then v else xs ! i)"
  by (cases "i = j") auto

lemma ball_set_update:
  "(\<forall>x \<in> set xs. P x) \<Longrightarrow> P v \<Longrightarrow> \<forall>x \<in> set (xs[i := v]). P x"
  using set_update_subset_insert [of xs i v] by auto

lemma update_comm_append:
  "i < length xs \<Longrightarrow> xs[i := v] @ ys = (xs @ ys)[i := v]"
  by (simp add: list_update_append)

section \<open>Words\<close>

lemma unat_uint_lt: "unat (n :: uint) < 2 ^ 32"
  using unsigned_less [of n, where ?'a = nat] by simp

lemma unat_uint_add:
  fixes a b :: uint
  assumes "unat a + unat b < 2 ^ 32"
  shows "unat (a + b) = unat a + unat b"
  using assms by (simp add: unat_word_ariths)

lemma unat_uint_sub:
  fixes a b :: uint
  assumes "b \<le> a"
  shows "unat (a - b) = unat a - unat b"
  using assms by (rule unat_sub)

lemma sint_of_int: "- (2 ^ 31) \<le> i \<Longrightarrow> i < 2 ^ 31 \<Longrightarrow> sint (word_of_int i :: uint) = i"
  by (simp add: signed_take_bit_int_eq_self sint_sbintrunc')

text \<open>The page mask, as the address macros use it.\<close>

lemma mask_12: "(0xFFF :: uint) = mask 12"
  by (simp add: mask_eq_exp_minus_1)

lemma and_not_page: "(a :: uint) AND NOT 0xFFF = a - a mod 4096"
proof -
  have "a AND NOT 0xFFF = push_bit 12 (drop_bit 12 a)"
    unfolding mask_12 by (rule bit_word_eqI) (auto simp: bit_simps)
  moreover have "push_bit 12 (drop_bit 12 a) + take_bit 12 a = a" by (rule bits_ident)
  ultimately show ?thesis by (simp add: take_bit_eq_mod algebra_simps)
qed

lemma and_page: "(a :: uint) AND 0xFFF = a mod 4096"
  unfolding mask_12 by (simp add: take_bit_eq_mod flip: take_bit_eq_mask)

end
