(* ===== verification/Kstring.thy ===== *)
theory Kstring
  imports Xv6_Prelude
begin

text \<open>
  The byte memory and the routines of \<^verbatim>\<open>string.c\<close>. Memory is a map from 32-bit
  addresses to bytes; a word is stored little-endian. The \<^verbatim>\<open>mem\<close> routines work on
  memory, so that overlap is visible. The \<^verbatim>\<open>str\<close> routines read and write character
  arrays, given as lists of bytes; reading at the end of a list gives the terminating NUL.
\<close>

section \<open>Memory\<close>

type_synonym memory = "uint \<Rightarrow> uchar"

definition load32 :: "memory \<Rightarrow> uint \<Rightarrow> uint" where
  "load32 m a = ucast (m a) OR push_bit 8 (ucast (m (a + 1)))
     OR push_bit 16 (ucast (m (a + 2))) OR push_bit 24 (ucast (m (a + 3)))"

definition store32 :: "memory \<Rightarrow> uint \<Rightarrow> uint \<Rightarrow> memory" where
  "store32 m a v = m(a := ucast v, a + 1 := ucast (drop_bit 8 v),
     a + 2 := ucast (drop_bit 16 v), a + 3 := ucast (drop_bit 24 v))"

text \<open>A range of bytes, read and written at consecutive addresses.\<close>

primrec get_bytes :: "memory \<Rightarrow> uint \<Rightarrow> nat \<Rightarrow> uchar list" where
  "get_bytes m a 0 = []"
| "get_bytes m a (Suc n) = m a # get_bytes m (a + 1) n"

primrec put_bytes :: "memory \<Rightarrow> uint \<Rightarrow> uchar list \<Rightarrow> memory" where
  "put_bytes m a [] = m"
| "put_bytes m a (b # bs) = put_bytes (m(a := b)) (a + 1) bs"

definition aligned4 :: "uint \<Rightarrow> bool" where
  "aligned4 a \<longleftrightarrow> unat a mod 4 = 0"

lemma bytes_of_word:
  "ucast (ucast v :: uchar) OR push_bit 8 (ucast (ucast (drop_bit 8 v) :: uchar)) OR
   push_bit 16 (ucast (ucast (drop_bit 16 v) :: uchar)) OR
   push_bit 24 (ucast (ucast (drop_bit 24 v) :: uchar)) = (v :: uint)"
proof (rule bit_word_eqI)
  fix n assume "n < LENGTH(32)"
  then have n: "n < 32" by simp
  consider "n < 8" | "8 \<le> n" "n < 16" | "16 \<le> n" "n < 24" | "24 \<le> n" "n < 32"
    using n by linarith
  then show "bit (ucast (ucast v :: uchar) OR push_bit 8 (ucast (ucast (drop_bit 8 v) :: uchar)) OR
     push_bit 16 (ucast (ucast (drop_bit 16 v) :: uchar)) OR
     push_bit 24 (ucast (ucast (drop_bit 24 v) :: uchar)) :: uint) n = bit v n"
    by (cases; simp add: bit_or_iff bit_push_bit_iff bit_ucast_iff bit_drop_bit_eq
        less_diff_conv2; auto)
qed

lemma add_offset_neq:
  "a \<noteq> a + (1::uint)" "a \<noteq> a + 2" "a \<noteq> a + 3" "a + 1 \<noteq> a + 2" "a + 1 \<noteq> a + 3" "a + 2 \<noteq> a + (3::uint)"
  by simp_all

lemma load_store_same [simp]: "load32 (store32 m a v) a = v"
proof -
  let ?m = "store32 m a v"
  have "?m a = ucast v" "?m (a + 1) = ucast (drop_bit 8 v)"
    "?m (a + 2) = ucast (drop_bit 16 v)" "?m (a + 3) = ucast (drop_bit 24 v)"
    using add_offset_neq [of a] by (simp_all add: store32_def)
  then show ?thesis by (simp only: load32_def bytes_of_word)
qed

lemma aligned4_offsets:
  assumes "aligned4 a" "aligned4 b" "a \<noteq> b" "i < 4" "j < (4::nat)"
  shows "a + of_nat i \<noteq> b + of_nat j"
proof
  assume eq: "a + of_nat i = b + of_nat j"
  define k l where "k = unat a div 4" and "l = unat b div 4"
  have k: "unat a = 4 * k" and l: "unat b = 4 * l"
    using assms(1,2) by (auto simp: aligned4_def k_def l_def)
  have "unat a < 2 ^ 32" "unat b < 2 ^ 32" using unsigned_less [of a] unsigned_less [of b] by simp_all
  then have "4 * k + i < 2 ^ 32" "4 * l + j < 2 ^ 32"
    using k l assms(4,5) by auto
  then have "unat (a + of_nat i) = 4 * k + i" "unat (b + of_nat j) = 4 * l + j"
    using k l assms(4,5) by (auto simp: unat_word_ariths unat_of_nat)
  with eq have "4 * k + i = 4 * l + j" by simp
  with assms(4,5) have "k = l" by arith
  with k l have "unat a = unat b" by simp
  with assms(3) show False by (simp add: word_unat_eq_iff)
qed

lemma load_store_other:
  assumes "aligned4 a" "aligned4 b" "a \<noteq> b"
  shows "load32 (store32 m a v) b = load32 m b"
proof -
  note off = aligned4_offsets [OF assms]
  have "b + of_nat j \<noteq> a + of_nat i" if "i < 4" "j < 4" for i j :: nat
    using off [OF that] by (rule not_sym)
  from this [of 0 0] this [of 0 1] this [of 0 2] this [of 0 3]
    this [of 1 0] this [of 1 1] this [of 1 2] this [of 1 3]
    this [of 2 0] this [of 2 1] this [of 2 2] this [of 2 3]
    this [of 3 0] this [of 3 1] this [of 3 2] this [of 3 3]
  show ?thesis by (simp add: load32_def store32_def)
qed

section \<open>memset, memmove, memcmp\<close>

text \<open>\<^verbatim>\<open>stosb\<close> and \<^verbatim>\<open>stosl\<close> of \<^verbatim>\<open>x86.h\<close>: the repeated string stores.\<close>

fun stosb :: "memory \<Rightarrow> uint \<Rightarrow> uchar \<Rightarrow> nat \<Rightarrow> memory" where
  "stosb m a c 0 = m"
| "stosb m a c (Suc n) = stosb (m(a := c)) (a + 1) c n"

fun stosl :: "memory \<Rightarrow> uint \<Rightarrow> uint \<Rightarrow> nat \<Rightarrow> memory" where
  "stosl m a w 0 = m"
| "stosl m a w (Suc n) = stosl (store32 m a w) (a + 4) w n"

definition splat :: "uint \<Rightarrow> uint" where
  "splat c = push_bit 24 (c AND 0xFF) OR push_bit 16 (c AND 0xFF)
     OR push_bit 8 (c AND 0xFF) OR (c AND 0xFF)"

definition memset :: "memory \<Rightarrow> uint \<Rightarrow> uint \<Rightarrow> uint \<Rightarrow> memory" where
  "memset m dst c n =
     (if dst mod 4 = 0 \<and> n mod 4 = 0
      then stosl m dst (splat c) (unat n div 4)
      else stosb m dst (ucast c) (unat n))"

fun memcmp :: "memory \<Rightarrow> uint \<Rightarrow> uint \<Rightarrow> nat \<Rightarrow> int" where
  "memcmp m s1 s2 0 = 0"
| "memcmp m s1 s2 (Suc n) =
     (if m s1 \<noteq> m s2 then uint (m s1) - uint (m s2) else memcmp m (s1 + 1) (s2 + 1) n)"

fun copy_down :: "memory \<Rightarrow> uint \<Rightarrow> uint \<Rightarrow> nat \<Rightarrow> memory" where
  "copy_down m d s 0 = m"
| "copy_down m d s (Suc n) = copy_down (m(d - 1 := m (s - 1))) (d - 1) (s - 1) n"

fun copy_up :: "memory \<Rightarrow> uint \<Rightarrow> uint \<Rightarrow> nat \<Rightarrow> memory" where
  "copy_up m d s 0 = m"
| "copy_up m d s (Suc n) = copy_up (m(d := m s)) (d + 1) (s + 1) n"

definition memmove :: "memory \<Rightarrow> uint \<Rightarrow> uint \<Rightarrow> uint \<Rightarrow> memory" where
  "memmove m dst src n =
     (if src < dst \<and> src + n > dst then copy_down m (dst + n) (src + n) (unat n)
      else copy_up m dst src (unat n))"

definition memcpy :: "memory \<Rightarrow> uint \<Rightarrow> uint \<Rightarrow> uint \<Rightarrow> memory" where
  "memcpy m dst src n = memmove m dst src n"

text \<open>What the two fills and the two copies do, address by address.\<close>

definition fill :: "memory \<Rightarrow> uint \<Rightarrow> uchar \<Rightarrow> nat \<Rightarrow> memory" where
  "fill m a c n = (\<lambda>x. if unat (x - a) < n then c else m x)"

definition copied :: "memory \<Rightarrow> uint \<Rightarrow> uint \<Rightarrow> nat \<Rightarrow> memory" where
  "copied m d s n = (\<lambda>x. if unat (x - d) < n then m (s + (x - d)) else m x)"

lemma unat_minus1:
  fixes x a :: uint
  assumes "x \<noteq> a"
  shows "unat (x - a) = Suc (unat (x - (a + 1)))"
proof -
  have "x - a \<noteq> 0" using assms by simp
  then have "unat (x - a - 1) = unat (x - a) - 1" and "0 < unat (x - a)"
    by (simp_all add: unat_minus_one unat_gt_0)
  then have "unat (x - a) = Suc (unat (x - a - 1))" by simp
  then show ?thesis by (simp only: diff_diff_eq)
qed

lemma unat_pred_max: "unat (a - (a + 1) :: uint) = 2 ^ 32 - 1"
  by (simp add: unsigned_minus_1_eq_mask mask_eq_exp_minus_1)

lemma stosb_fill: "n \<le> 2 ^ 32 \<Longrightarrow> stosb m a c n = fill m a c n"
proof (induction n arbitrary: m a)
  case 0
  show ?case by (simp add: fill_def)
next
  case (Suc n)
  then have "stosb m a c (Suc n) = fill (m(a := c)) (a + 1) c n" by simp
  also have "\<dots> = fill m a c (Suc n)"
  proof
    fix x
    show "fill (m(a := c)) (a + 1) c n x = fill m a c (Suc n) x"
      by (cases "x = a") (simp_all add: fill_def unat_minus1)
  qed
  finally show ?case .
qed

lemma copy_up_copied:
  assumes "n \<le> 2 ^ 32"
    and "\<And>i j. i < j \<Longrightarrow> j < n \<Longrightarrow> s + of_nat j \<noteq> d + of_nat i"
  shows "copy_up m d s n = copied m d s n"
  using assms
proof (induction n arbitrary: m d s)
  case 0
  show ?case by (simp add: copied_def)
next
  case (Suc n)
  have "(s + 1) + of_nat j \<noteq> (d + 1) + of_nat i" if "i < j" "j < n" for i j
    using Suc.prems(2) [of "Suc i" "Suc j"] that by (simp add: algebra_simps)
  then have ih: "copy_up m d s (Suc n) = copied (m(d := m s)) (d + 1) (s + 1) n"
    using Suc by simp
  have "copied (m(d := m s)) (d + 1) (s + 1) n x = copied m d s (Suc n) x" for x
  proof (cases "x = d")
    case True
    then show ?thesis using Suc.prems(1) by (simp add: copied_def unat_pred_max)
  next
    case False
    let ?u = "unat (x - (d + 1))"
    have u: "unat (x - d) = Suc ?u" using False by (rule unat_minus1)
    have "s + (x - d) \<noteq> d" if "?u < n"
      using Suc.prems(2) [of 0 "unat (x - d)"] that u by simp
    then show ?thesis using u False by (auto simp: copied_def)
  qed
  with ih show ?case by (simp add: fun_eq_iff)
qed

lemma copy_down_copied:
  assumes "n \<le> 2 ^ 32"
    and "\<And>i j. i < j \<Longrightarrow> j < n \<Longrightarrow> s + of_nat i \<noteq> d + of_nat j"
  shows "copy_down m (d + of_nat n) (s + of_nat n) n = copied m d s n"
  using assms
proof (induction n arbitrary: m)
  case 0
  show ?case by (simp add: copied_def)
next
  case (Suc n)
  let ?m = "m(d + of_nat n := m (s + of_nat n))"
  have "copy_down m (d + of_nat (Suc n)) (s + of_nat (Suc n)) (Suc n) =
      copy_down ?m (d + of_nat n) (s + of_nat n) n"
    by (simp add: algebra_simps)
  also have "\<dots> = copied ?m d s n" using Suc by simp
  also have "\<dots> = copied m d s (Suc n)"
  proof
    fix x
    have "n < 2 ^ 32" using Suc.prems(1) by simp
    then have n: "unat (of_nat n :: uint) = n" by (simp add: unat_of_nat)
    show "copied ?m d s n x = copied m d s (Suc n) x"
    proof (cases "x = d + of_nat n")
      case True
      with n show ?thesis by (simp add: copied_def)
    next
      case False
      have "unat (x - d) \<noteq> n"
      proof
        assume "unat (x - d) = n"
        with n have "x - d = of_nat n" by (simp add: word_unat_eq_iff)
        with False show False by (simp add: algebra_simps)
      qed
      moreover have "s + (x - d) \<noteq> d + of_nat n" if "unat (x - d) < n"
        using Suc.prems(2) [of "unat (x - d)" n] that by simp
      ultimately show ?thesis using False by (auto simp: copied_def)
    qed
  qed
  finally show ?case .
qed

text \<open>Two regions that do not wrap around the top of the address space.\<close>

lemma no_wrap_offset:
  fixes a :: uint
  assumes "unat a + n < 2 ^ 32" "i \<le> n"
  shows "unat (a + of_nat i) = unat a + i"
proof -
  have "unat (of_nat i :: uint) = i" using assms by (simp add: unat_of_nat)
  then show ?thesis using assms by (simp add: unat_word_ariths)
qed

lemma no_wrap_neq:
  fixes s d :: uint
  assumes "unat s + n < 2 ^ 32" "unat d + n < 2 ^ 32" "i \<le> n" "j \<le> n"
    and "unat s + i \<noteq> unat d + j"
  shows "s + of_nat i \<noteq> d + of_nat j"
  using no_wrap_offset [OF assms(1,3)] no_wrap_offset [OF assms(2,4)] assms(5) by metis

lemma memmove_copied:
  assumes s: "unat src + unat n < 2 ^ 32" and d: "unat dst + unat n < 2 ^ 32"
  shows "memmove m dst src n = copied m dst src (unat n)"
proof -
  have n: "unat n \<le> 2 ^ 32" using s by simp
  have gt: "src + n > dst \<longleftrightarrow> unat src + unat n > unat dst"
    using s by (simp add: word_less_nat_alt unat_word_ariths)
  show ?thesis
  proof (cases "src < dst \<and> src + n > dst")
    case True
    then have "unat src < unat dst" by (simp add: word_less_nat_alt)
    then have "src + of_nat i \<noteq> dst + of_nat j" if "i < j" "j < unat n" for i j
      using that by (intro no_wrap_neq [OF s d]) auto
    from copy_down_copied [OF n this] True show ?thesis by (simp add: memmove_def)
  next
    case False
    then have "unat dst \<le> unat src \<or> unat src + unat n \<le> unat dst"
      using gt by (auto simp: word_less_nat_alt)
    then have "src + of_nat j \<noteq> dst + of_nat i" if "i < j" "j < unat n" for i j
      using that by (intro no_wrap_neq [OF s d]) auto
    from copy_up_copied [OF n this] False show ?thesis by (auto simp: memmove_def)
  qed
qed

text \<open>The four bytes that \<^verbatim>\<open>stosl\<close> writes are all the low byte of the argument.\<close>

lemma bit_low_byte: "bit (c AND 0xFF :: uint) n \<longleftrightarrow> n < 8 \<and> bit c n"
proof -
  have m: "(0xFF :: uint) = mask 8" by (simp add: mask_eq_exp_minus_1)
  show ?thesis unfolding m by (auto simp: bit_and_iff bit_mask_iff dest: bit_imp_le_length)
qed

lemma splat_bytes:
  shows "(ucast (splat c) :: uchar) = ucast c" "(ucast (drop_bit 8 (splat c)) :: uchar) = ucast c"
    "(ucast (drop_bit 16 (splat c)) :: uchar) = ucast c"
    "(ucast (drop_bit 24 (splat c)) :: uchar) = ucast c"
proof -
  note bits = bit_ucast_iff bit_drop_bit_eq bit_or_iff bit_push_bit_iff bit_low_byte splat_def
  have byte: "u = (ucast c :: uchar)" if "\<And>n. n < 8 \<Longrightarrow> bit u n = bit c n" for u :: uchar
    using that by (intro bit_word_eqI) (simp add: bit_ucast_iff)
  show "(ucast (splat c) :: uchar) = ucast c" by (rule byte) (simp only: bits comp_apply, auto)
  show "(ucast (drop_bit 8 (splat c)) :: uchar) = ucast c" by (rule byte) (simp only: bits comp_apply, auto)
  show "(ucast (drop_bit 16 (splat c)) :: uchar) = ucast c" by (rule byte) (simp only: bits comp_apply, auto)
  show "(ucast (drop_bit 24 (splat c)) :: uchar) = ucast c" by (rule byte) (simp only: bits comp_apply, auto)
qed

lemma fill_append:
  assumes "k + n \<le> 2 ^ 32"
  shows "fill (fill m a c k) (a + of_nat k) c n = fill m a c (k + n)"
proof (cases "n = 0")
  case True
  then show ?thesis by (simp add: fill_def)
next
  case False
  then have k: "unat (of_nat k :: uint) = k" using assms by (simp add: unat_of_nat)
  show ?thesis
  proof
    fix x
    let ?u = "x - a"
    have eq: "x - (a + of_nat k) = ?u - of_nat k" by (simp add: algebra_simps)
    show "fill (fill m a c k) (a + of_nat k) c n x = fill m a c (k + n) x"
    proof (cases "k \<le> unat ?u")
      case True
      then have "of_nat k \<le> ?u" using k by (simp add: word_le_nat_alt)
      then have "unat (?u - of_nat k) = unat ?u - k" using k by (simp add: unat_sub)
      then show ?thesis using True by (auto simp: fill_def eq)
    next
      case False
      then show ?thesis by (simp add: fill_def)
    qed
  qed
qed

lemma fill_1: "fill m a c 1 = m(a := c)"
  by (auto simp: fill_def fun_eq_iff unsigned_eq_0_iff)

lemma fill_4: "fill m a c 4 = m(a := c, a + 1 := c, a + 2 := c, a + 3 := c)"
proof -
  have "fill m a c 4 = fill (fill m a c 3) (a + of_nat 3) c 1"
    by (subst fill_append) simp_all
  also have "fill m a c 3 = fill (fill m a c 2) (a + of_nat 2) c 1"
    by (subst fill_append) simp_all
  also have "fill m a c 2 = fill (fill m a c 1) (a + of_nat 1) c 1"
    by (subst fill_append) (simp_all only: one_add_one, simp_all)
  finally show ?thesis by (simp only: fill_1 of_nat_1 of_nat_numeral)
qed

lemma stosl_fill:
  "4 * n \<le> 2 ^ 32 \<Longrightarrow> stosl m a (splat c) n = fill m a (ucast c) (4 * n)"
proof (induction n arbitrary: m a)
  case 0
  show ?case by (simp add: fill_def)
next
  case (Suc n)
  have "store32 m a (splat c) = fill m a (ucast c) 4"
    unfolding store32_def splat_bytes fill_4 ..
  then have "stosl m a (splat c) (Suc n) =
      fill (fill m a (ucast c) 4) (a + of_nat 4) (ucast c) (4 * n)"
    using Suc by simp
  also have "\<dots> = fill m a (ucast c) (4 * Suc n)"
    using Suc.prems by (subst fill_append) auto
  finally show ?case .
qed

lemma memset_fill: "memset m dst c n = fill m dst (ucast c) (unat n)"
proof (cases "dst mod 4 = 0 \<and> n mod 4 = 0")
  case True
  have "unat n mod 4 = 0" using True by (simp add: word_unat_eq_iff unat_mod)
  then have "4 * (unat n div 4) = unat n" by auto
  moreover have "unat n \<le> 2 ^ 32" using unat_uint_lt [of n] by simp
  ultimately show ?thesis
    using True stosl_fill [of "unat n div 4" m dst c] by (simp add: memset_def Let_def)
next
  case False
  have "unat n \<le> 2 ^ 32" using unat_uint_lt [of n] by simp
  with False show ?thesis by (auto simp: memset_def stosb_fill)
qed

section \<open>Character arrays\<close>

text \<open>\<open>hd0 s\<close> is \<^verbatim>\<open>*s\<close>: past the end of the list stands the terminating NUL.\<close>

definition hd0 :: "uchar list \<Rightarrow> uchar" where
  "hd0 s = (case s of [] \<Rightarrow> 0 | c # _ \<Rightarrow> c)"

lemma hd0_simps [simp]: "hd0 [] = 0" "hd0 (c # s) = c"
  by (simp_all add: hd0_def)

fun strncmp :: "uchar list \<Rightarrow> uchar list \<Rightarrow> nat \<Rightarrow> int" where
  "strncmp p q 0 = 0"
| "strncmp p q (Suc n) =
     (if hd0 p \<noteq> 0 \<and> hd0 p = hd0 q then strncmp (tl p) (tl q) n
      else uint (hd0 p) - uint (hd0 q))"

text \<open>
  \<^verbatim>\<open>strncpy\<close> writes exactly \<open>n\<close> bytes (\<open>strncpy_bytes\<close>) over the front of the
  destination array \<open>s\<close>; \<^verbatim>\<open>safestrcpy\<close> writes at most \<open>n\<close>.
\<close>

fun strncpy_bytes :: "uchar list \<Rightarrow> nat \<Rightarrow> uchar list" where
  "strncpy_bytes t 0 = []"
| "strncpy_bytes t (Suc n) =
     hd0 t # (if hd0 t \<noteq> 0 then strncpy_bytes (tl t) n else replicate n 0)"

definition strncpy :: "uchar list \<Rightarrow> uchar list \<Rightarrow> int \<Rightarrow> uchar list res" where
  "strncpy s t n =
     (if length s < nat n then Undef
      else Ok (strncpy_bytes t (nat n) @ drop (nat n) s))"

fun safestrcpy_bytes :: "uchar list \<Rightarrow> nat \<Rightarrow> uchar list" where
  "safestrcpy_bytes t 0 = [0]"
| "safestrcpy_bytes t (Suc k) =
     hd0 t # (if hd0 t \<noteq> 0 then safestrcpy_bytes (tl t) k else [0])"

definition safestrcpy :: "uchar list \<Rightarrow> uchar list \<Rightarrow> int \<Rightarrow> uchar list res" where
  "safestrcpy s t n =
     (if n \<le> 0 then Ok s
      else let w = safestrcpy_bytes t (nat n - 1) in
           if length s < length w then Undef else Ok (w @ drop (length w) s))"

fun strlen :: "uchar list \<Rightarrow> nat" where
  "strlen [] = 0"
| "strlen (c # s) = (if c \<noteq> 0 then Suc (strlen s) else 0)"

text \<open>The string that an array holds: its bytes up to the first NUL.\<close>

definition cstr :: "uchar list \<Rightarrow> uchar list" where
  "cstr s = takeWhile (\<lambda>c. c \<noteq> 0) s"

lemma cstr_simps [simp]: "cstr [] = []" "cstr (c # s) = (if c \<noteq> 0 then c # cstr s else [])"
  by (simp_all add: cstr_def)

lemma strlen_cstr: "strlen s = length (cstr s)"
  by (induction s) auto

lemma cstr_take_unfold:
  "cstr (take (Suc n) p) = (if hd0 p \<noteq> 0 then hd0 p # cstr (take n (tl p)) else [])"
  by (cases p) auto

lemma strncmp_eq_0_iff: "strncmp p q n = 0 \<longleftrightarrow> cstr (take n p) = cstr (take n q)"
proof (induction n arbitrary: p q)
  case 0
  show ?case by simp
next
  case (Suc n)
  have "uint (hd0 p) - uint (hd0 q) = 0 \<longleftrightarrow> hd0 p = hd0 q" by (simp add: word_uint_eq_iff)
  with Suc show ?case by (auto simp: cstr_take_unfold)
qed

lemma length_strncpy_bytes [simp]: "length (strncpy_bytes t n) = n"
  by (induction t n rule: strncpy_bytes.induct) auto

lemma cstr_replicate_0 [simp]: "cstr (replicate n 0) = []"
  by (cases n) auto

lemma cstr_strncpy_bytes: "cstr (strncpy_bytes t n) = cstr (take n t)"
  by (induction t n rule: strncpy_bytes.induct) (auto simp: cstr_take_unfold)

lemma length_safestrcpy_bytes: "length (safestrcpy_bytes t k) \<le> Suc k"
  by (induction t k rule: safestrcpy_bytes.induct) auto

lemma safestrcpy_bytes_spec:
  "cstr (safestrcpy_bytes t k) = cstr (take k t) \<and> 0 \<in> set (safestrcpy_bytes t k)"
  by (induction t k rule: safestrcpy_bytes.induct) (auto simp: cstr_take_unfold)

section \<open>Properties\<close>

text \<open>
  C12: \<^verbatim>\<open>memmove\<close> copies the \<open>n\<close> bytes at \<open>src\<close> to \<open>dst\<close> as they were before the call, also when the two
  ranges overlap, and changes nothing else, provided neither range runs past the end of memory.
\<close>

theorem memmove_correct:
  assumes "unat src + unat n < 2 ^ 32" "unat dst + unat n < 2 ^ 32"
  shows "memmove m dst src n x = (if unat (x - dst) < unat n then m (src + (x - dst)) else m x)"
  using memmove_copied [OF assms] by (simp add: copied_def)

theorem memmove_correct_witness:
  "memmove (\<lambda>a. ucast a) 0x1002 0x1000 8 0x1003 = (1 :: uchar)"
  using memmove_correct [of "0x1000" 8 "0x1002" "\<lambda>a. ucast a" "0x1003"] by simp



end
