(* ===== verification/Kalloc.thy ===== *)
theory Kalloc
  imports Kstring
begin

text \<open>
  The physical page allocator (\<^verbatim>\<open>kalloc.c\<close>) with the address macros of \<^verbatim>\<open>mmu.h\<close>
  and \<^verbatim>\<open>memlayout.h\<close>. The free list is threaded through the free pages themselves:
  the first word of a free page is the \<^verbatim>\<open>next\<close> pointer of its \<^verbatim>\<open>struct run\<close>, so
  that \<^verbatim>\<open>kfree\<close>'s \<^verbatim>\<open>memset\<close> and the links live in the same memory. The state is a
  record that the other components extend, which is why the operations are stated for
  every extension of it. \<open>kend\<close> is the linker symbol \<^verbatim>\<open>end\<close>.
\<close>

section \<open>Addresses\<close>

definition PGSIZE :: uint where "PGSIZE = 4096"
definition KERNBASE :: uint where "KERNBASE = 0x80000000"
definition EXTMEM :: uint where "EXTMEM = 0x100000"
definition PHYSTOP :: uint where "PHYSTOP = 0xE000000"
definition DEVSPACE :: uint where "DEVSPACE = 0xFE000000"
definition V2P :: "uint \<Rightarrow> uint" where "V2P a = a - KERNBASE"
definition P2V :: "uint \<Rightarrow> uint" where "P2V a = a + KERNBASE"

definition PGROUNDUP :: "uint \<Rightarrow> uint" where
  "PGROUNDUP sz = (sz + PGSIZE - 1) AND NOT (PGSIZE - 1)"

definition PGROUNDDOWN :: "uint \<Rightarrow> uint" where
  "PGROUNDDOWN a = a AND NOT (PGSIZE - 1)"

lemmas addr_defs = PGSIZE_def KERNBASE_def EXTMEM_def PHYSTOP_def DEVSPACE_def V2P_def P2V_def

section \<open>The allocator\<close>

record kmem =
  mem :: memory
  freelist :: uint
  use_lock :: bool

definition kfree :: "uint \<Rightarrow> uint \<Rightarrow> 'a kmem_scheme \<Rightarrow> 'a kmem_scheme res" where
  "kfree kend v s =
     (if v mod PGSIZE \<noteq> 0 \<or> v < kend \<or> V2P v \<ge> PHYSTOP then Panic ''kfree''
      else let m1 = memset (mem s) v 1 PGSIZE;
               m2 = store32 m1 v (freelist s)
           in Ok (s\<lparr>mem := m2, freelist := v\<rparr>))"

definition kalloc :: "'a kmem_scheme \<Rightarrow> uint \<times> 'a kmem_scheme" where
  "kalloc s =
     (let r = freelist s in
      if r \<noteq> 0 then (r, s\<lparr>freelist := load32 (mem s) r\<rparr>) else (0, s))"

text \<open>
  \<^verbatim>\<open>freerange\<close> loops until the next page does not fit below \<open>vend\<close>; a page that
  \<^verbatim>\<open>kfree\<close> accepts lies below \<open>P2V(PHYSTOP)\<close>, so the pointer cannot wrap around
  before the loop ends or panics.
\<close>

lemma kfree_Ok_bound:
  assumes "kfree kend p s = Ok s'"
  shows "unat p < 0x8E000000"
proof -
  have "p - 0x80000000 < 0xE000000"
    using assms by (auto simp: kfree_def addr_defs split: if_splits)
  then show ?thesis by unat_arith
qed

function freerange_loop :: "uint \<Rightarrow> uint \<Rightarrow> uint \<Rightarrow> 'a kmem_scheme \<Rightarrow> 'a kmem_scheme res" where
  "freerange_loop kend vend p s =
     (if p + PGSIZE \<le> vend
      then bindR (kfree kend p s) (\<lambda>s1. freerange_loop kend vend (p + PGSIZE) s1)
      else Ok s)"
  by pat_completeness auto
termination
proof (relation "measure (\<lambda>(kend, vend, p, s). 0x8E000000 - unat p)", simp)
  fix kend vend p :: uint and s s1 :: "'a kmem_scheme"
  assume "kfree kend p s = Ok s1"
  then have "unat p < 0x8E000000" by (rule kfree_Ok_bound)
  moreover from this have "unat (p + PGSIZE) = unat p + 4096"
    by (simp add: PGSIZE_def unat_word_ariths)
  ultimately show "((kend, vend, p + PGSIZE, s1), kend, vend, p, s)
      \<in> measure (\<lambda>(kend, vend, p, s). 0x8E000000 - unat p)" by simp
qed

declare freerange_loop.simps [simp del]

definition freerange :: "uint \<Rightarrow> uint \<Rightarrow> uint \<Rightarrow> 'a kmem_scheme \<Rightarrow> 'a kmem_scheme res" where
  "freerange kend vstart vend s = freerange_loop kend vend (PGROUNDUP vstart) s"

definition kinit1 :: "uint \<Rightarrow> uint \<Rightarrow> uint \<Rightarrow> 'a kmem_scheme \<Rightarrow> 'a kmem_scheme res" where
  "kinit1 kend vstart vend s = freerange kend vstart vend (s\<lparr>use_lock := False\<rparr>)"

definition kinit2 :: "uint \<Rightarrow> uint \<Rightarrow> uint \<Rightarrow> 'a kmem_scheme \<Rightarrow> 'a kmem_scheme res" where
  "kinit2 kend vstart vend s =
     bindR (freerange kend vstart vend s) (\<lambda>s1. Ok (s1\<lparr>use_lock := True\<rparr>))"

section \<open>Pages do not overlap\<close>

definition page_ok :: "uint \<Rightarrow> uint \<Rightarrow> bool" where
  "page_ok kend v \<longleftrightarrow> v mod PGSIZE = 0 \<and> kend \<le> v \<and> V2P v < PHYSTOP"

lemma kfree_bad: "\<not> page_ok kend v \<Longrightarrow> kfree kend v s = Panic ''kfree''"
  by (auto simp: kfree_def page_ok_def not_le not_less)

lemma page_unat:
  assumes "(v :: uint) mod PGSIZE = 0"
  shows "unat v mod 4096 = 0"
  using assms by (simp add: PGSIZE_def word_unat_eq_iff unat_mod)

lemma page_aligned4: "v mod PGSIZE = 0 \<Longrightarrow> aligned4 v"
  using page_unat [of v] by (auto simp: aligned4_def mod_mod_cancel dest: mod_0_imp_dvd)

lemma unat_diff_cases:
  fixes x a :: uint
  shows "unat (x - a) = (if unat a \<le> unat x then unat x - unat a else unat x + 2 ^ 32 - unat a)"
  by (simp add: unat_sub_if_size word_size)

lemma pages_apart:
  fixes p v :: uint
  assumes "p mod PGSIZE = 0" "v mod PGSIZE = 0" "p \<noteq> v" "i < 4096"
  shows "\<not> unat (p + of_nat i - v) < 4096"
proof -
  define k l where "k = unat p div 4096" and "l = unat v div 4096"
  have k: "unat p = 4096 * k" and l: "unat v = 4096 * l"
    using page_unat [OF assms(1)] page_unat [OF assms(2)] by (auto simp: k_def l_def)
  have lt: "unat p < 2 ^ 32" "unat v < 2 ^ 32" by (rule unat_uint_lt)+
  then have "unat (p + of_nat i) = unat p + i"
    using k assms(4) by (simp add: unat_word_ariths unat_of_nat)
  moreover have "k \<noteq> l" using assms(3) k l by (auto simp: word_unat_eq_iff)
  ultimately show ?thesis
    using k l lt assms(4) unat_diff_cases [of "p + of_nat i" v] by auto
qed

lemma load32_fill_page:
  assumes "p mod PGSIZE = 0" "v mod PGSIZE = 0" "p \<noteq> v"
  shows "load32 (fill m v c 4096) p = load32 m p"
proof -
  have "fill m v c 4096 (p + of_nat i) = m (p + of_nat i)" if "i < 4" for i
    using pages_apart [OF assms, of i] that by (simp add: fill_def)
  from this [of 0] this [of 1] this [of 2] this [of 3]
  show ?thesis by (simp add: load32_def)
qed

section \<open>The free list as a list of pages\<close>

text \<open>\<open>flist m p ps\<close>: the chain of \<^verbatim>\<open>next\<close> pointers that starts at \<open>p\<close> visits
  exactly the pages \<open>ps\<close> and ends in the null pointer.\<close>

fun flist :: "memory \<Rightarrow> uint \<Rightarrow> uint list \<Rightarrow> bool" where
  "flist m p [] = (p = 0)"
| "flist m p (x # xs) = (p = x \<and> x \<noteq> 0 \<and> flist m (load32 m x) xs)"

definition kmem_rep :: "uint \<Rightarrow> 'a kmem_scheme \<Rightarrow> uint list \<Rightarrow> bool" where
  "kmem_rep kend s ps \<longleftrightarrow>
     flist (mem s) (freelist s) ps \<and> distinct ps \<and> (\<forall>p \<in> set ps. page_ok kend p)"

lemma flist_cong:
  "(\<And>x. x \<in> set ps \<Longrightarrow> load32 m x = load32 m' x) \<Longrightarrow> flist m p ps = flist m' p ps"
  by (induction ps arbitrary: p) auto

lemma flist_unique: "flist m p ps \<Longrightarrow> flist m p qs \<Longrightarrow> ps = qs"
proof (induction ps arbitrary: p qs)
  case Nil
  then show ?case by (cases qs) auto
next
  case (Cons x xs)
  then show ?case by (cases qs) auto
qed

lemma flist_nonzero: "flist m p ps \<Longrightarrow> 0 \<notin> set ps"
  by (induction ps arbitrary: p) auto

lemma kmem_rep_kfree:
  assumes rep: "kmem_rep kend s ps" and v: "page_ok kend v" "v \<noteq> 0" "v \<notin> set ps"
  shows "\<exists>s'. kfree kend v s = Ok s' \<and> kmem_rep kend s' (v # ps)"
proof -
  define m1 where "m1 = fill (mem s) v 1 4096"
  define m2 where "m2 = store32 m1 v (freelist s)"
  have pg: "v mod PGSIZE = 0" using v(1) by (simp add: page_ok_def)
  have k: "kfree kend v s = Ok (s\<lparr>mem := m2, freelist := v\<rparr>)"
    using v(1) by (auto simp: kfree_def page_ok_def m2_def m1_def memset_fill PGSIZE_def Let_def)
  have "load32 m2 x = load32 (mem s) x" if "x \<in> set ps" for x
  proof -
    have x: "x mod PGSIZE = 0" "x \<noteq> v" using that rep v(3) by (auto simp: kmem_rep_def page_ok_def)
    have "load32 m2 x = load32 m1 x"
      unfolding m2_def using x pg by (intro load_store_other page_aligned4) auto
    also have "\<dots> = load32 (mem s) x"
      unfolding m1_def using x pg by (intro load32_fill_page)
    finally show ?thesis .
  qed
  then have "flist m2 (freelist s) ps = flist (mem s) (freelist s) ps" by (rule flist_cong)
  moreover have "load32 m2 v = freelist s" by (simp add: m2_def)
  ultimately show ?thesis using k rep v by (auto simp: kmem_rep_def)
qed

lemma kalloc_Nil: "kmem_rep kend s [] \<Longrightarrow> kalloc s = (0, s)"
  by (simp add: kmem_rep_def kalloc_def)

lemma kalloc_Cons:
  "kmem_rep kend s (p # ps) \<Longrightarrow> \<exists>s'. kalloc s = (p, s') \<and> mem s' = mem s \<and> kmem_rep kend s' ps"
  by (auto simp: kmem_rep_def kalloc_def)

section \<open>The contract of a page allocator\<close>

text \<open>
  What the callers of the allocator (the process table, the page tables, the pipes) rely
  on: the free pages are a list without repetition, allocation takes its head or answers
  with the null pointer, freeing a page that is not free puts it in front.
\<close>

locale page_allocator =
  fixes alloc :: "'s \<Rightarrow> uint \<times> 's"
    and free :: "uint \<Rightarrow> 's \<Rightarrow> 's res"
    and rep :: "'s \<Rightarrow> uint list \<Rightarrow> bool"
    and valid :: "uint \<Rightarrow> bool"
  assumes rep_pages: "rep s ps \<Longrightarrow> distinct ps \<and> 0 \<notin> set ps \<and> (\<forall>p \<in> set ps. valid p)"
    and alloc_none: "rep s [] \<Longrightarrow> alloc s = (0, s)"
    and alloc_some: "rep s (p # ps) \<Longrightarrow> \<exists>s'. alloc s = (p, s') \<and> rep s' ps"
    and free_page: "rep s ps \<Longrightarrow> valid p \<Longrightarrow> p \<noteq> 0 \<Longrightarrow> p \<notin> set ps \<Longrightarrow>
      \<exists>s'. free p s = Ok s' \<and> rep s' (p # ps)"

text \<open>\<open>allocs alloc n\<close>: \<open>n\<close> calls in a row, with the pages they returned.\<close>

fun allocs :: "('s \<Rightarrow> uint \<times> 's) \<Rightarrow> nat \<Rightarrow> 's \<Rightarrow> uint list \<times> 's" where
  "allocs alloc 0 s = ([], s)"
| "allocs alloc (Suc n) s =
     (let (p, s1) = alloc s; (ps, s2) = allocs alloc n s1 in (p # ps, s2))"

fun frees :: "(uint \<Rightarrow> 's \<Rightarrow> 's res) \<Rightarrow> uint list \<Rightarrow> 's \<Rightarrow> 's res" where
  "frees free [] s = Ok s"
| "frees free (p # ps) s = bindR (free p s) (frees free ps)"

context page_allocator
begin

lemma alloc_zero_iff: "rep s ps \<Longrightarrow> fst (alloc s) = 0 \<longleftrightarrow> ps = []"
proof (cases ps)
  case Nil
  assume "rep s ps"
  with Nil alloc_none show ?thesis by simp
next
  case (Cons p qs)
  assume rep: "rep s ps"
  with Cons alloc_some [of s p qs] rep_pages [OF rep] show ?thesis by auto
qed

lemma allocs_take:
  "rep s ps \<Longrightarrow> n \<le> length ps \<Longrightarrow>
     \<exists>s'. allocs alloc n s = (take n ps, s') \<and> rep s' (drop n ps)"
proof (induction n arbitrary: s ps)
  case 0
  then show ?case by simp
next
  case (Suc n)
  then obtain p qs where ps: "ps = p # qs" "n \<le> length qs" by (cases ps) auto
  with Suc.prems obtain s1 where s1: "alloc s = (p, s1)" "rep s1 qs"
    using alloc_some by blast
  with Suc.IH [OF s1(2) ps(2)] ps show ?case by auto
qed

lemma allocs_distinct:
  assumes "rep s ps" "n \<le> length ps" "allocs alloc n s = (qs, s')"
  shows "distinct qs \<and> 0 \<notin> set qs \<and> length qs = n \<and> (\<forall>q \<in> set qs. valid q) \<and>
    rep s' (drop n ps) \<and> set qs \<inter> set (drop n ps) = {}"
proof -
  have qs: "qs = take n ps" "rep s' (drop n ps)"
    using allocs_take [OF assms(1,2)] assms(3) by auto
  moreover have "distinct ps \<and> 0 \<notin> set ps \<and> (\<forall>p \<in> set ps. valid p)"
    by (rule rep_pages [OF assms(1)])
  ultimately show ?thesis
    using assms(2) set_take_disj_set_drop_if_distinct [of ps n n] by (auto dest: in_set_takeD)
qed

lemma frees_rev:
  "rep s ps \<Longrightarrow> distinct qs \<Longrightarrow> set qs \<inter> set ps = {} \<Longrightarrow> 0 \<notin> set qs \<Longrightarrow>
     \<forall>q \<in> set qs. valid q \<Longrightarrow> \<exists>s'. frees free qs s = Ok s' \<and> rep s' (rev qs @ ps)"
proof (induction qs arbitrary: s ps)
  case Nil
  then show ?case by simp
next
  case (Cons q qs)
  then obtain s1 where s1: "free q s = Ok s1" "rep s1 (q # ps)"
    using free_page [of s ps q] by auto
  with Cons.IH [OF s1(2)] Cons.prems show ?case by auto
qed

end

interpretation kalloc_pages: page_allocator kalloc "kfree kend" "kmem_rep kend" "page_ok kend"
  for kend
proof
  fix s :: "'a kmem_scheme" and ps p
  show "kmem_rep kend s ps \<Longrightarrow> distinct ps \<and> 0 \<notin> set ps \<and> (\<forall>p \<in> set ps. page_ok kend p)"
    using flist_nonzero by (auto simp: kmem_rep_def)
  show "kmem_rep kend s [] \<Longrightarrow> kalloc s = (0, s)" by (rule kalloc_Nil)
  show "kmem_rep kend s (p # ps) \<Longrightarrow> \<exists>s'. kalloc s = (p, s') \<and> kmem_rep kend s' ps"
    using kalloc_Cons by blast
  show "kmem_rep kend s ps \<Longrightarrow> page_ok kend p \<Longrightarrow> p \<noteq> 0 \<Longrightarrow> p \<notin> set ps \<Longrightarrow>
      \<exists>s'. kfree kend p s = Ok s' \<and> kmem_rep kend s' (p # ps)"
    by (rule kmem_rep_kfree)
qed

section \<open>The initial free list\<close>

lemma unat_PGROUNDUP:
  assumes "unat a \<le> 2 ^ 32 - 4096"
  shows "unat (PGROUNDUP a) = (unat a + 4095) div 4096 * 4096"
proof -
  have "unat (a + 4095) = unat a + 4095" using assms by (simp add: unat_word_ariths)
  moreover have "unat ((a + 4095) - (a + 4095) mod 4096) = unat (a + 4095) - unat (a + 4095) mod 4096"
    by (simp add: unat_uint_sub unat_mod word_le_nat_alt)
  ultimately have "unat (PGROUNDUP a) = (unat a + 4095) - (unat a + 4095) mod 4096"
    using and_not_page [of "a + 4095"] by (simp add: PGROUNDUP_def PGSIZE_def add.commute)
  then show ?thesis by (simp add: minus_mod_eq_div_mult)
qed

lemma round_up_bounds: "(n::nat) \<le> (n + 4095) div 4096 * 4096" "(n + 4095) div 4096 * 4096 < n + 4096"
proof -
  have "(n + 4095) div 4096 * 4096 + (n + 4095) mod 4096 = n + 4095" by simp
  moreover have "(n + 4095) mod 4096 < 4096" by simp
  ultimately show "n \<le> (n + 4095) div 4096 * 4096" "(n + 4095) div 4096 * 4096 < n + 4096" by linarith+
qed

lemma round_up_le: "(n::nat) \<le> m \<Longrightarrow> m mod 4096 = 0 \<Longrightarrow> (n + 4095) div 4096 * 4096 \<le> m"
proof -
  assume "n \<le> m" "m mod 4096 = 0"
  then have "(n + 4095) div 4096 * 4096 < m + 4096" using round_up_bounds(2) [of n] by linarith
  moreover obtain k where "m = 4096 * k" using \<open>m mod 4096 = 0\<close> by auto
  ultimately show ?thesis by simp
qed

text \<open>The pages from \<open>p\<close> up to the last whole one below \<open>e\<close>.\<close>

definition pages_between :: "uint \<Rightarrow> uint \<Rightarrow> uint list" where
  "pages_between p e = map (\<lambda>k. p + of_nat (4096 * k)) [0..<(unat e - unat p) div 4096]"

lemma page_ok_unat:
  assumes "KERNBASE \<le> kend"
  shows "page_ok kend v \<longleftrightarrow> unat v mod 4096 = 0 \<and> unat kend \<le> unat v \<and> unat v < 0x8E000000"
proof -
  have "V2P v < PHYSTOP \<longleftrightarrow> unat v < 0x8E000000" if "kend \<le> v"
    using that assms unfolding addr_defs by unat_arith
  moreover have "v mod PGSIZE = 0 \<longleftrightarrow> unat v mod 4096 = 0"
    by (simp add: PGSIZE_def word_unat_eq_iff unat_mod)
  ultimately show ?thesis unfolding page_ok_def by (auto simp: word_le_nat_alt)
qed

lemma pages_between_Nil: "unat e < unat p + 4096 \<Longrightarrow> pages_between p e = []"
  by (simp add: pages_between_def)

lemma pages_between_Cons:
  assumes "unat p + 4096 \<le> unat e"
  shows "pages_between p e = p # pages_between (p + PGSIZE) e"
proof -
  have up: "unat (p + PGSIZE) = unat p + 4096"
    using assms unat_uint_lt [of e] by (simp add: PGSIZE_def unat_word_ariths)
  define n where "n = (unat e - unat (p + PGSIZE)) div 4096"
  have "unat e - unat p = (unat e - unat (p + PGSIZE)) + 4096" using assms up by simp
  then have n: "(unat e - unat p) div 4096 = Suc n" unfolding n_def by simp
  have "[0..<Suc n] = 0 # map Suc [0..<n]" by (simp add: map_Suc_upt upt_conv_Cons)
  then show ?thesis unfolding pages_between_def n n_def [symmetric] by (simp add: PGSIZE_def algebra_simps)
qed

lemma freerange_loop_rep:
  assumes "KERNBASE \<le> kend" "unat vend \<le> 0x8E000000"
    and "kmem_rep kend s ps" "unat p mod 4096 = 0" "unat kend \<le> unat p" "\<forall>q \<in> set ps. unat q < unat p"
    and "unat p \<le> 0x8E000000"
  shows "\<exists>s'. freerange_loop kend vend p s = Ok s' \<and> kmem_rep kend s' (rev (pages_between p vend) @ ps)"
  using assms(3-7)
proof (induction "unat vend - unat p" arbitrary: p s ps rule: less_induct)
  case (less p s ps)
  have up: "unat (p + PGSIZE) = unat p + 4096" using less.prems(5) by (simp add: PGSIZE_def unat_word_ariths)
  then have cond: "p + PGSIZE \<le> vend \<longleftrightarrow> unat p + 4096 \<le> unat vend" by (simp add: word_le_nat_alt)
  show ?case
  proof (cases "unat p + 4096 \<le> unat vend")
    case False
    then show ?thesis
      using cond less.prems(1) pages_between_Nil [of vend p] by (subst freerange_loop.simps) simp
  next
    case True
    have ok: "page_ok kend p" using page_ok_unat [OF assms(1)] less.prems(2,3) True assms(2) by simp
    have "p \<noteq> 0" "p \<notin> set ps" using less.prems(3,4) assms(1) by (auto simp: KERNBASE_def word_le_nat_alt)
    then obtain s1 where s1: "kfree kend p s = Ok s1" "kmem_rep kend s1 (p # ps)"
      using kmem_rep_kfree [OF less.prems(1) ok] by blast
    have "unat vend - unat (p + PGSIZE) < unat vend - unat p" using True up by simp
    note IH = less.hyps [OF this s1(2)]
    have "unat (p + PGSIZE) mod 4096 = 0" "unat kend \<le> unat (p + PGSIZE)"
      "\<forall>q \<in> set (p # ps). unat q < unat (p + PGSIZE)" "unat (p + PGSIZE) \<le> 0x8E000000"
      using less.prems True assms(2) by (auto simp: up)
    from IH [OF this] obtain s' where "freerange_loop kend vend (p + PGSIZE) s1 = Ok s'"
      "kmem_rep kend s' (rev (pages_between (p + PGSIZE) vend) @ p # ps)"
      by blast
    then show ?thesis
      using cond True s1(1) pages_between_Cons [OF True] by (subst freerange_loop.simps) simp
  qed
qed

lemma set_pages_between:
  assumes "unat p mod 4096 = 0" "unat e mod 4096 = 0"
  shows "set (pages_between p e) = {v :: uint. unat v mod 4096 = 0 \<and> unat p \<le> unat v \<and> unat v < unat e}"
proof (intro set_eqI iffI)
  fix v assume "v \<in> set (pages_between p e)"
  then obtain k where k: "k < (unat e - unat p) div 4096" "v = p + of_nat (4096 * k)"
    by (auto simp: pages_between_def)
  then have "4096 * k + 4096 \<le> unat e - unat p" by (auto simp: less_eq_div_iff_mult_less_eq Suc_le_eq [symmetric])
  then have "unat v = unat p + 4096 * k" and "unat p + 4096 * k < unat e"
    using k(2) unat_uint_lt [of e] by (auto simp: unat_word_ariths unat_of_nat)
  then show "v \<in> {v :: uint. unat v mod 4096 = 0 \<and> unat p \<le> unat v \<and> unat v < unat e}" using assms(1) by simp
next
  fix v assume "v \<in> {v :: uint. unat v mod 4096 = 0 \<and> unat p \<le> unat v \<and> unat v < unat e}"
  then have v: "unat v mod 4096 = 0" "unat p \<le> unat v" "unat v < unat e" by auto
  define k where "k = (unat v - unat p) div 4096"
  have "4096 dvd unat v - unat p" using v assms(1) by (auto intro: dvd_diff_nat)
  then have k: "unat v = unat p + 4096 * k" using v(2) by (auto simp: k_def)
  have "4096 dvd unat e - unat v" using v assms(2) by (auto intro: dvd_diff_nat)
  then have "4096 \<le> unat e - unat v" using v(3) by (auto intro: dvd_imp_le)
  then have "k < (unat e - unat p) div 4096" using k by (simp add: less_eq_div_iff_mult_less_eq Suc_le_eq [symmetric])
  moreover have "v = p + of_nat (4096 * k)"
    using k unat_uint_lt [of v] by (simp add: word_unat_eq_iff unat_word_ariths unat_of_nat)
  ultimately show "v \<in> set (pages_between p e)" by (auto simp: pages_between_def)
qed

lemma split_range:
  fixes f :: "'b \<Rightarrow> nat"
  assumes "\<And>v. A v \<Longrightarrow> P \<le> f v \<longleftrightarrow> K \<le> f v" "P \<le> M" "M \<le> E"
  shows "{v. A v \<and> M \<le> f v \<and> f v < E} \<union> {v. A v \<and> P \<le> f v \<and> f v < M} = {v. A v \<and> K \<le> f v \<and> f v < E}"
  using assms by force

section \<open>Properties\<close>

text \<open>
  C10: The two calls that main makes at boot, \<^verbatim>\<open>kinit1(end, P2V(4MB))\<close> and \<^verbatim>\<open>kinit2(P2V(4MB), P2V(PHYSTOP))\<close>,
  return with a free list that holds every page between the end of the kernel and the top of physical
  memory exactly once, and no other page.
\<close>

theorem kinit_all_pages:
  assumes "KERNBASE \<le> kend" "kend \<le> 0x80400000" "freelist s = 0"
  shows "\<exists>s1 s2 ps. kinit1 kend kend (P2V (4 * 1024 * 1024)) s = Ok s1 \<and>
    kinit2 kend (P2V (4 * 1024 * 1024)) (P2V PHYSTOP) s1 = Ok s2 \<and>
    kmem_rep kend s2 ps \<and> distinct ps \<and> set ps = {v. page_ok kend v} \<and> use_lock s2"
proof -
  let ?p = "PGROUNDUP kend" and ?m = "0x80400000 :: uint" and ?e = "0x8E000000 :: uint"
  have bnd: "unat kend \<le> 0x80400000" "0x80000000 \<le> unat kend"
    using assms(1,2) by (simp_all add: word_le_nat_alt KERNBASE_def)
  have up: "unat ?p = (unat kend + 4095) div 4096 * 4096" using bnd by (intro unat_PGROUNDUP) simp
  have p: "unat ?p mod 4096 = 0" "unat kend \<le> unat ?p" "unat ?p \<le> 0x80400000" "unat ?p \<le> 0x8E000000"
    using round_up_bounds(1) [of "unat kend"] round_up_le [OF bnd(1)] unfolding up by simp_all
  have e: "unat ?m \<le> 0x8E000000" "unat ?e \<le> 0x8E000000" "unat kend \<le> unat ?m" "unat ?m \<le> 0x8E000000"
    using bnd(1) by simp_all
  have m: "PGROUNDUP ?m = ?m" "unat ?m mod 4096 = 0" "unat ?e mod 4096 = 0"
    by (simp_all add: PGROUNDUP_def PGSIZE_def)
  have rep0: "kmem_rep kend (s\<lparr>use_lock := False\<rparr>) []" using assms(3) by (simp add: kmem_rep_def)
  obtain s1 where s1: "freerange_loop kend ?m ?p (s\<lparr>use_lock := False\<rparr>) = Ok s1"
    "kmem_rep kend s1 (rev (pages_between ?p ?m))"
    using freerange_loop_rep [OF assms(1) e(1) rep0 p(1,2) _ p(4)] by auto
  have set1: "set (pages_between ?p ?m) = {v :: uint. unat v mod 4096 = 0 \<and> unat ?p \<le> unat v \<and> unat v < unat ?m}"
    by (rule set_pages_between [OF p(1) m(2)])
  have below: "\<forall>q \<in> set (rev (pages_between ?p ?m)). unat q < unat ?m" unfolding set_rev set1 by simp
  obtain s2 where s2: "freerange_loop kend ?e ?m s1 = Ok s2"
    "kmem_rep kend s2 (rev (pages_between ?m ?e) @ rev (pages_between ?p ?m))"
    using freerange_loop_rep [OF assms(1) e(2) s1(2) m(2) e(3) below e(4)] by blast
  let ?ps = "rev (pages_between ?m ?e) @ rev (pages_between ?p ?m)"
  have iff: "unat ?p \<le> unat v \<longleftrightarrow> unat kend \<le> unat v" if "unat v mod 4096 = 0" for v :: uint
    using le_trans [OF p(2)] round_up_le [OF _ that, of "unat kend"] unfolding up by blast
  have "set ?ps = {v :: uint. unat v mod 4096 = 0 \<and> unat kend \<le> unat v \<and> unat v < unat ?e}"
    unfolding set_append set_rev set1 set_pages_between [OF m(2,3)]
    by (rule split_range) (use iff p(3) in simp_all)
  then have set: "set ?ps = {v. page_ok kend v}" unfolding page_ok_unat [OF assms(1)] by simp
  have "kmem_rep kend (s2\<lparr>use_lock := True\<rparr>) ?ps" using s2(2) by (simp add: kmem_rep_def)
  moreover have "kinit1 kend kend (P2V (4 * 1024 * 1024)) s = Ok s1"
    using s1(1) by (simp add: kinit1_def freerange_def addr_defs)
  moreover have "kinit2 kend (P2V (4 * 1024 * 1024)) (P2V PHYSTOP) s1 = Ok (s2\<lparr>use_lock := True\<rparr>)"
    using s2(1) m(1) by (simp add: kinit2_def freerange_def addr_defs)
  ultimately show ?thesis using set by (intro exI conjI) (auto simp: kmem_rep_def)
qed

theorem kinit_all_pages_witness:
  "\<exists>s1 s2 ps. kinit1 0x80115000 0x80115000 (P2V (4 * 1024 * 1024)) \<lparr>mem = (\<lambda>_. 0), freelist = 0, use_lock = False\<rparr> = Ok s1 \<and>
    kinit2 0x80115000 (P2V (4 * 1024 * 1024)) (P2V PHYSTOP) s1 = Ok s2 \<and> kmem_rep 0x80115000 s2 ps \<and>
    0x80200000 \<in> set ps"
proof -
  let ?s = "\<lparr>mem = (\<lambda>_. 0), freelist = 0, use_lock = False\<rparr>"
  have "page_ok 0x80115000 0x80200000" by (simp add: page_ok_def addr_defs)
  moreover have "KERNBASE \<le> 0x80115000" "(0x80115000 :: uint) \<le> 0x80400000" "freelist ?s = 0"
    by (simp_all add: KERNBASE_def)
  note kinit_all_pages [OF this]
  ultimately show ?thesis by blast
qed

text \<open>
  C11: As long as \<open>n\<close> pages are free, \<open>n\<close> calls of \<^verbatim>\<open>kalloc\<close> return \<open>n\<close> different pages, none of them null
  and none still free; freeing them again by \<^verbatim>\<open>kfree\<close> always succeeds and gives back a free list of the
  same pages.
\<close>

theorem kalloc_kfree_pages:
  assumes "kmem_rep kend s ps" "n \<le> length ps"
  shows "\<exists>qs s1 s2. allocs kalloc n s = (qs, s1) \<and> length qs = n \<and> distinct qs \<and> 0 \<notin> set qs \<and>
    kmem_rep kend s1 (drop n ps) \<and> set qs \<inter> set (drop n ps) = {} \<and>
    frees (kfree kend) qs s1 = Ok s2 \<and> kmem_rep kend s2 (rev qs @ drop n ps) \<and>
    set (rev qs @ drop n ps) = set ps"
proof -
  obtain qs s1 where q: "allocs kalloc n s = (qs, s1)" by fastforce
  note A = kalloc_pages.allocs_distinct [OF assms q]
  then obtain s2 where s2: "frees (kfree kend) qs s1 = Ok s2" "kmem_rep kend s2 (rev qs @ drop n ps)"
    using kalloc_pages.frees_rev [of kend s1 "drop n ps" qs] by blast
  have "qs = take n ps" using kalloc_pages.allocs_take [OF assms] q by auto
  then have "set (rev qs @ drop n ps) = set ps" by (metis append_take_drop_id set_append set_rev)
  then show ?thesis using q A s2 by (intro exI conjI) auto
qed

theorem kalloc_kfree_pages_witness:
  "\<exists>qs s1. allocs kalloc 1 \<lparr>mem = (\<lambda>_. 0), freelist = 0x80400000, use_lock = True\<rparr> = (qs, s1) \<and>
    length qs = 1 \<and> 0 \<notin> set qs"
proof -
  have "kmem_rep 0x80115000 \<lparr>mem = (\<lambda>_. 0), freelist = 0x80400000, use_lock = True\<rparr> [0x80400000]"
    by (simp add: kmem_rep_def page_ok_def addr_defs load32_def)
  from kalloc_kfree_pages [OF this, of 1] show ?thesis by (auto simp del: allocs.simps)
qed

end
