(* ===== verification/Mlfq_Queue.thy ===== *)
theory Mlfq_Queue
  imports Kalloc
begin

text \<open>
  The five run queues of the multi-level feedback scheduler: the arrays
  \<^verbatim>\<open>qu[5][NPROC]\<close> and \<^verbatim>\<open>q_index[5]\<close> of \<^verbatim>\<open>proc.c\<close> and the three loops that
  the code repeats wherever it touches them (search a queue for a pid, append a process,
  close the gap that a removed process leaves). An index outside an array is undefined
  behaviour. The contract of the component says that the arrays implement lists.
\<close>

definition NQUEUE :: nat where [param_defs]: "NQUEUE = 5"

record mlfq = kmem +
  qu :: "nat option list list"   \<comment> \<open>pointers into the process table\<close>
  q_index :: "int list"          \<comment> \<open>index of the last entry, -1 when empty\<close>

section \<open>The loops over a queue\<close>

text \<open>
  \<^verbatim>\<open>for(i=0;i<=q_index[c];i++) if(qu[c][i]->pid==pid) { ind=i; alread=1; break; }\<close>;
  \<open>pidof\<close> reads \<^verbatim>\<open>p->pid\<close>.
\<close>

fun q_search :: "(nat \<Rightarrow> int res) \<Rightarrow> nat option list \<Rightarrow> int \<Rightarrow> nat \<Rightarrow> nat \<Rightarrow> nat option res" where
  "q_search pidof row pid i 0 = Ok None"
| "q_search pidof row pid i (Suc n) =
     bindR (nthR row i) (\<lambda>e. bindR (derefR e) (\<lambda>x. bindR (pidof x) (\<lambda>y.
     if y = pid then Ok (Some i) else q_search pidof row pid (Suc i) n)))"

definition q_len :: "'a mlfq_scheme \<Rightarrow> nat \<Rightarrow> nat" where
  "q_len s c = nat (q_index s ! c + 1)"

definition q_find :: "(nat \<Rightarrow> int res) \<Rightarrow> nat \<Rightarrow> int \<Rightarrow> 'a mlfq_scheme \<Rightarrow> nat option res" where
  "q_find pidof c pid s =
     bindR (nthR (q_index s) c) (\<lambda>k. bindR (nthR (qu s) c) (\<lambda>row.
     q_search pidof row pid 0 (nat (k + 1))))"

text \<open>\<^verbatim>\<open>qu[c][q_index[c]+1]=p; q_index[c]++;\<close>\<close>

definition q_append :: "nat \<Rightarrow> nat \<Rightarrow> 'a mlfq_scheme \<Rightarrow> 'a mlfq_scheme res" where
  "q_append c p s =
     bindR (nthR (q_index s) c) (\<lambda>k. bindR (nthR (qu s) c) (\<lambda>row.
     if 0 \<le> k + 1 \<and> nat (k + 1) < length row
     then Ok (s\<lparr>qu := (qu s)[c := row[nat (k + 1) := Some p]],
                q_index := (q_index s)[c := k + 1]\<rparr>)
     else Undef))"

text \<open>\<^verbatim>\<open>for(ii=ind;ii<q_index[c];ii++) qu[c][ii] = qu[c][ii+1]; q_index[c]--;\<close>\<close>

fun q_shift :: "nat option list \<Rightarrow> nat \<Rightarrow> nat \<Rightarrow> nat option list res" where
  "q_shift row i 0 = Ok row"
| "q_shift row i (Suc n) =
     bindR (nthR row (Suc i)) (\<lambda>e. q_shift (row[i := e]) (Suc i) n)"

definition q_delete_at :: "nat \<Rightarrow> nat \<Rightarrow> 'a mlfq_scheme \<Rightarrow> 'a mlfq_scheme res" where
  "q_delete_at c ind s =
     bindR (nthR (q_index s) c) (\<lambda>k. bindR (nthR (qu s) c) (\<lambda>row.
     bindR (q_shift row ind (nat (k - int ind))) (\<lambda>row'.
     Ok (s\<lparr>qu := (qu s)[c := row'], q_index := (q_index s)[c := k - 1]\<rparr>))))"

section \<open>The queues as lists\<close>

definition qlist :: "'a mlfq_scheme \<Rightarrow> nat \<Rightarrow> nat list" where
  "qlist s c = map the (take (q_len s c) (qu s ! c))"

definition wf_queues :: "'a mlfq_scheme \<Rightarrow> bool" where
  "wf_queues s \<longleftrightarrow> length (qu s) = NQUEUE \<and> length (q_index s) = NQUEUE \<and>
     (\<forall>c < NQUEUE. length (qu s ! c) = NPROC \<and> -1 \<le> q_index s ! c \<and> q_index s ! c < int NPROC \<and>
        (\<forall>e \<in> set (take (q_len s c) (qu s ! c)). \<exists>p < NPROC. e = Some p))"

lemma wf_queuesD:
  assumes "wf_queues s" "c < NQUEUE"
  shows "c < length (qu s)" "c < length (q_index s)" "length (qu s ! c) = NPROC"
    "q_len s c \<le> NPROC" "q_index s ! c = int (q_len s c) - 1"
  using assms by (auto simp: wf_queues_def q_len_def)

lemma length_qlist: "wf_queues s \<Longrightarrow> c < NQUEUE \<Longrightarrow> length (qlist s c) = q_len s c"
  using wf_queuesD [of s c] by (simp add: qlist_def)

lemma qu_nth:
  assumes "wf_queues s" "c < NQUEUE" "i < q_len s c"
  shows "qu s ! c ! i = Some (qlist s c ! i)" and "qlist s c ! i < NPROC"
proof -
  have "i < length (take (q_len s c) (qu s ! c))" using assms wf_queuesD [OF assms(1,2)] by simp
  then have "take (q_len s c) (qu s ! c) ! i \<in> set (take (q_len s c) (qu s ! c))"
    by (rule nth_mem)
  then obtain p where p: "p < NPROC" "qu s ! c ! i = Some p"
    using assms by (auto simp: wf_queues_def)
  moreover have "qlist s c ! i = p"
    using p assms wf_queuesD [OF assms(1,2)] by (simp add: qlist_def)
  ultimately show "qu s ! c ! i = Some (qlist s c ! i)" "qlist s c ! i < NPROC" by simp_all
qed

lemma qlist_bounded: "wf_queues s \<Longrightarrow> c < NQUEUE \<Longrightarrow> x \<in> set (qlist s c) \<Longrightarrow> x < NPROC"
  by (metis in_set_conv_nth length_qlist qu_nth(2))

lemma q_search_eq:
  assumes "\<And>j. i \<le> j \<Longrightarrow> j < i + n \<Longrightarrow> j < length row \<and> row ! j = Some (xs ! (j - i)) \<and>
      pidof (xs ! (j - i)) = Ok (f (xs ! (j - i)))"
    and "length xs = n"
  shows "q_search pidof row pid i n = Ok (find_index_from i (\<lambda>x. f x = pid) xs)"
  using assms
proof (induction n arbitrary: i xs)
  case 0
  then show ?case by simp
next
  case (Suc n)
  then obtain x ys where xs: "xs = x # ys" "length ys = n" by (cases xs) auto
  have here: "i < length row" "row ! i = Some x" "pidof x = Ok (f x)"
    using Suc.prems(1) [of i] xs by auto
  have "q_search pidof row pid (Suc i) n = Ok (find_index_from (Suc i) (\<lambda>x. f x = pid) ys)"
  proof (rule Suc.IH [OF _ xs(2)])
    fix j assume "Suc i \<le> j" "j < Suc i + n"
    then have "j - i = Suc (j - Suc i)" "i \<le> j" "j < i + Suc n" by auto
    then show "j < length row \<and> row ! j = Some (ys ! (j - Suc i)) \<and>
      pidof (ys ! (j - Suc i)) = Ok (f (ys ! (j - Suc i)))"
      using Suc.prems(1) [of j] xs by simp
  qed
  then show ?case using here xs by simp
qed

lemma q_find_eq:
  assumes "wf_queues s" "c < NQUEUE" "\<And>x. x \<in> set (qlist s c) \<Longrightarrow> pidof x = Ok (f x)"
  shows "q_find pidof c pid s = Ok (find_index (\<lambda>x. f x = pid) (qlist s c))"
proof -
  note wf = wf_queuesD [OF assms(1,2)]
  have "q_search pidof (qu s ! c) pid 0 (q_len s c) =
      Ok (find_index_from 0 (\<lambda>x. f x = pid) (qlist s c))"
  proof (rule q_search_eq)
    fix j assume "j < 0 + q_len s c"
    then have j: "j < q_len s c" by simp
    then have "qlist s c ! j \<in> set (qlist s c)" using length_qlist [OF assms(1,2)] by simp
    with j qu_nth [OF assms(1,2) j] wf assms(3)
    show "j < length (qu s ! c) \<and> qu s ! c ! j = Some (qlist s c ! (j - 0)) \<and>
        pidof (qlist s c ! (j - 0)) = Ok (f (qlist s c ! (j - 0)))" by simp
  qed (rule length_qlist [OF assms(1,2)])
  then show ?thesis using wf by (simp add: q_find_def find_index_def)
qed

text \<open>What an operation on queue \<open>c\<close> leaves alone.\<close>

definition only_queues :: "'a mlfq_scheme \<Rightarrow> 'a mlfq_scheme \<Rightarrow> bool" where
  "only_queues s s' \<longleftrightarrow> s' = s\<lparr>qu := qu s', q_index := q_index s'\<rparr>"

lemma row_update:
  assumes wf: "wf_queues s" "c < NQUEUE"
    and s': "s' = s\<lparr>qu := (qu s)[c := row], q_index := (q_index s)[c := int n - 1]\<rparr>"
    and row: "length row = NPROC" "n \<le> NPROC" "\<forall>e \<in> set (take n row). \<exists>p < NPROC. e = Some p"
  shows "wf_queues s'" and "qlist s' c = map the (take n row)"
    and "\<And>d. d \<noteq> c \<Longrightarrow> qlist s' d = qlist s d" and "only_queues s s'"
proof -
  note D = wf_queuesD [OF wf]
  have len: "q_len s' d = (if d = c then n else q_len s d)" for d
    using D(2) s' by (simp add: q_len_def nth_list_update)
  have qu: "qu s' ! d = (if d = c then row else qu s ! d)" for d
    using D s' by (simp add: nth_list_update)
  have ix: "q_index s' ! d = (if d = c then int n - 1 else q_index s ! d)" for d
    using D s' by (simp add: nth_list_update)
  show "wf_queues s'"
    unfolding wf_queues_def len qu ix using wf(1) row s' by (auto simp: wf_queues_def)
  show "qlist s' c = map the (take n row)" by (simp add: qlist_def len qu)
  show "qlist s' d = qlist s d" if "d \<noteq> c" for d using that by (simp add: qlist_def len qu)
  show "only_queues s s'" unfolding only_queues_def by (simp add: s')
qed

lemma q_append_ok:
  assumes "wf_queues s" "c < NQUEUE" "length (qlist s c) < NPROC" "p < NPROC"
  shows "\<exists>s'. q_append c p s = Ok s' \<and> wf_queues s' \<and> only_queues s s' \<and>
     qlist s' = (qlist s)(c := qlist s c @ [p])"
proof -
  note D = wf_queuesD [OF assms(1,2)]
  let ?n = "q_len s c" and ?row = "(qu s ! c)[q_len s c := Some p]"
  have n: "?n < NPROC" using assms(3) length_qlist [OF assms(1,2)] by simp
  have tk: "take (Suc ?n) ?row = take ?n (qu s ! c) @ [Some p]"
    using n D(3) by (simp add: take_Suc_conv_app_nth)
  let ?s' = "s\<lparr>qu := (qu s)[c := ?row], q_index := (q_index s)[c := int (Suc ?n) - 1]\<rparr>"
  have "q_append c p s = Ok ?s'"
    using D n by (simp add: q_append_def)
  moreover have "\<forall>e \<in> set (take (Suc ?n) ?row). \<exists>p < NPROC. e = Some p"
    using assms(1,2,4) by (auto simp: tk wf_queues_def)
  then have "wf_queues ?s'" "qlist ?s' c = map the (take (Suc ?n) ?row)"
      "\<And>d. d \<noteq> c \<Longrightarrow> qlist ?s' d = qlist s d" "only_queues s ?s'"
    using row_update [OF assms(1,2) refl, of ?row "Suc ?n"] D n by auto
  ultimately show ?thesis by (auto simp: tk qlist_def fun_eq_iff)
qed

lemma q_shift_eq:
  assumes "i + n < length row"
  shows "\<exists>row'. q_shift row i n = Ok row' \<and> length row' = length row \<and>
    take (i + n) row' = take i row @ take n (drop (Suc i) row)"
  using assms
proof (induction n arbitrary: row i)
  case 0
  then show ?case by simp
next
  case (Suc n)
  let ?r = "row[i := row ! Suc i]"
  have "Suc i + n < length ?r" using Suc.prems by simp
  from Suc.IH [OF this] obtain row' where row': "q_shift ?r (Suc i) n = Ok row'"
    "length row' = length row" "take (Suc i + n) row' = take (Suc i) ?r @ take n (drop (Suc (Suc i)) ?r)"
    by auto
  have "take (Suc i) ?r = take i row @ [row ! Suc i]"
    using Suc.prems by (simp add: take_Suc_conv_app_nth)
  moreover have "drop (Suc i) row = row ! Suc i # drop (Suc (Suc i)) row"
    using Suc.prems by (intro Cons_nth_drop_Suc [symmetric]) simp
  ultimately show ?case using row' Suc.prems by auto
qed

lemma q_delete_at_ok:
  assumes "wf_queues s" "c < NQUEUE" "ind < length (qlist s c)"
  shows "\<exists>s'. q_delete_at c ind s = Ok s' \<and> wf_queues s' \<and> only_queues s s' \<and>
     qlist s' = (qlist s)(c := take ind (qlist s c) @ drop (Suc ind) (qlist s c))"
proof -
  note D = wf_queuesD [OF assms(1,2)]
  let ?row = "qu s ! c"
  obtain n where n: "q_len s c = Suc n" and ind: "ind \<le> n"
    using assms(3) length_qlist [OF assms(1,2)] by (cases "q_len s c") auto
  then have "ind + (n - ind) < length ?row" using D by simp
  from q_shift_eq [OF this] ind obtain row' where row': "q_shift ?row ind (n - ind) = Ok row'"
    "length row' = NPROC" "take n row' = take ind ?row @ take (n - ind) (drop (Suc ind) ?row)"
    using D by auto
  let ?s' = "s\<lparr>qu := (qu s)[c := row'], q_index := (q_index s)[c := int n - 1]\<rparr>"
  have "nat (q_index s ! c - int ind) = n - ind" "q_index s ! c = int n"
    using D(5) n ind by auto
  then have "q_delete_at c ind s = Ok ?s'"
    using D(1,2) row'(1) by (simp add: q_delete_at_def)
  moreover have tk: "take n row' =
      take ind (take (Suc n) ?row) @ drop (Suc ind) (take (Suc n) ?row)"
    using row'(3) ind by (simp add: min_def drop_take)
  have "set (take n row') \<subseteq> set (take (q_len s c) ?row)"
    unfolding tk n set_append using set_take_subset set_drop_subset by (intro Un_least)
  then have "\<forall>e \<in> set (take n row'). \<exists>p < NPROC. e = Some p"
    using assms(1,2) unfolding wf_queues_def by blast
  then have "wf_queues ?s'" "qlist ?s' c = map the (take n row')"
      "\<And>d. d \<noteq> c \<Longrightarrow> qlist ?s' d = qlist s d" "only_queues s ?s'"
    using row_update [OF assms(1,2) refl row'(2), of n] D(4) n by auto
  moreover have "map the (take n row') = take ind (qlist s c) @ drop (Suc ind) (qlist s c)"
    unfolding tk qlist_def n by (simp only: map_append take_map drop_map)
  ultimately show ?thesis by (intro exI [of _ ?s'] conjI ext) simp_all
qed

section \<open>The contract of the run queues\<close>

text \<open>
  The scheduler uses the queues through four laws: a search by pid finds the first
  position that holds it, an append adds at the tail, a deletion closes the gap, and
  entries stay within the process table. \<open>upd\<close> is what an operation may change.
\<close>

locale run_queues =
  fixes wf :: "'s \<Rightarrow> bool"
    and contents :: "'s \<Rightarrow> nat \<Rightarrow> nat list"
    and find :: "(nat \<Rightarrow> int res) \<Rightarrow> nat \<Rightarrow> int \<Rightarrow> 's \<Rightarrow> nat option res"
    and append :: "nat \<Rightarrow> nat \<Rightarrow> 's \<Rightarrow> 's res"
    and delete_at :: "nat \<Rightarrow> nat \<Rightarrow> 's \<Rightarrow> 's res"
    and upd :: "'s \<Rightarrow> 's \<Rightarrow> bool"
  assumes bounded: "wf s \<Longrightarrow> c < NQUEUE \<Longrightarrow> x \<in> set (contents s c) \<Longrightarrow> x < NPROC"
    and find_law: "wf s \<Longrightarrow> c < NQUEUE \<Longrightarrow> (\<And>x. x \<in> set (contents s c) \<Longrightarrow> pidof x = Ok (f x)) \<Longrightarrow>
      find pidof c pid s = Ok (find_index (\<lambda>x. f x = pid) (contents s c))"
    and append_law: "wf s \<Longrightarrow> c < NQUEUE \<Longrightarrow> length (contents s c) < NPROC \<Longrightarrow> p < NPROC \<Longrightarrow>
      \<exists>s'. append c p s = Ok s' \<and> wf s' \<and> upd s s' \<and>
        contents s' = (contents s)(c := contents s c @ [p])"
    and delete_law: "wf s \<Longrightarrow> c < NQUEUE \<Longrightarrow> ind < length (contents s c) \<Longrightarrow>
      \<exists>s'. delete_at c ind s = Ok s' \<and> wf s' \<and> upd s s' \<and>
        contents s' = (contents s)(c := take ind (contents s c) @ drop (Suc ind) (contents s c))"
begin

text \<open>A queue without repetition has room for a process that is not in it.\<close>

lemma room:
  assumes "wf s" "c < NQUEUE" "distinct (contents s c)" "p < NPROC" "p \<notin> set (contents s c)"
  shows "length (contents s c) < NPROC"
proof -
  have "set (contents s c) \<subseteq> {..<NPROC} - {p}" using assms bounded by auto
  then have "card (set (contents s c)) \<le> card ({..<NPROC} - {p})" by (intro card_mono) auto
  also have "\<dots> < NPROC" using assms(4) by simp
  finally show ?thesis using assms(3) by (simp add: distinct_card)
qed

lemma append_fresh:
  assumes "wf s" "c < NQUEUE" "distinct (contents s c)" "p < NPROC" "p \<notin> set (contents s c)"
  shows "\<exists>s'. append c p s = Ok s' \<and> wf s' \<and> upd s s' \<and>
    contents s' = (contents s)(c := contents s c @ [p]) \<and> distinct (contents s' c)"
  using append_law [OF assms(1,2) room [OF assms] assms(4)] assms(3,5) by auto

lemma remove1_at:
  "distinct xs \<Longrightarrow> i < length xs \<Longrightarrow> take i xs @ drop (Suc i) xs = remove1 (xs ! i) xs"
proof (induction xs arbitrary: i)
  case Nil
  then show ?case by simp
next
  case (Cons x xs)
  then show ?case by (cases i) auto
qed

lemma delete_found:
  assumes "wf s" "c < NQUEUE" "distinct (contents s c)" "p \<in> set (contents s c)"
    and "\<And>x. x \<in> set (contents s c) \<Longrightarrow> pidof x = Ok (f x)"
    and "\<And>x. x \<in> set (contents s c) \<Longrightarrow> f x = f p \<Longrightarrow> x = p"
  shows "\<exists>i s'. find pidof c (f p) s = Ok (Some i) \<and> delete_at c i s = Ok s' \<and> wf s' \<and> upd s s' \<and>
    contents s' = (contents s)(c := remove1 p (contents s c))"
proof -
  let ?xs = "contents s c"
  obtain i where i: "find_index (\<lambda>x. f x = f p) ?xs = Some i"
    using find_index_Some_ex [of p ?xs "\<lambda>x. f x = f p"] assms(4) by auto
  note iD = find_index_SomeD [OF i]
  have "?xs ! i = p" using iD assms(6) nth_mem by blast
  then have "take i ?xs @ drop (Suc i) ?xs = remove1 p ?xs"
    using remove1_at [OF assms(3) iD(1)] by simp
  moreover have "find pidof c (f p) s = Ok (Some i)"
    using find_law [OF assms(1,2,5), where pid = "f p"] i by simp
  ultimately show ?thesis using delete_law [OF assms(1,2) iD(1)] by auto
qed

end

interpretation mlfq_q: run_queues wf_queues qlist q_find q_append q_delete_at only_queues
proof
  fix s :: "'a mlfq_scheme" and c x p ind pid :: nat
  show "wf_queues s \<Longrightarrow> c < NQUEUE \<Longrightarrow> x \<in> set (qlist s c) \<Longrightarrow> x < NPROC"
    by (rule qlist_bounded)
next
  fix s :: "'a mlfq_scheme" and c and pidof :: "nat \<Rightarrow> int res" and f pid
  assume "wf_queues s" "c < NQUEUE" "\<And>x. x \<in> set (qlist s c) \<Longrightarrow> pidof x = Ok (f x)"
  then show "q_find pidof c pid s = Ok (find_index (\<lambda>x. f x = pid) (qlist s c))"
    by (rule q_find_eq)
next
  fix s :: "'a mlfq_scheme" and c p
  assume "wf_queues s" "c < NQUEUE" "length (qlist s c) < NPROC" "p < NPROC"
  then show "\<exists>s'. q_append c p s = Ok s' \<and> wf_queues s' \<and> only_queues s s' \<and>
      qlist s' = (qlist s)(c := qlist s c @ [p])" by (rule q_append_ok)
next
  fix s :: "'a mlfq_scheme" and c ind
  assume "wf_queues s" "c < NQUEUE" "ind < length (qlist s c)"
  then show "\<exists>s'. q_delete_at c ind s = Ok s' \<and> wf_queues s' \<and> only_queues s s' \<and>
      qlist s' = (qlist s)(c := take ind (qlist s c) @ drop (Suc ind) (qlist s c))"
    by (rule q_delete_at_ok)
qed

end
