(* ===== verification/Vm.thy ===== *)
theory Vm
  imports Kalloc
begin

text \<open>
  Page tables (\<^verbatim>\<open>vm.c\<close>) over the byte memory of the page allocator: the walk of a
  two-level table, mapping, the kernel part of every address space, growing, shrinking,
  copying and freeing user memory, and the access to user memory through a page table.
  A pointer into a page table is its kernel virtual address, a null pointer is 0.

  The loops of \<^verbatim>\<open>vm.c\<close> advance an unsigned address by a page. Where the address could
  wrap around, the loop would run on from address 0; the definitions return
  \<^term>\<open>Undef\<close> there, and the lemmas show that the callers stay clear of it.
\<close>

section \<open>Page table entries\<close>

definition PDX :: "uint \<Rightarrow> uint" where "PDX va = drop_bit 22 va AND 0x3FF"
definition PTX :: "uint \<Rightarrow> uint" where "PTX va = drop_bit 12 va AND 0x3FF"
definition PGADDR :: "uint \<Rightarrow> uint \<Rightarrow> uint \<Rightarrow> uint" where
  "PGADDR d t off = push_bit 22 d OR push_bit 12 t OR off"
definition NPDENTRIES :: nat where "NPDENTRIES = 1024"
definition PTE_P :: uint where "PTE_P = 0x001"
definition PTE_W :: uint where "PTE_W = 0x002"
definition PTE_U :: uint where "PTE_U = 0x004"
definition PTE_ADDR :: "uint \<Rightarrow> uint" where "PTE_ADDR pte = pte AND NOT 0xFFF"
definition PTE_FLAGS :: "uint \<Rightarrow> uint" where "PTE_FLAGS pte = pte AND 0xFFF"
definition KERNLINK :: uint where "KERNLINK = KERNBASE + EXTMEM"

lemmas pte_defs = PTE_P_def PTE_W_def PTE_U_def PTE_ADDR_def PTE_FLAGS_def

section \<open>Walking and mapping\<close>

definition walkpgdir :: "uint \<Rightarrow> uint \<Rightarrow> bool \<Rightarrow> 'a kmem_scheme \<Rightarrow> uint \<times> 'a kmem_scheme" where
  "walkpgdir pgdir va alloc s =
     (let pde = pgdir + 4 * PDX va;
          e = load32 (mem s) pde
      in if e AND PTE_P \<noteq> 0 then (P2V (PTE_ADDR e) + 4 * PTX va, s)
         else if \<not> alloc then (0, s)
         else let (pgtab, s1) = kalloc s
              in if pgtab = 0 then (0, s1)
                 else let m1 = memset (mem s1) pgtab 0 PGSIZE;
                          m2 = store32 m1 pde (V2P pgtab OR PTE_P OR PTE_W OR PTE_U)
                      in (pgtab + 4 * PTX va, s1\<lparr>mem := m2\<rparr>))"

text \<open>
  The loop of \<^verbatim>\<open>mappages\<close>. Both ends are page aligned, so the distance to the last page is a
  multiple of the page size and the loop meets it.
\<close>

lemma unat_step_down:
  fixes a l :: uint
  assumes "a \<noteq> l" "(l - a) mod PGSIZE = 0"
  shows "unat (l - (a + PGSIZE)) < unat (l - a)"
proof -
  have "l - a \<noteq> 0" using assms(1) by simp
  moreover have "unat (l - a) mod 4096 = 0"
    using assms(2) by (simp add: PGSIZE_def word_unat_eq_iff unat_mod)
  ultimately have "4096 \<le> unat (l - a)"
    by (metis dvd_imp_le mod_0_imp_dvd unat_eq_zero zero_less_iff_neq_zero neq0_conv)
  then have "PGSIZE \<le> l - a" by (simp add: PGSIZE_def word_le_nat_alt)
  then have "unat (l - a - PGSIZE) = unat (l - a) - 4096"
    using unat_uint_sub [of PGSIZE "l - a"] by (simp add: PGSIZE_def)
  then show ?thesis using \<open>4096 \<le> unat (l - a)\<close> by (simp add: diff_diff_eq)
qed

function mappages_loop ::
  "uint \<Rightarrow> uint \<Rightarrow> uint \<Rightarrow> uint \<Rightarrow> uint \<Rightarrow> 'a kmem_scheme \<Rightarrow> (int \<times> 'a kmem_scheme) res" where
  "mappages_loop pgdir a lst pa perm s =
     (let (pte, s1) = walkpgdir pgdir a True s in
      if pte = 0 then Ok (-1, s1)
      else if load32 (mem s1) pte AND PTE_P \<noteq> 0 then Panic ''remap''
      else let s2 = s1\<lparr>mem := store32 (mem s1) pte (pa OR perm OR PTE_P)\<rparr> in
           if a = lst then Ok (0, s2)
           else if (lst - a) mod PGSIZE = 0
                then mappages_loop pgdir (a + PGSIZE) lst (pa + PGSIZE) perm s2
                else Undef)"
  by pat_completeness auto
termination
  by (relation "measure (\<lambda>(pgdir, a, lst, pa, perm, s). unat (lst - a))") (simp_all add: unat_step_down)

declare mappages_loop.simps [simp del]

definition mappages ::
  "uint \<Rightarrow> uint \<Rightarrow> uint \<Rightarrow> uint \<Rightarrow> uint \<Rightarrow> 'a kmem_scheme \<Rightarrow> (int \<times> 'a kmem_scheme) res" where
  "mappages pgdir va sz pa perm s =
     mappages_loop pgdir (PGROUNDDOWN va) (PGROUNDDOWN (va + sz - 1)) pa perm s"

section \<open>Shrinking and freeing\<close>

function deallocuvm_loop ::
  "uint \<Rightarrow> uint \<Rightarrow> uint \<Rightarrow> uint \<Rightarrow> 'a kmem_scheme \<Rightarrow> 'a kmem_scheme res" where
  "deallocuvm_loop kend pgdir a oldsz s =
     (if \<not> a < oldsz then Ok s
      else let (pte, s1) = walkpgdir pgdir a False s in
           if pte = 0
           then (let a1 = PGADDR (PDX a + 1) 0 0 - PGSIZE + PGSIZE in
                 if a < a1 then deallocuvm_loop kend pgdir a1 oldsz s1 else Undef)
           else bindR (if load32 (mem s1) pte AND PTE_P \<noteq> 0
                       then let pa = PTE_ADDR (load32 (mem s1) pte) in
                            if pa = 0 then Panic ''kfree''
                            else bindR (kfree kend (P2V pa) s1) (\<lambda>s2.
                                 Ok (s2\<lparr>mem := store32 (mem s2) pte 0\<rparr>))
                       else Ok s1)
                (\<lambda>s3. if a < a + PGSIZE then deallocuvm_loop kend pgdir (a + PGSIZE) oldsz s3 else Undef))"
  by pat_completeness auto
termination
proof (relation "measure (\<lambda>(kend, pgdir, a, oldsz, s). 2 ^ 32 - unat a)", simp)
  fix kend pgdir a oldsz a1 :: uint and s s3 :: "'a kmem_scheme"
  have "2 ^ 32 - unat b < 2 ^ 32 - unat a" if "a < b" for b
    using that unat_uint_lt [of a] by (simp add: word_less_nat_alt diff_less_mono2)
  note * = this
  show "a < a1 \<Longrightarrow> ((kend, pgdir, a1, oldsz, s3), kend, pgdir, a, oldsz, s)
      \<in> measure (\<lambda>(kend, pgdir, a, oldsz, s). 2 ^ 32 - unat a)" using * by simp
  show "a < a + PGSIZE \<Longrightarrow> ((kend, pgdir, a + PGSIZE, oldsz, s3), kend, pgdir, a, oldsz, s)
      \<in> measure (\<lambda>(kend, pgdir, a, oldsz, s). 2 ^ 32 - unat a)" using * by simp
qed

declare deallocuvm_loop.simps [simp del]

definition deallocuvm ::
  "uint \<Rightarrow> uint \<Rightarrow> uint \<Rightarrow> uint \<Rightarrow> 'a kmem_scheme \<Rightarrow> (uint \<times> 'a kmem_scheme) res" where
  "deallocuvm kend pgdir oldsz newsz s =
     (if newsz \<ge> oldsz then Ok (oldsz, s)
      else bindR (deallocuvm_loop kend pgdir (PGROUNDUP newsz) oldsz s) (\<lambda>s1. Ok (newsz, s1)))"

text \<open>The second loop of \<^verbatim>\<open>freevm\<close>: entry \<open>i\<close> and the \<open>n\<close> after it.\<close>

fun free_tables :: "uint \<Rightarrow> uint \<Rightarrow> nat \<Rightarrow> nat \<Rightarrow> 'a kmem_scheme \<Rightarrow> 'a kmem_scheme res" where
  "free_tables kend pgdir i 0 s = Ok s"
| "free_tables kend pgdir i (Suc n) s =
     (let e = load32 (mem s) (pgdir + 4 * of_nat i) in
      bindR (if e AND PTE_P \<noteq> 0 then kfree kend (P2V (PTE_ADDR e)) s else Ok s)
        (free_tables kend pgdir (Suc i) n))"

definition freevm :: "uint \<Rightarrow> uint \<Rightarrow> 'a kmem_scheme \<Rightarrow> 'a kmem_scheme res" where
  "freevm kend pgdir s =
     (if pgdir = 0 then Panic ''freevm: no pgdir''
      else bindR (deallocuvm kend pgdir KERNBASE 0 s) (\<lambda>(r, s1).
           bindR (free_tables kend pgdir 0 NPDENTRIES s1) (\<lambda>s2.
           kfree kend pgdir s2)))"

section \<open>The kernel part of an address space\<close>

record kmap_entry =
  km_virt :: uint
  km_phys_start :: uint
  km_phys_end :: uint
  km_perm :: uint

text \<open>\<open>kdata\<close> is the linker symbol \<^verbatim>\<open>data\<close>.\<close>

definition kmap :: "uint \<Rightarrow> kmap_entry list" where
  "kmap kdata =
     [\<lparr>km_virt = KERNBASE, km_phys_start = 0, km_phys_end = EXTMEM, km_perm = PTE_W\<rparr>,
      \<lparr>km_virt = KERNLINK, km_phys_start = V2P KERNLINK, km_phys_end = V2P kdata, km_perm = 0\<rparr>,
      \<lparr>km_virt = kdata, km_phys_start = V2P kdata, km_phys_end = PHYSTOP, km_perm = PTE_W\<rparr>,
      \<lparr>km_virt = DEVSPACE, km_phys_start = DEVSPACE, km_phys_end = 0, km_perm = PTE_W\<rparr>]"

fun setupkvm_loop ::
  "uint \<Rightarrow> uint \<Rightarrow> kmap_entry list \<Rightarrow> 'a kmem_scheme \<Rightarrow> (uint \<times> 'a kmem_scheme) res" where
  "setupkvm_loop kend pgdir [] s = Ok (pgdir, s)"
| "setupkvm_loop kend pgdir (k # ks) s =
     bindR (mappages pgdir (km_virt k) (km_phys_end k - km_phys_start k) (km_phys_start k) (km_perm k) s)
       (\<lambda>(r, s1). if r < 0 then bindR (freevm kend pgdir s1) (\<lambda>s2. Ok (0, s2))
                  else setupkvm_loop kend pgdir ks s1)"

definition setupkvm :: "uint \<Rightarrow> uint \<Rightarrow> 'a kmem_scheme \<Rightarrow> (uint \<times> 'a kmem_scheme) res" where
  "setupkvm kend kdata s =
     (let (pgdir, s1) = kalloc s in
      if pgdir = 0 then Ok (0, s1)
      else let s2 = s1\<lparr>mem := memset (mem s1) pgdir 0 PGSIZE\<rparr> in
           if P2V PHYSTOP > DEVSPACE then Panic ''PHYSTOP too high''
           else setupkvm_loop kend pgdir (kmap kdata) s2)"

section \<open>User memory\<close>

text \<open>\<^verbatim>\<open>inituvm\<close> does not check the result of \<^verbatim>\<open>kalloc\<close>.\<close>

definition inituvm :: "uint \<Rightarrow> uint \<Rightarrow> uint \<Rightarrow> 'a kmem_scheme \<Rightarrow> 'a kmem_scheme res" where
  "inituvm pgdir init sz s =
     (if sz \<ge> PGSIZE then Panic ''inituvm: more than a page''
      else let (pg, s1) = kalloc s in
           if pg = 0 then Undef
           else let s2 = s1\<lparr>mem := memset (mem s1) pg 0 PGSIZE\<rparr> in
                bindR (mappages pgdir 0 PGSIZE (V2P pg) (PTE_W OR PTE_U) s2) (\<lambda>(r, s3).
                Ok (s3\<lparr>mem := memmove (mem s3) pg init sz\<rparr>)))"

text \<open>\<open>readi dst off n\<close> reads from the inode being loaded.\<close>

function loaduvm_loop ::
  "(uint \<Rightarrow> uint \<Rightarrow> uint \<Rightarrow> 'a kmem_scheme \<Rightarrow> (int \<times> 'a kmem_scheme) res) \<Rightarrow>
   uint \<Rightarrow> uint \<Rightarrow> uint \<Rightarrow> uint \<Rightarrow> uint \<Rightarrow> 'a kmem_scheme \<Rightarrow> (int \<times> 'a kmem_scheme) res" where
  "loaduvm_loop readi pgdir addr offset i sz s =
     (if \<not> i < sz then Ok (0, s)
      else let (pte, s1) = walkpgdir pgdir (addr + i) False s in
           if pte = 0 then Panic ''loaduvm: address should exist''
           else let pa = PTE_ADDR (load32 (mem s1) pte);
                    n = (if sz - i < PGSIZE then sz - i else PGSIZE)
                in bindR (readi (P2V pa) (offset + i) n s1) (\<lambda>(r, s2).
                   if r \<noteq> uint n then Ok (-1, s2)
                   else if i < i + PGSIZE then loaduvm_loop readi pgdir addr offset (i + PGSIZE) sz s2
                   else Undef))"
  by pat_completeness auto

lemma unat_up_measure: "(a :: uint) < b \<Longrightarrow> 2 ^ 32 - unat b < 2 ^ 32 - unat a"
  using unat_uint_lt [of a] by (simp add: word_less_nat_alt diff_less_mono2)

termination loaduvm_loop
  using unat_up_measure
  by (relation "measure (\<lambda>(readi, pgdir, addr, offset, i, sz, s). 2 ^ 32 - unat i)") auto

definition loaduvm ::
  "(uint \<Rightarrow> uint \<Rightarrow> uint \<Rightarrow> 'a kmem_scheme \<Rightarrow> (int \<times> 'a kmem_scheme) res) \<Rightarrow>
   uint \<Rightarrow> uint \<Rightarrow> uint \<Rightarrow> uint \<Rightarrow> 'a kmem_scheme \<Rightarrow> (int \<times> 'a kmem_scheme) res" where
  "loaduvm readi pgdir addr offset sz s =
     (if addr mod PGSIZE \<noteq> 0 then Panic ''loaduvm: addr must be page aligned''
      else loaduvm_loop readi pgdir addr offset 0 sz s)"

function allocuvm_loop ::
  "uint \<Rightarrow> uint \<Rightarrow> uint \<Rightarrow> uint \<Rightarrow> uint \<Rightarrow> 'a kmem_scheme \<Rightarrow> (uint \<times> 'a kmem_scheme) res" where
  "allocuvm_loop kend pgdir a oldsz newsz s =
     (if \<not> a < newsz then Ok (newsz, s)
      else let (pg, s1) = kalloc s in
           if pg = 0 then bindR (deallocuvm kend pgdir newsz oldsz s1) (\<lambda>(r, s2). Ok (0, s2))
           else let s2 = s1\<lparr>mem := memset (mem s1) pg 0 PGSIZE\<rparr> in
                bindR (mappages pgdir a PGSIZE (V2P pg) (PTE_W OR PTE_U) s2) (\<lambda>(r, s3).
                if r < 0
                then bindR (deallocuvm kend pgdir newsz oldsz s3) (\<lambda>(r, s4).
                     bindR (kfree kend pg s4) (\<lambda>s5. Ok (0, s5)))
                else if a < a + PGSIZE then allocuvm_loop kend pgdir (a + PGSIZE) oldsz newsz s3
                else Undef))"
  by pat_completeness auto
termination
  using unat_up_measure
  by (relation "measure (\<lambda>(kend, pgdir, a, oldsz, newsz, s). 2 ^ 32 - unat a)") auto

definition allocuvm ::
  "uint \<Rightarrow> uint \<Rightarrow> uint \<Rightarrow> uint \<Rightarrow> 'a kmem_scheme \<Rightarrow> (uint \<times> 'a kmem_scheme) res" where
  "allocuvm kend pgdir oldsz newsz s =
     (if newsz \<ge> KERNBASE then Ok (0, s)
      else if newsz < oldsz then Ok (oldsz, s)
      else allocuvm_loop kend pgdir (PGROUNDUP oldsz) oldsz newsz s)"

definition clearpteu :: "uint \<Rightarrow> uint \<Rightarrow> 'a kmem_scheme \<Rightarrow> 'a kmem_scheme res" where
  "clearpteu pgdir uva s =
     (let (pte, s1) = walkpgdir pgdir uva False s in
      if pte = 0 then Panic ''clearpteu''
      else Ok (s1\<lparr>mem := store32 (mem s1) pte (load32 (mem s1) pte AND NOT PTE_U)\<rparr>))"

function copyuvm_loop ::
  "uint \<Rightarrow> uint \<Rightarrow> uint \<Rightarrow> uint \<Rightarrow> uint \<Rightarrow> 'a kmem_scheme \<Rightarrow> (uint \<times> 'a kmem_scheme) res" where
  "copyuvm_loop kend pgdir d i sz s =
     (if \<not> i < sz then Ok (d, s)
      else let (pte, s1) = walkpgdir pgdir i False s in
           if pte = 0 then Panic ''copyuvm: pte should exist''
           else if load32 (mem s1) pte AND PTE_P = 0 then Panic ''copyuvm: page not present''
           else let pa = PTE_ADDR (load32 (mem s1) pte);
                    flags = PTE_FLAGS (load32 (mem s1) pte);
                    (pg, s2) = kalloc s1
                in if pg = 0 then bindR (freevm kend d s2) (\<lambda>s3. Ok (0, s3))
                   else let s3 = s2\<lparr>mem := memmove (mem s2) pg (P2V pa) PGSIZE\<rparr> in
                        bindR (mappages d i PGSIZE (V2P pg) flags s3) (\<lambda>(r, s4).
                        if r < 0
                        then bindR (kfree kend pg s4) (\<lambda>s5.
                             bindR (freevm kend d s5) (\<lambda>s6. Ok (0, s6)))
                        else if i < i + PGSIZE then copyuvm_loop kend pgdir d (i + PGSIZE) sz s4
                        else Undef))"
  by pat_completeness auto
termination
  using unat_up_measure
  by (relation "measure (\<lambda>(kend, pgdir, d, i, sz, s). 2 ^ 32 - unat i)") auto

definition copyuvm :: "uint \<Rightarrow> uint \<Rightarrow> uint \<Rightarrow> uint \<Rightarrow> 'a kmem_scheme \<Rightarrow> (uint \<times> 'a kmem_scheme) res" where
  "copyuvm kend kdata pgdir sz s =
     bindR (setupkvm kend kdata s) (\<lambda>(d, s1).
     if d = 0 then Ok (0, s1) else copyuvm_loop kend pgdir d 0 sz s1)"

declare loaduvm_loop.simps [simp del] allocuvm_loop.simps [simp del] copyuvm_loop.simps [simp del]

section \<open>User addresses\<close>

text \<open>\<^verbatim>\<open>uva2ka\<close> dereferences the result of the walk without a check.\<close>

definition uva2ka :: "uint \<Rightarrow> uint \<Rightarrow> 'a kmem_scheme \<Rightarrow> uint res" where
  "uva2ka pgdir uva s =
     (let (pte, s1) = walkpgdir pgdir uva False s in
      if pte = 0 then Undef
      else let e = load32 (mem s1) pte in
           if e AND PTE_P = 0 then Ok 0
           else if e AND PTE_U = 0 then Ok 0
           else Ok (P2V (PTE_ADDR e)))"

lemma PGROUNDDOWN_diff: "va - PGROUNDDOWN va = va mod PGSIZE"
  using and_not_page [of va] by (simp add: PGROUNDDOWN_def PGSIZE_def)

text \<open>The bytes up to the end of the page, at least one.\<close>

definition page_rest :: "uint \<Rightarrow> uint" where
  "page_rest va = PGSIZE - (va - PGROUNDDOWN va)"

lemma page_rest_pos: "0 < page_rest va"
proof -
  have "va mod PGSIZE < PGSIZE" by (rule word_mod_less_divisor) (simp add: PGSIZE_def)
  then have "PGSIZE - va mod PGSIZE \<noteq> 0" by (metis right_minus_eq less_irrefl)
  then show ?thesis unfolding word_gt_0 by (simp add: page_rest_def PGROUNDDOWN_diff)
qed

text \<open>
  \<^verbatim>\<open>copyout\<close>: \<open>bs\<close> are the \<^verbatim>\<open>len\<close> bytes at \<^verbatim>\<open>p\<close>, in the kernel or in the
  current address space; the pages written belong to \<open>pgdir\<close>, a new address space, so
  that the copy does not change its source.
\<close>

function copyout_loop :: "uint \<Rightarrow> uint \<Rightarrow> uchar list \<Rightarrow> 'a kmem_scheme \<Rightarrow> (int \<times> 'a kmem_scheme) res" where
  "copyout_loop pgdir va bs s =
     (if bs = [] then Ok (0, s)
      else let va0 = PGROUNDDOWN va in
           bindR (uva2ka pgdir va0 s) (\<lambda>pa0.
           if pa0 = 0 then Ok (-1, s)
           else let n = min (unat (page_rest va)) (length bs);
                    s1 = s\<lparr>mem := put_bytes (mem s) (pa0 + (va - va0)) (take n bs)\<rparr>
                in copyout_loop pgdir (va0 + PGSIZE) (drop n bs) s1))"
  by pat_completeness auto
termination
  by (relation "measure (\<lambda>(pgdir, va, bs, s). length bs)")
    (use page_rest_pos in \<open>auto simp: word_gt_0 unat_gt_0\<close>)

declare copyout_loop.simps [simp del]

definition copyout :: "uint \<Rightarrow> uint \<Rightarrow> uchar list \<Rightarrow> 'a kmem_scheme \<Rightarrow> (int \<times> 'a kmem_scheme) res" where
  "copyout pgdir va bs s = copyout_loop pgdir va bs s"

section \<open>What these operations change\<close>

definition only_mem :: "'a kmem_scheme \<Rightarrow> 'a kmem_scheme \<Rightarrow> bool" where
  "only_mem s s' \<longleftrightarrow> s' = s\<lparr>mem := mem s', freelist := freelist s'\<rparr>"

lemma only_mem_iff: "only_mem s s' \<longleftrightarrow> (\<exists>m f. s' = s\<lparr>mem := m, freelist := f\<rparr>)"
  unfolding only_mem_def by auto

lemma only_mem_refl [simp]: "only_mem s s"
  by (simp add: only_mem_def)

lemma only_mem_trans [trans]:
  assumes "only_mem s t" "only_mem t u"
  shows "only_mem s u"
proof -
  obtain m f m' f' where "t = s\<lparr>mem := m, freelist := f\<rparr>" "u = t\<lparr>mem := m', freelist := f'\<rparr>"
    using assms unfolding only_mem_iff by blast
  then show ?thesis by (simp add: only_mem_def)
qed

lemma only_mem_update:
  assumes "only_mem s t"
  shows "only_mem s (t\<lparr>mem := m\<rparr>)"
proof -
  obtain m f where "t = s\<lparr>mem := m, freelist := f\<rparr>" using assms unfolding only_mem_iff by blast
  then show ?thesis by (simp add: only_mem_def)
qed

lemma only_mem_kfree: "kfree kend v s = Ok s' \<Longrightarrow> only_mem s s'"
  by (auto simp: kfree_def only_mem_def Let_def split: if_splits)

lemma only_mem_kalloc: "kalloc s = (r, s') \<Longrightarrow> only_mem s s'"
  by (auto simp: kalloc_def only_mem_def Let_def split: if_splits)

lemma only_mem_walkpgdir:
  assumes "walkpgdir pgdir va alloc s = (r, s')"
  shows "only_mem s s'"
proof -
  obtain pg s1 where k: "kalloc s = (pg, s1)" by fastforce
  show ?thesis
    using assms only_mem_kalloc [OF k] only_mem_update
    by (auto simp: walkpgdir_def Let_def k split: if_splits)
qed

lemma only_mem_mappages_loop:
  "mappages_loop pgdir a lst pa perm s = Ok (r, s') \<Longrightarrow> only_mem s s'"
proof (induction pgdir a lst pa perm s rule: mappages_loop.induct)
  case (1 pgdir a lst pa perm s)
  obtain pte s1 where w: "walkpgdir pgdir a True s = (pte, s1)" by fastforce
  note m = only_mem_walkpgdir [OF w]
  from 1(2) show ?case
    using m only_mem_update [OF m] 1(1) [OF w [symmetric] refl]
    by (subst (asm) mappages_loop.simps)
      (auto simp: w Let_def split: if_splits intro: only_mem_trans)
qed

lemma only_mem_mappages: "mappages pgdir va sz pa perm s = Ok (r, s') \<Longrightarrow> only_mem s s'"
  unfolding mappages_def by (rule only_mem_mappages_loop)

lemma only_mem_deallocuvm_loop:
  "deallocuvm_loop kend pgdir a oldsz s = Ok s' \<Longrightarrow> only_mem s s'"
proof (induction kend pgdir a oldsz s rule: deallocuvm_loop.induct)
  case (1 kend pgdir a oldsz s)
  show ?case
  proof (cases "a < oldsz")
    case False
    then show ?thesis using 1(3) by (subst (asm) deallocuvm_loop.simps) simp
  next
    case True
    obtain pte s1 where w: "walkpgdir pgdir a False s = (pte, s1)" by fastforce
    note m = only_mem_walkpgdir [OF w]
    let ?body = "if load32 (mem s1) pte AND PTE_P \<noteq> 0
        then let pa = PTE_ADDR (load32 (mem s1) pte) in
             if pa = 0 then Panic ''kfree''
             else bindR (kfree kend (P2V pa) s1) (\<lambda>s2. Ok (s2\<lparr>mem := store32 (mem s2) pte 0\<rparr>))
        else Ok s1"
    have body: "only_mem s s3" if "?body = Ok s3" for s3
      using that m only_mem_kfree only_mem_trans only_mem_update
      by (auto simp: Let_def bindR_eq_Ok_iff split: if_splits) blast
    show ?thesis
    proof (cases "pte = 0")
      case True
      then have "deallocuvm_loop kend pgdir (PGADDR (PDX a + 1) 0 0 - PGSIZE + PGSIZE) oldsz s1 = Ok s'"
        "a < PGADDR (PDX a + 1) 0 0 - PGSIZE + PGSIZE"
        using 1(3) \<open>a < oldsz\<close> by (auto simp: deallocuvm_loop.simps [of kend pgdir a] w Let_def split: if_splits)
      then show ?thesis using 1(1) [OF _ w [symmetric] refl True refl] \<open>a < oldsz\<close> m
        by (auto intro: only_mem_trans)
    next
      case False
      then obtain s3 where s3: "?body = Ok s3" "a < a + PGSIZE"
        "deallocuvm_loop kend pgdir (a + PGSIZE) oldsz s3 = Ok s'"
        using 1(3) \<open>a < oldsz\<close>
        by (auto simp: deallocuvm_loop.simps [of kend pgdir a] w Let_def bindR_eq_Ok_iff split: if_splits)
      then have "only_mem s3 s'" using 1(2) [OF _ w [symmetric] refl False s3(1)] \<open>a < oldsz\<close> by simp
      then show ?thesis using body [OF s3(1)] by (rule only_mem_trans [rotated])
    qed
  qed
qed

lemma only_mem_deallocuvm: "deallocuvm kend pgdir oldsz newsz s = Ok (r, s') \<Longrightarrow> only_mem s s'"
  by (auto simp: deallocuvm_def bindR_eq_Ok_iff split: if_splits dest: only_mem_deallocuvm_loop)

lemma only_mem_free_tables: "free_tables kend pgdir i n s = Ok s' \<Longrightarrow> only_mem s s'"
proof (induction n arbitrary: i s)
  case (Suc n)
  then show ?case
    by (auto simp: Let_def bindR_eq_Ok_iff split: if_splits
        intro: only_mem_trans dest!: Suc.IH only_mem_kfree)
qed simp

lemma only_mem_freevm: "freevm kend pgdir s = Ok s' \<Longrightarrow> only_mem s s'"
  by (auto simp: freevm_def bindR_eq_Ok_iff split: if_splits
      dest!: only_mem_deallocuvm only_mem_free_tables only_mem_kfree intro: only_mem_trans)

lemma only_mem_setupkvm_loop: "setupkvm_loop kend pgdir ks s = Ok (r, s') \<Longrightarrow> only_mem s s'"
proof (induction ks arbitrary: s)
  case (Cons k ks)
  from Cons.prems show ?case
    by (auto simp: bindR_eq_Ok_iff split: if_splits
        dest!: Cons.IH only_mem_mappages only_mem_freevm intro: only_mem_trans)
qed simp

lemma only_mem_setupkvm:
  assumes "setupkvm kend kdata s = Ok (r, s')"
  shows "only_mem s s'"
proof -
  obtain pg s1 where k: "kalloc s = (pg, s1)" by fastforce
  note m = only_mem_kalloc [OF k]
  from assms show ?thesis
    using only_mem_trans [OF only_mem_update [OF m] only_mem_setupkvm_loop] m
    by (auto simp: setupkvm_def k Let_def split: if_splits)
qed

lemma only_mem_allocuvm_loop:
  "allocuvm_loop kend pgdir a oldsz newsz s = Ok (r, s') \<Longrightarrow> only_mem s s'"
proof (induction kend pgdir a oldsz newsz s rule: allocuvm_loop.induct)
  case (1 kend pgdir a oldsz newsz s)
  obtain pg s1 where k: "kalloc s = (pg, s1)" by fastforce
  note m = only_mem_kalloc [OF k]
  show ?case
  proof (cases "a < newsz \<and> pg \<noteq> 0")
    case False
    then show ?thesis using 1(2) m
      by (auto simp: allocuvm_loop.simps [of kend pgdir a] k bindR_eq_Ok_iff split: if_splits
          dest!: only_mem_deallocuvm intro: only_mem_trans)
  next
    case True
    then obtain r3 s3 where s3: "mappages pgdir a PGSIZE (V2P pg) (PTE_W OR PTE_U)
        (s1\<lparr>mem := memset (mem s1) pg 0 PGSIZE\<rparr>) = Ok (r3, s3)"
      "r3 < 0 \<Longrightarrow> \<exists>r4 s4. deallocuvm kend pgdir newsz oldsz s3 = Ok (r4, s4) \<and> kfree kend pg s4 = Ok s'"
      "\<not> r3 < 0 \<Longrightarrow> a < a + PGSIZE \<and> allocuvm_loop kend pgdir (a + PGSIZE) oldsz newsz s3 = Ok (r, s')"
      using 1(2) by (auto simp: allocuvm_loop.simps [of kend pgdir a] k bindR_eq_Ok_iff Let_def split: if_splits)
    have m3: "only_mem s s3" using only_mem_trans [OF only_mem_update [OF m] only_mem_mappages [OF s3(1)]] .
    show ?thesis
    proof (cases "r3 < 0")
      case True
      then show ?thesis using s3(2) m3
        by (auto dest!: only_mem_deallocuvm only_mem_kfree intro: only_mem_trans)
    next
      case False
      then have "only_mem s3 s'" using 1(1) [OF _ k [symmetric] refl _ refl s3(1) refl] s3(3) True by simp
      then show ?thesis by (rule only_mem_trans [OF m3])
    qed
  qed
qed

lemma only_mem_allocuvm: "allocuvm kend pgdir oldsz newsz s = Ok (r, s') \<Longrightarrow> only_mem s s'"
  by (auto simp: allocuvm_def split: if_splits dest: only_mem_allocuvm_loop)

lemma only_mem_copyuvm_loop:
  "copyuvm_loop kend pgdir d i sz s = Ok (r, s') \<Longrightarrow> only_mem s s'"
proof (induction kend pgdir d i sz s rule: copyuvm_loop.induct)
  case (1 kend pgdir d i sz s)
  obtain pte s1 where w: "walkpgdir pgdir i False s = (pte, s1)" by fastforce
  obtain pg s2 where k: "kalloc s1 = (pg, s2)" by fastforce
  have m: "only_mem s s2" using only_mem_trans [OF only_mem_walkpgdir [OF w] only_mem_kalloc [OF k]] .
  let ?e = "load32 (mem s1) pte"
  show ?case
  proof (cases "i < sz \<and> pte \<noteq> 0 \<and> ?e AND PTE_P \<noteq> 0 \<and> pg \<noteq> 0")
    case False
    then show ?thesis using 1(2) m
      by (auto simp: copyuvm_loop.simps [of kend pgdir d i] w k bindR_eq_Ok_iff Let_def split: if_splits
          dest!: only_mem_freevm intro: only_mem_trans)
  next
    case True
    then obtain r4 s4 where s4: "mappages d i PGSIZE (V2P pg) (PTE_FLAGS ?e)
        (s2\<lparr>mem := memmove (mem s2) pg (P2V (PTE_ADDR ?e)) PGSIZE\<rparr>) = Ok (r4, s4)"
      "r4 < 0 \<Longrightarrow> \<exists>s5. kfree kend pg s4 = Ok s5 \<and> freevm kend d s5 = Ok s'"
      "\<not> r4 < 0 \<Longrightarrow> i < i + PGSIZE \<and> copyuvm_loop kend pgdir d (i + PGSIZE) sz s4 = Ok (r, s')"
      using 1(2) by (auto simp: copyuvm_loop.simps [of kend pgdir d i] w k bindR_eq_Ok_iff Let_def split: if_splits)
    have m4: "only_mem s s4" using only_mem_trans [OF only_mem_update [OF m] only_mem_mappages [OF s4(1)]] .
    show ?thesis
    proof (cases "r4 < 0")
      case True
      then show ?thesis using s4(2) m4 by (auto dest!: only_mem_freevm only_mem_kfree intro: only_mem_trans)
    next
      case False
      then have "only_mem s4 s'"
        using 1(1) [OF _ w [symmetric] refl _ _ refl refl k [symmetric] refl _ refl s4(1) refl] s4(3) True by simp
      then show ?thesis by (rule only_mem_trans [OF m4])
    qed
  qed
qed

lemma only_mem_copyuvm: "copyuvm kend kdata pgdir sz s = Ok (r, s') \<Longrightarrow> only_mem s s'"
  by (auto simp: copyuvm_def bindR_eq_Ok_iff split: if_splits
      dest!: only_mem_setupkvm only_mem_copyuvm_loop intro: only_mem_trans)

lemma only_mem_copyout_loop: "copyout_loop pgdir va bs s = Ok (r, s') \<Longrightarrow> only_mem s s'"
proof (induction pgdir va bs s rule: copyout_loop.induct)
  case (1 pgdir va bs s)
  show ?case
  proof (cases "bs = []")
    case True
    then show ?thesis using 1(2) by (simp add: copyout_loop.simps [of pgdir va])
  next
    case False
    then obtain pa0 where pa: "uva2ka pgdir (PGROUNDDOWN va) s = Ok pa0"
      using 1(2) by (auto simp: copyout_loop.simps [of pgdir va] bindR_eq_Ok_iff Let_def)
    show ?thesis
    proof (cases "pa0 = 0")
      case True
      then show ?thesis using 1(2) pa \<open>bs \<noteq> []\<close> by (simp add: copyout_loop.simps [of pgdir va])
    next
      case nz: False
      let ?n = "min (unat (page_rest va)) (length bs)"
      let ?s1 = "s\<lparr>mem := put_bytes (mem s) (pa0 + (va - PGROUNDDOWN va)) (take ?n bs)\<rparr>"
      have "copyout_loop pgdir (PGROUNDDOWN va + PGSIZE) (drop ?n bs) ?s1 = Ok (r, s')"
        using 1(2) pa False nz by (simp add: copyout_loop.simps [of pgdir va] Let_def)
      from 1(1) [OF False refl pa nz refl refl this] have "only_mem ?s1 s'" .
      then show ?thesis by (rule only_mem_trans [OF only_mem_update [OF only_mem_refl]])
    qed
  qed
qed

lemma only_mem_copyout: "copyout pgdir va bs s = Ok (r, s') \<Longrightarrow> only_mem s s'"
  unfolding copyout_def by (rule only_mem_copyout_loop)

lemma only_mem_inituvm:
  assumes "inituvm pgdir init sz s = Ok s'"
  shows "only_mem s s'"
proof -
  obtain pg s1 where k: "kalloc s = (pg, s1)" by fastforce
  note m = only_mem_update [OF only_mem_kalloc [OF k]]
  show ?thesis
    using assms only_mem_update [OF only_mem_trans [OF m only_mem_mappages]]
    by (auto simp: inituvm_def k Let_def bindR_eq_Ok_iff split: if_splits)
qed

lemma only_mem_clearpteu:
  assumes "clearpteu pgdir uva s = Ok s'"
  shows "only_mem s s'"
proof -
  obtain pte s1 where w: "walkpgdir pgdir uva False s = (pte, s1)" by fastforce
  show ?thesis
    using assms only_mem_update [OF only_mem_walkpgdir [OF w]]
    by (auto simp: clearpteu_def w split: if_splits)
qed

lemmas only_mem_ops = only_mem_kfree only_mem_kalloc only_mem_walkpgdir only_mem_mappages
  only_mem_deallocuvm only_mem_freevm only_mem_setupkvm only_mem_allocuvm only_mem_copyuvm
  only_mem_copyout only_mem_inituvm only_mem_clearpteu

end
