(* ===== verification/Proc.thy ===== *)
theory Proc
  imports Mlfq_Queue Vm
begin

text \<open>
  The process table and the process operations of \<^verbatim>\<open>proc.c\<close> that need nothing but the
  table, the run queues and the page allocator: \<^verbatim>\<open>allocproc\<close>, sleep and wakeup,
  \<^verbatim>\<open>kill\<close>, \<^verbatim>\<open>yield\<close>, \<^verbatim>\<open>set_priority\<close>, the reaping half of \<^verbatim>\<open>wait\<close> and
  \<^verbatim>\<open>waitx\<close>, and the table part of \<^verbatim>\<open>exit\<close>.

  The scheduling policy is chosen at compile time (\<^verbatim>\<open>-DRR\<close>, \<^verbatim>\<open>-DFCFS\<close>,
  \<^verbatim>\<open>-DPBS\<close>, \<^verbatim>\<open>-DMLFQ\<close>); it is the argument \<open>cfg\<close> here. Every definition is the
  effect of one critical section under \<^verbatim>\<open>ptable.lock\<close>; \<^verbatim>\<open>allocproc\<close>, which releases the lock once it
  has claimed a slot and fills the slot without it, is one step here. The trap frame and the saved context on the kernel stack are records.
  A pointer to a process is its
  index in the table, a null pointer \<open>None\<close>.
\<close>

section \<open>Data\<close>

datatype sched_policy = RR | FCFS | PBS | MLFQ

datatype procstate = UNUSED | EMBRYO | SLEEPING | RUNNABLE | RUNNING | ZOMBIE

record context_t =
  cx_edi :: uint
  cx_esi :: uint
  cx_ebx :: uint
  cx_ebp :: uint
  cx_eip :: uint

record trapframe =
  tf_edi :: uint
  tf_esi :: uint
  tf_ebp :: uint
  tf_oesp :: uint
  tf_ebx :: uint
  tf_edx :: uint
  tf_ecx :: uint
  tf_eax :: uint
  tf_gs :: ushort
  tf_fs :: ushort
  tf_es :: ushort
  tf_ds :: ushort
  tf_trapno :: uint
  tf_err :: uint
  tf_eip :: uint
  tf_cs :: ushort
  tf_eflags :: uint
  tf_esp :: uint
  tf_ss :: ushort

record proc =
  p_sz :: uint                  \<comment> \<open>Size of process memory (bytes)\<close>
  p_pgdir :: uint               \<comment> \<open>Page table\<close>
  p_kstack :: uint              \<comment> \<open>Bottom of kernel stack for this process\<close>
  p_state :: procstate          \<comment> \<open>Process state\<close>
  p_pid :: int                  \<comment> \<open>Process ID\<close>
  p_parent :: "nat option"      \<comment> \<open>Parent process\<close>
  p_tf :: trapframe             \<comment> \<open>Trap frame for current syscall\<close>
  p_context :: context_t        \<comment> \<open>swtch() here to run process\<close>
  p_chan :: chan                \<comment> \<open>If non-zero, sleeping on chan\<close>
  p_killed :: bool              \<comment> \<open>If non-zero, have been killed\<close>
  p_ofile :: "nat option list"  \<comment> \<open>Open files\<close>
  p_cwd :: "nat option"         \<comment> \<open>Current directory\<close>
  p_name :: "uchar list"        \<comment> \<open>Process name (debugging)\<close>
  p_ctime :: int                \<comment> \<open>Creation time for process\<close>
  p_etime :: int                \<comment> \<open>End time for process\<close>
  p_rtime :: int                \<comment> \<open>Total time for process\<close>
  p_iotime :: int               \<comment> \<open>I-O time for process\<close>
  p_priority :: int             \<comment> \<open>Priority for the process\<close>
  p_n_run :: int                \<comment> \<open>Number of times scheduler takes this process\<close>
  p_cur_q :: int                \<comment> \<open>Number of current queue\<close>
  p_q :: "int list"             \<comment> \<open>Number of ticks the process received\<close>
  p_qtime :: int                \<comment> \<open>Time at which process enter the queue\<close>
  p_flg :: bool                 \<comment> \<open>If it has taken time more than max limit\<close>

record kproc = mlfq +
  ptable :: "proc list"         \<comment> \<open>\<open>ptable.proc[NPROC]\<close>\<close>
  initproc :: "nat option"
  nextpid :: int
  ticks :: uint                 \<comment> \<open>\<open>ticks\<close> of trap.c\<close>
  c_proc :: "nat option"        \<comment> \<open>\<open>mycpu()->proc\<close>\<close>
  cr3 :: uint                   \<comment> \<open>page table register of this CPU\<close>
  ts_esp0 :: uint               \<comment> \<open>\<open>mycpu()->ts.esp0\<close>\<close>
  kpgdir :: uint

text \<open>Addresses fixed by the linker.\<close>

record ksym =
  k_end :: uint
  k_data :: uint
  k_forkret :: uint
  k_trapret :: uint

text \<open>Static storage: zero but for the initialisers of \<^verbatim>\<open>q_index\<close> and \<^verbatim>\<open>nextpid\<close>.\<close>

definition zero_context :: context_t where
  "zero_context = \<lparr>cx_edi = 0, cx_esi = 0, cx_ebx = 0, cx_ebp = 0, cx_eip = 0\<rparr>"

definition zero_trapframe :: trapframe where
  "zero_trapframe = \<lparr>tf_edi = 0, tf_esi = 0, tf_ebp = 0, tf_oesp = 0, tf_ebx = 0, tf_edx = 0, tf_ecx = 0,
     tf_eax = 0, tf_gs = 0, tf_fs = 0, tf_es = 0, tf_ds = 0, tf_trapno = 0, tf_err = 0, tf_eip = 0,
     tf_cs = 0, tf_eflags = 0, tf_esp = 0, tf_ss = 0\<rparr>"

definition zero_proc :: proc where
  "zero_proc = \<lparr>p_sz = 0, p_pgdir = 0, p_kstack = 0, p_state = UNUSED, p_pid = 0, p_parent = None,
     p_tf = zero_trapframe, p_context = zero_context, p_chan = NoChan, p_killed = False,
     p_ofile = replicate NOFILE None, p_cwd = None, p_name = replicate 16 0, p_ctime = 0, p_etime = 0,
     p_rtime = 0, p_iotime = 0, p_priority = 0, p_n_run = 0, p_cur_q = 0, p_q = replicate 5 0,
     p_qtime = 0, p_flg = False\<rparr>"

definition boot_kproc :: kproc where
  "boot_kproc = \<lparr>mem = (\<lambda>_. 0), freelist = 0, use_lock = False,
     qu = replicate NQUEUE (replicate NPROC None), q_index = replicate NQUEUE (-1),
     ptable = replicate NPROC zero_proc, initproc = None, nextpid = 1, ticks = 0, c_proc = None,
     cr3 = 0, ts_esp0 = 0, kpgdir = 0\<rparr>"

definition upd_proc :: "nat \<Rightarrow> (proc \<Rightarrow> proc) \<Rightarrow> 'a kproc_scheme \<Rightarrow> 'a kproc_scheme" where
  "upd_proc p f s = s\<lparr>ptable := (ptable s)[p := f (ptable s ! p)]\<rparr>"

definition pid_of :: "'a kproc_scheme \<Rightarrow> nat \<Rightarrow> int res" where
  "pid_of s x = bindR (nthR (ptable s) x) (\<lambda>p. Ok (p_pid p))"

section \<open>Queue insertion and removal\<close>

text \<open>An array index computed as a C \<^verbatim>\<open>int\<close>; a negative one is out of range.\<close>

definition idx :: "int \<Rightarrow> nat res" where
  "idx i = (if 0 \<le> i then Ok (nat i) else Undef)"

text \<open>
  The block that \<^verbatim>\<open>userinit\<close>, \<^verbatim>\<open>fork\<close>, \<^verbatim>\<open>wakeup1\<close>, \<^verbatim>\<open>kill\<close> and the scheduler
  repeat: look for \<^verbatim>\<open>p->pid\<close> in queue \<open>c\<close> (\<open>alread\<close>) and append \<open>p\<close> unless it is
  there. The result says whether it was appended.
\<close>

definition enqueue :: "int \<Rightarrow> nat \<Rightarrow> 'a kproc_scheme \<Rightarrow> (bool \<times> 'a kproc_scheme) res" where
  "enqueue c p s =
     bindR (idx c) (\<lambda>c.
     bindR (pid_of s p) (\<lambda>pid.
     bindR (q_find (pid_of s) c pid s) (\<lambda>alread.
     case alread of
       Some _ \<Rightarrow> Ok (False, s)
     | None \<Rightarrow> bindR (q_append c p s) (\<lambda>s1. Ok (True, s1)))))"

text \<open>The opposite block, of \<^verbatim>\<open>wait\<close>, \<^verbatim>\<open>waitx\<close> and the scheduler.\<close>

definition dequeue :: "int \<Rightarrow> int \<Rightarrow> 'a kproc_scheme \<Rightarrow> 'a kproc_scheme res" where
  "dequeue c pid s =
     bindR (idx c) (\<lambda>c.
     bindR (q_find (pid_of s) c pid s) (\<lambda>alread.
     case alread of None \<Rightarrow> Ok s | Some ind \<Rightarrow> q_delete_at c ind s))"

definition set_qtime :: "nat \<Rightarrow> 'a kproc_scheme \<Rightarrow> 'a kproc_scheme" where
  "set_qtime p s = upd_proc p (\<lambda>x. x\<lparr>p_qtime := sint (ticks s)\<rparr>) s"

text \<open>Insertion as \<^verbatim>\<open>fork\<close> and \<^verbatim>\<open>kill\<close> do it: the time is noted when \<open>p\<close> was added.\<close>

definition enqueue_timed :: "nat \<Rightarrow> 'a kproc_scheme \<Rightarrow> 'a kproc_scheme res" where
  "enqueue_timed p s =
     bindR (nthR (ptable s) p) (\<lambda>x.
     bindR (enqueue (p_cur_q x) p s) (\<lambda>(added, s1).
     Ok (if added then set_qtime p s1 else s1)))"

section \<open>allocproc\<close>

definition TF_SIZE :: uint where "TF_SIZE = 76"
definition CONTEXT_SIZE :: uint where "CONTEXT_SIZE = 20"

text \<open>The accounting fields that \<^verbatim>\<open>allocproc\<close> sets last.\<close>

definition init_times :: "sched_policy \<Rightarrow> uint \<Rightarrow> proc \<Rightarrow> proc" where
  "init_times cfg now p =
     (let p1 = p\<lparr>p_ctime := sint now, p_etime := 0, p_rtime := 0, p_iotime := 0,
                 p_n_run := 0, p_priority := 60\<rparr>
      in if cfg = MLFQ
         then p1\<lparr>p_cur_q := 0, p_q := replicate 5 0, p_qtime := 0, p_flg := False\<rparr>
         else p1)"

definition allocproc ::
  "sched_policy \<Rightarrow> ksym \<Rightarrow> 'a kproc_scheme \<Rightarrow> nat option \<times> 'a kproc_scheme" where
  "allocproc cfg K s =
     (case find_index (\<lambda>p. p_state p = UNUSED) (ptable s) of
        None \<Rightarrow> (None, s)
      | Some i \<Rightarrow>
          let s1 = (upd_proc i (\<lambda>p. p\<lparr>p_state := EMBRYO, p_pid := nextpid s\<rparr>) s)
                     \<lparr>nextpid := nextpid s + 1\<rparr>;
              (k, s2) = kalloc s1;
              s3 = upd_proc i (\<lambda>p. p\<lparr>p_kstack := k\<rparr>) s2
          in if k = 0 then (None, upd_proc i (\<lambda>p. p\<lparr>p_state := UNUSED\<rparr>) s3)
             else let sp = k + of_nat KSTACKSIZE - TF_SIZE - 4;
                      s4 = s3\<lparr>mem := store32 (mem s3) sp (k_trapret K)\<rparr>;
                      s5 = upd_proc i (\<lambda>p. p\<lparr>p_context := zero_context\<lparr>cx_eip := k_forkret K\<rparr>\<rparr>) s4
                  in (Some i, upd_proc i (init_times cfg (ticks s5)) s5))"

text \<open>The last critical section of \<^verbatim>\<open>userinit\<close> and of \<^verbatim>\<open>fork\<close>: the new process may run.\<close>

definition userinit_ready :: "sched_policy \<Rightarrow> nat \<Rightarrow> 'a kproc_scheme \<Rightarrow> 'a kproc_scheme res" where
  "userinit_ready cfg p s =
     (let s1 = upd_proc p (\<lambda>x. x\<lparr>p_state := RUNNABLE\<rparr>) s in
      if cfg = MLFQ
      then bindR (enqueue 0 p s1) (\<lambda>(added, s2).
           Ok (if added then set_qtime p (upd_proc p (\<lambda>x. x\<lparr>p_cur_q := 0\<rparr>) s2) else s2))
      else Ok s1)"

definition fork_ready :: "sched_policy \<Rightarrow> nat \<Rightarrow> 'a kproc_scheme \<Rightarrow> 'a kproc_scheme res" where
  "fork_ready cfg np s =
     (let s1 = upd_proc np (\<lambda>x. x\<lparr>p_state := RUNNABLE\<rparr>) s in
      if cfg = MLFQ then enqueue_timed np s1 else Ok s1)"

section \<open>sleep, wakeup, kill, yield\<close>

text \<open>\<^verbatim>\<open>sleep\<close> before and after the process is off the CPU (\<^verbatim>\<open>sched()\<close>).\<close>

definition sleep_enter :: "chan \<Rightarrow> nat \<Rightarrow> 'a kproc_scheme \<Rightarrow> 'a kproc_scheme" where
  "sleep_enter ch p s = upd_proc p (\<lambda>x. x\<lparr>p_chan := ch, p_state := SLEEPING\<rparr>) s"

definition sleep_exit :: "nat \<Rightarrow> 'a kproc_scheme \<Rightarrow> 'a kproc_scheme" where
  "sleep_exit p s = upd_proc p (\<lambda>x. x\<lparr>p_chan := NoChan\<rparr>) s"

definition wake_one :: "sched_policy \<Rightarrow> nat \<Rightarrow> 'a kproc_scheme \<Rightarrow> 'a kproc_scheme res" where
  "wake_one cfg i s =
     (let s1 = upd_proc i (\<lambda>x. x\<lparr>p_state := RUNNABLE\<rparr>) s in
      if cfg = MLFQ
      then bindR (enqueue_timed i s1) (\<lambda>s2. Ok (set_qtime i s2))
      else Ok s1)"

fun wakeup1_loop :: "sched_policy \<Rightarrow> chan \<Rightarrow> nat list \<Rightarrow> 'a kproc_scheme \<Rightarrow> 'a kproc_scheme res" where
  "wakeup1_loop cfg ch [] s = Ok s"
| "wakeup1_loop cfg ch (i # is) s =
     (if p_state (ptable s ! i) = SLEEPING \<and> p_chan (ptable s ! i) = ch
      then bindR (wake_one cfg i s) (wakeup1_loop cfg ch is)
      else wakeup1_loop cfg ch is s)"

definition wakeup1 :: "sched_policy \<Rightarrow> chan \<Rightarrow> 'a kproc_scheme \<Rightarrow> 'a kproc_scheme res" where
  "wakeup1 cfg ch s = wakeup1_loop cfg ch [0..<NPROC] s"

definition wakeup :: "sched_policy \<Rightarrow> chan \<Rightarrow> 'a kproc_scheme \<Rightarrow> 'a kproc_scheme res" where
  "wakeup cfg ch s = wakeup1 cfg ch s"

definition kill :: "sched_policy \<Rightarrow> int \<Rightarrow> 'a kproc_scheme \<Rightarrow> (int \<times> 'a kproc_scheme) res" where
  "kill cfg pid s =
     (case find_index (\<lambda>p. p_pid p = pid) (ptable s) of
        None \<Rightarrow> Ok (-1, s)
      | Some i \<Rightarrow>
          let s1 = upd_proc i (\<lambda>x. x\<lparr>p_killed := True\<rparr>) s in
          if p_state (ptable s1 ! i) = SLEEPING
          then let s2 = upd_proc i (\<lambda>x. x\<lparr>p_state := RUNNABLE\<rparr>) s1 in
               if cfg = MLFQ then bindR (enqueue_timed i s2) (\<lambda>s3. Ok (0, s3))
               else Ok (0, s2)
          else Ok (0, s1))"

text \<open>\<^verbatim>\<open>yield\<close> up to \<^verbatim>\<open>sched()\<close>.\<close>

definition yield :: "nat \<Rightarrow> 'a kproc_scheme \<Rightarrow> 'a kproc_scheme" where
  "yield p s = upd_proc p (\<lambda>x. x\<lparr>p_state := RUNNABLE\<rparr>) s"

text \<open>\<^verbatim>\<open>set_priority\<close>: the second component says whether it calls \<^verbatim>\<open>yield()\<close>.\<close>

definition set_priority ::
  "sched_policy \<Rightarrow> int \<Rightarrow> int \<Rightarrow> 'a kproc_scheme \<Rightarrow> int \<times> bool \<times> 'a kproc_scheme" where
  "set_priority cfg new_priority pid s =
     (case find_index (\<lambda>p. p_pid p = pid) (ptable s) of
        None \<Rightarrow> (0, False, s)
      | Some i \<Rightarrow>
          (0, cfg = PBS \<and> p_priority (ptable s ! i) > new_priority,
           upd_proc i (\<lambda>x. x\<lparr>p_priority := new_priority\<rparr>) s))"

section \<open>exit and wait\<close>

definition chan_of_proc :: "nat option \<Rightarrow> chan" where
  "chan_of_proc p = (case p of None \<Rightarrow> NoChan | Some i \<Rightarrow> ProcChan i)"

text \<open>\<^verbatim>\<open>exit\<close>: pass abandoned children to init.\<close>

fun reparent_loop :: "sched_policy \<Rightarrow> nat \<Rightarrow> nat list \<Rightarrow> 'a kproc_scheme \<Rightarrow> 'a kproc_scheme res" where
  "reparent_loop cfg cur [] s = Ok s"
| "reparent_loop cfg cur (i # is) s =
     (if p_parent (ptable s ! i) = Some cur
      then let s1 = upd_proc i (\<lambda>x. x\<lparr>p_parent := initproc s\<rparr>) s in
           if p_state (ptable s1 ! i) = ZOMBIE
           then bindR (wakeup1 cfg (chan_of_proc (initproc s1)) s1) (reparent_loop cfg cur is)
           else reparent_loop cfg cur is s1
      else reparent_loop cfg cur is s)"

text \<open>The critical section of \<^verbatim>\<open>exit\<close>, up to \<^verbatim>\<open>sched()\<close>.\<close>

definition exit_table :: "sched_policy \<Rightarrow> nat \<Rightarrow> 'a kproc_scheme \<Rightarrow> 'a kproc_scheme res" where
  "exit_table cfg cur s =
     bindR (wakeup1 cfg (chan_of_proc (p_parent (ptable s ! cur))) s) (\<lambda>s1.
     bindR (reparent_loop cfg cur [0..<NPROC] s1) (\<lambda>s2.
     Ok (upd_proc cur (\<lambda>x. x\<lparr>p_state := ZOMBIE, p_etime := sint (ticks s2)\<rparr>) s2)))"

text \<open>
  \<^verbatim>\<open>wait\<close> and \<^verbatim>\<open>waitx\<close> scan the table for a zombie child and recycle its slot.
\<close>

definition reap ::
  "sched_policy \<Rightarrow> ksym \<Rightarrow> nat \<Rightarrow> 'a kproc_scheme \<Rightarrow> (int \<times> 'a kproc_scheme) res" where
  "reap cfg K i s =
     (let pid = p_pid (ptable s ! i) in
      bindR (kfree (k_end K) (p_kstack (ptable s ! i)) s) (\<lambda>s1.
      bindR (freevm (k_end K) (p_pgdir (ptable s1 ! i)) (upd_proc i (\<lambda>x. x\<lparr>p_kstack := 0\<rparr>) s1)) (\<lambda>s2.
      let s3 = upd_proc i (\<lambda>x. x\<lparr>p_pid := 0, p_parent := None, p_name := (p_name x)[0 := 0],
                                 p_killed := False, p_state := UNUSED\<rparr>) s2 in
      bindR (if cfg = MLFQ then dequeue (p_cur_q (ptable s3 ! i)) (p_pid (ptable s3 ! i)) s3
             else Ok s3) (\<lambda>s4. Ok (pid, s4)))))"

text \<open>The scan: \<open>Some i\<close> the first zombie child, \<open>None\<close> with whether there are children.\<close>

fun wait_scan :: "nat \<Rightarrow> nat \<Rightarrow> proc list \<Rightarrow> bool \<Rightarrow> nat option \<times> bool" where
  "wait_scan cur i [] havekids = (None, havekids)"
| "wait_scan cur i (p # ps) havekids =
     (if p_parent p \<noteq> Some cur then wait_scan cur (Suc i) ps havekids
      else if p_state p = ZOMBIE then (Some i, True)
      else wait_scan cur (Suc i) ps True)"

datatype 'r wait_out = Reaped 'r | NoChildren | WaitSleep

text \<open>One round of the loop of \<^verbatim>\<open>wait\<close> for process \<open>cur\<close>.\<close>

definition wait_round ::
  "sched_policy \<Rightarrow> ksym \<Rightarrow> nat \<Rightarrow> 'a kproc_scheme \<Rightarrow> (int wait_out \<times> 'a kproc_scheme) res" where
  "wait_round cfg K cur s =
     (case wait_scan cur 0 (ptable s) False of
        (Some i, _) \<Rightarrow> bindR (reap cfg K i s) (\<lambda>(pid, s1). Ok (Reaped pid, s1))
      | (None, havekids) \<Rightarrow>
          if \<not> havekids \<or> p_killed (ptable s ! cur) then Ok (NoChildren, s)
          else Ok (WaitSleep, sleep_enter (ProcChan cur) cur s))"

text \<open>
  One round of \<^verbatim>\<open>waitx\<close> up to the release of the lock: it remembers the slot, because it
  reads the times of the child later.
\<close>

definition waitx_round ::
  "sched_policy \<Rightarrow> ksym \<Rightarrow> nat \<Rightarrow> 'a kproc_scheme \<Rightarrow> ((int \<times> nat) wait_out \<times> 'a kproc_scheme) res" where
  "waitx_round cfg K cur s =
     (case wait_scan cur 0 (ptable s) False of
        (Some i, _) \<Rightarrow> bindR (reap cfg K i s) (\<lambda>(pid, s1). Ok (Reaped (pid, i), s1))
      | (None, havekids) \<Rightarrow>
          if \<not> havekids \<or> p_killed (ptable s ! cur) then Ok (NoChildren, s)
          else Ok (WaitSleep, sleep_enter (ProcChan cur) cur s))"

text \<open>\<^verbatim>\<open>*rtime\<close> and \<^verbatim>\<open>*wtime\<close>.\<close>

definition waitx_times :: "nat \<Rightarrow> 'a kproc_scheme \<Rightarrow> int \<times> int" where
  "waitx_times i s =
     (let p = ptable s ! i in
      (p_rtime p, p_etime p - p_ctime p - p_rtime p - p_iotime p))"

text \<open>
  A round of \<^verbatim>\<open>waitx\<close> to its end: the times are read after the lock has been released, when
  the other processors have done \<open>gap\<close>. Its line on the console is left out.
\<close>

definition waitx ::
  "sched_policy \<Rightarrow> ksym \<Rightarrow> ('a kproc_scheme \<Rightarrow> 'a kproc_scheme) \<Rightarrow> nat \<Rightarrow> 'a kproc_scheme \<Rightarrow>
   ((int \<times> int \<times> int) wait_out \<times> 'a kproc_scheme) res" where
  "waitx cfg K gap cur s =
     bindR (waitx_round cfg K cur s) (\<lambda>(r, s1).
     case r of
       Reaped (pid, i) \<Rightarrow>
         let s2 = gap s1; (rtime, wtime) = waitx_times i s2 in Ok (Reaped (pid, rtime, wtime), s2)
     | NoChildren \<Rightarrow> Ok (NoChildren, s1)
     | WaitSleep \<Rightarrow> Ok (WaitSleep, s1))"

end
