(* ===== verification/Spinlock.thy ===== *)
theory Spinlock
  imports Xv6_Prelude
begin

text \<open>
  Spin locks and the nesting of interrupt disabling (\<^verbatim>\<open>spinlock.c\<close>, \<^verbatim>\<open>mycpu\<close>,
  \<^verbatim>\<open>cpuid\<close> and \<^verbatim>\<open>myproc\<close> of \<^verbatim>\<open>proc.c\<close>, \<^verbatim>\<open>struct cpu\<close> and
  \<^verbatim>\<open>struct spinlock\<close>).

  The code runs on the processor whose local APIC reports the identifier \<^verbatim>\<open>aid\<close>
  (\<^verbatim>\<open>lapicid()\<close>, hardware, an argument here); its interrupt flag is
  \<^verbatim>\<open>FL_IF\<close> in EFLAGS. The functions are sequential; the last section lets several
  processors run them step by step against one lock, the atomic \<^verbatim>\<open>xchg\<close> and the two
  writes of \<^verbatim>\<open>lk->cpu\<close> being separate steps.
\<close>

section \<open>Processors\<close>

record cpu =
  apicid :: uchar          \<comment> \<open>Local APIC ID\<close>
  ncli :: int              \<comment> \<open>Depth of pushcli nesting\<close>
  intena :: bool           \<comment> \<open>Were interrupts enabled before pushcli?\<close>
  cpu_proc :: "nat option" \<comment> \<open>The process running on this cpu or null\<close>

record machine =
  cpus :: "cpu list"       \<comment> \<open>the first \<open>ncpu\<close> entries of \<open>cpus[NCPU]\<close>\<close>
  fl_if :: "uchar \<Rightarrow> bool" \<comment> \<open>the interrupt flag of each processor\<close>

definition readeflags_if :: "uchar \<Rightarrow> machine \<Rightarrow> bool" where
  "readeflags_if aid m = fl_if m aid"

definition cli :: "uchar \<Rightarrow> machine \<Rightarrow> machine" where
  "cli aid m = m\<lparr>fl_if := (fl_if m)(aid := False)\<rparr>"

definition sti :: "uchar \<Rightarrow> machine \<Rightarrow> machine" where
  "sti aid m = m\<lparr>fl_if := (fl_if m)(aid := True)\<rparr>"

definition mycpu :: "uchar \<Rightarrow> machine \<Rightarrow> nat res" where
  "mycpu aid m =
     (if readeflags_if aid m then Panic ''mycpu called with interrupts enabled''
      else case find_index (\<lambda>c. apicid c = aid) (cpus m) of
             Some i \<Rightarrow> Ok i
           | None \<Rightarrow> Panic ''unknown apicid'')"

definition cpuid :: "uchar \<Rightarrow> machine \<Rightarrow> nat res" where
  "cpuid aid m = mycpu aid m"

definition set_cpu :: "nat \<Rightarrow> (cpu \<Rightarrow> cpu) \<Rightarrow> machine \<Rightarrow> machine" where
  "set_cpu i f m = m\<lparr>cpus := (cpus m)[i := f (cpus m ! i)]\<rparr>"

definition pushcli :: "uchar \<Rightarrow> machine \<Rightarrow> machine res" where
  "pushcli aid m =
     (let eflags = readeflags_if aid m; m1 = cli aid m in
      bindR (mycpu aid m1) (\<lambda>i.
      Ok (set_cpu i (\<lambda>c. (if ncli c = 0 then c\<lparr>intena := eflags\<rparr> else c)
                           \<lparr>ncli := ncli c + 1\<rparr>) m1)))"

definition popcli :: "uchar \<Rightarrow> machine \<Rightarrow> machine res" where
  "popcli aid m =
     bindR (guardR (\<not> readeflags_if aid m) ''popcli - interruptible'') (\<lambda>_.
     bindR (mycpu aid m) (\<lambda>i.
     let m1 = set_cpu i (\<lambda>c. c\<lparr>ncli := ncli c - 1\<rparr>) m; c = cpus m1 ! i in
     bindR (guardR (\<not> ncli c < 0) ''popcli'') (\<lambda>_.
     Ok (if ncli c = 0 \<and> intena c then sti aid m1 else m1))))"

definition myproc :: "uchar \<Rightarrow> machine \<Rightarrow> (nat option \<times> machine) res" where
  "myproc aid m =
     bindR (pushcli aid m) (\<lambda>m1.
     bindR (mycpu aid m1) (\<lambda>i.
     bindR (popcli aid m1) (\<lambda>m2. Ok (cpu_proc (cpus m1 ! i), m2))))"

section \<open>The lock\<close>

record spinlock =
  locked :: uint             \<comment> \<open>Is the lock held?\<close>
  lk_name :: string          \<comment> \<open>Name of lock\<close>
  lk_cpu :: "nat option"     \<comment> \<open>The cpu holding the lock\<close>
  lk_pcs :: "uint list"      \<comment> \<open>The call stack that locked the lock\<close>

definition initlock :: "spinlock \<Rightarrow> string \<Rightarrow> spinlock" where
  "initlock lk nm = lk\<lparr>lk_name := nm, locked := 0, lk_cpu := None\<rparr>"

text \<open>
  \<^verbatim>\<open>getcallerpcs\<close> follows the chain of saved frame pointers through memory
  (\<open>load a\<close> is the word at address \<open>a\<close>) for at most ten frames and fills the rest
  with zeros.
\<close>

fun getcallerpcs_loop :: "(uint \<Rightarrow> uint) \<Rightarrow> uint \<Rightarrow> nat \<Rightarrow> uint list" where
  "getcallerpcs_loop load ebp 0 = []"
| "getcallerpcs_loop load ebp (Suc n) =
     (if ebp = 0 \<or> ebp < 0x80000000 \<or> ebp = 0xffffffff then replicate (Suc n) 0
      else load (ebp + 4) # getcallerpcs_loop load (load ebp) n)"

definition getcallerpcs :: "(uint \<Rightarrow> uint) \<Rightarrow> uint \<Rightarrow> uint list" where
  "getcallerpcs load v = getcallerpcs_loop load (v - 8) 10"

definition holding :: "uchar \<Rightarrow> spinlock \<Rightarrow> machine \<Rightarrow> (bool \<times> machine) res" where
  "holding aid lk m =
     bindR (pushcli aid m) (\<lambda>m1.
     bindR (mycpu aid m1) (\<lambda>i.
     let r = (locked lk \<noteq> 0 \<and> lk_cpu lk = Some i) in
     bindR (popcli aid m1) (\<lambda>m2. Ok (r, m2))))"

text \<open>\<^verbatim>\<open>acquire\<close> up to the spinning loop.\<close>

definition acquire_enter :: "uchar \<Rightarrow> spinlock \<Rightarrow> machine \<Rightarrow> machine res" where
  "acquire_enter aid lk m =
     bindR (pushcli aid m) (\<lambda>m1.
     bindR (holding aid lk m1) (\<lambda>(h, m2).
     bindR (guardR (\<not> h) ''acquire'') (\<lambda>_. Ok m2)))"

text \<open>One iteration of the loop: \<^verbatim>\<open>xchg(&lk->locked, 1)\<close> and its old value.\<close>

definition xchg_locked :: "spinlock \<Rightarrow> uint \<times> spinlock" where
  "xchg_locked lk = (locked lk, lk\<lparr>locked := 1\<rparr>)"

text \<open>After the loop: the debugging fields.\<close>

definition acquire_record ::
  "uchar \<Rightarrow> uint list \<Rightarrow> spinlock \<Rightarrow> machine \<Rightarrow> spinlock res" where
  "acquire_record aid pcs lk m =
     bindR (mycpu aid m) (\<lambda>i. Ok (lk\<lparr>lk_cpu := Some i, lk_pcs := pcs\<rparr>))"

text \<open>
  The whole of \<^verbatim>\<open>acquire\<close> by a processor that does not have to wait: \<open>None\<close> says that
  the first \<^verbatim>\<open>xchg\<close> found the lock taken, so that the processor spins.
\<close>

definition acquire ::
  "uchar \<Rightarrow> uint list \<Rightarrow> spinlock \<Rightarrow> machine \<Rightarrow> (spinlock \<times> machine) option res" where
  "acquire aid pcs lk m =
     bindR (acquire_enter aid lk m) (\<lambda>m1.
     let (old, lk1) = xchg_locked lk in
     if old \<noteq> 0 then Ok None
     else bindR (acquire_record aid pcs lk1 m1) (\<lambda>lk2. Ok (Some (lk2, m1))))"

text \<open>\<^verbatim>\<open>release\<close> up to the store that frees the lock, and the rest.\<close>

definition release_enter :: "uchar \<Rightarrow> spinlock \<Rightarrow> machine \<Rightarrow> (spinlock \<times> machine) res" where
  "release_enter aid lk m =
     bindR (holding aid lk m) (\<lambda>(h, m1).
     bindR (guardR h ''release'') (\<lambda>_.
     Ok (lk\<lparr>lk_pcs := (lk_pcs lk)[0 := 0], lk_cpu := None\<rparr>, m1)))"

definition release :: "uchar \<Rightarrow> spinlock \<Rightarrow> machine \<Rightarrow> (spinlock \<times> machine) res" where
  "release aid lk m =
     bindR (release_enter aid lk m) (\<lambda>(lk1, m1).
     let lk2 = lk1\<lparr>locked := 0\<rparr> in
     bindR (popcli aid m1) (\<lambda>m2. Ok (lk2, m2)))"

section \<open>Nesting of pushcli and popcli\<close>

text \<open>
  A machine is well formed when its APIC identifiers are distinct, the nesting depths
  are not negative, and a processor inside a pushcli has its interrupts off.
\<close>

definition wf_machine :: "machine \<Rightarrow> bool" where
  "wf_machine m \<longleftrightarrow>
     distinct (map apicid (cpus m)) \<and>
     (\<forall>c \<in> set (cpus m). 0 \<le> ncli c \<and> (0 < ncli c \<longrightarrow> \<not> fl_if m (apicid c)))"

lemma find_index_apicid:
  assumes "wf_machine m" "i < length (cpus m)"
  shows "find_index (\<lambda>c. apicid c = apicid (cpus m ! i)) (cpus m) = Some i"
proof (rule find_index_eqI)
  show "i < length (cpus m)" by (rule assms)
  show "apicid (cpus m ! i) = apicid (cpus m ! i)" ..
  fix j assume "j < i"
  moreover have "distinct (map apicid (cpus m))" using assms(1) by (simp add: wf_machine_def)
  ultimately have "map apicid (cpus m) ! j \<noteq> map apicid (cpus m) ! i"
    using assms(2) by (subst nth_eq_iff_index_eq) auto
  with \<open>j < i\<close> assms show "apicid (cpus m ! j) \<noteq> apicid (cpus m ! i)" by simp
qed

lemma mycpu_Ok:
  assumes "wf_machine m" "i < length (cpus m)" "apicid (cpus m ! i) = aid" "\<not> fl_if m aid"
  shows "mycpu aid m = Ok i"
  using find_index_apicid [OF assms(1,2)] assms(3,4)
  by (simp add: mycpu_def readeflags_if_def)

lemma cli_simps [simp]:
  "cpus (cli aid m) = cpus m" "fl_if (cli aid m) = (fl_if m)(aid := False)"
  "cpus (sti aid m) = cpus m" "fl_if (sti aid m) = (fl_if m)(aid := True)"
  by (simp_all add: cli_def sti_def)

lemma wf_cli [intro]: "wf_machine m \<Longrightarrow> wf_machine (cli aid m)"
  by (auto simp: wf_machine_def)

lemma set_cpu_simps [simp]:
  "fl_if (set_cpu i f m) = fl_if m" "length (cpus (set_cpu i f m)) = length (cpus m)"
  "i < length (cpus m) \<Longrightarrow> cpus (set_cpu i f m) ! i = f (cpus m ! i)"
  "i \<noteq> j \<Longrightarrow> cpus (set_cpu i f m) ! j = cpus m ! j"
  by (simp_all add: set_cpu_def)

lemma wf_set_cpu:
  assumes "wf_machine m" "i < length (cpus m)"
    and "apicid (f (cpus m ! i)) = apicid (cpus m ! i)" "0 \<le> ncli (f (cpus m ! i))"
    and "0 < ncli (f (cpus m ! i)) \<longrightarrow> \<not> fl_if m (apicid (cpus m ! i))"
  shows "wf_machine (set_cpu i f m)"
proof -
  have "map apicid (cpus (set_cpu i f m)) = map apicid (cpus m)"
    using assms(2,3) by (intro nth_equalityI) (auto simp: set_cpu_def nth_list_update)
  moreover have "0 \<le> ncli c \<and> (0 < ncli c \<longrightarrow> \<not> fl_if m (apicid c))"
    if "c \<in> set (cpus (set_cpu i f m))" for c
    using that assms set_update_subset_insert [of "cpus m" i "f (cpus m ! i)"]
    by (auto simp: wf_machine_def set_cpu_def)
  ultimately show ?thesis using assms(1) by (auto simp: wf_machine_def)
qed

text \<open>The processor that runs the code is one of the machine's.\<close>

definition runs_on :: "uchar \<Rightarrow> nat \<Rightarrow> machine \<Rightarrow> bool" where
  "runs_on aid i m \<longleftrightarrow> wf_machine m \<and> i < length (cpus m) \<and> apicid (cpus m ! i) = aid"

definition pushed :: "uchar \<Rightarrow> nat \<Rightarrow> machine \<Rightarrow> machine" where
  "pushed aid i m =
     set_cpu i (\<lambda>c. (if ncli c = 0 then c\<lparr>intena := fl_if m aid\<rparr> else c)\<lparr>ncli := ncli c + 1\<rparr>)
       (cli aid m)"

lemma pushcli_Ok:
  assumes "runs_on aid i m"
  shows "pushcli aid m = Ok (pushed aid i m)" and "runs_on aid i (pushed aid i m)"
    and "\<not> fl_if (pushed aid i m) aid" and "ncli (cpus (pushed aid i m) ! i) = ncli (cpus m ! i) + 1"
    and "length (cpus (pushed aid i m)) = length (cpus m)"
proof -
  have wf: "wf_machine (cli aid m)" "i < length (cpus m)" "apicid (cpus m ! i) = aid"
    using assms by (auto simp: runs_on_def)
  have "mycpu aid (cli aid m) = Ok i" by (rule mycpu_Ok) (use wf in auto)
  then show "pushcli aid m = Ok (pushed aid i m)"
    by (simp add: pushcli_def pushed_def readeflags_if_def)
  have n0: "0 \<le> ncli (cpus m ! i)"
    using assms wf(2) nth_mem by (fastforce simp: runs_on_def wf_machine_def)
  have "wf_machine (pushed aid i m)"
    unfolding pushed_def by (rule wf_set_cpu) (use wf n0 in auto)
  then show "runs_on aid i (pushed aid i m)"
    using wf by (auto simp: runs_on_def pushed_def)
  show "\<not> fl_if (pushed aid i m) aid" by (simp add: pushed_def)
  show "ncli (cpus (pushed aid i m) ! i) = ncli (cpus m ! i) + 1"
    using wf by (simp add: pushed_def)
  show "length (cpus (pushed aid i m)) = length (cpus m)" by (simp add: pushed_def)
qed

lemma set_cpu_cong:
  "i < length (cpus m) \<Longrightarrow> f (cpus m ! i) = cpus m ! i \<Longrightarrow> set_cpu i f m = m"
  by (simp add: set_cpu_def)

text \<open>
  \<^verbatim>\<open>popcli\<close> undoes \<^verbatim>\<open>pushcli\<close>: the nesting depth and the interrupt flag are as
  before, at every depth; only the saved \<open>intena\<close> of an outermost pair remains.
\<close>

lemma map_update_same:
  "i < length xs \<Longrightarrow> g v = g (xs ! i) \<Longrightarrow> map g (xs[i := v]) = map g xs"
  by (simp add: map_update list_update_same_conv)

lemma cpu_ncli_same: "ncli c = 0 \<Longrightarrow> c\<lparr>intena := b, ncli := 0\<rparr> = c\<lparr>intena := b\<rparr>"
  by (cases c) simp

lemma popcli_pushed_state:
  assumes "runs_on aid i m"
  shows "\<exists>m2 b. popcli aid (pushed aid i m) = Ok m2 \<and> fl_if m2 = fl_if m \<and>
     cpus m2 = (cpus m)[i := (cpus m ! i)\<lparr>intena := b\<rparr>]"
proof -
  have wf: "wf_machine m" "i < length (cpus m)" "apicid (cpus m ! i) = aid"
    using assms by (auto simp: runs_on_def)
  then have c: "0 \<le> ncli (cpus m ! i)" "0 < ncli (cpus m ! i) \<longrightarrow> \<not> fl_if m aid"
    using nth_mem [OF wf(2)] by (auto simp: wf_machine_def)
  let ?p = "pushed aid i m"
  define cc where "cc = (cpus m ! i)
      \<lparr>intena := if ncli (cpus m ! i) = 0 then fl_if m aid else intena (cpus m ! i)\<rparr>"
  define d where "d = set_cpu i (\<lambda>c. c\<lparr>ncli := ncli c - 1\<rparr>) ?p"
  have cp: "cpus d = (cpus m)[i := cc]"
    using wf(2) by (simp add: d_def cc_def pushed_def set_cpu_def cpu_ncli_same)
  have cc: "ncli cc = ncli (cpus m ! i)" by (simp add: cc_def)
  have di: "cpus d ! i = cc" using cp wf(2) by simp
  have my: "mycpu aid ?p = Ok i"
    using pushcli_Ok [OF assms] by (auto simp: runs_on_def intro: mycpu_Ok)
  have fl: "\<not> fl_if ?p aid" by (rule pushcli_Ok(3) [OF assms])
  define m2 where "m2 = (if ncli cc = 0 \<and> intena cc then sti aid d else d)"
  have "popcli aid ?p = Ok m2"
    unfolding popcli_def readeflags_if_def using fl my di c(1) cc
    by (simp add: Let_def d_def [symmetric] m2_def)
  moreover have "fl_if m2 = fl_if m"
    using c cc by (auto simp: m2_def d_def pushed_def cc_def fun_eq_iff)
  moreover have "cpus m2 = (cpus m)[i := cc]"
    using cp by (simp add: m2_def)
  ultimately show ?thesis unfolding cc_def by (intro exI conjI)
qed

lemma popcli_pushed:
  assumes "runs_on aid i m"
  shows "\<exists>m2. popcli aid (pushed aid i m) = Ok m2 \<and> fl_if m2 = fl_if m \<and>
     map ncli (cpus m2) = map ncli (cpus m) \<and> map cpu_proc (cpus m2) = map cpu_proc (cpus m) \<and>
     runs_on aid i m2"
proof -
  obtain m2 b where m2: "popcli aid (pushed aid i m) = Ok m2" "fl_if m2 = fl_if m"
      "cpus m2 = (cpus m)[i := (cpus m ! i)\<lparr>intena := b\<rparr>]"
    using popcli_pushed_state [OF assms] by (elim exE conjE)
  have wf: "wf_machine m" "i < length (cpus m)" "apicid (cpus m ! i) = aid"
    using assms by (auto simp: runs_on_def)
  have "wf_machine m2"
    unfolding wf_machine_def m2
    using wf nth_mem [OF wf(2)]
    by (intro conjI ball_set_update) (auto simp: wf_machine_def map_update_same)
  then have "runs_on aid i m2" using wf m2 by (simp add: runs_on_def)
  then show ?thesis using m2 wf by (simp add: map_update_same)
qed

section \<open>Interference of other processors\<close>

text \<open>
  Several processors take one lock. A processor is outside, spinning, past the successful
  \<^verbatim>\<open>xchg\<close> but before \<^verbatim>\<open>lk->cpu\<close> is recorded, in the critical section, or between
  the two writes of \<^verbatim>\<open>release\<close>. Any processor may take the next step, and each step
  runs the code above.
\<close>

datatype lpc = Outside | Spinning | Recording | Critical | Releasing

record lsys =
  ls_m :: machine
  ls_lk :: spinlock
  ls_pc :: "uchar \<Rightarrow> lpc"

inductive lk_step :: "lsys \<Rightarrow> lsys \<Rightarrow> bool" where
  enter: "ls_pc s a = Outside \<Longrightarrow> acquire_enter a (ls_lk s) (ls_m s) = Ok m \<Longrightarrow>
     lk_step s (s\<lparr>ls_m := m, ls_pc := (ls_pc s)(a := Spinning)\<rparr>)"
| spin: "ls_pc s a = Spinning \<Longrightarrow> xchg_locked (ls_lk s) = (old, lk) \<Longrightarrow>
     lk_step s (s\<lparr>ls_lk := lk,
       ls_pc := (ls_pc s)(a := if old \<noteq> 0 then Spinning else Recording)\<rparr>)"
| record_cpu: "ls_pc s a = Recording \<Longrightarrow> acquire_record a pcs (ls_lk s) (ls_m s) = Ok lk \<Longrightarrow>
     lk_step s (s\<lparr>ls_lk := lk, ls_pc := (ls_pc s)(a := Critical)\<rparr>)"
| rel: "ls_pc s a = Critical \<Longrightarrow> release_enter a (ls_lk s) (ls_m s) = Ok (lk, m) \<Longrightarrow>
     lk_step s (s\<lparr>ls_lk := lk, ls_m := m, ls_pc := (ls_pc s)(a := Releasing)\<rparr>)"
| free: "ls_pc s a = Releasing \<Longrightarrow> popcli a (ls_m s) = Ok m \<Longrightarrow>
     lk_step s (s\<lparr>ls_lk := (ls_lk s)\<lparr>locked := 0\<rparr>, ls_m := m,
       ls_pc := (ls_pc s)(a := Outside)\<rparr>)"

inductive lk_reachable :: "lsys \<Rightarrow> lsys \<Rightarrow> bool" for s0 where
  start: "lk_reachable s0 s0"
| step: "lk_reachable s0 s \<Longrightarrow> lk_step s t \<Longrightarrow> lk_reachable s0 t"

definition owns :: "lsys \<Rightarrow> uchar \<Rightarrow> bool" where
  "owns s a \<longleftrightarrow> ls_pc s a \<in> {Recording, Critical, Releasing}"

text \<open>The lock word says whether some processor owns the lock, and at most one does.\<close>

definition lk_inv :: "lsys \<Rightarrow> bool" where
  "lk_inv s \<longleftrightarrow> (locked (ls_lk s) \<noteq> 0 \<longleftrightarrow> (\<exists>a. owns s a)) \<and>
     (\<forall>a b. owns s a \<longrightarrow> owns s b \<longrightarrow> a = b)"

lemma release_enter_locked:
  "release_enter a lk m = Ok (lk', m') \<Longrightarrow> locked lk' = locked lk"
  by (auto simp: release_enter_def bindR_eq_Ok_iff split: prod.splits)

lemma acquire_record_locked: "acquire_record a pcs lk m = Ok lk' \<Longrightarrow> locked lk' = locked lk"
  by (auto simp: acquire_record_def bindR_eq_Ok_iff)

lemma lk_step_inv: "lk_step s t \<Longrightarrow> lk_inv s \<Longrightarrow> lk_inv t"
proof (induction rule: lk_step.induct)
  case (enter s a m)
  then have "owns (s\<lparr>ls_m := m, ls_pc := (ls_pc s)(a := Spinning)\<rparr>) = owns s"
    by (auto simp: owns_def fun_eq_iff)
  with enter show ?case by (simp add: lk_inv_def)
next
  case (spin s a old lk)
  then have lk: "old = locked (ls_lk s)" "locked lk = 1" by (auto simp: xchg_locked_def)
  show ?case
  proof (cases "old = 0")
    case True
    with lk spin.prems have "\<not> owns s b" for b by (auto simp: lk_inv_def)
    with True lk show ?thesis by (auto simp: lk_inv_def owns_def)
  next
    case False
    with spin.hyps have "owns (s\<lparr>ls_lk := lk,
        ls_pc := (ls_pc s)(a := if old \<noteq> 0 then Spinning else Recording)\<rparr>) = owns s"
      by (auto simp: owns_def fun_eq_iff)
    with False lk spin.prems show ?thesis by (simp add: lk_inv_def)
  qed
next
  case (record_cpu s a pcs lk)
  then have "owns (s\<lparr>ls_lk := lk, ls_pc := (ls_pc s)(a := Critical)\<rparr>) = owns s"
    by (auto simp: owns_def fun_eq_iff)
  moreover have "locked lk = locked (ls_lk s)"
    using record_cpu acquire_record_locked by blast
  ultimately show ?case using record_cpu.prems by (simp add: lk_inv_def)
next
  case (rel s a lk m)
  then have "owns (s\<lparr>ls_lk := lk, ls_m := m, ls_pc := (ls_pc s)(a := Releasing)\<rparr>) = owns s"
    by (auto simp: owns_def fun_eq_iff)
  moreover have "locked lk = locked (ls_lk s)"
    using rel release_enter_locked by blast
  ultimately show ?case using rel.prems by (simp add: lk_inv_def)
next
  case (free s a m)
  then have "owns s a" by (simp add: owns_def)
  with free.prems have "\<not> owns s b" if "b \<noteq> a" for b using that by (auto simp: lk_inv_def)
  then show ?case by (auto simp: lk_inv_def owns_def)
qed

definition lk_initial :: "lsys \<Rightarrow> bool" where
  "lk_initial s \<longleftrightarrow> locked (ls_lk s) = 0 \<and> (\<forall>a. ls_pc s a = Outside)"

lemma lk_reachable_inv: "lk_reachable s0 s \<Longrightarrow> lk_initial s0 \<Longrightarrow> lk_inv s"
proof (induction rule: lk_reachable.induct)
  case start
  then show ?case by (auto simp: lk_inv_def lk_initial_def owns_def)
next
  case (step s t)
  then show ?case by (blast intro: lk_step_inv)
qed

section \<open>Properties\<close>

text \<open>
  C3: Two processors are never in the critical section of one lock at the same time, in any
  interleaving of the steps of acquire and release, including the window between the atomic exchange
  and the recording of the owner.
\<close>

theorem mutual_exclusion:
  assumes "lk_reachable s0 s" "lk_initial s0" "ls_pc s a = Critical" "ls_pc s b = Critical"
  shows "a = b"
  using lk_reachable_inv [OF assms(1,2)] assms(3,4) by (auto simp: lk_inv_def owns_def)

text \<open>A machine with one processor, number 0, interrupts on; it takes the lock.\<close>

definition demo_machine :: machine where
  "demo_machine = \<lparr>cpus = [\<lparr>apicid = 0, ncli = 0, intena = False, cpu_proc = None\<rparr>], fl_if = (\<lambda>_. True)\<rparr>"

definition demo_lsys :: lsys where
  "demo_lsys = \<lparr>ls_m = demo_machine, ls_lk = \<lparr>locked = 0, lk_name = ''demo'', lk_cpu = None, lk_pcs = replicate 10 0\<rparr>,
     ls_pc = (\<lambda>_. Outside)\<rparr>"

lemma demo_takes_lock: "\<exists>s. lk_reachable demo_lsys s \<and> ls_pc s 0 = Critical"
proof -
  obtain m where m: "acquire_enter 0 (ls_lk demo_lsys) (ls_m demo_lsys) = Ok m" "cpus m \<noteq> []"
    "apicid (hd (cpus m)) = 0" "\<not> fl_if m 0"
    by (simp add: acquire_enter_def holding_def pushcli_def popcli_def mycpu_def readeflags_if_def cli_def
        set_cpu_def find_index_def sti_def demo_lsys_def demo_machine_def Let_def)
  define s1 where "s1 = demo_lsys\<lparr>ls_m := m, ls_pc := (ls_pc demo_lsys)(0 := Spinning)\<rparr>"
  have 1: "lk_step demo_lsys s1" unfolding s1_def using m(1) by (intro lk_step.enter) (simp add: demo_lsys_def)
  define lk where "lk = (ls_lk demo_lsys)\<lparr>locked := 1\<rparr>"
  define s2 where "s2 = s1\<lparr>ls_lk := lk, ls_pc := (ls_pc s1)(0 := Recording)\<rparr>"
  have "lk_step s1 (s1\<lparr>ls_lk := lk, ls_pc := (ls_pc s1)(0 := if (0::uint) \<noteq> 0 then Spinning else Recording)\<rparr>)"
    by (rule lk_step.spin) (simp_all add: s1_def xchg_locked_def demo_lsys_def lk_def)
  then have 2: "lk_step s1 s2" by (simp add: s2_def)
  have "mycpu 0 m = Ok 0"
    using m(2-4) by (cases "cpus m") (auto simp: mycpu_def readeflags_if_def find_index_def)
  then have 3: "lk_step s2 (s2\<lparr>ls_lk := lk\<lparr>lk_cpu := Some 0, lk_pcs := []\<rparr>, ls_pc := (ls_pc s2)(0 := Critical)\<rparr>)"
    by (intro lk_step.record_cpu [where pcs = "[]"]) (simp_all add: s2_def s1_def acquire_record_def)
  note r = lk_reachable.step [OF lk_reachable.step [OF lk_reachable.step [OF lk_reachable.start 1] 2] 3]
  show ?thesis by (rule exI, rule conjI, rule r) simp
qed

theorem mutual_exclusion_witness:
  "\<exists>s. lk_reachable demo_lsys s \<and> ls_pc s 0 = Critical \<and> (\<forall>b. ls_pc s b = Critical \<longrightarrow> b = 0)"
proof -
  obtain s where s: "lk_reachable demo_lsys s" "ls_pc s 0 = Critical" using demo_takes_lock by blast
  have i: "lk_initial demo_lsys" by (simp add: lk_initial_def demo_lsys_def)
  show ?thesis using s mutual_exclusion [OF s(1) i _ s(2)] by blast
qed

end
