(* ===== verification/Sched.thy ===== *)
theory Sched
  imports Proc Spinlock
begin

text \<open>
  The four schedulers of \<^verbatim>\<open>scheduler()\<close> (\<^verbatim>\<open>proc.c\<close>), \<^verbatim>\<open>sched\<close>, the timer part of
  \<^verbatim>\<open>trap()\<close> (\<^verbatim>\<open>trap.c\<close>) and \<^verbatim>\<open>switchuvm\<close>/\<^verbatim>\<open>switchkvm\<close> (\<^verbatim>\<open>vm.c\<close>) as far
  as they set this CPU's registers. Each definition is one turn of the \<^verbatim>\<open>for(;;)\<close>
  loop, from taking \<^verbatim>\<open>ptable.lock\<close> to releasing it.

  \<open>swtch p s\<close> stands for \<^verbatim>\<open>swtch(&(c->scheduler), p->context)\<close>: the state in which
  the process \<open>p\<close>, and whatever else ran meanwhile, hands the CPU back through
  \<^verbatim>\<open>sched()\<close>. It is an argument of the schedulers; what may happen during it is
  described by the steps of the theory \<^verbatim>\<open>Mlfq_System\<close>.
\<close>

section \<open>Switching address spaces\<close>

definition switchuvm :: "nat \<Rightarrow> 'a kproc_scheme \<Rightarrow> 'a kproc_scheme res" where
  "switchuvm p s =
     bindR (nthR (ptable s) p) (\<lambda>x.
     bindR (guardR (p_kstack x \<noteq> 0) ''switchuvm: no kstack'') (\<lambda>_.
     bindR (guardR (p_pgdir x \<noteq> 0) ''switchuvm: no pgdir'') (\<lambda>_.
     Ok (s\<lparr>ts_esp0 := p_kstack x + of_nat KSTACKSIZE, cr3 := V2P (p_pgdir x)\<rparr>))))"

definition switchkvm :: "'a kproc_scheme \<Rightarrow> 'a kproc_scheme" where
  "switchkvm s = s\<lparr>cr3 := V2P (kpgdir s)\<rparr>"

section \<open>Running the chosen process\<close>

text \<open>The block common to the first three policies.\<close>

definition run_proc ::
  "(nat \<Rightarrow> 'a kproc_scheme \<Rightarrow> 'a kproc_scheme res) \<Rightarrow> nat \<Rightarrow> 'a kproc_scheme \<Rightarrow> 'a kproc_scheme res" where
  "run_proc swtch p s =
     bindR (switchuvm p (s\<lparr>c_proc := Some p\<rparr>)) (\<lambda>s1.
     let s2 = upd_proc p (\<lambda>x. x\<lparr>p_n_run := p_n_run x + 1, p_state := RUNNING\<rparr>) s1 in
     bindR (swtch p s2) (\<lambda>s3.
     Ok ((switchkvm s3)\<lparr>c_proc := None\<rparr>)))"

section \<open>Round robin\<close>

fun rr_loop ::
  "(nat \<Rightarrow> 'a kproc_scheme \<Rightarrow> 'a kproc_scheme res) \<Rightarrow> nat list \<Rightarrow> 'a kproc_scheme \<Rightarrow> 'a kproc_scheme res" where
  "rr_loop swtch [] s = Ok s"
| "rr_loop swtch (p # ps) s =
     (if p_state (ptable s ! p) \<noteq> RUNNABLE then rr_loop swtch ps s
      else bindR (run_proc swtch p s) (rr_loop swtch ps))"

definition scheduler_RR ::
  "(nat \<Rightarrow> 'a kproc_scheme \<Rightarrow> 'a kproc_scheme res) \<Rightarrow> 'a kproc_scheme \<Rightarrow> 'a kproc_scheme res" where
  "scheduler_RR swtch s = rr_loop swtch [0..<NPROC] s"

section \<open>First come first served\<close>

fun fcfs_pick :: "proc list \<Rightarrow> nat list \<Rightarrow> nat option \<Rightarrow> nat option" where
  "fcfs_pick pt [] first_process = first_process"
| "fcfs_pick pt (p # ps) first_process =
     (if p_state (pt ! p) \<noteq> RUNNABLE then fcfs_pick pt ps first_process
      else case first_process of
             None \<Rightarrow> fcfs_pick pt ps (Some p)
           | Some f \<Rightarrow> if p_ctime (pt ! f) < p_ctime (pt ! p) then fcfs_pick pt ps (Some p)
                       else fcfs_pick pt ps (Some f))"

definition scheduler_FCFS ::
  "(nat \<Rightarrow> 'a kproc_scheme \<Rightarrow> 'a kproc_scheme res) \<Rightarrow> 'a kproc_scheme \<Rightarrow> 'a kproc_scheme res" where
  "scheduler_FCFS swtch s =
     (case fcfs_pick (ptable s) [0..<NPROC] None of
        None \<Rightarrow> Ok s
      | Some p \<Rightarrow> if p_state (ptable s ! p) = RUNNABLE then run_proc swtch p s else Ok s)"

section \<open>Priority based\<close>

fun pbs_pick :: "proc list \<Rightarrow> nat list \<Rightarrow> nat option \<Rightarrow> nat option" where
  "pbs_pick pt [] hi = hi"
| "pbs_pick pt (p # ps) hi =
     (if p_state (pt ! p) \<noteq> RUNNABLE then pbs_pick pt ps hi
      else case hi of
             None \<Rightarrow> pbs_pick pt ps (Some p)
           | Some h \<Rightarrow> if p_priority (pt ! h) > p_priority (pt ! p) then pbs_pick pt ps (Some p)
                       else pbs_pick pt ps (Some h))"

text \<open>The inner loop: is some runnable process now strictly more important than \<open>h\<close>?\<close>

definition pbs_outranked :: "proc list \<Rightarrow> nat \<Rightarrow> bool" where
  "pbs_outranked pt h \<longleftrightarrow>
     (\<exists>x \<in> set pt. p_state x = RUNNABLE \<and> p_priority x < p_priority (pt ! h))"

fun pbs_loop ::
  "(nat \<Rightarrow> 'a kproc_scheme \<Rightarrow> 'a kproc_scheme res) \<Rightarrow> nat \<Rightarrow> nat list \<Rightarrow> 'a kproc_scheme \<Rightarrow>
   'a kproc_scheme res" where
  "pbs_loop swtch h [] s = Ok s"
| "pbs_loop swtch h (p # ps) s =
     (if pbs_outranked (ptable s) h then Ok s
      else if p_state (ptable s ! p) \<noteq> RUNNABLE then pbs_loop swtch h ps s
      else if p_priority (ptable s ! p) = p_priority (ptable s ! h)
           then bindR (run_proc swtch p s) (pbs_loop swtch h ps)
           else pbs_loop swtch h ps s)"

definition scheduler_PBS ::
  "(nat \<Rightarrow> 'a kproc_scheme \<Rightarrow> 'a kproc_scheme res) \<Rightarrow> 'a kproc_scheme \<Rightarrow> 'a kproc_scheme res" where
  "scheduler_PBS swtch s =
     (case pbs_pick (ptable s) [0..<NPROC] None of
        None \<Rightarrow> Ok s
      | Some h \<Rightarrow> pbs_loop swtch h [0..<NPROC] s)"

section \<open>Multi-level feedback queues\<close>

definition max_queue_ticks :: "int list" where
  "max_queue_ticks = [2, 4, 8, 16, 32]"

text \<open>\<^verbatim>\<open>int aged = ticks - p->qtime\<close>: computed unsigned, stored in an \<^verbatim>\<open>int\<close>.\<close>

definition aged :: "uint \<Rightarrow> proc \<Rightarrow> int" where
  "aged now p = sint (now - word_of_int (p_qtime p))"

text \<open>
  The body of the aging loop for the process at position \<open>j\<close> of queue \<open>i\<close>. The
  variables \<open>alread\<close> and \<open>ind\<close> of the scheduler live on between iterations and are
  not reset before the search in queue \<open>i\<close>, so they are threaded through.
\<close>

definition age_remove ::
  "nat \<Rightarrow> int \<Rightarrow> bool \<times> nat \<times> 'a kproc_scheme \<Rightarrow> (nat \<times> 'a kproc_scheme) res" where
  "age_remove i pid v =
     (case v of (alread, ind, s) \<Rightarrow>
      bindR (q_find (pid_of s) i pid s) (\<lambda>found.
      let (alread1, ind1) = (case found of Some k \<Rightarrow> (True, k) | None \<Rightarrow> (alread, ind)) in
      bindR (if alread1 then q_delete_at i ind1 s else Ok s) (\<lambda>s1. Ok (ind1, s1))))"

definition age_insert ::
  "nat \<Rightarrow> nat \<Rightarrow> int \<Rightarrow> 'a kproc_scheme \<Rightarrow> (bool \<times> 'a kproc_scheme) res" where
  "age_insert c p pid s =
     bindR (q_find (pid_of s) c pid s) (\<lambda>found.
     case found of
       Some _ \<Rightarrow> Ok (True, s)
     | None \<Rightarrow>
         bindR (q_append c p (upd_proc p (\<lambda>y. y\<lparr>p_cur_q := int c\<rparr>) s)) (\<lambda>s1.
         Ok (False, set_qtime p s1)))"

definition age_entry ::
  "nat \<Rightarrow> nat \<Rightarrow> bool \<times> nat \<times> 'a kproc_scheme \<Rightarrow> (bool \<times> nat \<times> 'a kproc_scheme) res" where
  "age_entry i j v =
     (let s = snd (snd v) in
      bindR (nthR (qu s) i) (\<lambda>row. bindR (nthR row j) (\<lambda>e. bindR (derefR e) (\<lambda>p.
      bindR (nthR (ptable s) p) (\<lambda>x.
      if aged (ticks s) x > 25
      then bindR (age_remove i (p_pid x) v) (\<lambda>(ind1, s1).
           bindR (age_insert (i - 1) p (p_pid x) s1) (\<lambda>(alread2, s2).
           Ok (alread2, ind1, s2)))
      else Ok v)))))"

lemma q_delete_at_q_index:
  "q_delete_at c ind s = Ok s' \<Longrightarrow> c < length (q_index s) \<and> q_index s' = (q_index s)[c := q_index s ! c - 1]"
  by (auto simp: q_delete_at_def bindR_eq_Ok_iff)

lemma q_append_q_index:
  "q_append c p s = Ok s' \<Longrightarrow> q_index s' = (q_index s)[c := q_index s ! c + 1]"
  by (auto simp: q_append_def bindR_eq_Ok_iff split: if_splits)

lemma upd_proc_q [simp]:
  "q_index (upd_proc p f s) = q_index s" "qu (upd_proc p f s) = qu s"
  "q_index (set_qtime p s) = q_index s" "qu (set_qtime p s) = qu s"
  by (simp_all add: upd_proc_def set_qtime_def)

lemma age_remove_q_index:
  assumes "age_remove i pid (a, d, s) = Ok (d', s')"
  shows "q_index s' ! i \<le> q_index s ! i"
proof -
  have "s' = s \<or> (\<exists>k. q_delete_at i k s = Ok s')"
    using assms unfolding age_remove_def
    by (cases "q_find (pid_of s) i pid s"; cases a)
      (simp_all add: Let_def bindR_eq_Ok_iff split: option.splits, blast+)
  then show ?thesis
    using q_delete_at_q_index [of i _ s s'] by fastforce
qed

lemma age_insert_q_index:
  assumes "age_insert c p pid s = Ok (a, s')" "c \<noteq> i"
  shows "q_index s' ! i = q_index s ! i"
proof -
  have "s' = s \<or> (\<exists>s1. q_append c p (upd_proc p (\<lambda>y. y\<lparr>p_cur_q := int c\<rparr>) s) = Ok s1 \<and>
      s' = set_qtime p s1)"
    using assms(1) unfolding age_insert_def
    by (cases "q_find (pid_of s) c pid s") (auto simp: bindR_eq_Ok_iff split: option.splits)
  then show ?thesis
    using assms(2) by (auto dest: q_append_q_index)
qed

lemma age_entry_q_index:
  assumes "age_entry i j v = Ok w" "0 < i"
  shows "q_index (snd (snd w)) ! i \<le> q_index (snd (snd v)) ! i"
proof -
  obtain a d s where v: "v = (a, d, s)" by (cases v)
  have "w = v \<or> (\<exists>pid p ind1 s1 a2 s2. age_remove i pid v = Ok (ind1, s1) \<and>
      age_insert (i - 1) p pid s1 = Ok (a2, s2) \<and> w = (a2, ind1, s2))"
    using assms(1) unfolding age_entry_def
    by (auto simp: bindR_eq_Ok_iff Let_def split: if_splits)
  then show ?thesis
  proof (elim disjE exE conjE)
    fix pid p ind1 s1 a2 s2
    assume "age_remove i pid v = Ok (ind1, s1)" "age_insert (i - 1) p pid s1 = Ok (a2, s2)"
      "w = (a2, ind1, s2)"
    then show ?thesis
      using age_remove_q_index [of i pid a d s ind1 s1]
        age_insert_q_index [of "i - 1" p pid s1 a2 s2 i] v assms(2) by simp
  qed simp
qed

text \<open>\<^verbatim>\<open>for(int j=0;j<=q_index[i];j++)\<close>; the bound is read again in each turn.\<close>

function age_queue ::
  "nat \<Rightarrow> nat \<Rightarrow> bool \<times> nat \<times> 'a kproc_scheme \<Rightarrow> (bool \<times> nat \<times> 'a kproc_scheme) res" where
  "age_queue i j v =
     (if 0 < i \<and> int j \<le> q_index (snd (snd v)) ! i
      then bindR (age_entry i j v) (age_queue i (Suc j))
      else Ok v)"
  by pat_completeness auto
termination
proof (relation "measure (\<lambda>(i, j, v). nat (q_index (snd (snd v)) ! i + 1 - int j))", simp)
  fix i j and v w :: "bool \<times> nat \<times> 'a kproc_scheme"
  assume "0 < i \<and> int j \<le> q_index (snd (snd v)) ! i" and "age_entry i j v = Ok w"
  moreover have "q_index (snd (snd w)) ! i \<le> q_index (snd (snd v)) ! i"
    using age_entry_q_index calculation by blast
  ultimately show "((i, Suc j, w), i, j, v)
      \<in> measure (\<lambda>(i, j, v). nat (q_index (snd (snd v)) ! i + 1 - int j))" by auto
qed

declare age_queue.simps [simp del]

definition age_all :: "'a kproc_scheme \<Rightarrow> 'a kproc_scheme res" where
  "age_all s =
     bindR (age_queue 1 0 (False, 0, s)) (\<lambda>v1.
     bindR (age_queue 2 0 v1) (\<lambda>v2.
     bindR (age_queue 3 0 v2) (\<lambda>v3.
     bindR (age_queue 4 0 v3) (\<lambda>(alread, ind, s4). Ok s4))))"

text \<open>The block run for the head \<open>p\<close> of queue \<open>i\<close>, before and after \<^verbatim>\<open>swtch\<close>.\<close>

definition q_at :: "proc \<Rightarrow> int \<Rightarrow> int res" where
  "q_at x c = bindR (idx c) (\<lambda>k. nthR (p_q x) k)"

definition max_at :: "int \<Rightarrow> int res" where
  "max_at c = bindR (idx c) (\<lambda>k. nthR max_queue_ticks k)"

definition mlfq_before :: "nat \<Rightarrow> nat \<Rightarrow> 'a kproc_scheme \<Rightarrow> 'a kproc_scheme res" where
  "mlfq_before i p s =
     bindR (nthR (ptable s) p) (\<lambda>x.
     bindR (q_at x (int i)) (\<lambda>t.
     bindR (max_at (int i)) (\<lambda>mx.
     let s1 = upd_proc p (\<lambda>y. y\<lparr>p_q := (p_q y)[i := t + 1], p_flg := (p_flg y \<or> t + 1 \<ge> mx)\<rparr>) s in
     bindR (dequeue (int i) (p_pid x) s1) (\<lambda>s2.
     let s3 = (upd_proc p (\<lambda>y. y\<lparr>p_n_run := p_n_run y + 1\<rparr>) s2)\<lparr>c_proc := Some p\<rparr> in
     bindR (switchuvm p s3) (\<lambda>s4.
     Ok (upd_proc p (\<lambda>y. y\<lparr>p_state := RUNNING\<rparr>) s4))))))"

definition mlfq_demote :: "proc \<Rightarrow> proc res" where
  "mlfq_demote x =
     bindR (q_at x (p_cur_q x)) (\<lambda>t.
     bindR (max_at (p_cur_q x)) (\<lambda>mx.
     let flg = (p_flg x \<or> t \<ge> mx) in
     Ok (if flg then x\<lparr>p_flg := False,
                       p_cur_q := (if p_cur_q x < 4 then p_cur_q x + 1 else p_cur_q x)\<rparr>
         else x)))"

definition mlfq_after :: "nat \<Rightarrow> 'a kproc_scheme \<Rightarrow> 'a kproc_scheme res" where
  "mlfq_after p s =
     (let s1 = (switchkvm s)\<lparr>c_proc := None\<rparr> in
      bindR (nthR (ptable s1) p) (\<lambda>x.
      if p_state x = RUNNABLE
      then bindR (mlfq_demote x) (\<lambda>x1. enqueue_timed p (upd_proc p (\<lambda>_. x1) s1))
      else Ok s1))"

text \<open>\<^verbatim>\<open>for(int i=0;i<5;i++) if(q_index[i]>=0) { ...; break; }\<close>\<close>

fun mlfq_select ::
  "(nat \<Rightarrow> 'a kproc_scheme \<Rightarrow> 'a kproc_scheme res) \<Rightarrow> nat list \<Rightarrow> 'a kproc_scheme \<Rightarrow>
   'a kproc_scheme res" where
  "mlfq_select swtch [] s = Ok s"
| "mlfq_select swtch (i # is) s =
     bindR (nthR (q_index s) i) (\<lambda>k.
     if k \<ge> 0
     then bindR (nthR (qu s) i) (\<lambda>row. bindR (nthR row 0) (\<lambda>e.
          case e of
            None \<Rightarrow> Ok s
          | Some p \<Rightarrow>
              bindR (nthR (ptable s) p) (\<lambda>x.
              if p_state x = RUNNABLE
              then bindR (mlfq_before i p s) (\<lambda>s1. bindR (swtch p s1) (mlfq_after p))
              else Ok s)))
     else mlfq_select swtch is s)"

definition scheduler_MLFQ ::
  "(nat \<Rightarrow> 'a kproc_scheme \<Rightarrow> 'a kproc_scheme res) \<Rightarrow> 'a kproc_scheme \<Rightarrow> 'a kproc_scheme res" where
  "scheduler_MLFQ swtch s =
     bindR (age_all s) (mlfq_select swtch [0..<NQUEUE])"

definition scheduler ::
  "sched_policy \<Rightarrow> (nat \<Rightarrow> 'a kproc_scheme \<Rightarrow> 'a kproc_scheme res) \<Rightarrow> 'a kproc_scheme \<Rightarrow>
   'a kproc_scheme res" where
  "scheduler cfg swtch s =
     (case cfg of RR \<Rightarrow> scheduler_RR swtch s | FCFS \<Rightarrow> scheduler_FCFS swtch s
      | PBS \<Rightarrow> scheduler_PBS swtch s | MLFQ \<Rightarrow> scheduler_MLFQ swtch s)"

section \<open>sched\<close>

text \<open>
  The checks of \<^verbatim>\<open>sched()\<close> on the processor with APIC identifier \<open>aid\<close>, the lock
  \<open>lk\<close> being \<^verbatim>\<open>ptable.lock\<close>; the result is the saved \<open>intena\<close>.
\<close>

definition sched ::
  "uchar \<Rightarrow> spinlock \<Rightarrow> machine \<Rightarrow> nat \<Rightarrow> 'a kproc_scheme \<Rightarrow> (bool \<times> machine) res" where
  "sched aid lk m p s =
     bindR (holding aid lk m) (\<lambda>(h, m1).
     bindR (guardR h ''sched ptable.lock'') (\<lambda>_.
     bindR (mycpu aid m1) (\<lambda>i.
     bindR (guardR (ncli (cpus m1 ! i) = 1) ''sched locks'') (\<lambda>_.
     bindR (guardR (p_state (ptable s ! p) \<noteq> RUNNING) ''sched running'') (\<lambda>_.
     bindR (guardR (\<not> readeflags_if aid m1) ''sched interruptible'') (\<lambda>_.
     Ok (intena (cpus m1 ! i), m1)))))))"

section \<open>The timer interrupt\<close>

definition tick_proc :: "proc \<Rightarrow> proc" where
  "tick_proc p =
     (if p_state p = RUNNING then p\<lparr>p_rtime := p_rtime p + 1\<rparr>
      else if p_state p = SLEEPING then p\<lparr>p_iotime := p_iotime p + 1\<rparr>
      else p)"

text \<open>
  \<^verbatim>\<open>case T_IRQ0 + IRQ_TIMER\<close> of \<^verbatim>\<open>trap()\<close> on CPU 0: the accounting under
  \<^verbatim>\<open>ptable.lock\<close>, then \<^verbatim>\<open>wakeup(&ticks)\<close>, which takes the lock again.
\<close>

definition timer_account :: "'a kproc_scheme \<Rightarrow> 'a kproc_scheme" where
  "timer_account s = s\<lparr>ticks := ticks s + 1, ptable := map tick_proc (ptable s)\<rparr>"

definition timer_tick :: "sched_policy \<Rightarrow> 'a kproc_scheme \<Rightarrow> 'a kproc_scheme res" where
  "timer_tick cfg s = wakeup cfg TicksChan (timer_account s)"

definition max_queue_tick :: "int list" where
  "max_queue_tick = [2, 4, 8, 16, 32]"

text \<open>
  The end of \<^verbatim>\<open>trap()\<close> (with the limits of \<^verbatim>\<open>trap.c\<close>, an array of its own) for a running process \<open>p\<close> on a timer interrupt; the flag says
  whether \<open>p\<close> yields.
\<close>

definition timer_preempt ::
  "sched_policy \<Rightarrow> nat \<Rightarrow> 'a kproc_scheme \<Rightarrow> (bool \<times> 'a kproc_scheme) res" where
  "timer_preempt cfg p s =
     bindR (nthR (ptable s) p) (\<lambda>x.
     if p_state x \<noteq> RUNNING then Ok (False, s)
     else case cfg of
       MLFQ \<Rightarrow>
         bindR (q_at x (p_cur_q x)) (\<lambda>t.
         bindR (bindR (idx (p_cur_q x)) (nthR max_queue_tick)) (\<lambda>mx.
         if t \<ge> mx then Ok (True, yield p (upd_proc p (\<lambda>y. y\<lparr>p_flg := True\<rparr>) s))
         else Ok (False, upd_proc p (\<lambda>y. y\<lparr>p_q := (p_q y)[nat (p_cur_q y) := t + 1]\<rparr>) s)))
     | FCFS \<Rightarrow> Ok (False, s)
     | RR \<Rightarrow> Ok (True, yield p s)
     | PBS \<Rightarrow> Ok (True, yield p s))"

section \<open>What the selections choose\<close>

text \<open>
  Both selection loops keep the first runnable process with the least key: the negated
  creation time for FCFS, the priority value for PBS.
\<close>

fun pick_min :: "(proc \<Rightarrow> int) \<Rightarrow> proc list \<Rightarrow> nat list \<Rightarrow> nat option \<Rightarrow> nat option" where
  "pick_min key pt [] acc = acc"
| "pick_min key pt (p # ps) acc =
     (if p_state (pt ! p) \<noteq> RUNNABLE then pick_min key pt ps acc
      else case acc of
             None \<Rightarrow> pick_min key pt ps (Some p)
           | Some f \<Rightarrow> pick_min key pt ps (Some (if key (pt ! p) < key (pt ! f) then p else f)))"

lemma fcfs_pick_min: "fcfs_pick pt ps acc = pick_min (\<lambda>p. - p_ctime p) pt ps acc"
  by (induction pt ps acc rule: fcfs_pick.induct) (auto split: option.splits)

lemma pbs_pick_min: "pbs_pick pt ps acc = pick_min p_priority pt ps acc"
  by (induction pt ps acc rule: pbs_pick.induct) (auto split: option.splits)

abbreviation runnable :: "proc list \<Rightarrow> nat \<Rightarrow> bool" where
  "runnable pt i \<equiv> p_state (pt ! i) = RUNNABLE"

lemma pick_min_Some:
  "pick_min key pt ps (Some f) = Some h \<Longrightarrow>
     (h = f \<and> (\<forall>i \<in> set ps. runnable pt i \<longrightarrow> key (pt ! f) \<le> key (pt ! i))) \<or>
     (\<exists>xs ys. ps = xs @ h # ys \<and> runnable pt h \<and> key (pt ! h) < key (pt ! f) \<and>
        (\<forall>i \<in> set xs. runnable pt i \<longrightarrow> key (pt ! h) < key (pt ! i)) \<and>
        (\<forall>i \<in> set ys. runnable pt i \<longrightarrow> key (pt ! h) \<le> key (pt ! i)))"
proof (induction ps arbitrary: f)
  case Nil
  then show ?case by simp
next
  case (Cons p ps)
  show ?case
  proof (cases "runnable pt p \<and> key (pt ! p) < key (pt ! f)")
    case True
    with Cons.prems have "pick_min key pt ps (Some p) = Some h" by simp
    from Cons.IH [OF this] show ?thesis
    proof (elim disjE exE conjE)
      assume "h = p" "\<forall>i \<in> set ps. runnable pt i \<longrightarrow> key (pt ! p) \<le> key (pt ! i)"
      with True have "p # ps = [] @ h # ps \<and> runnable pt h \<and> key (pt ! h) < key (pt ! f) \<and>
        (\<forall>i \<in> set []. runnable pt i \<longrightarrow> key (pt ! h) < key (pt ! i)) \<and>
        (\<forall>i \<in> set ps. runnable pt i \<longrightarrow> key (pt ! h) \<le> key (pt ! i))" by simp
      then show ?thesis by blast
    next
      fix xs ys
      assume h: "ps = xs @ h # ys" "runnable pt h" "key (pt ! h) < key (pt ! p)"
        "\<forall>i \<in> set xs. runnable pt i \<longrightarrow> key (pt ! h) < key (pt ! i)"
        "\<forall>i \<in> set ys. runnable pt i \<longrightarrow> key (pt ! h) \<le> key (pt ! i)"
      then have "p # ps = (p # xs) @ h # ys \<and> key (pt ! h) < key (pt ! f) \<and>
        (\<forall>i \<in> set (p # xs). runnable pt i \<longrightarrow> key (pt ! h) < key (pt ! i))"
        using True by auto
      with h show ?thesis by blast
    qed
  next
    case False
    with Cons.prems have "pick_min key pt ps (Some f) = Some h" by (simp split: if_splits)
    from Cons.IH [OF this] show ?thesis
    proof (elim disjE exE conjE)
      assume "h = f" "\<forall>i \<in> set ps. runnable pt i \<longrightarrow> key (pt ! f) \<le> key (pt ! i)"
      with False show ?thesis by auto
    next
      fix xs ys
      assume h: "ps = xs @ h # ys" "runnable pt h" "key (pt ! h) < key (pt ! f)"
        "\<forall>i \<in> set xs. runnable pt i \<longrightarrow> key (pt ! h) < key (pt ! i)"
        "\<forall>i \<in> set ys. runnable pt i \<longrightarrow> key (pt ! h) \<le> key (pt ! i)"
      then have "p # ps = (p # xs) @ h # ys \<and>
        (\<forall>i \<in> set (p # xs). runnable pt i \<longrightarrow> key (pt ! h) < key (pt ! i))"
        using False by auto
      with h show ?thesis by blast
    qed
  qed
qed

end
