(* ===== verification/Mlfq_Inv.thy ===== *)
theory Mlfq_Inv
  imports Sched
begin

text \<open>
  The invariant that ties the run queues of the multi-level feedback scheduler to the
  process table, and its preservation by every critical section that changes either:
  queue insertion, wakeup, kill, the timer, process allocation, reaping, aging and the
  two halves of the scheduler around \<^verbatim>\<open>swtch\<close>. Each preservation lemma also shows that
  the operation returns, so no queue array is ever indexed out of range and no null
  entry is dereferenced.
\<close>

section \<open>The invariant\<close>

definition proc_ok :: "proc \<Rightarrow> bool" where
  "proc_ok x \<longleftrightarrow> length (p_q x) = NQUEUE \<and> 0 \<le> p_cur_q x \<and> p_cur_q x < int NQUEUE \<and>
     (p_state x \<in> {RUNNABLE, RUNNING, SLEEPING} \<longrightarrow> p_kstack x \<noteq> 0 \<and> p_pgdir x \<noteq> 0) \<and>
     0 \<le> p_pid x \<and> (p_state x \<noteq> UNUSED \<longrightarrow> 0 < p_pid x)"

definition table_inv :: "proc list \<Rightarrow> int \<Rightarrow> bool" where
  "table_inv pt np \<longleftrightarrow> length pt = NPROC \<and> 1 \<le> np \<and>
     (\<forall>i < NPROC. proc_ok (pt ! i) \<and> p_pid (pt ! i) < np) \<and>
     (\<forall>i < NPROC. \<forall>j < NPROC. i \<noteq> j \<longrightarrow> p_pid (pt ! i) = p_pid (pt ! j) \<longrightarrow> p_pid (pt ! i) = 0)"

text \<open>
  A process is in queue \<open>c\<close> exactly when it is runnable and \<open>c\<close> is its current queue;
  the processes of \<open>X\<close> are the exception: they have just given up the CPU and are not
  queued yet.
\<close>

definition queues_inv :: "nat set \<Rightarrow> proc list \<Rightarrow> (nat \<Rightarrow> nat list) \<Rightarrow> bool" where
  "queues_inv X pt Q \<longleftrightarrow> (\<forall>c < NQUEUE. distinct (Q c) \<and>
     (\<forall>i < NPROC. i \<in> set (Q c) \<longleftrightarrow> runnable pt i \<and> i \<notin> X \<and> p_cur_q (pt ! i) = int c))"

definition mlfq_inv :: "nat set \<Rightarrow> 'a kproc_scheme \<Rightarrow> bool" where
  "mlfq_inv X s \<longleftrightarrow> wf_queues s \<and> table_inv (ptable s) (nextpid s) \<and> queues_inv X (ptable s) (qlist s)"

section \<open>Frames\<close>

lemma queues_frame [simp]:
  "qlist (upd_proc p f s) = qlist s" "wf_queues (upd_proc p f s) = wf_queues s"
  "qlist (set_qtime p s) = qlist s" "wf_queues (set_qtime p s) = wf_queues s"
  "nextpid (upd_proc p f s) = nextpid s" "nextpid (set_qtime p s) = nextpid s"
  "ticks (upd_proc p f s) = ticks s" "ticks (set_qtime p s) = ticks s"
  "initproc (upd_proc p f s) = initproc s" "initproc (set_qtime p s) = initproc s"
  by (simp_all add: qlist_def wf_queues_def q_len_def upd_proc_def set_qtime_def fun_eq_iff)

lemma queues_cong:
  "qu s' = qu s \<Longrightarrow> q_index s' = q_index s \<Longrightarrow> qlist s' = qlist s \<and> wf_queues s' = wf_queues s"
  by (simp add: qlist_def wf_queues_def q_len_def fun_eq_iff)

lemma ptable_upd [simp]:
  "ptable (upd_proc p f s) = (ptable s)[p := f (ptable s ! p)]"
  "ptable (set_qtime p s) = (ptable s)[p := (ptable s ! p)\<lparr>p_qtime := sint (ticks s)\<rparr>]"
  by (simp_all add: upd_proc_def set_qtime_def)

lemma only_queues_kproc:
  fixes s s' :: "'a kproc_scheme"
  assumes "only_queues s s'"
  shows "ptable s' = ptable s" "nextpid s' = nextpid s" "ticks s' = ticks s" "initproc s' = initproc s"
    "c_proc s' = c_proc s" "mem s' = mem s" "freelist s' = freelist s"
proof -
  from assms obtain a b where "s' = s\<lparr>qu := a, q_index := b\<rparr>" unfolding only_queues_def by blast
  then show "ptable s' = ptable s" "nextpid s' = nextpid s" "ticks s' = ticks s"
    "initproc s' = initproc s" "c_proc s' = c_proc s" "mem s' = mem s" "freelist s' = freelist s"
    by simp_all
qed

lemma mlfq_invD:
  assumes "mlfq_inv X s"
  shows "wf_queues s" "table_inv (ptable s) (nextpid s)" "queues_inv X (ptable s) (qlist s)"
    "length (ptable s) = NPROC"
  using assms by (simp_all add: mlfq_inv_def table_inv_def)

lemma table_invD:
  assumes "table_inv pt np" "i < NPROC"
  shows "proc_ok (pt ! i)" "i < length pt" "p_pid (pt ! i) < np" "0 \<le> p_pid (pt ! i)"
    "nat (p_cur_q (pt ! i)) < NQUEUE" "0 \<le> p_cur_q (pt ! i)" "p_cur_q (pt ! i) < int NQUEUE"
  using assms by (auto simp: table_inv_def proc_ok_def)

lemma pid_unique:
  assumes "table_inv pt np" "i < NPROC" "j < NPROC" "p_state (pt ! i) \<noteq> UNUSED"
    "p_pid (pt ! i) = p_pid (pt ! j)"
  shows "i = j"
  using assms unfolding table_inv_def proc_ok_def by (metis less_irrefl)

lemma queues_invD:
  assumes "queues_inv X pt Q" "c < NQUEUE"
  shows "distinct (Q c)" "i < NPROC \<Longrightarrow> i \<in> set (Q c) \<longleftrightarrow> runnable pt i \<and> i \<notin> X \<and> p_cur_q (pt ! i) = int c"
  using assms by (simp_all add: queues_inv_def)

text \<open>The parts of a process that the invariant looks at.\<close>

definition core :: "proc \<Rightarrow> procstate \<times> int \<times> int \<times> uint \<times> uint \<times> nat" where
  "core x = (p_state x, p_cur_q x, p_pid x, p_kstack x, p_pgdir x, length (p_q x))"

lemma proc_ok_core: "core x = core y \<Longrightarrow> proc_ok x = proc_ok y"
  by (simp add: core_def proc_ok_def)

lemma mlfq_inv_core:
  assumes inv: "mlfq_inv X s" and q: "qu s' = qu s" "q_index s' = q_index s" "nextpid s' = nextpid s"
    and len: "length (ptable s') = NPROC"
    and eq: "\<And>i. i < NPROC \<Longrightarrow> core (ptable s' ! i) = core (ptable s ! i)"
  shows "mlfq_inv X s'"
proof -
  have e: "p_state (ptable s' ! i) = p_state (ptable s ! i)" "p_cur_q (ptable s' ! i) = p_cur_q (ptable s ! i)"
    "p_pid (ptable s' ! i) = p_pid (ptable s ! i)" "proc_ok (ptable s' ! i) = proc_ok (ptable s ! i)"
    if "i < NPROC" for i
    using eq [OF that] proc_ok_core [OF eq [OF that]] by (simp_all add: core_def)
  have "table_inv (ptable s') (nextpid s')"
    using mlfq_invD(2) [OF inv] len q(3) by (simp add: table_inv_def e)
  moreover have "queues_inv X (ptable s') (qlist s')"
    using mlfq_invD(3) [OF inv] queues_cong [OF q(1,2)] by (simp add: queues_inv_def e)
  ultimately show ?thesis using mlfq_invD(1) [OF inv] queues_cong [OF q(1,2)] by (simp add: mlfq_inv_def)
qed

lemma mlfq_inv_upd_core:
  assumes "mlfq_inv X s" "core (f (ptable s ! p)) = core (ptable s ! p)"
  shows "mlfq_inv X (upd_proc p f s)"
  using mlfq_invD(4) [OF assms(1)] assms(2)
  by (intro mlfq_inv_core [OF assms(1)]) (auto simp: nth_list_update_if upd_proc_def)

lemma core_simps [simp]:
  "core (x\<lparr>p_qtime := v\<rparr>) = core x" "core (x\<lparr>p_n_run := n\<rparr>) = core x" "core (x\<lparr>p_flg := b\<rparr>) = core x"
  "core (x\<lparr>p_killed := b\<rparr>) = core x" "core (x\<lparr>p_chan := c\<rparr>) = core x" "core (x\<lparr>p_priority := n\<rparr>) = core x"
  "core (x\<lparr>p_parent := q\<rparr>) = core x" "core (x\<lparr>p_rtime := n\<rparr>) = core x" "core (x\<lparr>p_iotime := n\<rparr>) = core x"
  "core (x\<lparr>p_q := (p_q x)[i := n], p_flg := b\<rparr>) = core x" "core (x\<lparr>p_q := (p_q x)[i := n]\<rparr>) = core x"
  by (simp_all add: core_def)

lemma mlfq_inv_set_qtime [simp]: "mlfq_inv X s \<Longrightarrow> mlfq_inv X (set_qtime p s)"
  unfolding set_qtime_def by (rule mlfq_inv_upd_core) simp_all

text \<open>A process that is in no queue may change its state and its queue number.\<close>

lemma mlfq_inv_upd_unqueued:
  assumes inv: "mlfq_inv X s" and p: "p < NPROC" "\<not> runnable (ptable s) p \<or> p \<in> X"
    and ok: "proc_ok (f (ptable s ! p))"
    and pid: "p_pid (f (ptable s ! p)) = p_pid (ptable s ! p) \<or> p_pid (f (ptable s ! p)) = 0"
    and Y: "Y - {p} = X - {p}" "p_state (f (ptable s ! p)) = RUNNABLE \<Longrightarrow> p \<in> Y"
  shows "mlfq_inv Y (upd_proc p f s)"
proof -
  let ?pt = "ptable (upd_proc p f s)"
  note D = mlfq_invD [OF inv]
  have nth: "?pt ! i = (if i = p then f (ptable s ! p) else ptable s ! i)" if "i < NPROC" for i
    using that D(4) by (simp add: nth_list_update)
  have "p_pid (?pt ! i) = p_pid (ptable s ! i) \<or> p_pid (?pt ! i) = 0" if "i < NPROC" for i
    using nth [OF that] pid by simp
  then have "p_pid (?pt ! i) < nextpid s" "p_pid (?pt ! i) = p_pid (?pt ! j) \<Longrightarrow> i \<noteq> j \<Longrightarrow> p_pid (?pt ! i) = 0"
    if "i < NPROC" "j < NPROC" for i j
    using that D(2) unfolding table_inv_def by (metis less_le_trans zero_less_one)+
  moreover have "proc_ok (?pt ! i)" if "i < NPROC" for i
    using nth [OF that] ok table_invD(1) [OF D(2) that] by simp
  ultimately have "table_inv ?pt (nextpid s)"
    using D(2,4) unfolding table_inv_def by (simp del: ptable_upd) (simp add: ptable_upd)
  moreover have "queues_inv Y ?pt (qlist s)"
    unfolding queues_inv_def
  proof (intro allI impI conjI)
    fix c assume c: "c < NQUEUE"
    then show "distinct (qlist s c)" by (rule queues_invD(1) [OF D(3)])
    fix i assume i: "i < NPROC"
    show "i \<in> set (qlist s c) \<longleftrightarrow> runnable ?pt i \<and> i \<notin> Y \<and> p_cur_q (?pt ! i) = int c"
    proof (cases "i = p")
      case True
      then show ?thesis using queues_invD(2) [OF D(3) c i] p(2) Y(2) nth [OF i] by auto
    next
      case False
      then have "i \<in> Y \<longleftrightarrow> i \<in> X" using Y(1) by blast
      with False show ?thesis using queues_invD(2) [OF D(3) c i] nth [OF i] by simp
    qed
  qed
  ultimately show ?thesis using D(1) by (simp add: mlfq_inv_def)
qed

section \<open>Queue insertion\<close>

lemma pid_of_queued:
  assumes "mlfq_inv X s" "c < NQUEUE" "x \<in> set (qlist s c)"
  shows "pid_of s x = Ok (p_pid (ptable s ! x))" "x < NPROC" "runnable (ptable s) x"
    "x \<notin> X" "p_cur_q (ptable s ! x) = int c"
proof -
  note D = mlfq_invD [OF assms(1)]
  show x: "x < NPROC" using qlist_bounded [OF D(1) assms(2,3)] .
  then show "pid_of s x = Ok (p_pid (ptable s ! x))" using D(4) by (simp add: pid_of_def)
  show "runnable (ptable s) x" "x \<notin> X" "p_cur_q (ptable s ! x) = int c"
    using queues_invD(2) [OF D(3) assms(2) x] assms(3) by auto
qed

lemma q_find_pid:
  assumes "mlfq_inv X s" "c < NQUEUE"
  shows "q_find (pid_of s) c pid s =
    Ok (find_index (\<lambda>x. p_pid (ptable s ! x) = pid) (qlist s c))"
  using pid_of_queued(1) [OF assms]
  by (intro mlfq_q.find_law [OF mlfq_invD(1) [OF assms(1)] assms(2)])

lemma q_find_absent:
  assumes "mlfq_inv X s" "c < NQUEUE" "p < NPROC" "p \<notin> set (qlist s c)" "p_state (ptable s ! p) \<noteq> UNUSED"
  shows "q_find (pid_of s) c (p_pid (ptable s ! p)) s = Ok None"
proof -
  have "p_pid (ptable s ! x) \<noteq> p_pid (ptable s ! p)" if "x \<in> set (qlist s c)" for x
    using pid_unique [OF mlfq_invD(2) [OF assms(1)] assms(3) pid_of_queued(2) [OF assms(1,2) that] assms(5)]
      that assms(4) by metis
  then show ?thesis using q_find_pid [OF assms(1,2)] by (simp add: find_index_None_iff)
qed

lemma mlfq_inv_append:
  assumes inv: "mlfq_inv X s" and p: "p < NPROC" "p \<in> X" "runnable (ptable s) p"
    and c: "c < NQUEUE" "p_cur_q (ptable s ! p) = int c"
  shows "\<exists>s'. q_append c p s = Ok s' \<and> only_queues s s' \<and> mlfq_inv (X - {p}) s' \<and>
    qlist s' = (qlist s)(c := qlist s c @ [p])"
proof -
  note D = mlfq_invD [OF inv]
  have out: "p \<notin> set (qlist s d)" if "d < NQUEUE" for d
    using queues_invD(2) [OF D(3) that p(1)] p(2) by blast
  obtain s' where s': "q_append c p s = Ok s'" "wf_queues s'" "only_queues s s'"
    "qlist s' = (qlist s)(c := qlist s c @ [p])"
    using mlfq_q.append_fresh [OF D(1) c(1) queues_invD(1) [OF D(3) c(1)] p(1) out [OF c(1)]] by blast
  note f = only_queues_kproc [OF s'(3)]
  have "queues_inv (X - {p}) (ptable s') (qlist s')"
    unfolding queues_inv_def f(1)
  proof (intro allI impI conjI)
    fix d assume d: "d < NQUEUE"
    show "distinct (qlist s' d)" using queues_invD(1) [OF D(3) d] out [OF d] s'(4) by auto
    fix i assume i: "i < NPROC"
    show "i \<in> set (qlist s' d) \<longleftrightarrow> runnable (ptable s) i \<and> i \<notin> X - {p} \<and> p_cur_q (ptable s ! i) = int d"
      using queues_invD(2) [OF D(3) d i] s'(4) p(2,3) c(2) by auto
  qed
  then have "mlfq_inv (X - {p}) s'" using D(2) s'(2) f(1,2) by (simp add: mlfq_inv_def)
  with s' show ?thesis by blast
qed

lemma enqueue_ok:
  assumes inv: "mlfq_inv X s" and p: "p < NPROC" "p \<in> X" "runnable (ptable s) p"
  shows "\<exists>s'. enqueue (p_cur_q (ptable s ! p)) p s = Ok (True, s') \<and> only_queues s s' \<and>
    mlfq_inv (X - {p}) s' \<and>
    qlist s' = (qlist s)(nat (p_cur_q (ptable s ! p)) := qlist s (nat (p_cur_q (ptable s ! p))) @ [p])"
proof -
  note D = mlfq_invD [OF inv]
  note T = table_invD [OF D(2) p(1)]
  let ?c = "nat (p_cur_q (ptable s ! p))"
  have "p \<notin> set (qlist s ?c)" using queues_invD(2) [OF D(3) T(5) p(1)] p(2) by blast
  then have "q_find (pid_of s) ?c (p_pid (ptable s ! p)) s = Ok None"
    using q_find_absent [OF inv T(5) p(1)] p(3) by simp
  moreover have "idx (p_cur_q (ptable s ! p)) = Ok ?c" using T(6) by (simp add: idx_def)
  moreover have "pid_of s p = Ok (p_pid (ptable s ! p))" using T(2) by (simp add: pid_of_def)
  moreover obtain s' where "q_append ?c p s = Ok s'" "only_queues s s'" "mlfq_inv (X - {p}) s'"
    "qlist s' = (qlist s)(?c := qlist s ?c @ [p])"
    using mlfq_inv_append [OF inv p T(5)] T(6) by auto
  ultimately show ?thesis by (intro exI [of _ s']) (simp add: enqueue_def)
qed

text \<open>The state after \<open>p\<close> has been appended to its queue and the time noted.\<close>

definition enqueued :: "nat \<Rightarrow> 'a kproc_scheme \<Rightarrow> 'a kproc_scheme \<Rightarrow> bool" where
  "enqueued p s s' \<longleftrightarrow>
     ptable s' = (ptable s)[p := (ptable s ! p)\<lparr>p_qtime := sint (ticks s)\<rparr>] \<and>
     qlist s' = (qlist s)(nat (p_cur_q (ptable s ! p)) := qlist s (nat (p_cur_q (ptable s ! p))) @ [p]) \<and>
     nextpid s' = nextpid s \<and> ticks s' = ticks s \<and> initproc s' = initproc s"

lemma enqueue_timed_ok:
  assumes inv: "mlfq_inv X s" and p: "p < NPROC" "p \<in> X" "runnable (ptable s) p"
  shows "\<exists>s'. enqueue_timed p s = Ok s' \<and> enqueued p s s' \<and> mlfq_inv (X - {p}) s'"
proof -
  obtain s1 where s1: "enqueue (p_cur_q (ptable s ! p)) p s = Ok (True, s1)" "only_queues s s1"
    "mlfq_inv (X - {p}) s1"
    "qlist s1 = (qlist s)(nat (p_cur_q (ptable s ! p)) := qlist s (nat (p_cur_q (ptable s ! p))) @ [p])"
    using enqueue_ok [OF assms] by blast
  note f = only_queues_kproc [OF s1(2)]
  have "enqueue_timed p s = Ok (set_qtime p s1)"
    using s1(1) p(1) mlfq_invD(4) [OF inv] by (simp add: enqueue_timed_def)
  moreover have "enqueued p s (set_qtime p s1)"
    unfolding enqueued_def using f s1(4) by simp
  ultimately show ?thesis using mlfq_inv_set_qtime [OF s1(3)] by blast
qed

section \<open>Wakeup\<close>

definition asleep_on :: "chan \<Rightarrow> proc \<Rightarrow> bool" where
  "asleep_on ch x \<longleftrightarrow> p_state x = SLEEPING \<and> p_chan x = ch"

definition roused :: "sched_policy \<Rightarrow> chan \<Rightarrow> uint \<Rightarrow> proc \<Rightarrow> proc" where
  "roused cfg ch now x =
     (if asleep_on ch x
      then (if cfg = MLFQ then x\<lparr>p_state := RUNNABLE, p_qtime := sint now\<rparr> else x\<lparr>p_state := RUNNABLE\<rparr>)
      else x)"

text \<open>Making a sleeping process runnable and inserting it, as \<^verbatim>\<open>wakeup1\<close> and \<^verbatim>\<open>kill\<close> do.\<close>

lemma make_runnable_ok:
  assumes inv: "mlfq_inv {} s" and p: "p < NPROC" "p_state (ptable s ! p) = SLEEPING"
  shows "\<exists>s'. enqueue_timed p (upd_proc p (\<lambda>x. x\<lparr>p_state := RUNNABLE\<rparr>) s) = Ok s' \<and>
    enqueued p (upd_proc p (\<lambda>x. x\<lparr>p_state := RUNNABLE\<rparr>) s) s' \<and> mlfq_inv {} s'"
proof -
  let ?s1 = "upd_proc p (\<lambda>x. x\<lparr>p_state := RUNNABLE\<rparr>) s"
  have ok: "proc_ok (ptable s ! p)" using table_invD(1) [OF mlfq_invD(2) [OF inv] p(1)] .
  have "mlfq_inv {p} ?s1"
    using ok p by (intro mlfq_inv_upd_unqueued [OF inv]) (auto simp: proc_ok_def)
  moreover have "runnable (ptable ?s1) p" using p(1) mlfq_invD(4) [OF inv] by simp
  ultimately show ?thesis using enqueue_timed_ok [of "{p}" ?s1 p] p(1) by simp
qed

lemma wake_one_MLFQ:
  assumes inv: "mlfq_inv {} s" and p: "p < NPROC" "asleep_on ch (ptable s ! p)"
  shows "\<exists>s'. wake_one MLFQ p s = Ok s' \<and> mlfq_inv {} s' \<and>
    ptable s' = (ptable s)[p := roused MLFQ ch (ticks s) (ptable s ! p)] \<and>
    qlist s' = (qlist s)(nat (p_cur_q (ptable s ! p)) := qlist s (nat (p_cur_q (ptable s ! p))) @ [p]) \<and>
    nextpid s' = nextpid s \<and> ticks s' = ticks s \<and> initproc s' = initproc s"
proof -
  let ?s1 = "upd_proc p (\<lambda>x. x\<lparr>p_state := RUNNABLE\<rparr>) s"
  have sl: "p_state (ptable s ! p) = SLEEPING" using p(2) by (simp add: asleep_on_def)
  from make_runnable_ok [OF inv p(1) sl] obtain s2 where
    s2: "enqueue_timed p ?s1 = Ok s2" "enqueued p ?s1 s2" "mlfq_inv {} s2" by blast
  have "wake_one MLFQ p s = Ok (set_qtime p s2)" using s2(1) by (simp add: wake_one_def Let_def)
  moreover have "mlfq_inv {} (set_qtime p s2)" using s2(3) by simp
  ultimately show ?thesis
    using s2(2) p mlfq_invD(4) [OF inv] by (intro exI [of _ "set_qtime p s2"])
      (simp add: enqueued_def roused_def)
qed

lemma wakeup1_loop_MLFQ:
  assumes "mlfq_inv {} s" "distinct ks" "\<forall>i \<in> set ks. i < NPROC"
  shows "\<exists>s'. wakeup1_loop MLFQ ch ks s = Ok s' \<and> mlfq_inv {} s' \<and>
    (\<forall>i < NPROC. ptable s' ! i =
       (if i \<in> set ks then roused MLFQ ch (ticks s) (ptable s ! i) else ptable s ! i)) \<and>
    (\<forall>c < NQUEUE. qlist s' c =
       qlist s c @ filter (\<lambda>i. asleep_on ch (ptable s ! i) \<and> p_cur_q (ptable s ! i) = int c) ks) \<and>
    nextpid s' = nextpid s \<and> ticks s' = ticks s \<and> initproc s' = initproc s"
  using assms
proof (induction ks arbitrary: s)
  case Nil
  then show ?case by simp
next
  case (Cons i ks s)
  have i: "i < NPROC" "i \<notin> set ks" "distinct ks" "\<forall>i \<in> set ks. i < NPROC" using Cons.prems by auto
  show ?case
  proof (cases "asleep_on ch (ptable s ! i)")
    case False
    then have w: "roused MLFQ ch (ticks s) (ptable s ! i) = ptable s ! i" by (simp add: roused_def)
    have step: "wakeup1_loop MLFQ ch (i # ks) s = wakeup1_loop MLFQ ch ks s"
      using False by (auto simp: asleep_on_def)
    show ?thesis using Cons.IH [OF Cons.prems(1) i(3,4)] False i(2) w unfolding step
      by (elim exE conjE) (intro exI conjI, assumption+, simp_all)
  next
    case True
    from wake_one_MLFQ [OF Cons.prems(1) i(1) True] obtain s1 where
      s1: "wake_one MLFQ i s = Ok s1" "mlfq_inv {} s1"
        "ptable s1 = (ptable s)[i := roused MLFQ ch (ticks s) (ptable s ! i)]"
        "qlist s1 = (qlist s)(nat (p_cur_q (ptable s ! i)) := qlist s (nat (p_cur_q (ptable s ! i))) @ [i])"
        "nextpid s1 = nextpid s" "ticks s1 = ticks s" "initproc s1 = initproc s" by blast
    have cq: "0 \<le> p_cur_q (ptable s ! i)"
      using table_invD(6) [OF mlfq_invD(2) [OF Cons.prems(1)] i(1)] .
    have step: "wakeup1_loop MLFQ ch (i # ks) s = wakeup1_loop MLFQ ch ks s1"
      using True s1(1) by (simp add: asleep_on_def)
    have nth: "ptable s1 ! k = (if k = i then roused MLFQ ch (ticks s) (ptable s ! i) else ptable s ! k)"
      if "k < NPROC" for k using that s1(3) mlfq_invD(4) [OF Cons.prems(1)] by (simp add: nth_list_update)
    have flt: "filter (\<lambda>k. asleep_on ch (ptable s1 ! k) \<and> p_cur_q (ptable s1 ! k) = int c) ks =
      filter (\<lambda>k. asleep_on ch (ptable s ! k) \<and> p_cur_q (ptable s ! k) = int c) ks" for c
      using i nth by (intro filter_cong) auto
    from Cons.IH [OF s1(2) i(3,4)] show ?thesis
      unfolding step s1(5,6,7) flt
      using True i nth s1(4) cq by (elim exE conjE) (intro exI conjI, assumption+, auto)
  qed
qed

lemma wakeup1_loop_other:
  assumes "cfg \<noteq> MLFQ" "distinct ks" "\<forall>i \<in> set ks. i < length (ptable s)"
  shows "\<exists>pt. wakeup1_loop cfg ch ks s = Ok (s\<lparr>ptable := pt\<rparr>) \<and> length pt = length (ptable s) \<and>
    (\<forall>i < length (ptable s). pt ! i =
       (if i \<in> set ks then roused cfg ch (ticks s) (ptable s ! i) else ptable s ! i))"
  using assms(2,3)
proof (induction ks arbitrary: s)
  case Nil
  then show ?case by (intro exI [of _ "ptable s"]) simp
next
  case (Cons i ks s)
  let ?s1 = "if asleep_on ch (ptable s ! i) then upd_proc i (\<lambda>x. x\<lparr>p_state := RUNNABLE\<rparr>) s else s"
  have step: "wakeup1_loop cfg ch (i # ks) s = wakeup1_loop cfg ch ks ?s1"
    using assms(1) by (simp add: asleep_on_def wake_one_def Let_def)
  have s1: "length (ptable ?s1) = length (ptable s)" "ticks ?s1 = ticks s"
    "\<And>pt. ?s1\<lparr>ptable := pt\<rparr> = s\<lparr>ptable := pt\<rparr>" by (simp_all add: upd_proc_def)
  have nth: "ptable ?s1 ! k = (if k = i then roused cfg ch (ticks s) (ptable s ! i) else ptable s ! k)"
    if "k < length (ptable s)" for k using that assms(1) by (simp add: nth_list_update_if roused_def)
  have "distinct ks" "\<forall>i \<in> set ks. i < length (ptable ?s1)" "i \<notin> set ks" using Cons.prems s1 by auto
  from Cons.IH [OF this(1,2)] this(3) show ?case
    unfolding step s1 using nth by (elim exE conjE) (intro exI conjI, assumption+, auto)
qed

text \<open>What \<^verbatim>\<open>wakeup1\<close> returns under either kind of policy.\<close>

lemma upt_table: "distinct [0..<NPROC]" "\<forall>i \<in> set [0..<NPROC]. i < NPROC"
  by simp_all

lemma wakeup1_MLFQ:
  assumes "mlfq_inv {} s"
  shows "\<exists>s'. wakeup1 MLFQ ch s = Ok s' \<and> mlfq_inv {} s' \<and>
    ptable s' = map (roused MLFQ ch (ticks s)) (ptable s) \<and>
    (\<forall>c < NQUEUE. qlist s' c =
       qlist s c @ filter (\<lambda>i. asleep_on ch (ptable s ! i) \<and> p_cur_q (ptable s ! i) = int c) [0..<NPROC]) \<and>
    nextpid s' = nextpid s \<and> ticks s' = ticks s \<and> initproc s' = initproc s"
proof -
  obtain s' where s': "wakeup1_loop MLFQ ch [0..<NPROC] s = Ok s'" "mlfq_inv {} s'"
    "\<forall>i < NPROC. ptable s' ! i =
       (if i \<in> set [0..<NPROC] then roused MLFQ ch (ticks s) (ptable s ! i) else ptable s ! i)"
    "\<forall>c < NQUEUE. qlist s' c =
       qlist s c @ filter (\<lambda>i. asleep_on ch (ptable s ! i) \<and> p_cur_q (ptable s ! i) = int c) [0..<NPROC]"
    "nextpid s' = nextpid s" "ticks s' = ticks s" "initproc s' = initproc s"
    using wakeup1_loop_MLFQ [OF assms upt_table] by blast
  have "ptable s' = map (roused MLFQ ch (ticks s)) (ptable s)"
    using s'(3) mlfq_invD(4) [OF s'(2)] mlfq_invD(4) [OF assms] by (intro nth_equalityI) simp_all
  with s' show ?thesis unfolding wakeup1_def by blast
qed

lemma wakeup1_other:
  assumes "cfg \<noteq> MLFQ" "length (ptable s) = NPROC"
  shows "wakeup1 cfg ch s = Ok (s\<lparr>ptable := map (roused cfg ch (ticks s)) (ptable s)\<rparr>)"
proof -
  obtain pt where pt: "wakeup1_loop cfg ch [0..<NPROC] s = Ok (s\<lparr>ptable := pt\<rparr>)"
    "length pt = length (ptable s)" "\<forall>i < length (ptable s). pt ! i =
       (if i \<in> set [0..<NPROC] then roused cfg ch (ticks s) (ptable s ! i) else ptable s ! i)"
    using wakeup1_loop_other [OF assms(1) upt_table(1), of s ch] upt_table(2) unfolding assms(2) by blast
  have "pt = map (roused cfg ch (ticks s)) (ptable s)"
    using pt(2,3) assms(2) by (intro nth_equalityI) simp_all
  with pt(1) show ?thesis by (simp add: wakeup1_def)
qed

lemma kill_MLFQ:
  assumes "mlfq_inv {} s"
  shows "\<exists>r s'. kill MLFQ pid s = Ok (r, s') \<and> mlfq_inv {} s'"
proof (cases "find_index (\<lambda>p. p_pid p = pid) (ptable s)")
  case None
  then show ?thesis using assms by (simp add: kill_def)
next
  case (Some i)
  let ?s1 = "upd_proc i (\<lambda>x. x\<lparr>p_killed := True\<rparr>) s"
  have i: "i < NPROC" using find_index_SomeD(1) [OF Some] mlfq_invD(4) [OF assms] by simp
  have inv: "mlfq_inv {} ?s1" using assms by (rule mlfq_inv_upd_core) simp
  show ?thesis
  proof (cases "p_state (ptable ?s1 ! i) = SLEEPING")
    case True
    with make_runnable_ok [OF inv i] show ?thesis using Some by (auto simp: kill_def)
  next
    case False
    then show ?thesis using Some inv by (simp add: kill_def)
  qed
qed

section \<open>The timer\<close>

lemma core_tick [simp]: "core (tick_proc x) = core x"
  by (simp add: tick_proc_def)

lemma timer_account_inv: "mlfq_inv X s \<Longrightarrow> mlfq_inv X (timer_account s)"
  using mlfq_invD(4) [of X s] by (auto simp: timer_account_def intro: mlfq_inv_core)

lemma timer_tick_MLFQ:
  assumes "mlfq_inv {} s"
  shows "\<exists>s'. timer_tick MLFQ s = Ok s' \<and> mlfq_inv {} s'"
proof -
  from wakeup1_MLFQ [OF timer_account_inv [OF assms], of TicksChan] show ?thesis
    by (auto simp: timer_tick_def wakeup_def)
qed

text \<open>
  A running process leaves the CPU: \<open>f\<close> sets its new state. It is not queued before.
\<close>

lemma leave_cpu:
  assumes inv: "mlfq_inv {} s" and p: "p < NPROC" "p_state (ptable s ! p) = RUNNING"
    and f: "\<And>x. p_pid (f x) = p_pid x" "\<And>x. p_cur_q (f x) = p_cur_q x" "\<And>x. p_kstack (f x) = p_kstack x"
      "\<And>x. p_pgdir (f x) = p_pgdir x" "\<And>x. length (p_q (f x)) = length (p_q x)" "\<And>x. p_state (f x) \<noteq> UNUSED"
  shows "mlfq_inv {p} (upd_proc p f s)"
proof -
  have "proc_ok (ptable s ! p)" using table_invD(1) [OF mlfq_invD(2) [OF inv] p(1)] .
  with p f show ?thesis
    by (intro mlfq_inv_upd_unqueued [OF inv]) (auto simp: proc_ok_def)
qed

lemma mlfq_inv_drop:
  assumes "mlfq_inv {p} s" "\<not> runnable (ptable s) p"
  shows "mlfq_inv {} s"
  using assms unfolding mlfq_inv_def queues_inv_def by (metis empty_iff singletonD)

lemma yield_inv:
  "mlfq_inv {} s \<Longrightarrow> p < NPROC \<Longrightarrow> p_state (ptable s ! p) = RUNNING \<Longrightarrow> mlfq_inv {p} (yield p s)"
  unfolding yield_def by (rule leave_cpu) simp_all

lemma sleep_enter_inv:
  "mlfq_inv {} s \<Longrightarrow> p < NPROC \<Longrightarrow> p_state (ptable s ! p) = RUNNING \<Longrightarrow> mlfq_inv {} (sleep_enter ch p s)"
  unfolding sleep_enter_def
  by (rule mlfq_inv_drop [of p], rule leave_cpu) (simp_all add: mlfq_invD)

section \<open>Exit\<close>

text \<open>What the operations on the table need and keep, for every policy.\<close>

definition table_ok :: "sched_policy \<Rightarrow> 'a kproc_scheme \<Rightarrow> bool" where
  "table_ok cfg s \<longleftrightarrow> length (ptable s) = NPROC \<and> (cfg = MLFQ \<longrightarrow> mlfq_inv {} s)"

lemma wakeup1_ok:
  assumes "table_ok cfg s"
  shows "\<exists>s'. wakeup1 cfg ch s = Ok s' \<and> table_ok cfg s' \<and>
    ptable s' = map (roused cfg ch (ticks s)) (ptable s) \<and>
    nextpid s' = nextpid s \<and> ticks s' = ticks s \<and> initproc s' = initproc s"
proof (cases "cfg = MLFQ")
  case True
  then show ?thesis using wakeup1_MLFQ [of s ch] assms by (auto simp: table_ok_def)
next
  case False
  with assms wakeup1_other [OF False, of s ch] show ?thesis
    by (intro exI [of _ "s\<lparr>ptable := map (roused cfg ch (ticks s)) (ptable s)\<rparr>"]) (simp add: table_ok_def)
qed

lemma table_ok_upd_core:
  "table_ok cfg s \<Longrightarrow> core (f (ptable s ! p)) = core (ptable s ! p) \<Longrightarrow> table_ok cfg (upd_proc p f s)"
  by (simp add: table_ok_def mlfq_inv_upd_core)

lemma roused_simps [simp]:
  "p_parent (roused cfg ch now x) = p_parent x" "p_chan (roused cfg ch now x) = p_chan x"
  "p_pid (roused cfg ch now x) = p_pid x" "p_state (roused cfg ch now x) = ZOMBIE \<longleftrightarrow> p_state x = ZOMBIE"
  "p_state (roused cfg ch now x) = RUNNING \<longleftrightarrow> p_state x = RUNNING"
  by (auto simp: roused_def asleep_on_def)

text \<open>How a process may differ after the loop of \<^verbatim>\<open>exit\<close> that passes children to init.\<close>

definition handed_over :: "chan \<Rightarrow> proc \<Rightarrow> proc \<Rightarrow> bool" where
  "handed_over ch x y \<longleftrightarrow> y = x\<lparr>p_parent := p_parent y, p_state := p_state y, p_qtime := p_qtime y\<rparr> \<and>
     (p_state y = p_state x \<or> asleep_on ch x \<and> p_state y = RUNNABLE)"

lemma handed_over_refl: "handed_over ch x x"
  by (simp add: handed_over_def)

lemma handed_over_woken:
  "handed_over ch (roused cfg ch now x) y \<Longrightarrow> handed_over ch x y"
  by (cases x, cases y) (auto simp: handed_over_def roused_def asleep_on_def split: if_splits)

lemma handed_over_parent: "handed_over ch (x\<lparr>p_parent := q\<rparr>) y \<Longrightarrow> handed_over ch x y"
  by (cases x, cases y) (auto simp: handed_over_def asleep_on_def)

lemma reparent_loop_ok:
  assumes "table_ok cfg s" "\<forall>i \<in> set ks. i < NPROC" "initproc s \<noteq> Some cur"
  shows "\<exists>s'. reparent_loop cfg cur ks s = Ok s' \<and> table_ok cfg s' \<and> ticks s' = ticks s \<and>
    initproc s' = initproc s \<and>
    (\<forall>i < NPROC. handed_over (chan_of_proc (initproc s)) (ptable s ! i) (ptable s' ! i) \<and>
       p_parent (ptable s' ! i) = (if i \<in> set ks \<and> p_parent (ptable s ! i) = Some cur
                                   then initproc s else p_parent (ptable s ! i)))"
  using assms
proof (induction ks arbitrary: s)
  case Nil
  then show ?case by (simp add: handed_over_refl)
next
  case (Cons i ks s)
  let ?ch = "chan_of_proc (initproc s)"
  have i: "i < NPROC" "\<forall>i \<in> set ks. i < NPROC" and len: "length (ptable s) = NPROC"
    using Cons.prems by (auto simp: table_ok_def)
  show ?case
  proof (cases "p_parent (ptable s ! i) = Some cur")
    case False
    from Cons.IH [OF Cons.prems(1) i(2) Cons.prems(3)] obtain s' where
      "reparent_loop cfg cur ks s = Ok s'" "table_ok cfg s'" "ticks s' = ticks s" "initproc s' = initproc s"
      "\<forall>k < NPROC. handed_over ?ch (ptable s ! k) (ptable s' ! k) \<and>
         p_parent (ptable s' ! k) = (if k \<in> set ks \<and> p_parent (ptable s ! k) = Some cur
                                   then initproc s else p_parent (ptable s ! k))" by blast
    then show ?thesis using False by (intro exI [of _ s'] conjI) auto
  next
    case True
    define s1 where "s1 = upd_proc i (\<lambda>x. x\<lparr>p_parent := initproc s\<rparr>) s"
    have s1: "table_ok cfg s1" "initproc s1 = initproc s" "ticks s1 = ticks s"
      using table_ok_upd_core [OF Cons.prems(1)] by (simp_all add: s1_def)
    have nth: "ptable s1 ! k = (if k = i then (ptable s ! k)\<lparr>p_parent := initproc s\<rparr> else ptable s ! k)"
      if "k < NPROC" for k using that len by (simp add: s1_def nth_list_update_if)
    obtain s2 where s2: "reparent_loop cfg cur (i # ks) s = reparent_loop cfg cur ks s2"
      "table_ok cfg s2" "initproc s2 = initproc s" "ticks s2 = ticks s"
      "s2 = s1 \<or> ptable s2 = map (roused cfg ?ch (ticks s1)) (ptable s1)"
    proof (cases "p_state (ptable s1 ! i) = ZOMBIE")
      case True
      then show ?thesis using wakeup1_ok [OF s1(1), of ?ch] s1 \<open>p_parent (ptable s ! i) = Some cur\<close>
        by (auto simp: Let_def s1_def [symmetric] intro: that)
    next
      case False
      then show ?thesis using s1 \<open>p_parent (ptable s ! i) = Some cur\<close>
        by (auto simp: Let_def s1_def [symmetric] intro: that)
    qed
    have fwd: "handed_over ?ch (ptable s ! k) y" if "k < NPROC" "handed_over ?ch (ptable s2 ! k) y" for k y
    proof -
      have "handed_over ?ch (ptable s1 ! k) y"
        using that s2(5) len handed_over_woken by (auto simp: s1_def)
      then show ?thesis using nth [OF that(1)] handed_over_parent by (simp split: if_splits)
    qed
    have par: "p_parent (ptable s2 ! k) = (if k = i then initproc s else p_parent (ptable s ! k))"
      if "k < NPROC" for k using that s2(5) nth [of k] len by (auto simp: s1_def)
    from Cons.IH [OF s2(2) i(2)] Cons.prems(3) obtain s' where
      s': "reparent_loop cfg cur ks s2 = Ok s'" "table_ok cfg s'" "ticks s' = ticks s" "initproc s' = initproc s"
        "\<forall>k < NPROC. handed_over ?ch (ptable s2 ! k) (ptable s' ! k) \<and>
           p_parent (ptable s' ! k) = (if k \<in> set ks \<and> p_parent (ptable s2 ! k) = Some cur
                                   then initproc s else p_parent (ptable s2 ! k))"
      unfolding s2(3,4) by blast
    then show ?thesis unfolding s2(1) using fwd par True Cons.prems(3)
      by (intro exI [of _ s'] conjI) auto
  qed
qed

lemma exit_table_ok:
  assumes ok: "table_ok cfg s" and cur: "cur < NPROC" "p_state (ptable s ! cur) = RUNNING"
    and init: "initproc s \<noteq> Some cur"
  shows "\<exists>s'. exit_table cfg cur s = Ok s' \<and> table_ok cfg s' \<and> initproc s' = initproc s \<and>
    p_state (ptable s' ! cur) = ZOMBIE \<and> p_etime (ptable s' ! cur) = sint (ticks s) \<and>
    (\<forall>i < NPROC. p_parent (ptable s' ! i) =
       (if p_parent (ptable s ! i) = Some cur then initproc s else p_parent (ptable s ! i))) \<and>
    (\<forall>i < NPROC. asleep_on (chan_of_proc (p_parent (ptable s ! cur))) (ptable s ! i) \<longrightarrow>
       runnable (ptable s') i)"
proof -
  let ?ch = "chan_of_proc (p_parent (ptable s ! cur))"
  have len: "length (ptable s) = NPROC" using ok by (simp add: table_ok_def)
  obtain s1 where s1: "wakeup1 cfg ?ch s = Ok s1" "table_ok cfg s1"
    "ptable s1 = map (roused cfg ?ch (ticks s)) (ptable s)" "ticks s1 = ticks s" "initproc s1 = initproc s"
    using wakeup1_ok [OF ok] by blast
  obtain s2 where s2: "reparent_loop cfg cur [0..<NPROC] s1 = Ok s2" "table_ok cfg s2" "ticks s2 = ticks s"
    "initproc s2 = initproc s"
    "\<forall>i < NPROC. handed_over (chan_of_proc (initproc s)) (ptable s1 ! i) (ptable s2 ! i) \<and>
       p_parent (ptable s2 ! i) = (if i \<in> set [0..<NPROC] \<and> p_parent (ptable s1 ! i) = Some cur
                                   then initproc s else p_parent (ptable s1 ! i))"
    using reparent_loop_ok [OF s1(2) upt_table(2)] init s1(4,5) by metis
  define s3 where "s3 = upd_proc cur (\<lambda>x. x\<lparr>p_state := ZOMBIE, p_etime := sint (ticks s2)\<rparr>) s2"
  have len2: "length (ptable s2) = NPROC" using s2(2) by (simp add: table_ok_def)
  have "p_state (ptable s1 ! cur) = RUNNING" using cur len s1(3) by simp
  then have run: "p_state (ptable s2 ! cur) = RUNNING"
    using s2(5) cur(1) by (auto simp: handed_over_def asleep_on_def)
  have "exit_table cfg cur s = Ok s3" using s1(1) s2(1) by (simp add: exit_table_def s3_def)
  moreover have "mlfq_inv {} s3" if "cfg = MLFQ"
    unfolding s3_def using that s2(2) cur(1) run len2
    by - (rule mlfq_inv_drop [of cur], rule leave_cpu, simp_all add: table_ok_def)
  then have "table_ok cfg s3" using len2 by (simp add: table_ok_def s3_def)
  moreover have "runnable (ptable s3) i" if "i < NPROC" "asleep_on ?ch (ptable s ! i)" for i
  proof -
    have "i \<noteq> cur" using that(2) cur(2) by (auto simp: asleep_on_def)
    moreover have "p_state (ptable s1 ! i) = RUNNABLE" using that len s1(3) by (simp add: roused_def)
    ultimately show ?thesis
      using s2(5) that(1) len2 by (auto simp: s3_def nth_list_update handed_over_def asleep_on_def)
  qed
  ultimately show ?thesis
    using s2 s1(3) cur(1) len len2 by (intro exI [of _ s3] conjI) (auto simp: s3_def nth_list_update_if)
qed

section \<open>Allocation and reaping of a slot\<close>

text \<open>Every operation here leaves all but memory, free list, table and pid counter alone.\<close>

lemma kalloc_frame [simp]:
  fixes s :: "'a kproc_scheme"
  shows "qu (snd (kalloc s)) = qu s" "q_index (snd (kalloc s)) = q_index s" "ptable (snd (kalloc s)) = ptable s"
    "nextpid (snd (kalloc s)) = nextpid s" "ticks (snd (kalloc s)) = ticks s" "initproc (snd (kalloc s)) = initproc s"
  by (simp_all add: kalloc_def Let_def)

text \<open>A fresh pid in an unused slot: the slot becomes an embryo.\<close>

lemma mlfq_inv_new_pid:
  assumes inv: "mlfq_inv {} s" and p: "p < NPROC" "p_state (ptable s ! p) = UNUSED"
  shows "mlfq_inv {} ((upd_proc p (\<lambda>x. x\<lparr>p_state := EMBRYO, p_pid := nextpid s\<rparr>) s)\<lparr>nextpid := nextpid s + 1\<rparr>)"
    (is "mlfq_inv {} ?s'")
proof -
  note D = mlfq_invD [OF inv]
  have nth: "ptable ?s' ! i = (if i = p then (ptable s ! p)\<lparr>p_state := EMBRYO, p_pid := nextpid s\<rparr> else ptable s ! i)"
    if "i < NPROC" for i using that p(1) D(4) by (simp add: nth_list_update)
  have lt: "p_pid (ptable s ! i) < nextpid s" "0 \<le> p_pid (ptable s ! i)" "proc_ok (ptable s ! i)"
    if "i < NPROC" for i using table_invD [OF D(2) that] by auto
  have np: "1 \<le> nextpid s" using D(2) by (simp add: table_inv_def)
  have "proc_ok (ptable ?s' ! i) \<and> p_pid (ptable ?s' ! i) < nextpid ?s'" if "i < NPROC" for i
    using lt [OF that] np nth [OF that] by (auto simp: proc_ok_def)
  moreover have "p_pid (ptable ?s' ! i) \<noteq> p_pid (ptable ?s' ! j) \<or> p_pid (ptable ?s' ! i) = 0"
    if "i < NPROC" "j < NPROC" "i \<noteq> j" for i j
    unfolding nth [OF that(1)] nth [OF that(2)] using that lt [OF that(1)] lt [OF that(2)] D(2)
    by (auto simp: table_inv_def)
  ultimately have "table_inv (ptable ?s') (nextpid ?s')"
    unfolding table_inv_def using D(4) np by auto
  moreover have "qlist ?s' = qlist s" "wf_queues ?s' = wf_queues s"
    using queues_cong [of ?s' s] by simp_all
  moreover have "queues_inv {} (ptable ?s') (qlist s)"
    using D(3) p nth unfolding queues_inv_def by (simp split: if_splits)
  ultimately show ?thesis using D(1) by (simp add: mlfq_inv_def)
qed

lemma allocproc_MLFQ:
  assumes inv: "mlfq_inv {} s" and r: "allocproc MLFQ K s = (r, s')"
  shows "mlfq_inv {} s'"
    and "r = Some i \<Longrightarrow> i < NPROC \<and> p_state (ptable s ! i) = UNUSED \<and> p_state (ptable s' ! i) = EMBRYO \<and>
      p_pid (ptable s' ! i) = nextpid s \<and> p_kstack (ptable s' ! i) \<noteq> 0 \<and> p_cur_q (ptable s' ! i) = 0"
proof -
  have "mlfq_inv {} s' \<and> (\<forall>i. r = Some i \<longrightarrow> i < NPROC \<and> p_state (ptable s ! i) = UNUSED \<and>
      p_state (ptable s' ! i) = EMBRYO \<and> p_pid (ptable s' ! i) = nextpid s \<and>
      p_kstack (ptable s' ! i) \<noteq> 0 \<and> p_cur_q (ptable s' ! i) = 0)"
  proof (cases "find_index (\<lambda>p. p_state p = UNUSED) (ptable s)")
    case None
    then show ?thesis using inv r by (simp add: allocproc_def)
  next
    case (Some i)
    define s1 where "s1 = (upd_proc i (\<lambda>x. x\<lparr>p_state := EMBRYO, p_pid := nextpid s\<rparr>) s)\<lparr>nextpid := nextpid s + 1\<rparr>"
    define k where "k = fst (kalloc s1)"
    define s3 where "s3 = upd_proc i (\<lambda>x. x\<lparr>p_kstack := k\<rparr>) (snd (kalloc s1))"
    have len: "length (ptable s) = NPROC" using mlfq_invD(4) [OF inv] .
    have i: "i < NPROC" "p_state (ptable s ! i) = UNUSED"
      using find_index_SomeD [OF Some] len by auto
    have inv1: "mlfq_inv {} s1" unfolding s1_def by (rule mlfq_inv_new_pid [OF inv i])
    have inv2: "mlfq_inv {} (snd (kalloc s1))"
      using inv1 mlfq_invD(4) [OF inv1] by (auto intro: mlfq_inv_core)
    have st: "ptable s3 ! i = (ptable s ! i)\<lparr>p_state := EMBRYO, p_pid := nextpid s, p_kstack := k\<rparr>"
      using i len by (simp add: s3_def s1_def)
    have np: "1 \<le> nextpid s" using mlfq_invD(2) [OF inv] by (simp add: table_inv_def)
    have ok: "proc_ok (ptable s ! i)" using table_invD(1) [OF mlfq_invD(2) [OF inv] i(1)] .
    have inv3: "mlfq_inv {} s3"
      unfolding s3_def using i len ok np
      by (intro mlfq_inv_upd_unqueued [OF inv2]) (auto simp: s1_def proc_ok_def)
    have len3: "length (ptable s3) = NPROC" using mlfq_invD(4) [OF inv3] .
    show ?thesis
    proof (cases "k = 0")
      case True
      then have "r = None" "s' = upd_proc i (\<lambda>x. x\<lparr>p_state := UNUSED\<rparr>) s3"
        using r Some by (simp_all add: allocproc_def Let_def case_prod_beta k_def s3_def s1_def)
      moreover have "mlfq_inv {} (upd_proc i (\<lambda>x. x\<lparr>p_state := UNUSED\<rparr>) s3)"
        using st ok np i(1) by (intro mlfq_inv_upd_unqueued [OF inv3]) (auto simp: proc_ok_def)
      ultimately show ?thesis by simp
    next
      case False
      define s4 where "s4 = s3\<lparr>mem := store32 (mem s3) (k + of_nat KSTACKSIZE - TF_SIZE - 4) (k_trapret K)\<rparr>"
      define g where "g = (\<lambda>x. init_times MLFQ (ticks s) (x\<lparr>p_context := zero_context\<lparr>cx_eip := k_forkret K\<rparr>\<rparr>))"
      have s4: "mlfq_inv {} s4" "ptable s4 = ptable s3"
        using len3 by (auto simp: s4_def intro!: mlfq_inv_core [OF inv3])
      have "ticks s3 = ticks s" by (simp add: s3_def s1_def)
      then have "r = Some i" "s' = upd_proc i g s4"
        using r Some False i len
        by (simp_all add: allocproc_def Let_def case_prod_beta k_def s3_def s1_def s4_def g_def upd_proc_def)
      moreover have "mlfq_inv {} (upd_proc i g s4)"
        using st s4 ok np i(1) by (intro mlfq_inv_upd_unqueued [OF s4(1)])
          (auto simp: proc_ok_def g_def init_times_def param_defs)
      ultimately show ?thesis using i st s4 False len3
        by (simp add: g_def init_times_def)
    qed
  qed
  then show "mlfq_inv {} s'" "r = Some i \<Longrightarrow> i < NPROC \<and> p_state (ptable s ! i) = UNUSED \<and>
      p_state (ptable s' ! i) = EMBRYO \<and> p_pid (ptable s' ! i) = nextpid s \<and>
      p_kstack (ptable s' ! i) \<noteq> 0 \<and> p_cur_q (ptable s' ! i) = 0" by auto
qed

text \<open>
  Freeing a page or a page table changes memory and the free list only. The search for
  the reaped process in its queue comes after its pid has been cleared, so it finds
  nothing: queued processes are runnable and have a positive pid.
\<close>

lemma only_mem_kproc:
  fixes s s' :: "'a kproc_scheme"
  assumes "only_mem s s'"
  shows "ptable s' = ptable s" "nextpid s' = nextpid s" "ticks s' = ticks s" "initproc s' = initproc s"
    "qu s' = qu s" "q_index s' = q_index s" "c_proc s' = c_proc s"
proof -
  from assms obtain a b where "s' = s\<lparr>mem := a, freelist := b\<rparr>" unfolding only_mem_def by blast
  then show "ptable s' = ptable s" "nextpid s' = nextpid s" "ticks s' = ticks s"
    "initproc s' = initproc s" "qu s' = qu s" "q_index s' = q_index s" "c_proc s' = c_proc s" by simp_all
qed

lemma mlfq_inv_only_mem:
  fixes s s' :: "'a kproc_scheme"
  assumes "mlfq_inv X s" "only_mem s s'"
  shows "mlfq_inv X s'"
  using only_mem_kproc [OF assms(2)] mlfq_invD(4) [OF assms(1)] by (intro mlfq_inv_core [OF assms(1)]) simp_all

lemma dequeue_pid_0:
  assumes inv: "mlfq_inv X s" and c: "0 \<le> c" "c < int NQUEUE"
  shows "dequeue c 0 s = Ok s"
proof -
  have n: "nat c < NQUEUE" using c by simp
  have "p_pid (ptable s ! x) \<noteq> 0" if "x \<in> set (qlist s (nat c))" for x
    using table_invD(1) [OF mlfq_invD(2) [OF inv] pid_of_queued(2) [OF inv n that]]
      pid_of_queued(3) [OF inv n that] by (auto simp: proc_ok_def)
  then have "find_index (\<lambda>x. p_pid (ptable s ! x) = 0) (qlist s (nat c)) = None"
    by (simp add: find_index_None_iff)
  then show ?thesis using q_find_pid [OF inv n, of 0] c by (simp add: dequeue_def idx_def)
qed

lemma reap_MLFQ:
  fixes s :: "'a kproc_scheme"
  assumes inv: "mlfq_inv {} s" and i: "i < NPROC" "p_state (ptable s ! i) = ZOMBIE"
    and kf: "kfree (k_end K) (p_kstack (ptable s ! i)) s = Ok s1"
    and fv: "freevm (k_end K) (p_pgdir (ptable s ! i)) (upd_proc i (\<lambda>x. x\<lparr>p_kstack := 0\<rparr>) s1) = Ok s2"
  shows "\<exists>s'. reap MLFQ K i s = Ok (p_pid (ptable s ! i), s') \<and> mlfq_inv {} s' \<and>
    ptable s' = (ptable s)[i := (ptable s ! i)\<lparr>p_kstack := 0, p_pid := 0, p_parent := None,
      p_name := (p_name (ptable s ! i))[0 := 0], p_killed := False, p_state := UNUSED\<rparr>] \<and>
    qlist s' = qlist s"
proof -
  let ?f = "\<lambda>x. x\<lparr>p_pid := 0, p_parent := None, p_name := (p_name x)[0 := 0],
              p_killed := False, p_state := UNUSED\<rparr>"
  note m1 = only_mem_kproc [OF only_mem_kfree [OF kf]] and om = only_mem_freevm [OF fv]
  have len: "length (ptable s) = NPROC" using mlfq_invD(4) [OF inv] .
  have ok: "proc_ok (ptable s ! i)" using table_invD(1) [OF mlfq_invD(2) [OF inv] i(1)] .
  have inv1: "mlfq_inv {} s1" using mlfq_inv_only_mem [OF inv only_mem_kfree [OF kf]] .
  have "mlfq_inv {} (upd_proc i (\<lambda>x. x\<lparr>p_kstack := 0\<rparr>) s1)"
    using ok i m1(1) by (intro mlfq_inv_upd_unqueued [OF inv1]) (auto simp: proc_ok_def)
  then have inv2: "mlfq_inv {} s2" using om by (rule mlfq_inv_only_mem)
  note m2 = only_mem_kproc [OF om]
  have p2: "ptable s2 = (ptable s)[i := (ptable s ! i)\<lparr>p_kstack := 0\<rparr>]" using m1(1) m2(1) by simp
  then have nth2: "ptable s2 ! i = (ptable s ! i)\<lparr>p_kstack := 0\<rparr>" using i len by simp
  have inv3: "mlfq_inv {} (upd_proc i ?f s2)"
    using ok i nth2 by (intro mlfq_inv_upd_unqueued [OF inv2]) (auto simp: proc_ok_def)
  have nth3: "ptable (upd_proc i ?f s2) ! i = ?f ((ptable s ! i)\<lparr>p_kstack := 0\<rparr>)"
    using i len p2 by simp
  have "dequeue (p_cur_q (ptable s ! i)) 0 (upd_proc i ?f s2) = Ok (upd_proc i ?f s2)"
    using ok by (intro dequeue_pid_0 [OF inv3]) (simp_all add: proc_ok_def)
  then have "reap MLFQ K i s = Ok (p_pid (ptable s ! i), upd_proc i ?f s2)"
    using kf fv m1(1) nth3 by (simp add: reap_def Let_def)
  moreover have "qlist (upd_proc i ?f s2) = qlist s"
    using m1(5,6) m2(5,6) queues_cong [of "upd_proc i ?f s2" s] by simp
  ultimately show ?thesis using inv3 p2 i len by (intro exI [of _ "upd_proc i ?f s2"]) simp
qed

end
