(* ===== verification/Mlfq_Sched.thy ===== *)
theory Mlfq_Sched
  imports Mlfq_Inv
begin

text \<open>
  The multi-level feedback scheduler keeps the invariant of its queues. The aging pass is
  described by a function on lists, the choice of the process to run and its return to a
  queue by their effect on the queue contents.
\<close>

section \<open>Removing a queued process\<close>

lemma delete_queued:
  assumes inv: "mlfq_inv {} s" and c: "c < NQUEUE" and p: "p \<in> set (qlist s c)"
  shows "\<exists>i s'. q_find (pid_of s) c (p_pid (ptable s ! p)) s = Ok (Some i) \<and> q_delete_at c i s = Ok s' \<and>
    only_queues s s' \<and> mlfq_inv {p} s' \<and> qlist s' = (qlist s)(c := remove1 p (qlist s c))"
proof -
  note D = mlfq_invD [OF inv]
  note P = pid_of_queued [OF inv c]
  have uniq: "x = p" if "x \<in> set (qlist s c)" "p_pid (ptable s ! x) = p_pid (ptable s ! p)" for x
    using pid_unique [OF D(2) P(2) [OF that(1)] P(2) [OF p]] P(3) [OF that(1)] that(2) by simp
  obtain i s' where s': "q_find (pid_of s) c (p_pid (ptable s ! p)) s = Ok (Some i)"
    "q_delete_at c i s = Ok s'" "wf_queues s'" "only_queues s s'"
    "qlist s' = (qlist s)(c := remove1 p (qlist s c))"
    using mlfq_q.delete_found [OF D(1) c queues_invD(1) [OF D(3) c] p,
        of "pid_of s" "\<lambda>x. p_pid (ptable s ! x)"] P(1) uniq by blast
  note f = only_queues_kproc [OF s'(4)]
  have "queues_inv {p} (ptable s') (qlist s')"
    unfolding queues_inv_def f(1)
  proof (intro allI impI conjI)
    fix d assume d: "d < NQUEUE"
    note Q = queues_invD [OF D(3) d]
    show "distinct (qlist s' d)" using Q(1) s'(5) by auto
    fix i assume i: "i < NPROC"
    show "i \<in> set (qlist s' d) \<longleftrightarrow> runnable (ptable s) i \<and> i \<notin> {p} \<and> p_cur_q (ptable s ! i) = int d"
      using Q(2) [OF i] Q(1) s'(5) P(5) [OF p] by auto
  qed
  then have "mlfq_inv {p} s'" using D(2) s'(3) f(1,2) by (simp add: mlfq_inv_def)
  with s' show ?thesis by blast
qed

section \<open>Aging\<close>

text \<open>
  One pass over a queue, on lists: the entries that stay and those that move up. After
  an entry has moved, the loop variable advances although the rest of the array has been
  shifted down, so the entry behind it is kept without being looked at.
\<close>

fun age_split :: "('a \<Rightarrow> bool) \<Rightarrow> 'a list \<Rightarrow> 'a list \<times> 'a list" where
  "age_split P [] = ([], [])"
| "age_split P [x] = (if P x then ([], [x]) else ([x], []))"
| "age_split P (x # y # ys) =
     (if P x then let (k, m) = age_split P ys in (y # k, x # m)
      else let (k, m) = age_split P (y # ys) in (x # k, m))"

lemma set_age_split: "set (fst (age_split P xs)) \<union> set (snd (age_split P xs)) = set xs"
  by (induction P xs rule: age_split.induct) (auto simp: case_prod_beta Let_def)

lemma age_split_moved: "x \<in> set (snd (age_split P xs)) \<Longrightarrow> P x"
  by (induction P xs rule: age_split.induct) (auto simp: case_prod_beta Let_def split: if_splits)

lemma age_split_cong [fundef_cong]:
  "xs = ys \<Longrightarrow> (\<And>x. x \<in> set ys \<Longrightarrow> P x = Q x) \<Longrightarrow> age_split P xs = age_split Q ys"
proof (induction P xs arbitrary: ys rule: age_split.induct)
  case (3 P x y zs)
  show ?case
  proof (cases "P x")
    case True
    then have "age_split P zs = age_split Q zs" using 3 by auto
    then show ?thesis using 3(3,4) True by auto
  next
    case False
    then have "age_split P (y # zs) = age_split Q (y # zs)" using 3 by auto
    then show ?thesis using 3(3,4) False by auto
  qed
qed auto

definition too_old :: "'a kproc_scheme \<Rightarrow> nat \<Rightarrow> bool" where
  "too_old s p \<longleftrightarrow> aged (ticks s) (ptable s ! p) > 25"

lemma age_entry_young:
  assumes "mlfq_inv {} s" "i < NQUEUE" "j < length (qlist s i)" "\<not> too_old s (qlist s i ! j)"
  shows "age_entry i j (a, d, s) = Ok (a, d, s)"
proof -
  note D = mlfq_invD [OF assms(1)]
  note W = wf_queuesD [OF D(1) assms(2)]
  have j: "j < q_len s i" using assms(3) length_qlist [OF D(1) assms(2)] by simp
  note N = qu_nth [OF D(1) assms(2) j]
  have "j < length (qu s ! i)" using j W by simp
  then show ?thesis using W N D(4) assms(4) by (simp add: age_entry_def too_old_def)
qed

lemma age_entry_old:
  assumes inv: "mlfq_inv {} s" and i: "0 < i" "i < NQUEUE" "j < length (qlist s i)"
    and p: "p = qlist s i ! j" "too_old s p"
  shows "\<exists>d' s'. age_entry i j (a, d, s) = Ok (False, d', s') \<and> mlfq_inv {} s' \<and>
    qlist s' = (qlist s)(i := remove1 p (qlist s i), i - 1 := qlist s (i - 1) @ [p]) \<and>
    ptable s' = (ptable s)[p := (ptable s ! p)\<lparr>p_cur_q := int (i - 1), p_qtime := sint (ticks s)\<rparr>] \<and>
    ticks s' = ticks s \<and> nextpid s' = nextpid s \<and> initproc s' = initproc s"
proof -
  note D = mlfq_invD [OF inv]
  note W = wf_queuesD [OF D(1) i(2)]
  have j: "j < q_len s i" "j < length (qu s ! i)" using i(3) length_qlist [OF D(1) i(2)] W by simp_all
  note N = qu_nth [OF D(1) i(2) j(1)]
  have pq: "p \<in> set (qlist s i)" using i(3) p(1) by simp
  note P = pid_of_queued [OF inv i(2) pq]
  obtain d' s1 where s1: "q_find (pid_of s) i (p_pid (ptable s ! p)) s = Ok (Some d')"
    "q_delete_at i d' s = Ok s1" "only_queues s s1" "mlfq_inv {p} s1"
    "qlist s1 = (qlist s)(i := remove1 p (qlist s i))"
    using delete_queued [OF inv i(2) pq] by blast
  note f1 = only_queues_kproc [OF s1(3)]
  define s2 where "s2 = upd_proc p (\<lambda>y. y\<lparr>p_cur_q := int (i - 1)\<rparr>) s1"
  have c: "i - 1 < NQUEUE" using i by simp
  have "p \<notin> set (qlist s1 (i - 1))"
    using queues_invD(2) [OF mlfq_invD(3) [OF s1(4)] c P(2)] by simp
  then have fnd: "q_find (pid_of s1) (i - 1) (p_pid (ptable s ! p)) s1 = Ok None"
    using q_find_absent [OF s1(4) c P(2)] P(3) f1(1) by simp
  have "proc_ok (ptable s ! p)" using table_invD(1) [OF D(2) P(2)] .
  then have inv2: "mlfq_inv {p} s2"
    unfolding s2_def using P(2) c f1(1)
    by (intro mlfq_inv_upd_unqueued [OF s1(4)]) (auto simp: proc_ok_def)
  have nth2: "ptable s2 ! p = (ptable s ! p)\<lparr>p_cur_q := int (i - 1)\<rparr>"
    using P(2) D(4) f1(1) by (simp add: s2_def)
  obtain s3 where s3: "q_append (i - 1) p s2 = Ok s3" "only_queues s2 s3" "mlfq_inv {} s3"
    "qlist s3 = (qlist s2)(i - 1 := qlist s2 (i - 1) @ [p])"
    using mlfq_inv_append [OF inv2 P(2) _ _ c] nth2 P(3) by auto
  note f3 = only_queues_kproc [OF s3(2)]
  have "age_remove i (p_pid (ptable s ! p)) (a, d, s) = Ok (d', s1)"
    using s1 by (simp add: age_remove_def)
  moreover have "age_insert (i - 1) p (p_pid (ptable s ! p)) s1 = Ok (False, set_qtime p s3)"
    using fnd s3(1) by (simp add: age_insert_def s2_def)
  ultimately have "age_entry i j (a, d, s) = Ok (False, d', set_qtime p s3)"
    using W N j p P(2) D(4) by (simp add: age_entry_def too_old_def)
  moreover have "mlfq_inv {} (set_qtime p s3)" using s3(3) by simp
  moreover have "i - Suc 0 \<noteq> i" using i(1) by simp
  ultimately show ?thesis
    using f1 f3 s1(5) s3(4) nth2 by (intro exI [of _ d'] exI [of _ "set_qtime p s3"])
      (simp add: s2_def)
qed

lemma remove1_nth:
  "distinct xs \<Longrightarrow> j < length xs \<Longrightarrow> remove1 (xs ! j) xs = take j xs @ drop (Suc j) xs"
  using mlfq_q.remove1_at by metis

text \<open>The processes that a pass over queue \<open>i\<close> promotes, and their new records.\<close>

definition promoted :: "nat \<Rightarrow> uint \<Rightarrow> proc \<Rightarrow> proc" where
  "promoted i now x = x\<lparr>p_cur_q := int (i - 1), p_qtime := sint now\<rparr>"

definition aged_pass :: "nat \<Rightarrow> nat \<Rightarrow> 'a kproc_scheme \<Rightarrow> 'a kproc_scheme \<Rightarrow> bool" where
  "aged_pass i j s s' \<longleftrightarrow>
     (let r = age_split (too_old s) (drop j (qlist s i)) in
      qlist s' = (qlist s)(i := take j (qlist s i) @ fst r, i - 1 := qlist s (i - 1) @ snd r) \<and>
      (\<forall>k < NPROC. ptable s' ! k =
         (if k \<in> set (snd r) then promoted i (ticks s) (ptable s ! k) else ptable s ! k)) \<and>
      ticks s' = ticks s \<and> nextpid s' = nextpid s \<and> initproc s' = initproc s)"

lemma aged_pass_end:
  "i < NQUEUE \<Longrightarrow> 0 < i \<Longrightarrow> length (qlist s i) \<le> j \<Longrightarrow> aged_pass i j s s"
  by (auto simp: aged_pass_def fun_eq_iff)

lemma aged_pass_young:
  assumes "j < length (qlist s i)" "\<not> too_old s (qlist s i ! j)" "aged_pass i (Suc j) s s'"
  shows "aged_pass i j s s'"
proof -
  have d: "drop j (qlist s i) = qlist s i ! j # drop (Suc j) (qlist s i)"
    using assms(1) by (simp add: Cons_nth_drop_Suc)
  have "age_split (too_old s) (drop j (qlist s i)) =
      (qlist s i ! j # fst (age_split (too_old s) (drop (Suc j) (qlist s i))),
       snd (age_split (too_old s) (drop (Suc j) (qlist s i))))"
    unfolding d using assms(2)
    by (cases "drop (Suc j) (qlist s i)") (simp_all add: case_prod_beta Let_def)
  moreover have "take (Suc j) (qlist s i) = take j (qlist s i) @ [qlist s i ! j]"
    using assms(1) by (simp add: take_Suc_conv_app_nth)
  ultimately show ?thesis using assms(3) by (simp add: aged_pass_def Let_def)
qed

lemma aged_pass_old:
  assumes i: "0 < i" "j < length (qlist s i)" "distinct (qlist s i)" "\<forall>x \<in> set (qlist s i). x < NPROC"
    and len: "length (ptable s) = NPROC"
    and p: "p = qlist s i ! j" "too_old s p"
    and s1: "qlist s1 = (qlist s)(i := remove1 p (qlist s i), i - 1 := qlist s (i - 1) @ [p])"
      "ptable s1 = (ptable s)[p := promoted i (ticks s) (ptable s ! p)]"
      "ticks s1 = ticks s" "nextpid s1 = nextpid s" "initproc s1 = initproc s"
    and rest: "aged_pass i (Suc j) s1 s'"
  shows "aged_pass i j s s'"
proof -
  let ?xs = "qlist s i" and ?r = "age_split (too_old s) (drop (Suc (Suc j)) (qlist s i))"
  have d: "drop j ?xs = p # drop (Suc j) ?xs" using i(2) p(1) by (simp add: Cons_nth_drop_Suc)
  have xs1: "qlist s1 i = take j ?xs @ drop (Suc j) ?xs" "qlist s1 (i - 1) = qlist s (i - 1) @ [p]"
    using s1(1) i(1) remove1_nth [OF i(3,2)] p(1) by auto
  have dr1: "drop (Suc j) (qlist s1 i) = drop (Suc (Suc j)) ?xs" using xs1 i(2) by simp
  have np: "p \<notin> set (drop (Suc j) ?xs)"
    using i(3) d by (metis distinct.simps(2) distinct_drop)
  then have np2: "p \<notin> set (drop (Suc (Suc j)) ?xs)"
    using set_drop_subset_set_drop [of "Suc j" "Suc (Suc j)" ?xs] by auto
  have r1: "age_split (too_old s1) (drop (Suc j) (qlist s1 i)) = ?r"
  proof (rule age_split_cong [OF dr1])
    fix x assume "x \<in> set (drop (Suc (Suc j)) ?xs)"
    then have "p \<noteq> x" using np2 by blast
    then show "too_old s1 x = too_old s x" using s1(2,3) by (simp add: too_old_def)
  qed
  have sub: "set (snd ?r) \<subseteq> set (drop (Suc (Suc j)) ?xs)"
    using set_age_split [of "too_old s" "drop (Suc (Suc j)) ?xs"] by blast
  have p_lt: "p < length (ptable s)" using i(2,4) len p(1) by simp
  have sp: "age_split (too_old s) (drop j ?xs) = (take 1 (drop (Suc j) ?xs) @ fst ?r, p # snd ?r)"
    unfolding d using p(2)
    by (cases "drop (Suc j) ?xs") (auto simp: drop_Suc drop_tl case_prod_beta Let_def)
  have tk: "take (Suc j) (qlist s1 i) = take j ?xs @ take 1 (drop (Suc j) ?xs)"
    using xs1 i(2) by simp
  have q: "qlist s' = (qlist s1)(i := take (Suc j) (qlist s1 i) @ fst ?r, i - 1 := qlist s1 (i - 1) @ snd ?r)"
    and t: "\<forall>k < NPROC. ptable s' ! k =
         (if k \<in> set (snd ?r) then promoted i (ticks s) (ptable s1 ! k) else ptable s1 ! k)"
    and u: "ticks s' = ticks s" "nextpid s' = nextpid s" "initproc s' = initproc s"
    using rest s1(3,4,5) by (simp_all add: aged_pass_def Let_def r1)
  have "ptable s' ! k = (if k \<in> set (p # snd ?r) then promoted i (ticks s) (ptable s ! k) else ptable s ! k)"
    if "k < NPROC" for k
    using t that s1(2) np2 sub p_lt by (auto simp: nth_list_update)
  moreover have "qlist s' = (qlist s)(i := take j ?xs @ take 1 (drop (Suc j) ?xs) @ fst ?r,
      i - 1 := qlist s (i - 1) @ p # snd ?r)"
    unfolding q tk xs1(2) using s1(1) by (simp add: fun_eq_iff)
  ultimately show ?thesis unfolding aged_pass_def Let_def sp using u by simp
qed

lemma age_queue_ok:
  assumes "mlfq_inv {} s" "0 < i" "i < NQUEUE"
  shows "\<exists>a' d' s'. age_queue i j (a, d, s) = Ok (a', d', s') \<and> mlfq_inv {} s' \<and> aged_pass i j s s'"
  using assms(1)
proof (induction "length (qlist s i) - j" arbitrary: s j a d rule: less_induct)
  case (less s j a d)
  note D = mlfq_invD [OF less.prems]
  have len: "q_index s ! i = int (length (qlist s i)) - 1"
    using wf_queuesD(5) [OF D(1) assms(3)] length_qlist [OF D(1) assms(3)] by simp
  show ?case
  proof (cases "j < length (qlist s i)")
    case False
    then have "age_queue i j (a, d, s) = Ok (a, d, s)"
      using len by (subst age_queue.simps) simp
    then show ?thesis using less.prems aged_pass_end assms(2,3) False by (metis not_less)
  next
    case True
    have unfold: "age_queue i j (a, d, s) = bindR (age_entry i j (a, d, s)) (age_queue i (Suc j))"
      using True len assms(2) by (subst age_queue.simps) simp
    show ?thesis
    proof (cases "too_old s (qlist s i ! j)")
      case False
      have "length (qlist s i) - Suc j < length (qlist s i) - j" using True by simp
      from less.hyps [OF this less.prems, of a d] obtain a' d' s' where
        "age_queue i (Suc j) (a, d, s) = Ok (a', d', s')" "mlfq_inv {} s'" "aged_pass i (Suc j) s s'" by blast
      then show ?thesis
        using age_entry_young [OF less.prems assms(3) True False] aged_pass_young [OF True False] unfold
        by (intro exI conjI) auto
    next
      case old: True
      from age_entry_old [OF less.prems assms(2,3) True refl old, of a d] obtain d1 s1 where
        e: "age_entry i j (a, d, s) = Ok (False, d1, s1)" and i1: "mlfq_inv {} s1" and
        s1: "qlist s1 = (qlist s)(i := remove1 (qlist s i ! j) (qlist s i), i - 1 := qlist s (i - 1) @ [qlist s i ! j])"
        "ptable s1 = (ptable s)[qlist s i ! j := promoted i (ticks s) (ptable s ! (qlist s i ! j))]"
        "ticks s1 = ticks s" "nextpid s1 = nextpid s" "initproc s1 = initproc s"
        unfolding promoted_def by blast
      have "length (qlist s1 i) = length (qlist s i) - 1"
        using s1(1) True assms(2) by (simp add: length_remove1)
      then have "length (qlist s1 i) - Suc j < length (qlist s i) - j" using True by simp
      from less.hyps [OF this i1, of False d1] obtain a' d' s' where
        r: "age_queue i (Suc j) (False, d1, s1) = Ok (a', d', s')" "mlfq_inv {} s'" "aged_pass i (Suc j) s1 s'" by blast
      have "aged_pass i j s s'"
        using qlist_bounded [OF D(1) assms(3)] by (intro aged_pass_old [OF assms(2) True
          queues_invD(1) [OF D(3) assms(3)] _ D(4) refl old s1 r(3)]) blast
      then show ?thesis using e r unfold by (intro exI conjI) auto
    qed
  qed
qed

lemma age_all_ok:
  assumes "mlfq_inv {} s"
  shows "\<exists>s1 s2 s3 s4. age_all s = Ok s4 \<and> mlfq_inv {} s4 \<and>
    aged_pass 1 0 s s1 \<and> aged_pass 2 0 s1 s2 \<and> aged_pass 3 0 s2 s3 \<and> aged_pass 4 0 s3 s4"
proof -
  obtain a1 d1 s1 where 1: "age_queue 1 0 (False, 0, s) = Ok (a1, d1, s1)" "mlfq_inv {} s1" "aged_pass 1 0 s s1"
    using age_queue_ok [OF assms, of 1 0 False 0] by (auto simp: NQUEUE_def)
  obtain a2 d2 s2 where 2: "age_queue 2 0 (a1, d1, s1) = Ok (a2, d2, s2)" "mlfq_inv {} s2" "aged_pass 2 0 s1 s2"
    using age_queue_ok [OF 1(2), of 2 0 a1 d1] by (auto simp: NQUEUE_def)
  obtain a3 d3 s3 where 3: "age_queue 3 0 (a2, d2, s2) = Ok (a3, d3, s3)" "mlfq_inv {} s3" "aged_pass 3 0 s2 s3"
    using age_queue_ok [OF 2(2), of 3 0 a2 d2] by (auto simp: NQUEUE_def)
  obtain a4 d4 s4 where 4: "age_queue 4 0 (a3, d3, s3) = Ok (a4, d4, s4)" "mlfq_inv {} s4" "aged_pass 4 0 s3 s4"
    using age_queue_ok [OF 3(2), of 4 0 a3 d3] by (auto simp: NQUEUE_def)
  show ?thesis using 1 2 3 4 by (intro exI [of _ s1] exI [of _ s2] exI [of _ s3] exI [of _ s4])
      (simp add: age_all_def)
qed

section \<open>Running the head of a queue\<close>

text \<open>The record of the process once it runs from queue \<open>i\<close>.\<close>

definition charged :: "nat \<Rightarrow> proc \<Rightarrow> proc" where
  "charged i x = x\<lparr>p_q := (p_q x)[i := p_q x ! i + 1],
     p_flg := (p_flg x \<or> p_q x ! i + 1 \<ge> max_queue_ticks ! i), p_n_run := p_n_run x + 1\<rparr>"

definition dispatched :: "nat \<Rightarrow> proc \<Rightarrow> proc" where
  "dispatched i x = (charged i x)\<lparr>p_state := RUNNING\<rparr>"

lemma charged_simps [simp]:
  "p_state (charged i x) = p_state x" "p_pid (charged i x) = p_pid x" "p_kstack (charged i x) = p_kstack x"
  "p_pgdir (charged i x) = p_pgdir x" "p_cur_q (charged i x) = p_cur_q x" "length (p_q (charged i x)) = length (p_q x)"
  by (simp_all add: charged_def)

lemma max_at_ok: "0 \<le> c \<Longrightarrow> c < int NQUEUE \<Longrightarrow> max_at c = Ok (max_queue_ticks ! nat c)"
  by (simp add: max_at_def idx_def max_queue_ticks_def NQUEUE_def)

lemma q_at_ok: "proc_ok x \<Longrightarrow> 0 \<le> c \<Longrightarrow> c < int NQUEUE \<Longrightarrow> q_at x c = Ok (p_q x ! nat c)"
  by (simp add: q_at_def idx_def proc_ok_def)

lemma mlfq_before_ok:
  assumes inv: "mlfq_inv {} s" and i: "i < NQUEUE" "qlist s i = p # rest"
  shows "\<exists>s'. mlfq_before i p s = Ok s' \<and> mlfq_inv {} s' \<and> c_proc s' = Some p \<and>
    ptable s' = (ptable s)[p := dispatched i (ptable s ! p)] \<and> qlist s' = (qlist s)(i := rest) \<and>
    ticks s' = ticks s \<and> nextpid s' = nextpid s \<and> initproc s' = initproc s \<and> p < NPROC \<and>
    runnable (ptable s) p"
proof -
  note D = mlfq_invD [OF inv]
  have pq: "p \<in> set (qlist s i)" using i(2) by simp
  note P = pid_of_queued [OF inv i(1) pq]
  have ok: "proc_ok (ptable s ! p)" using table_invD(1) [OF D(2) P(2)] .
  define s1 where "s1 = upd_proc p (\<lambda>y. y\<lparr>p_q := (p_q y)[i := p_q (ptable s ! p) ! i + 1],
     p_flg := (p_flg y \<or> p_q (ptable s ! p) ! i + 1 \<ge> max_queue_ticks ! i)\<rparr>) s"
  have inv1: "mlfq_inv {} s1" unfolding s1_def by (rule mlfq_inv_upd_core [OF inv]) simp
  have nth1: "p_pid (ptable s1 ! p) = p_pid (ptable s ! p)" "qlist s1 = qlist s"
    using P(2) D(4) by (simp_all add: s1_def)
  obtain k s2 where s2: "q_find (pid_of s1) i (p_pid (ptable s ! p)) s1 = Ok (Some k)" "q_delete_at i k s1 = Ok s2"
    "only_queues s1 s2" "mlfq_inv {p} s2" "qlist s2 = (qlist s)(i := remove1 p (qlist s i))"
    using delete_queued [OF inv1 i(1), of p] pq unfolding nth1 by blast
  note f2 = only_queues_kproc [OF s2(3)]
  have dq: "dequeue (int i) (p_pid (ptable s ! p)) s1 = Ok s2"
    using s2(1,2) by (simp add: dequeue_def idx_def)
  define s3 where "s3 = (upd_proc p (\<lambda>y. y\<lparr>p_n_run := p_n_run y + 1\<rparr>) s2)\<lparr>c_proc := Some p\<rparr>"
  define s4 where "s4 = s3\<lparr>ts_esp0 := p_kstack (ptable s ! p) + of_nat KSTACKSIZE, cr3 := V2P (p_pgdir (ptable s ! p))\<rparr>"
  let ?s5 = "upd_proc p (\<lambda>y. y\<lparr>p_state := RUNNING\<rparr>) s4"
  have pt4: "ptable s4 = (ptable s)[p := charged i (ptable s ! p)]"
    using P(2,3) D(4) f2(1) by (simp add: s4_def s3_def s1_def charged_def)
  have q4: "qu s4 = qu s2" "q_index s4 = q_index s2" "nextpid s4 = nextpid s2" by (simp_all add: s4_def s3_def)
  have kk: "p_kstack (ptable s ! p) \<noteq> 0" "p_pgdir (ptable s ! p) \<noteq> 0" using ok P(3) by (auto simp: proc_ok_def)
  have "switchuvm p s3 = Ok s4"
    using P(2) D(4) f2(1) kk by (simp add: switchuvm_def s3_def s4_def s1_def)
  then have "mlfq_before i p s = Ok ?s5"
    using P(2) D(4) ok i(1) dq by (simp add: mlfq_before_def q_at_ok max_at_ok s1_def s3_def Let_def)
  moreover have "core (charged i (ptable s ! p)) = core (ptable s ! p)"
    by (simp add: core_def)
  then have inv4: "mlfq_inv {p} s4"
    using P(2) D(4) f2(1) q4 pt4 by (intro mlfq_inv_core [OF s2(4)]) (auto simp: s1_def nth_list_update core_def)
  then have "mlfq_inv {} ?s5"
    using P(2,3) D(4) ok pt4 kk by (intro mlfq_inv_upd_unqueued [OF inv4])
      (auto simp: proc_ok_def dispatched_def)
  moreover have "qlist ?s5 = (qlist s)(i := rest)" using queues_cong [OF q4(1,2)] s2(5) i(2) by simp
  moreover have "ptable ?s5 = (ptable s)[p := dispatched i (ptable s ! p)]"
    using pt4 P(2) D(4) by (simp add: dispatched_def)
  ultimately show ?thesis using P(2,3) f2 by (intro exI [of _ ?s5])
      (simp add: s4_def s3_def s1_def, simp add: upd_proc_def)
qed

text \<open>The queue of a process that hands the CPU back while it could go on.\<close>

definition next_queue :: "proc \<Rightarrow> nat" where
  "next_queue x =
     (let c = nat (p_cur_q x) in
      if p_flg x \<or> p_q x ! c \<ge> max_queue_ticks ! c then min (c + 1) 4 else c)"

lemma mlfq_demote_ok:
  assumes "proc_ok x"
  shows "mlfq_demote x = Ok (x\<lparr>p_flg := False, p_cur_q := int (next_queue x)\<rparr>)"
proof -
  let ?c = "nat (p_cur_q x)"
  have c: "0 \<le> p_cur_q x" "p_cur_q x < int NQUEUE" using assms by (auto simp: proc_ok_def)
  then have "x\<lparr>p_flg := False, p_cur_q := p_cur_q x\<rparr> = x" if "\<not> p_flg x" using that by (cases x) simp
  with c show ?thesis
    using q_at_ok [OF assms c] max_at_ok [OF c]
    by (cases "p_flg x \<or> p_q x ! ?c \<ge> max_queue_ticks ! ?c")
      (auto simp: mlfq_demote_def next_queue_def Let_def NQUEUE_def)
qed

lemma mlfq_after_ok:
  assumes inv: "mlfq_inv {p} s" and p: "p < NPROC"
  shows "\<exists>s'. mlfq_after p s = Ok s' \<and> mlfq_inv {} s' \<and>
    (runnable (ptable s) p \<longrightarrow>
       (let c = next_queue (ptable s ! p) in
        qlist s' = (qlist s)(c := qlist s c @ [p]) \<and>
        ptable s' = (ptable s)[p := (ptable s ! p)\<lparr>p_flg := False, p_cur_q := int c, p_qtime := sint (ticks s)\<rparr>])) \<and>
    (\<not> runnable (ptable s) p \<longrightarrow> ptable s' = ptable s \<and> qlist s' = qlist s)"
proof -
  let ?s1 = "(switchkvm s)\<lparr>c_proc := None\<rparr>"
  note D = mlfq_invD [OF inv]
  have s1: "ptable ?s1 = ptable s" "qu ?s1 = qu s" "q_index ?s1 = q_index s" "nextpid ?s1 = nextpid s"
    "ticks ?s1 = ticks s" by (simp_all add: switchkvm_def)
  have inv1: "mlfq_inv {p} ?s1" using D(4) s1 by (intro mlfq_inv_core [OF inv]) simp_all
  have q1: "qlist ?s1 = qlist s" using queues_cong [OF s1(2,3)] by simp
  have ok: "proc_ok (ptable s ! p)" using table_invD(1) [OF D(2) p] .
  show ?thesis
  proof (cases "runnable (ptable s) p")
    case False
    then have "mlfq_after p s = Ok ?s1" using p D(4) s1(1) by (simp add: mlfq_after_def Let_def)
    then show ?thesis using False mlfq_inv_drop [OF inv1] s1(1) q1 by auto
  next
    case True
    let ?c = "next_queue (ptable s ! p)"
    define x1 where "x1 = (ptable s ! p)\<lparr>p_flg := False, p_cur_q := int ?c\<rparr>"
    define s2 where "s2 = upd_proc p (\<lambda>_. x1) ?s1"
    have c: "?c < NQUEUE" using ok by (auto simp: next_queue_def Let_def proc_ok_def NQUEUE_def)
    have inv2: "mlfq_inv {p} s2"
      unfolding s2_def using ok c p s1(1)
      by (intro mlfq_inv_upd_unqueued [OF inv1]) (auto simp: proc_ok_def x1_def)
    have s2: "ptable s2 = (ptable s)[p := x1]" "ticks s2 = ticks s" "qlist s2 = qlist s"
      using s1 q1 by (simp_all add: s2_def)
    have nth: "ptable s2 ! p = x1" using s2(1) p D(4) by simp
    obtain s3 where s3: "enqueue_timed p s2 = Ok s3" "enqueued p s2 s3" "mlfq_inv {} s3"
      using enqueue_timed_ok [OF inv2 p] nth True by (auto simp: x1_def)
    have "mlfq_after p s = Ok s3"
      using True p D(4) s1(1) mlfq_demote_ok [OF ok] s3(1)
      by (simp add: mlfq_after_def Let_def s2_def x1_def)
    then show ?thesis
      using s3(2,3) nth s2 True p D(4) by (intro exI [of _ s3]) (simp add: enqueued_def Let_def x1_def)
  qed
qed

section \<open>The scheduler\<close>

definition all_empty :: "'a kproc_scheme \<Rightarrow> nat list \<Rightarrow> bool" where
  "all_empty s cs \<longleftrightarrow> (\<forall>c \<in> set cs. qlist s c = [])"

lemma mlfq_select_empty:
  assumes "mlfq_inv {} s" "\<forall>c \<in> set cs. c < NQUEUE" "all_empty s cs"
  shows "mlfq_select swtch cs s = Ok s"
  using assms(2,3)
proof (induction cs)
  case (Cons c cs)
  have "q_index s ! c = -1" "c < length (q_index s)"
    using wf_queuesD [OF mlfq_invD(1) [OF assms(1)], of c] length_qlist [OF mlfq_invD(1) [OF assms(1)], of c]
      Cons.prems by (auto simp: all_empty_def)
  then show ?case using Cons by (simp add: all_empty_def)
qed simp

lemma mlfq_select_head:
  assumes inv: "mlfq_inv {} s" and c: "c < NQUEUE" "qlist s c = p # rest"
    and cs: "cs = ds @ c # es" "\<forall>d \<in> set ds. d < NQUEUE" "all_empty s ds"
  shows "mlfq_select swtch cs s = bindR (mlfq_before c p s) (\<lambda>s1. bindR (swtch p s1) (mlfq_after p))"
proof -
  note D = mlfq_invD [OF inv]
  have here: "mlfq_select swtch (c # es) s =
      bindR (mlfq_before c p s) (\<lambda>s1. bindR (swtch p s1) (mlfq_after p))"
  proof -
    note W = wf_queuesD [OF D(1) c(1)]
    have l: "0 < q_len s c" using length_qlist [OF D(1) c(1)] c(2) by simp
    have "qu s ! c ! 0 = Some p" using qu_nth(1) [OF D(1) c(1) l] c(2) by simp
    moreover have "0 < length (qu s ! c)" using l W by simp
    moreover have "p < length (ptable s)" "runnable (ptable s) p"
      using pid_of_queued [OF inv c(1), of p] c(2) D(4) by auto
    ultimately show ?thesis using W l by simp
  qed
  have "mlfq_select swtch (ds @ c # es) s = mlfq_select swtch (c # es) s"
    using cs(2,3)
  proof (induction ds)
    case (Cons d ds)
    have "q_index s ! d = -1" "d < length (q_index s)"
      using wf_queuesD [OF D(1), of d] length_qlist [OF D(1), of d] Cons.prems by (auto simp: all_empty_def)
    then show ?case using Cons by (simp add: all_empty_def)
  qed simp
  then show ?thesis unfolding cs(1) here by simp
qed

lemma first_nonempty:
  assumes "\<not> all_empty s [0..<n]"
  shows "\<exists>c p rest. c < n \<and> qlist s c = p # rest \<and> all_empty s [0..<c]"
proof -
  define c where "c = (LEAST c. c < n \<and> qlist s c \<noteq> [])"
  have ex: "\<exists>c. c < n \<and> qlist s c \<noteq> []" using assms by (auto simp: all_empty_def)
  have "c < n" "qlist s c \<noteq> []" using LeastI_ex [OF ex] by (auto simp: c_def)
  moreover have "qlist s d = []" if "d < c" for d
    using not_less_Least [of d "\<lambda>c. c < n \<and> qlist s c \<noteq> []"] that \<open>c < n\<close> by (auto simp: c_def)
  ultimately show ?thesis by (cases "qlist s c") (auto simp: all_empty_def)
qed

text \<open>
  What the scheduler relies on when it gives the CPU to \<open>p\<close>: the state it gets back is
  one where the queues are right for every process but \<open>p\<close>.
\<close>

definition swtch_ok :: "(nat \<Rightarrow> 'a kproc_scheme \<Rightarrow> 'a kproc_scheme res) \<Rightarrow> bool" where
  "swtch_ok swtch \<longleftrightarrow> (\<forall>p s. p < NPROC \<and> mlfq_inv {} s \<and> p_state (ptable s ! p) = RUNNING \<longrightarrow>
     (\<exists>s'. swtch p s = Ok s' \<and> mlfq_inv {p} s'))"

lemma mlfq_select_inv:
  assumes inv: "mlfq_inv {} s" and sw: "swtch_ok swtch"
  shows "\<exists>s'. mlfq_select swtch [0..<NQUEUE] s = Ok s' \<and> mlfq_inv {} s'"
proof (cases "all_empty s [0..<NQUEUE]")
  case True
  then show ?thesis using mlfq_select_empty [OF inv] inv by auto
next
  case False
  then obtain c p rest where c: "c < NQUEUE" "qlist s c = p # rest" "all_empty s [0..<c]"
    using first_nonempty by blast
  have sp: "[0..<NQUEUE] = [0..<c] @ c # [Suc c..<NQUEUE]"
    using c(1) upt_add_eq_append [of 0 c "NQUEUE - c"] by (simp add: upt_conv_Cons)
  have sel: "mlfq_select swtch [0..<NQUEUE] s = bindR (mlfq_before c p s) (\<lambda>s1. bindR (swtch p s1) (mlfq_after p))"
    using c(1) by (intro mlfq_select_head [OF inv c(1,2) sp _ c(3)]) simp
  obtain s1 where s1: "mlfq_before c p s = Ok s1" "mlfq_inv {} s1"
    "ptable s1 = (ptable s)[p := dispatched c (ptable s ! p)]" "p < NPROC"
    using mlfq_before_ok [OF inv c(1,2)] by blast
  have "p_state (ptable s1 ! p) = RUNNING"
    using s1(3,4) mlfq_invD(4) [OF inv] by (simp add: dispatched_def)
  then obtain s2 where s2: "swtch p s1 = Ok s2" "mlfq_inv {p} s2"
    using sw s1(2,4) unfolding swtch_ok_def by blast
  obtain s3 where "mlfq_after p s2 = Ok s3" "mlfq_inv {} s3"
    using mlfq_after_ok [OF s2(2) s1(4)] by blast
  then show ?thesis unfolding sel using s1(1) s2(1) by simp
qed

end
