(* ===== verification/Mlfq_System.thy ===== *)
theory Mlfq_System
  imports Mlfq_Sched
begin

text \<open>
  The kernel as a transition system over its process table, under the multi-level
  feedback policy: every step is one critical section under \<^verbatim>\<open>ptable.lock\<close>, on
  whichever processor it runs. A processor that gives the CPU to a process does the
  first half of the scheduler (\<open>run\<close>); the process ends its turn by \<^verbatim>\<open>yield\<close>,
  \<^verbatim>\<open>sleep\<close> or \<^verbatim>\<open>exit\<close>, each followed by the second half of the scheduler under the
  same lock. Several processes may be running at once.
\<close>

section \<open>Steps\<close>

text \<open>What the creator of a process may set while it is an embryo, and a process itself while it runs.\<close>

definition keeps_core :: "(proc \<Rightarrow> proc) \<Rightarrow> bool" where
  "keeps_core f \<longleftrightarrow> (\<forall>x. p_state (f x) = p_state x \<and> p_pid (f x) = p_pid x \<and> p_cur_q (f x) = p_cur_q x \<and>
     p_q (f x) = p_q x \<and> p_kstack (f x) = p_kstack x)"

inductive mlfq_step :: "ksym \<Rightarrow> 'a kproc_scheme \<Rightarrow> 'a kproc_scheme \<Rightarrow> bool" for K :: ksym where
  timer: "mlfq_step K s (timer_account s)"
| wakes: "wakeup MLFQ ch s = Ok s' \<Longrightarrow> mlfq_step K s s'"
| kills: "kill MLFQ pid s = Ok (r, s') \<Longrightarrow> mlfq_step K s s'"
| prio: "set_priority MLFQ new_priority pid s = (r, y, s') \<Longrightarrow> mlfq_step K s s'"
| alloc: "allocproc MLFQ K s = (r, s') \<Longrightarrow> mlfq_step K s s'"
| sets_up: "i < NPROC \<Longrightarrow> p_state (ptable s ! i) = EMBRYO \<Longrightarrow> keeps_core f \<Longrightarrow> mlfq_step K s (upd_proc i f s)"
| abort: "i < NPROC \<Longrightarrow> p_state (ptable s ! i) = EMBRYO \<Longrightarrow>
    kfree (k_end K) (p_kstack (ptable s ! i)) s = Ok s1 \<Longrightarrow>
    mlfq_step K s (upd_proc i (\<lambda>x. x\<lparr>p_kstack := 0, p_state := UNUSED\<rparr>) s1)"
| ready: "i < NPROC \<Longrightarrow> p_state (ptable s ! i) = EMBRYO \<Longrightarrow> p_kstack (ptable s ! i) \<noteq> 0 \<Longrightarrow>
    p_pgdir (ptable s ! i) \<noteq> 0 \<Longrightarrow> fork_ready MLFQ i s = Ok s' \<Longrightarrow> mlfq_step K s s'"
| first: "i < NPROC \<Longrightarrow> p_state (ptable s ! i) = EMBRYO \<Longrightarrow> p_kstack (ptable s ! i) \<noteq> 0 \<Longrightarrow>
    p_pgdir (ptable s ! i) \<noteq> 0 \<Longrightarrow> p_cur_q (ptable s ! i) = 0 \<Longrightarrow> userinit_ready MLFQ i s = Ok s' \<Longrightarrow>
    mlfq_step K s s'"
| run: "age_all s = Ok s1 \<Longrightarrow> c < NQUEUE \<Longrightarrow> qlist s1 c = p # rest \<Longrightarrow> all_empty s1 [0..<c] \<Longrightarrow>
    mlfq_before c p s1 = Ok s' \<Longrightarrow> mlfq_step K s s'"
| yields: "p < NPROC \<Longrightarrow> p_state (ptable s ! p) = RUNNING \<Longrightarrow> mlfq_after p (yield p s) = Ok s' \<Longrightarrow>
    mlfq_step K s s'"
| sleeps: "p < NPROC \<Longrightarrow> p_state (ptable s ! p) = RUNNING \<Longrightarrow> mlfq_after p (sleep_enter ch p s) = Ok s' \<Longrightarrow>
    mlfq_step K s s'"
| woken_up: "mlfq_step K s (sleep_exit p s)"
| exits: "p < NPROC \<Longrightarrow> p_state (ptable s ! p) = RUNNING \<Longrightarrow> initproc s \<noteq> Some p \<Longrightarrow>
    exit_table MLFQ p s = Ok s1 \<Longrightarrow> mlfq_after p s1 = Ok s' \<Longrightarrow> mlfq_step K s s'"
| charges: "p < NPROC \<Longrightarrow> timer_preempt MLFQ p s = Ok (False, s') \<Longrightarrow> mlfq_step K s s'"
| image: "p < NPROC \<Longrightarrow> p_state (ptable s ! p) = RUNNING \<Longrightarrow> keeps_core f \<Longrightarrow> p_pgdir (f (ptable s ! p)) \<noteq> 0 \<Longrightarrow>
    mlfq_step K s (upd_proc p f s)"
| reaps: "i < NPROC \<Longrightarrow> p_state (ptable s ! i) = ZOMBIE \<Longrightarrow> reap MLFQ K i s = Ok (pid, s') \<Longrightarrow> mlfq_step K s s'"
| memory: "only_mem s s' \<Longrightarrow> mlfq_step K s s'"

inductive mlfq_reachable :: "ksym \<Rightarrow> 'a kproc_scheme \<Rightarrow> 'a kproc_scheme \<Rightarrow> bool" for K s0 where
  start: "mlfq_reachable K s0 s0"
| step: "mlfq_reachable K s0 s \<Longrightarrow> mlfq_step K s s' \<Longrightarrow> mlfq_reachable K s0 s'"

section \<open>The invariant holds in every reachable state\<close>

lemma mlfq_inv_boot: "mlfq_inv {} boot_kproc"
proof -
  have q: "qlist boot_kproc c = []" if "c < NQUEUE" for c
    using that by (simp add: qlist_def q_len_def boot_kproc_def)
  have "wf_queues boot_kproc"
    by (simp add: wf_queues_def q_len_def boot_kproc_def NPROC_def)
  moreover have "table_inv (ptable boot_kproc) (nextpid boot_kproc)"
    by (simp add: table_inv_def boot_kproc_def proc_ok_def zero_proc_def NQUEUE_def)
  moreover have "queues_inv {} (ptable boot_kproc) (qlist boot_kproc)"
    unfolding queues_inv_def using q by (simp add: boot_kproc_def zero_proc_def)
  ultimately show ?thesis by (simp add: mlfq_inv_def)
qed

lemma embryo_ready:
  assumes inv: "mlfq_inv {} s" and i: "i < NPROC" "p_state (ptable s ! i) = EMBRYO"
    "p_kstack (ptable s ! i) \<noteq> 0" "p_pgdir (ptable s ! i) \<noteq> 0"
  shows "mlfq_inv {i} (upd_proc i (\<lambda>x. x\<lparr>p_state := RUNNABLE\<rparr>) s)"
    and "runnable (ptable (upd_proc i (\<lambda>x. x\<lparr>p_state := RUNNABLE\<rparr>) s)) i"
proof -
  have "proc_ok (ptable s ! i)" using table_invD(1) [OF mlfq_invD(2) [OF inv] i(1)] .
  then show "mlfq_inv {i} (upd_proc i (\<lambda>x. x\<lparr>p_state := RUNNABLE\<rparr>) s)"
    using i by (intro mlfq_inv_upd_unqueued [OF inv]) (auto simp: proc_ok_def)
  show "runnable (ptable (upd_proc i (\<lambda>x. x\<lparr>p_state := RUNNABLE\<rparr>) s)) i"
    using i(1) mlfq_invD(4) [OF inv] by simp
qed

lemma fork_ready_MLFQ:
  assumes "mlfq_inv {} s" "i < NPROC" "p_state (ptable s ! i) = EMBRYO"
    "p_kstack (ptable s ! i) \<noteq> 0" "p_pgdir (ptable s ! i) \<noteq> 0"
  shows "\<exists>s'. fork_ready MLFQ i s = Ok s' \<and> mlfq_inv {} s' \<and>
    enqueued i (upd_proc i (\<lambda>x. x\<lparr>p_state := RUNNABLE\<rparr>) s) s'"
  using enqueue_timed_ok [OF embryo_ready(1) [OF assms] assms(2) _ embryo_ready(2) [OF assms]]
  by (auto simp: fork_ready_def Let_def)

lemma userinit_ready_MLFQ:
  assumes inv: "mlfq_inv {} s" and i: "i < NPROC" "p_state (ptable s ! i) = EMBRYO"
    "p_kstack (ptable s ! i) \<noteq> 0" "p_pgdir (ptable s ! i) \<noteq> 0" "p_cur_q (ptable s ! i) = 0"
  shows "\<exists>s'. userinit_ready MLFQ i s = Ok s' \<and> mlfq_inv {} s'"
proof -
  let ?s1 = "upd_proc i (\<lambda>x. x\<lparr>p_state := RUNNABLE\<rparr>) s"
  note E = embryo_ready [OF inv i(1-4)]
  have cq: "p_cur_q (ptable ?s1 ! i) = 0" using i mlfq_invD(4) [OF inv] by simp
  obtain s2 where s2: "enqueue 0 i ?s1 = Ok (True, s2)" "only_queues ?s1 s2" "mlfq_inv {} s2"
    using enqueue_ok [OF E(1) i(1) _ E(2)] unfolding cq by auto
  have "p_cur_q (ptable s2 ! i) = 0" using only_queues_kproc(1) [OF s2(2)] cq by simp
  then have "mlfq_inv {} (upd_proc i (\<lambda>x. x\<lparr>p_cur_q := 0\<rparr>) s2)"
    by (intro mlfq_inv_upd_core [OF s2(3)]) (simp add: core_def)
  then show ?thesis using s2(1) by (simp add: userinit_ready_def Let_def)
qed

lemma timer_preempt_keeps:
  assumes "timer_preempt MLFQ p s = Ok (False, s')" "mlfq_inv {} s"
  shows "mlfq_inv {} s'"
  using assms by (auto simp: timer_preempt_def bindR_eq_Ok_iff split: if_splits intro!: mlfq_inv_upd_core)

lemma set_priority_keeps:
  "set_priority MLFQ n pid s = (r, y, s') \<Longrightarrow> mlfq_inv {} s \<Longrightarrow> mlfq_inv {} s'"
  by (auto simp: set_priority_def split: option.splits intro!: mlfq_inv_upd_core)

lemma keeps_core_inv:
  assumes inv: "mlfq_inv {} s" and p: "p < NPROC" "\<not> runnable (ptable s) p"
    and f: "keeps_core f" "p_state (ptable s ! p) = RUNNING \<Longrightarrow> p_pgdir (f (ptable s ! p)) \<noteq> 0"
    and st: "p_state (ptable s ! p) \<noteq> SLEEPING"
  shows "mlfq_inv {} (upd_proc p f s)"
proof -
  have "proc_ok (ptable s ! p)" using table_invD(1) [OF mlfq_invD(2) [OF inv] p(1)] .
  then show ?thesis
    using p f st by (intro mlfq_inv_upd_unqueued [OF inv]) (auto simp: proc_ok_def keeps_core_def)
qed

lemma Ok_exD: "x = Ok a \<Longrightarrow> \<exists>b. x = Ok b \<and> P b \<Longrightarrow> P a"
  by auto

lemma mlfq_inv_exempt:
  "mlfq_inv {} s \<Longrightarrow> \<not> runnable (ptable s) p \<Longrightarrow> mlfq_inv {p} s"
  unfolding mlfq_inv_def queues_inv_def by (metis empty_iff singletonD)

lemma mlfq_after_inv:
  "mlfq_inv {p} s \<Longrightarrow> p < NPROC \<Longrightarrow> mlfq_after p s = Ok s' \<Longrightarrow> mlfq_inv {} s'"
  using Ok_exD [OF _ mlfq_after_ok] by blast

lemma reap_keeps:
  fixes s :: "'a kproc_scheme"
  assumes inv: "mlfq_inv {} s" and i: "i < NPROC" "p_state (ptable s ! i) = ZOMBIE"
    and r: "reap MLFQ K i s = Ok (pid, s')"
  shows "mlfq_inv {} s'"
proof -
  from r obtain s1 s2 where s1: "kfree (k_end K) (p_kstack (ptable s ! i)) s = Ok s1"
    "freevm (k_end K) (p_pgdir (ptable s1 ! i)) (upd_proc i (\<lambda>x. x\<lparr>p_kstack := 0\<rparr>) s1) = Ok s2"
    by (auto simp: reap_def bindR_eq_Ok_iff Let_def)
  have "ptable s1 = ptable s" using only_mem_kproc(1) [OF only_mem_kfree [OF s1(1)]] .
  with s1(2) obtain t where "reap MLFQ K i s = Ok (p_pid (ptable s ! i), t)" "mlfq_inv {} t"
    using reap_MLFQ [OF inv i s1(1)] by auto
  with r show ?thesis by simp
qed

lemma abort_keeps:
  assumes inv: "mlfq_inv {} s" and i: "i < NPROC" "p_state (ptable s ! i) = EMBRYO"
    and k: "kfree kend v s = Ok s1"
  shows "mlfq_inv {} (upd_proc i (\<lambda>x. x\<lparr>p_kstack := 0, p_state := UNUSED\<rparr>) s1)"
proof -
  have inv1: "mlfq_inv {} s1" using mlfq_inv_only_mem [OF inv only_mem_kfree [OF k]] .
  have pt: "ptable s1 = ptable s" using only_mem_kproc(1) [OF only_mem_kfree [OF k]] .
  have "proc_ok (ptable s ! i)" using table_invD(1) [OF mlfq_invD(2) [OF inv] i(1)] .
  then show ?thesis
    using i pt by (intro mlfq_inv_upd_unqueued [OF inv1]) (auto simp: proc_ok_def)
qed

lemma exit_keeps:
  assumes inv: "mlfq_inv {} s" and p: "p < NPROC" "p_state (ptable s ! p) = RUNNING" "initproc s \<noteq> Some p"
    and e: "exit_table MLFQ p s = Ok s1" "mlfq_after p s1 = Ok s'"
  shows "mlfq_inv {} s'"
proof -
  have "table_ok MLFQ s" using inv mlfq_invD(4) [OF inv] by (simp add: table_ok_def)
  from Ok_exD [OF e(1) exit_table_ok [OF this p]]
  have "mlfq_inv {} s1" "p_state (ptable s1 ! p) = ZOMBIE" by (simp_all add: table_ok_def)
  then have "mlfq_inv {p} s1" by (simp add: mlfq_inv_exempt)
  then show ?thesis using p(1) e(2) by (rule mlfq_after_inv)
qed

lemma run_keeps:
  assumes "mlfq_inv {} s" "age_all s = Ok s1" "c < NQUEUE" "qlist s1 c = p # rest" "mlfq_before c p s1 = Ok s'"
  shows "mlfq_inv {} s'"
proof -
  have "mlfq_inv {} s1" using age_all_ok [OF assms(1)] assms(2) by (elim exE conjE) simp
  from Ok_exD [OF assms(5) mlfq_before_ok [OF this assms(3,4)]] show ?thesis by blast
qed

lemma mlfq_step_inv:
  assumes "mlfq_step K s s'" "mlfq_inv {} s"
  shows "mlfq_inv {} s'"
  using assms
proof (cases rule: mlfq_step.cases)
  case timer
  then show ?thesis using timer_account_inv [OF assms(2)] by simp
next
  case (wakes ch)
  then show ?thesis using Ok_exD [OF _ wakeup1_MLFQ [OF assms(2)]] unfolding wakeup_def by blast
next
  case (kills pid r)
  then show ?thesis using kill_MLFQ [OF assms(2), of pid] by (elim exE conjE) simp
next
  case (prio n pid r y)
  then show ?thesis using assms(2) by (rule set_priority_keeps)
next
  case (alloc r)
  then show ?thesis using allocproc_MLFQ(1) [OF assms(2)] by blast
next
  case (sets_up i f)
  then show ?thesis using keeps_core_inv [OF assms(2), of i f] by simp
next
  case (abort i s1)
  then show ?thesis using abort_keeps [OF assms(2)] by simp
next
  case (ready i)
  then show ?thesis using Ok_exD [OF _ fork_ready_MLFQ [OF assms(2)]] by blast
next
  case (first i)
  then show ?thesis using Ok_exD [OF _ userinit_ready_MLFQ [OF assms(2)]] by blast
next
  case (run s1 c p rest)
  then show ?thesis using run_keeps [OF assms(2)] by blast
next
  case (yields p)
  then show ?thesis using mlfq_after_inv [OF yield_inv [OF assms(2)]] by blast
next
  case (sleeps p ch)
  have "mlfq_inv {p} (sleep_enter ch p s)" unfolding sleep_enter_def
    using leave_cpu [OF assms(2) sleeps(1,2)] by simp
  then show ?thesis using sleeps(1,3) by (rule mlfq_after_inv)
next
  case (woken_up p)
  then show ?thesis unfolding sleep_exit_def using mlfq_inv_upd_core [OF assms(2)] by simp
next
  case (exits p s1)
  then show ?thesis using exit_keeps [OF assms(2)] by blast
next
  case (charges p)
  then show ?thesis using timer_preempt_keeps [OF _ assms(2)] by blast
next
  case (image p f)
  then show ?thesis using keeps_core_inv [OF assms(2), of p f] by simp
next
  case (reaps i pid)
  then show ?thesis using reap_keeps [OF assms(2)] by blast
next
  case memory
  then show ?thesis using mlfq_inv_only_mem [OF assms(2)] by blast
qed

lemma mlfq_reachable_inv: "mlfq_reachable K s0 s \<Longrightarrow> mlfq_inv {} s0 \<Longrightarrow> mlfq_inv {} s"
  by (induction rule: mlfq_reachable.induct) (auto intro: mlfq_step_inv)

section \<open>Properties\<close>

text \<open>
  A sample state: processes 1 and 2 in slots 0 and 1, runnable and waiting in queue 0.
\<close>

definition demo_proc :: "int \<Rightarrow> proc" where
  "demo_proc pid = zero_proc\<lparr>p_state := RUNNABLE, p_pid := pid, p_kstack := 0x80400000, p_pgdir := 0x80401000,
     p_priority := 60\<rparr>"

definition demo_kproc :: kproc where
  "demo_kproc = boot_kproc\<lparr>ptable := (replicate NPROC zero_proc)[0 := demo_proc 1, Suc 0 := demo_proc 2],
     qu := (qu boot_kproc)[0 := (replicate NPROC None)[0 := Some 0, Suc 0 := Some (Suc 0)]],
     q_index := (q_index boot_kproc)[0 := 1], nextpid := 3\<rparr>"

lemma demo_queues:
  "wf_queues demo_kproc" "qlist demo_kproc 0 = [0, Suc 0]" "c < NQUEUE \<Longrightarrow> c \<noteq> 0 \<Longrightarrow> qlist demo_kproc c = []"
proof -
  let ?row = "(replicate NPROC None)[0 := Some 0, Suc 0 := Some (Suc 0)]"
  let ?s = "boot_kproc\<lparr>qu := (qu boot_kproc)[0 := ?row], q_index := (q_index boot_kproc)[0 := int 2 - 1]\<rparr>"
  have tk: "take 2 ?row = [Some 0, Some (Suc 0)]"
    by (simp add: NPROC_def numeral_nat)
  have "wf_queues ?s \<and> qlist ?s 0 = map the (take 2 ?row) \<and> (\<forall>d. d \<noteq> 0 \<longrightarrow> qlist ?s d = qlist boot_kproc d)"
    using row_update [OF mlfq_invD(1) [OF mlfq_inv_boot] _ refl, of 0 ?row 2] tk
    by (auto simp: NPROC_def NQUEUE_def)
  moreover have "qlist demo_kproc = qlist ?s \<and> wf_queues demo_kproc = wf_queues ?s"
    by (rule queues_cong) (simp_all add: demo_kproc_def)
  moreover have "qlist boot_kproc c = []" if "c < NQUEUE" for c
    using that by (simp add: qlist_def q_len_def boot_kproc_def)
  ultimately show "wf_queues demo_kproc" "qlist demo_kproc 0 = [0, Suc 0]"
    "c < NQUEUE \<Longrightarrow> c \<noteq> 0 \<Longrightarrow> qlist demo_kproc c = []" unfolding tk by simp_all
qed

lemma demo_nth:
  "i < NPROC \<Longrightarrow> ptable demo_kproc ! i = (if i = 0 then demo_proc 1 else if i = Suc 0 then demo_proc 2 else zero_proc)"
  by (simp add: demo_kproc_def nth_list_update_if)

lemma mlfq_inv_demo: "mlfq_inv {} demo_kproc"
proof -
  have len: "length (ptable demo_kproc) = NPROC" "nextpid demo_kproc = 3"
    by (simp_all add: demo_kproc_def)
  have "table_inv (ptable demo_kproc) (nextpid demo_kproc)"
    unfolding table_inv_def len using demo_nth
    by (simp add: proc_ok_def demo_proc_def zero_proc_def NQUEUE_def)
  moreover have "i \<in> set (qlist demo_kproc c) \<longleftrightarrow> runnable (ptable demo_kproc) i \<and> p_cur_q (ptable demo_kproc ! i) = int c"
    if "c < NQUEUE" "i < NPROC" for c i
    using demo_queues(2) demo_queues(3) [OF that(1)] demo_nth [OF that(2)]
    by (cases "c = 0") (auto simp: demo_proc_def zero_proc_def)
  moreover have "distinct (qlist demo_kproc c)" if "c < NQUEUE" for c
    using demo_queues(2) demo_queues(3) [OF that] by (cases "c = 0") auto
  ultimately show ?thesis using demo_queues(1) by (simp add: mlfq_inv_def queues_inv_def)
qed

lemma dispatch_ok:
  assumes "mlfq_inv {} s" "i < NPROC" "runnable (ptable s) i"
  obtains s1 c p rest s2 where "age_all s = Ok s1" "mlfq_inv {} s1" "c < NQUEUE" "qlist s1 c = p # rest" "all_empty s1 [0..<c]"
    "\<forall>k < NPROC. runnable (ptable s1) k \<longrightarrow> int c \<le> p_cur_q (ptable s1 ! k)"
    "mlfq_before c p s1 = Ok s2" "c_proc s2 = Some p" "p < NPROC" "p_state (ptable s2 ! p) = RUNNING"
    "qlist s2 = (qlist s1)(c := rest)"
proof -
  obtain t1 t2 t3 s1 where s1: "age_all s = Ok s1" "mlfq_inv {} s1"
    "aged_pass 1 0 s t1" "aged_pass 2 0 t1 t2" "aged_pass 3 0 t2 t3" "aged_pass 4 0 t3 s1"
    using age_all_ok [OF assms(1)] by blast
  have keep: "runnable (ptable u') i" if "aged_pass k 0 u u'" "runnable (ptable u) i" for k and u u' :: "'a kproc_scheme"
    using that assms(2) by (auto simp: aged_pass_def promoted_def Let_def)
  have "runnable (ptable s1) i" using keep s1(3-6) assms(3) by blast
  note D = mlfq_invD [OF s1(2)] and T = table_invD [OF mlfq_invD(2) [OF s1(2)]]
  have mem: "k \<in> set (qlist s1 (nat (p_cur_q (ptable s1 ! k))))" if "k < NPROC" "runnable (ptable s1) k" for k
    using queues_invD(2) [OF D(3) T(5) [OF that(1)] that(1)] that T(6) [OF that(1)] by simp
  have "\<not> all_empty s1 [0..<NQUEUE]"
    using mem [OF assms(2) \<open>runnable (ptable s1) i\<close>] T(5) [OF assms(2)] by (fastforce simp: all_empty_def)
  then obtain c p rest where c: "c < NQUEUE" "qlist s1 c = p # rest" "all_empty s1 [0..<c]"
    using first_nonempty by blast
  have le: "int c \<le> p_cur_q (ptable s1 ! k)" if "k < NPROC" "runnable (ptable s1) k" for k
  proof (rule ccontr)
    assume "\<not> int c \<le> p_cur_q (ptable s1 ! k)"
    then have "nat (p_cur_q (ptable s1 ! k)) < c" using T(6) [OF that(1)] by simp
    then have "qlist s1 (nat (p_cur_q (ptable s1 ! k))) = []" using c(3) by (simp add: all_empty_def)
    then show False using mem [OF that] by simp
  qed
  obtain s2 where s2: "mlfq_before c p s1 = Ok s2" "c_proc s2 = Some p" "p < NPROC"
    "ptable s2 = (ptable s1)[p := dispatched c (ptable s1 ! p)]" "qlist s2 = (qlist s1)(c := rest)"
    using mlfq_before_ok [OF s1(2) c(1,2)] by blast
  have "p_state (ptable s2 ! p) = RUNNING" using s2(3,4) D(4) by (simp add: dispatched_def)
  then show thesis using that [OF s1(1,2) c] le s2(1-3,5) by blast
qed

text \<open>A run: a page is freed, the first process is allocated in it, gets a page directory, becomes runnable and runs.\<close>

definition demo_kernel :: ksym where
  "demo_kernel = \<lparr>k_end = 0x80115000, k_data = 0x80108000, k_forkret = 0x80103800, k_trapret = 0x80105900\<rparr>"

lemma demo_first_process:
  "\<exists>s. mlfq_reachable demo_kernel boot_kproc s \<and> runnable (ptable s) 0 \<and> p_cur_q (ptable s ! 0) = 0 \<and> initproc s = None"
proof -
  let ?s1 = "boot_kproc\<lparr>freelist := 0x80400000\<rparr>"
  have n: "(0::nat) < NPROC" by (simp add: NPROC_def)
  have r1: "mlfq_reachable demo_kernel boot_kproc ?s1"
    by (rule mlfq_reachable.step [OF mlfq_reachable.start mlfq_step.memory]) (simp add: only_mem_def)
  obtain s2 where a: "allocproc MLFQ demo_kernel ?s1 = (Some 0, s2)" and p: "p_state (ptable s2 ! 0) = EMBRYO"
    "p_kstack (ptable s2 ! 0) \<noteq> 0" "p_cur_q (ptable s2 ! 0) = 0" "initproc s2 = None" "length (ptable s2) = NPROC"
  proof -
    have "find_index (\<lambda>p. p_state p = UNUSED) (ptable ?s1) = Some 0"
      by (rule find_index_eqI) (simp_all add: boot_kproc_def zero_proc_def NPROC_def)
    then show thesis
      using n that by (simp add: allocproc_def kalloc_def Let_def upd_proc_def init_times_def boot_kproc_def)
  qed
  let ?s3 = "upd_proc 0 (\<lambda>x. x\<lparr>p_pgdir := 0x80401000\<rparr>) s2"
  have r2: "mlfq_reachable demo_kernel boot_kproc s2" using mlfq_reachable.step [OF r1 mlfq_step.alloc [OF a]] .
  have r3: "mlfq_reachable demo_kernel boot_kproc ?s3"
    by (rule mlfq_reachable.step [OF r2 mlfq_step.sets_up [OF n p(1)]]) (simp add: keeps_core_def)
  have q: "p_state (ptable ?s3 ! 0) = EMBRYO" "p_kstack (ptable ?s3 ! 0) \<noteq> 0" "p_pgdir (ptable ?s3 ! 0) \<noteq> 0"
    "p_cur_q (ptable ?s3 ! 0) = 0" "initproc ?s3 = None" "length (ptable ?s3) = NPROC" using p n by simp_all
  obtain s4 where s4: "fork_ready MLFQ 0 ?s3 = Ok s4" "enqueued 0 (upd_proc 0 (\<lambda>x. x\<lparr>p_state := RUNNABLE\<rparr>) ?s3) s4"
    using fork_ready_MLFQ [OF mlfq_reachable_inv [OF r3 mlfq_inv_boot] n q(1-3)] by blast
  have r4: "mlfq_reachable demo_kernel boot_kproc s4"
    using mlfq_reachable.step [OF r3 mlfq_step.ready [OF n q(1-3) s4(1)]] .
  have "runnable (ptable s4) 0 \<and> p_cur_q (ptable s4 ! 0) = 0 \<and> initproc s4 = None"
    using s4(2) q n p(3-5) by (simp add: enqueued_def)
  then show ?thesis using r4 by blast
qed

lemma demo_running_process:
  "\<exists>s p. mlfq_reachable demo_kernel boot_kproc s \<and> p < NPROC \<and> p_state (ptable s ! p) = RUNNING"
proof -
  obtain s where s: "mlfq_reachable demo_kernel boot_kproc s" "runnable (ptable s) 0" using demo_first_process by blast
  have n: "(0::nat) < NPROC" by (simp add: NPROC_def)
  obtain s1 c p rest s2 where r: "age_all s = Ok s1" "c < NQUEUE" "qlist s1 c = p # rest" "all_empty s1 [0..<c]"
    "mlfq_before c p s1 = Ok s2" "p < NPROC" "p_state (ptable s2 ! p) = RUNNING"
    by (rule dispatch_ok [OF mlfq_reachable_inv [OF s(1) mlfq_inv_boot] n s(2)]) (rule that)
  show ?thesis using mlfq_reachable.step [OF s(1) mlfq_step.run [OF r(1-5)]] r(6,7) by blast
qed

text \<open>
  C1: In every state that the kernel reaches from boot, a process is in queue \<open>c\<close> exactly when it
  is runnable and \<open>c\<close> is its current queue, no queue holds a process twice, and a runnable process
  has a valid queue number. So every runnable process waits in exactly one queue, and the scheduler
  neither loses a process nor runs one that is not runnable.
\<close>

theorem mlfq_queues_consistent:
  assumes "mlfq_reachable K boot_kproc s" "i < NPROC" "c < NQUEUE"
  shows "distinct (qlist s c) \<and> length (qlist s c) \<le> NPROC \<and>
    (i \<in> set (qlist s c) \<longleftrightarrow> runnable (ptable s) i \<and> p_cur_q (ptable s ! i) = int c) \<and>
    0 \<le> p_cur_q (ptable s ! i) \<and> p_cur_q (ptable s ! i) < int NQUEUE"
proof -
  note inv = mlfq_reachable_inv [OF assms(1) mlfq_inv_boot]
  note D = mlfq_invD [OF inv]
  have "length (qlist s c) \<le> NPROC"
    using length_qlist [OF D(1) assms(3)] wf_queuesD(4) [OF D(1) assms(3)] by simp
  then show ?thesis
    using queues_invD [OF D(3) assms(3)] table_invD(6,7) [OF D(2) assms(2)] assms(2) by blast
qed

theorem mlfq_queues_consistent_witness:
  "\<exists>s. mlfq_reachable demo_kernel boot_kproc s \<and> (0::nat) \<in> set (qlist s 0) \<and> (0::nat) \<notin> set (qlist s 1)"
proof -
  obtain s where s: "mlfq_reachable demo_kernel boot_kproc s" "runnable (ptable s) 0" "p_cur_q (ptable s ! 0) = 0"
    using demo_first_process by blast
  have n: "(0::nat) < NPROC" "(0::nat) < NQUEUE" "(1::nat) < NQUEUE" by (simp_all add: NPROC_def NQUEUE_def)
  show ?thesis using mlfq_queues_consistent [OF s(1) n(1,2)] mlfq_queues_consistent [OF s(1) n(1,3)] s by auto
qed

text \<open>
  C2: In every state that the kernel reaches from boot, every operation that works on the run queues
  returns: waking sleepers, killing a process, the timer tick, the aging pass, and the end of the
  turn of any running process by yield, sleep or exit. None of them indexes a queue array out of its
  bounds, dereferences a null queue entry or panics.
\<close>

theorem mlfq_operations_return:
  assumes "mlfq_reachable K boot_kproc s"
  shows "(\<forall>ch. \<exists>s'. wakeup MLFQ ch s = Ok s') \<and> (\<forall>pid. \<exists>r. kill MLFQ pid s = Ok r) \<and>
    (\<exists>s'. timer_tick MLFQ s = Ok s') \<and> (\<exists>s'. age_all s = Ok s') \<and>
    (\<forall>p < NPROC. p_state (ptable s ! p) = RUNNING \<longrightarrow>
       (\<exists>s'. mlfq_after p (yield p s) = Ok s') \<and>
       (\<forall>ch. \<exists>s'. mlfq_after p (sleep_enter ch p s) = Ok s') \<and>
       (initproc s \<noteq> Some p \<longrightarrow> (\<exists>s1 s'. exit_table MLFQ p s = Ok s1 \<and> mlfq_after p s1 = Ok s')))"
proof -
  note inv = mlfq_reachable_inv [OF assms mlfq_inv_boot]
  have tok: "table_ok MLFQ s" using inv mlfq_invD(4) [OF inv] by (simp add: table_ok_def)
  have "\<exists>s'. mlfq_after p (yield p s) = Ok s'" "\<exists>s'. mlfq_after p (sleep_enter ch p s) = Ok s'"
    "initproc s \<noteq> Some p \<Longrightarrow> \<exists>s1 s'. exit_table MLFQ p s = Ok s1 \<and> mlfq_after p s1 = Ok s'"
    if p: "p < NPROC" "p_state (ptable s ! p) = RUNNING" for p ch
  proof -
    show "\<exists>s'. mlfq_after p (yield p s) = Ok s'" using mlfq_after_ok [OF yield_inv [OF inv p] p(1)] by blast
    have "mlfq_inv {p} (sleep_enter ch p s)" unfolding sleep_enter_def using leave_cpu [OF inv p] by simp
    then show "\<exists>s'. mlfq_after p (sleep_enter ch p s) = Ok s'" using mlfq_after_ok [OF _ p(1)] by blast
    assume "initproc s \<noteq> Some p"
    from exit_table_ok [OF tok p this] obtain s1 where s1: "exit_table MLFQ p s = Ok s1" "table_ok MLFQ s1"
      "p_state (ptable s1 ! p) = ZOMBIE" by blast
    then have "mlfq_inv {p} s1" using mlfq_inv_exempt [of s1 p] by (simp add: table_ok_def)
    then show "\<exists>s1 s'. exit_table MLFQ p s = Ok s1 \<and> mlfq_after p s1 = Ok s'"
      using mlfq_after_ok [OF _ p(1)] s1(1) by blast
  qed
  moreover have "\<exists>s'. wakeup MLFQ ch s = Ok s'" for ch
    using wakeup1_MLFQ [OF inv, of ch] unfolding wakeup_def by blast
  moreover have "\<exists>r. kill MLFQ pid s = Ok r" for pid using kill_MLFQ [OF inv] by blast
  moreover have "\<exists>s'. timer_tick MLFQ s = Ok s'" using timer_tick_MLFQ [OF inv] by blast
  moreover have "\<exists>s'. age_all s = Ok s'" using age_all_ok [OF inv] by blast
  ultimately show ?thesis by blast
qed

theorem mlfq_operations_return_witness:
  "\<exists>s p. p < NPROC \<and> p_state (ptable s ! p) = RUNNING \<and> (\<exists>s'. timer_tick MLFQ (s :: kproc) = Ok s') \<and>
     (\<exists>s'. mlfq_after p (yield p s) = Ok s') \<and> (\<exists>s'. mlfq_after p (sleep_enter TicksChan p s) = Ok s')"
proof -
  obtain s p where s: "mlfq_reachable demo_kernel boot_kproc s" "p < NPROC" "p_state (ptable s ! p) = RUNNING"
    using demo_running_process by blast
  show ?thesis using mlfq_operations_return [OF s(1)] s(2,3) by blast
qed

text \<open>
  C6: One turn of the multi-level feedback scheduler, started with consistent queues, returns with
  consistent queues, whatever the chosen process does, as long as it hands the CPU back with queues
  that are right for every other process.
\<close>

theorem scheduler_MLFQ_safe:
  assumes "mlfq_inv {} s" "swtch_ok swtch"
  shows "\<exists>s'. scheduler_MLFQ swtch s = Ok s' \<and> mlfq_inv {} s'"
proof -
  obtain s4 where "age_all s = Ok s4" "mlfq_inv {} s4" using age_all_ok [OF assms(1)] by blast
  then show ?thesis using mlfq_select_inv [OF _ assms(2)] by (auto simp: scheduler_MLFQ_def)
qed

lemma swtch_ok_yield: "swtch_ok (\<lambda>p s. Ok (yield p s))"
  unfolding swtch_ok_def using yield_inv by blast

theorem scheduler_MLFQ_safe_witness:
  "\<exists>s'. scheduler_MLFQ (\<lambda>p s. Ok (yield p s)) demo_kproc = Ok s' \<and> mlfq_inv {} s'"
  using scheduler_MLFQ_safe [OF mlfq_inv_demo swtch_ok_yield] .

text \<open>
  C4: The multi-level feedback scheduler, after its aging pass, takes the process at the head of the
  first queue that is not empty; no runnable process is in a better queue. It leaves the queue of the
  chosen process without it and gives it the CPU.
\<close>

theorem scheduler_MLFQ_picks:
  assumes "mlfq_inv {} s" "i < NPROC" "runnable (ptable s) i"
  shows "\<exists>s1 c p rest s2. age_all s = Ok s1 \<and> qlist s1 c = p # rest \<and> c < NQUEUE \<and>
    (\<forall>k < NPROC. runnable (ptable s1) k \<longrightarrow> int c \<le> p_cur_q (ptable s1 ! k)) \<and>
    scheduler_MLFQ swtch s = bindR (swtch p s2) (mlfq_after p) \<and>
    p_state (ptable s2 ! p) = RUNNING \<and> c_proc s2 = Some p \<and> qlist s2 = (qlist s1)(c := rest)"
proof -
  obtain s1 c p rest s2 where r: "age_all s = Ok s1" "mlfq_inv {} s1" "c < NQUEUE" "qlist s1 c = p # rest" "all_empty s1 [0..<c]"
    "\<forall>k < NPROC. runnable (ptable s1) k \<longrightarrow> int c \<le> p_cur_q (ptable s1 ! k)"
    "mlfq_before c p s1 = Ok s2" "c_proc s2 = Some p" "p < NPROC" "p_state (ptable s2 ! p) = RUNNING"
    "qlist s2 = (qlist s1)(c := rest)"
    by (rule dispatch_ok [OF assms]) (rule that)
  have "[0..<NQUEUE] = [0..<c] @ c # [Suc c..<NQUEUE]"
    using r(3) upt_add_eq_append [of 0 c "NQUEUE - c"] by (simp add: upt_conv_Cons)
  then have "scheduler_MLFQ swtch s = bindR (swtch p s2) (mlfq_after p)"
    using mlfq_select_head [OF r(2-4), of _ "[0..<c]" "[Suc c..<NQUEUE]" swtch] r(1,3,5,7)
    by (simp add: scheduler_MLFQ_def)
  then show ?thesis using r by blast
qed

theorem scheduler_MLFQ_picks_witness:
  "\<exists>s1 c p rest s2. age_all demo_kproc = Ok s1 \<and> qlist s1 c = p # rest \<and>
    scheduler_MLFQ (\<lambda>p s. Ok (yield p s)) demo_kproc = bindR (Ok (yield p s2)) (mlfq_after p) \<and>
    p_state (ptable s2 ! p) = RUNNING"
proof -
  have "(0::nat) < NPROC" "runnable (ptable demo_kproc) 0"
    using demo_nth [of 0] by (simp_all add: NPROC_def demo_proc_def)
  from scheduler_MLFQ_picks [OF mlfq_inv_demo this, of "\<lambda>p s. Ok (yield p s)"] show ?thesis by blast
qed

text \<open>
  C7: When the process that ran is still runnable, the second half of the multi-level feedback scheduler
  appends it to the tail of one queue: the next lower one (4 at most) when its time in the present
  queue is used up or was found used up at a tick, and otherwise the queue it came from. Nothing else
  in the queues changes, and the queues are consistent again.
\<close>

theorem mlfq_after_requeues:
  assumes "mlfq_inv {p} s" "p < NPROC" "runnable (ptable s) p"
  shows "\<exists>s'. mlfq_after p s = Ok s' \<and> mlfq_inv {} s' \<and>
    (let x = ptable s ! p; c = nat (p_cur_q x);
         d = (if p_flg x \<or> p_q x ! c \<ge> [2, 4, 8, 16, 32] ! c then min (c + 1) 4 else c)
     in qlist s' = (qlist s)(d := qlist s d @ [p]) \<and> p_cur_q (ptable s' ! p) = int d \<and>
        \<not> p_flg (ptable s' ! p) \<and> p_qtime (ptable s' ! p) = sint (ticks s))"
  using mlfq_after_ok [OF assms(1,2)] assms(3) mlfq_invD(4) [OF assms(1)] assms(2)
  by (auto simp: next_queue_def max_queue_ticks_def Let_def)

text \<open>The first process of the sample state has run and yields.\<close>

definition demo_yielded :: kproc where
  "demo_yielded = upd_proc 2 (\<lambda>x. (demo_proc 3)\<lparr>p_state := RUNNABLE, p_q := [2, 0, 0, 0, 0]\<rparr>) (demo_kproc\<lparr>nextpid := 4\<rparr>)"

lemma demo_yielded_inv: "mlfq_inv {2} demo_yielded"
proof -
  have q: "qlist demo_yielded = qlist demo_kproc \<and> wf_queues demo_yielded = wf_queues demo_kproc"
    by (rule queues_cong) (simp_all add: demo_yielded_def)
  have nth: "ptable demo_yielded ! i = (if i = 0 then demo_proc 1 else if i = Suc 0 then demo_proc 2
      else if i = 2 then (demo_proc 3)\<lparr>p_state := RUNNABLE, p_q := [2, 0, 0, 0, 0]\<rparr> else zero_proc)" if "i < NPROC" for i
    using that demo_nth [OF that] by (simp add: demo_yielded_def demo_kproc_def nth_list_update_if)
  have len: "length (ptable demo_yielded) = NPROC" "nextpid demo_yielded = 4"
    by (simp_all add: demo_yielded_def demo_kproc_def)
  have "table_inv (ptable demo_yielded) (nextpid demo_yielded)"
    unfolding table_inv_def len using nth by (simp add: proc_ok_def demo_proc_def zero_proc_def NQUEUE_def)
  moreover have "i \<in> set (qlist demo_kproc c) \<longleftrightarrow>
      runnable (ptable demo_yielded) i \<and> i \<notin> {2} \<and> p_cur_q (ptable demo_yielded ! i) = int c"
    if "c < NQUEUE" "i < NPROC" for c i
    using demo_queues(2) demo_queues(3) [OF that(1)] nth [OF that(2)]
    by (cases "c = 0") (auto simp: demo_proc_def zero_proc_def)
  moreover have "distinct (qlist demo_kproc c)" if "c < NQUEUE" for c
    using queues_invD(1) [OF mlfq_invD(3) [OF mlfq_inv_demo] that] .
  ultimately show ?thesis using q demo_queues(1) by (simp add: mlfq_inv_def queues_inv_def)
qed

theorem mlfq_after_requeues_witness:
  "\<exists>s'. mlfq_after 2 demo_yielded = Ok s' \<and> qlist s' 1 = [2] \<and> p_cur_q (ptable s' ! 2) = 1"
proof -
  have p: "(2::nat) < NPROC" by (simp add: NPROC_def)
  have x: "ptable demo_yielded ! 2 = (demo_proc 3)\<lparr>p_state := RUNNABLE, p_q := [2, 0, 0, 0, 0]\<rparr>"
    using p by (simp add: demo_yielded_def demo_kproc_def)
  have q: "qlist demo_yielded 1 = []"
    using queues_cong [of demo_yielded demo_kproc] demo_queues(3) [of 1] by (simp add: demo_yielded_def NQUEUE_def)
  show ?thesis
    using mlfq_after_requeues [OF demo_yielded_inv p] x q
    by (auto simp: Let_def demo_proc_def zero_proc_def)
qed

end
