(* ===== verification/Vm_Props.thy ===== *)
theory Vm_Props
  imports Vm
begin

text \<open>
  What the page table code promises: the entries that \<^verbatim>\<open>walkpgdir\<close> reaches, read as the
  translation the processor makes (\<open>pte_of\<close>), the order among page directory, tables, pages
  in use and free pages (\<open>aspace\<close>) that mapping keeps, and from them the translation made by
  \<^verbatim>\<open>mappages\<close>, the memory handed out by \<^verbatim>\<open>allocuvm\<close> and the memory given back by \<^verbatim>\<open>deallocuvm\<close>.
\<close>

section \<open>Entries of a table page\<close>

definition slot :: "uint \<Rightarrow> uint \<Rightarrow> uint" where
  "slot p w = p + 4 * w"

lemma slot_byte:
  assumes "p mod PGSIZE = 0" "w < 1024" "j < 4"
  obtains i where "i < 4096" "slot p w + of_nat j = p + of_nat i" "i = 4 * unat w + j"
proof -
  have w: "unat w < 1024" using assms(2) by (simp add: word_less_nat_alt)
  have "of_nat (4 * unat w + j) = 4 * w + of_nat j" by simp
  then have "slot p w + of_nat j = p + of_nat (4 * unat w + j)" by (simp add: slot_def add.assoc)
  moreover have "4 * unat w + j < 4096" using w assms(3) by simp
  ultimately show thesis using that by blast
qed

lemma unat_slot:
  assumes "p mod PGSIZE = 0" "w < 1024"
  shows "unat (slot p w) = unat p + 4 * unat w"
proof -
  have p: "unat p mod 4096 = 0" by (rule page_unat [OF assms(1)])
  have "unat p < 2 ^ 32" by (rule unat_uint_lt)
  with p have "unat p \<le> 2 ^ 32 - 4096" by auto
  moreover have w: "unat w < 1024" using assms(2) by (simp add: word_less_nat_alt)
  moreover have "unat (4 * w) = 4 * unat w" using w by (simp add: unat_word_ariths)
  ultimately show ?thesis by (simp add: slot_def unat_word_ariths)
qed

lemma slot_aligned: "p mod PGSIZE = 0 \<Longrightarrow> w < 1024 \<Longrightarrow> aligned4 (slot p w)"
  using page_unat [of p] unat_slot [of p w] by (auto simp: aligned4_def dest!: mod_0_imp_dvd)

lemma slot_eq_iff:
  assumes "p mod PGSIZE = 0" "q mod PGSIZE = 0" "w < 1024" "v < 1024"
  shows "slot p w = slot q v \<longleftrightarrow> p = q \<and> w = v"
proof
  assume "slot p w = slot q v"
  then have eq: "unat p + 4 * unat w = unat q + 4 * unat v"
    using unat_slot [OF assms(1,3)] unat_slot [OF assms(2,4)] by simp
  obtain a b where ab: "unat p = 4096 * a" "unat q = 4096 * b"
    using page_unat [OF assms(1)] page_unat [OF assms(2)] by (auto dest!: mod_0_imp_dvd elim!: dvdE)
  have "unat w < 1024" "unat v < 1024" using assms(3,4) by (simp_all add: word_less_nat_alt)
  with eq ab have "a = b" by linarith
  with eq ab show "p = q \<and> w = v" by (simp add: word_unat_eq_iff)
qed simp

lemma load_store_slot:
  assumes "p mod PGSIZE = 0" "q mod PGSIZE = 0" "w < 1024" "v < 1024"
  shows "load32 (store32 m (slot p w) x) (slot q v) = (if p = q \<and> w = v then x else load32 m (slot q v))"
  using slot_eq_iff [OF assms] load_store_other [OF slot_aligned [OF assms(1,3)] slot_aligned [OF assms(2,4)], of m x]
  by auto

lemma load_fill_slot:
  assumes "p mod PGSIZE = 0" "q mod PGSIZE = 0" "v < 1024"
  shows "load32 (fill m p 0 4096) (slot q v) = (if p = q then 0 else load32 m (slot q v))"
proof -
  have byte: "fill m p 0 4096 (slot q v + of_nat j) = (if p = q then 0 else m (slot q v + of_nat j))" if j: "j < 4" for j
  proof -
    obtain i where i: "i < 4096" "slot q v + of_nat j = q + of_nat i"
      using slot_byte [OF assms(2,3) j] by metis
    show ?thesis
    proof (cases "p = q")
      case True
      have "unat (of_nat i :: uint) = i" using i(1) by (simp add: unat_of_nat)
      then show ?thesis using i True by (simp add: fill_def)
    next
      case False
      then show ?thesis using pages_apart [OF assms(2,1) _ i(1)] i(2) by (simp add: fill_def)
    qed
  qed
  from byte [of 0] byte [of 1] byte [of 2] byte [of 3] show ?thesis by (simp add: load32_def)
qed

section \<open>Address arithmetic\<close>

lemma unat_mask10: "unat (w AND 0x3FF :: uint) = unat w mod 1024"
proof -
  have "w AND 0x3FF = take_bit 10 w" by (simp add: take_bit_eq_mask mask_eq_exp_minus_1)
  then show ?thesis by (simp add: take_bit_eq_mod unat_mod)
qed

lemma unat_PDX: "unat (PDX va) = unat va div 4194304"
proof -
  have "unat va div 4194304 < 1024" using unat_uint_lt [of va] by (simp add: less_mult_imp_div_less)
  then show ?thesis by (simp only: PDX_def unat_mask10 unat_drop_bit_eq) (simp add: drop_bit_eq_div)
qed

lemma unat_PTX: "unat (PTX va) = unat va div 4096 mod 1024"
  by (simp only: PTX_def unat_mask10 unat_drop_bit_eq) (simp add: drop_bit_eq_div)

lemma PDX_PTX_lt: "PDX va < 1024" "PTX va < 1024"
proof -
  have "unat va div 4194304 < 1024" using unat_uint_lt [of va] by (simp add: less_mult_imp_div_less)
  then show "PDX va < 1024" "PTX va < 1024" by (simp_all add: word_less_nat_alt unat_PDX unat_PTX)
qed

lemma unat_PGROUNDDOWN: "unat (PGROUNDDOWN va) = unat va div 4096 * 4096"
proof -
  have "PGROUNDDOWN va = va - va mod 4096" using PGROUNDDOWN_diff [of va] by (simp add: PGSIZE_def algebra_simps)
  moreover have "unat (va mod 4096) = unat va mod 4096" by (simp add: unat_mod)
  moreover have "va mod 4096 \<le> va" by (simp add: word_le_nat_alt unat_mod)
  ultimately have "unat (PGROUNDDOWN va) = unat va - unat va mod 4096" by (simp add: unat_sub)
  then show ?thesis by (simp add: minus_mod_eq_div_mult)
qed

lemma PGROUNDDOWN_aligned: "PGROUNDDOWN va mod PGSIZE = 0"
  by (simp add: word_unat_eq_iff unat_mod PGSIZE_def unat_PGROUNDDOWN)

lemma same_page_iff: "PDX v = PDX va \<and> PTX v = PTX va \<longleftrightarrow> PGROUNDDOWN v = PGROUNDDOWN va"
proof -
  have d: "unat x div 4194304 = unat x div 4096 div 1024" for x :: uint by (simp add: div_mult2_eq)
  have "PDX v = PDX va \<and> PTX v = PTX va \<longleftrightarrow> unat v div 4096 = unat va div 4096"
    unfolding word_unat_eq_iff unat_PDX unat_PTX d by (metis div_mult_mod_eq)
  also have "\<dots> \<longleftrightarrow> PGROUNDDOWN v = PGROUNDDOWN va" by (simp add: word_unat_eq_iff unat_PGROUNDDOWN)
  finally show ?thesis .
qed

text \<open>An entry made of a frame and flags gives back the frame.\<close>

lemma and_not_page_or:
  fixes x f :: uint
  assumes "x mod 4096 = 0" "f AND NOT 0xFFF = 0"
  shows "(x OR f) AND NOT 0xFFF = x"
proof -
  have "x AND NOT 0xFFF = x" using and_not_page [of x] assms(1) by simp
  then show ?thesis using assms(2) by (simp add: bit.conj_disj_distrib2)
qed

lemma PTE_ADDR_aligned: "P2V (PTE_ADDR e) mod PGSIZE = 0"
proof -
  have "PTE_ADDR e = PGROUNDDOWN e" by (simp add: PTE_ADDR_def PGROUNDDOWN_def PGSIZE_def)
  then have "unat (P2V (PTE_ADDR e)) = (unat e div 4096 * 4096 + 2147483648) mod 2 ^ 32"
    by (simp add: P2V_def KERNBASE_def unat_word_ariths unat_PGROUNDDOWN)
  then have "unat (P2V (PTE_ADDR e)) mod 4096 = 0" by (simp add: mod_mod_cancel mod_add_eq)
  then show ?thesis by (simp add: word_unat_eq_iff unat_mod PGSIZE_def)
qed
section \<open>Pages that a store leaves alone\<close>

definition page_same :: "memory \<Rightarrow> memory \<Rightarrow> uint \<Rightarrow> bool" where
  "page_same m m' q \<longleftrightarrow> (\<forall>k < 4096. m' (q + of_nat k) = m (q + of_nat k))"

lemma page_same_refl: "page_same m m q"
  by (simp add: page_same_def)

lemma page_same_trans: "page_same m m' q \<Longrightarrow> page_same m' m'' q \<Longrightarrow> page_same m m'' q"
  by (simp add: page_same_def)

lemma page_same_load: "page_same m m' q \<Longrightarrow> load32 m' q = load32 m q"
  using spec [of "\<lambda>k. k < 4096 \<longrightarrow> m' (q + of_nat k) = m (q + of_nat k)" 0]
    spec [of "\<lambda>k. k < 4096 \<longrightarrow> m' (q + of_nat k) = m (q + of_nat k)" 1]
    spec [of "\<lambda>k. k < 4096 \<longrightarrow> m' (q + of_nat k) = m (q + of_nat k)" 2]
    spec [of "\<lambda>k. k < 4096 \<longrightarrow> m' (q + of_nat k) = m (q + of_nat k)" 3]
  by (simp add: page_same_def load32_def)

lemma page_same_fill:
  assumes "p mod PGSIZE = 0" "q mod PGSIZE = 0" "q \<noteq> p"
  shows "page_same m (fill m p c 4096) q"
  using pages_apart [OF assms(2,1,3)] by (simp add: page_same_def fill_def)

lemma page_same_store:
  assumes "p mod PGSIZE = 0" "q mod PGSIZE = 0" "q \<noteq> p" "w < 1024"
  shows "page_same m (store32 m (slot p w) x) q"
proof -
  have "slot p w + of_nat j \<noteq> q + of_nat k" if j: "j < 4" and k: "k < 4096" for j k
  proof
    assume eq: "slot p w + of_nat j = q + of_nat k"
    obtain i where i: "i < 4096" "slot p w + of_nat j = p + of_nat i"
      using slot_byte [OF assms(1,4) j] by metis
    have "unat (q + of_nat k - p) = i" using i eq by (simp add: unat_of_nat)
    then show False using pages_apart [OF assms(2,1,3) k] i(1) by simp
  qed
  from this [of 0] this [of 1] this [of 2] this [of 3] show ?thesis
    by (simp add: page_same_def store32_def fun_upd_def eq_commute)
qed

section \<open>Address spaces\<close>

text \<open>The translation that the processor makes: the entry of the page that holds \<open>va\<close>.\<close>

definition tab_of :: "uint \<Rightarrow> uint" where
  "tab_of e = P2V (PTE_ADDR e)"

definition pte_of :: "memory \<Rightarrow> uint \<Rightarrow> uint \<Rightarrow> uint option" where
  "pte_of m pgdir va =
     (let e = load32 m (slot pgdir (PDX va)) in
      if e AND PTE_P = 0 then None
      else let t = load32 m (slot (tab_of e) (PTX va)) in
           if t AND PTE_P = 0 then None else Some t)"

text \<open>
  A page directory in order: the tables it points to are pages of their own, apart from each
  other, from the directory and from the pages \<open>R\<close>, which are in use or free.
\<close>

definition pdir_ok :: "memory \<Rightarrow> uint \<Rightarrow> uint set \<Rightarrow> bool" where
  "pdir_ok m pgdir R \<longleftrightarrow> pgdir mod PGSIZE = 0 \<and> pgdir \<notin> R \<and>
     (\<forall>d < 1024. load32 m (slot pgdir d) AND PTE_P \<noteq> 0 \<longrightarrow>
        tab_of (load32 m (slot pgdir d)) \<notin> R \<union> {0, pgdir} \<and>
        (\<forall>d' < 1024. load32 m (slot pgdir d') AND PTE_P \<noteq> 0 \<longrightarrow>
           tab_of (load32 m (slot pgdir d')) = tab_of (load32 m (slot pgdir d)) \<longrightarrow> d' = d))"

lemma pdir_ok_mono: "pdir_ok m pgdir R \<Longrightarrow> R' \<subseteq> R \<Longrightarrow> pdir_ok m pgdir R'"
  unfolding pdir_ok_def by blast

lemma tab_aligned: "tab_of e mod PGSIZE = 0"
  unfolding tab_of_def by (rule PTE_ADDR_aligned)

lemma slot_0: "slot p 0 = p"
  by (simp add: slot_def)

lemma slot_nonzero: "p mod PGSIZE = 0 \<Longrightarrow> w < 1024 \<Longrightarrow> p \<noteq> 0 \<Longrightarrow> slot p w \<noteq> 0"
  using unat_slot [of p w] by (auto simp: unat_eq_zero)

lemma kmem_rep_cong:
  assumes "kmem_rep kend s ps" "freelist s' = freelist s"
    "\<And>x. x \<in> set ps \<Longrightarrow> load32 (mem s') x = load32 (mem s) x"
  shows "kmem_rep kend s' ps"
  using assms flist_cong [of ps "mem s'" "mem s"] by (simp add: kmem_rep_def)

text \<open>Storing an entry of a table.\<close>

lemma store_pte_any:
  fixes x :: uint
  assumes ok: "pdir_ok m pgdir R" and e: "load32 m (slot pgdir (PDX va)) AND PTE_P \<noteq> 0"
  defines "m' \<equiv> store32 m (slot (tab_of (load32 m (slot pgdir (PDX va)))) (PTX va)) x"
  shows "pdir_ok m' pgdir R"
    and "pte_of m' pgdir v = (if PGROUNDDOWN v = PGROUNDDOWN va then (if x AND PTE_P = 0 then None else Some x) else pte_of m pgdir v)"
    and "\<forall>q \<in> R. q mod PGSIZE = 0 \<longrightarrow> page_same m m' q"
proof -
  let ?t = "tab_of (load32 m (slot pgdir (PDX va)))"
  have pg: "pgdir mod PGSIZE = 0" and t: "?t \<noteq> pgdir" "?t \<notin> R"
    using ok e PDX_PTX_lt(1) [of va] by (auto simp: pdir_ok_def)
  have dir: "load32 m' (slot pgdir d) = load32 m (slot pgdir d)" if "d < 1024" for d
    unfolding m'_def using load_store_slot [OF tab_aligned pg PDX_PTX_lt(2) that] t(1) by simp
  then show "pdir_ok m' pgdir R" using ok by (simp add: pdir_ok_def)
  show "\<forall>q \<in> R. q mod PGSIZE = 0 \<longrightarrow> page_same m m' q"
    unfolding m'_def by (intro ballI impI page_same_store tab_aligned PDX_PTX_lt(2)) (use t(2) in auto)
  have same: "tab_of (load32 m (slot pgdir (PDX v))) = ?t \<Longrightarrow> PDX v = PDX va"
    if "load32 m (slot pgdir (PDX v)) AND PTE_P \<noteq> 0"
    using ok e that PDX_PTX_lt(1) by (auto simp: pdir_ok_def)
  have tab: "load32 m' (slot (tab_of (load32 m (slot pgdir (PDX v)))) (PTX v)) =
      (if PDX v = PDX va \<and> PTX v = PTX va then x else load32 m (slot (tab_of (load32 m (slot pgdir (PDX v)))) (PTX v)))"
    if "load32 m (slot pgdir (PDX v)) AND PTE_P \<noteq> 0"
    unfolding m'_def using load_store_slot [OF tab_aligned tab_aligned PDX_PTX_lt(2) PDX_PTX_lt(2)] same [OF that]
    by auto
  show "pte_of m' pgdir v = (if PGROUNDDOWN v = PGROUNDDOWN va then (if x AND PTE_P = 0 then None else Some x) else pte_of m pgdir v)"
  proof (cases "load32 m (slot pgdir (PDX v)) AND PTE_P = 0")
    case True
    then have "PDX v \<noteq> PDX va" using e by auto
    then have "PGROUNDDOWN v \<noteq> PGROUNDDOWN va" using same_page_iff by blast
    then show ?thesis using True by (simp add: pte_of_def dir [OF PDX_PTX_lt(1)] Let_def)
  next
    case False
    then show ?thesis using tab [OF False] same_page_iff [of v va] e
      by (auto simp: pte_of_def dir [OF PDX_PTX_lt(1)] Let_def)
  qed
qed

lemma store_pte:
  assumes "pdir_ok m pgdir R" "load32 m (slot pgdir (PDX va)) AND PTE_P \<noteq> 0" "x AND PTE_P \<noteq> 0"
  defines "m' \<equiv> store32 m (slot (tab_of (load32 m (slot pgdir (PDX va)))) (PTX va)) x"
  shows "pdir_ok m' pgdir R"
    and "pte_of m' pgdir v = (if PGROUNDDOWN v = PGROUNDDOWN va then Some x else pte_of m pgdir v)"
    and "\<forall>q \<in> R. q mod PGSIZE = 0 \<longrightarrow> page_same m m' q"
  using store_pte_any [OF assms(1,2), of x] assms(3) by (simp_all add: m'_def)

text \<open>A new table, all zero, entered into the directory.\<close>

lemma new_table:
  assumes ok: "pdir_ok m pgdir R" "p \<in> R" and p: "p mod PGSIZE = 0" "p \<noteq> 0"
    and va: "load32 m (slot pgdir (PDX va)) AND PTE_P = 0"
  defines "m' \<equiv> store32 (fill m p 0 4096) (slot pgdir (PDX va)) (V2P p OR PTE_P OR PTE_W OR PTE_U)"
  shows "pdir_ok m' pgdir (R - {p})" and "pte_of m' pgdir v = pte_of m pgdir v"
    and "load32 m' (slot pgdir (PDX va)) AND PTE_P \<noteq> 0" "tab_of (load32 m' (slot pgdir (PDX va))) = p"
    and "\<forall>q \<in> R - {p}. q mod PGSIZE = 0 \<longrightarrow> page_same m m' q"
proof -
  let ?e = "V2P p OR PTE_P OR PTE_W OR PTE_U"
  have pg: "pgdir mod PGSIZE = 0" "pgdir \<noteq> p" using ok by (auto simp: pdir_ok_def)
  have ld: "load32 m' (slot q w) = (if q = pgdir \<and> w = PDX va then ?e else if q = p then 0 else load32 m (slot q w))"
    if "q mod PGSIZE = 0" "w < 1024" for q w
    unfolding m'_def using load_store_slot [OF pg(1) that(1) PDX_PTX_lt(1) that(2)] load_fill_slot [OF p(1) that]
    by auto
  have "V2P p mod 4096 = 0"
  proof -
    have "V2P p = p + 0x80000000" unfolding V2P_def KERNBASE_def diff_conv_add_uminus by simp
    then have "unat (V2P p) = (unat p + 2147483648) mod 2 ^ 32" by (simp add: unat_word_ariths)
    moreover obtain k where "unat p = 4096 * k" using page_unat [OF p(1)] by (auto dest!: mod_0_imp_dvd elim!: dvdE)
    ultimately have "unat (V2P p) mod 4096 = 0" by (simp add: mod_mod_cancel)
    then show ?thesis by (simp add: word_unat_eq_iff unat_mod)
  qed
  then have "PTE_ADDR ?e = V2P p"
    unfolding PTE_ADDR_def or.assoc by (rule and_not_page_or) (simp add: PTE_P_def PTE_W_def PTE_U_def)
  then have te: "tab_of ?e = p" by (simp add: tab_of_def P2V_def V2P_def)
  have ep: "?e AND PTE_P \<noteq> 0"
    by (simp add: PTE_P_def PTE_W_def PTE_U_def bit.conj_disj_distrib2 or_eq_0_iff)
  show "load32 m' (slot pgdir (PDX va)) AND PTE_P \<noteq> 0" "tab_of (load32 m' (slot pgdir (PDX va))) = p"
    using ep te ld [OF pg(1) PDX_PTX_lt(1)] by simp_all
  show "\<forall>q \<in> R - {p}. q mod PGSIZE = 0 \<longrightarrow> page_same m m' q"
  proof (intro ballI impI)
    fix q assume q: "q \<in> R - {p}" "q mod PGSIZE = 0"
    then have "q \<noteq> p" "q \<noteq> pgdir" using ok(1) by (auto simp: pdir_ok_def)
    then show "page_same m m' q" unfolding m'_def
      using page_same_trans [OF page_same_fill [OF p(1) q(2)] page_same_store [OF pg(1) q(2) _ PDX_PTX_lt(1)]] by simp
  qed
  note dir = ld [OF pg(1)]
  have A: "tab_of (load32 m (slot pgdir d)) \<notin> R \<union> {0, pgdir}"
    if "d < 1024" "load32 m (slot pgdir d) AND PTE_P \<noteq> 0" for d
    using ok that unfolding pdir_ok_def by blast
  have B: "d' = d"
    if "d < 1024" "d' < 1024" "load32 m (slot pgdir d) AND PTE_P \<noteq> 0" "load32 m (slot pgdir d') AND PTE_P \<noteq> 0"
      "tab_of (load32 m (slot pgdir d')) = tab_of (load32 m (slot pgdir d))" for d d'
    using ok that unfolding pdir_ok_def by blast
  show "pdir_ok m' pgdir (R - {p})"
    unfolding pdir_ok_def
  proof (intro conjI allI impI)
    show "pgdir mod PGSIZE = 0" by (rule pg(1))
    show "pgdir \<notin> R - {p}" using ok by (simp add: pdir_ok_def)
    fix d assume d: "d < 1024" "load32 m' (slot pgdir d) AND PTE_P \<noteq> 0"
    show "tab_of (load32 m' (slot pgdir d)) \<notin> R - {p} \<union> {0, pgdir}"
    proof (cases "d = PDX va")
      case True
      then have "tab_of (load32 m' (slot pgdir d)) = p" using dir [OF d(1)] te by simp
      then show ?thesis using p pg by simp
    next
      case False
      then have "load32 m' (slot pgdir d) = load32 m (slot pgdir d)" using dir [OF d(1)] pg by simp
      then show ?thesis using A [OF d(1)] d(2) by simp
    qed
    fix d' assume d': "d' < 1024" "load32 m' (slot pgdir d') AND PTE_P \<noteq> 0"
      "tab_of (load32 m' (slot pgdir d')) = tab_of (load32 m' (slot pgdir d))"
    have old: "load32 m' (slot pgdir x) = load32 m (slot pgdir x)" if "x < 1024" "x \<noteq> PDX va" for x
      using dir [OF that(1)] that(2) pg by simp
    have new: "tab_of (load32 m' (slot pgdir (PDX va))) = p" using dir [OF PDX_PTX_lt(1)] te by simp
    have far: "tab_of (load32 m' (slot pgdir x)) \<noteq> p" if "x < 1024" "x \<noteq> PDX va" "load32 m' (slot pgdir x) AND PTE_P \<noteq> 0" for x
      using A [OF that(1)] old [OF that(1,2)] that(3) ok(2) by auto
    show "d' = d"
    proof (cases "d = PDX va \<or> d' = PDX va")
      case True
      then show ?thesis using new far [OF d(1) _ d(2)] far [OF d'(1) _ d'(2)] d'(3) by metis
    next
      case False
      then show ?thesis using B [OF d(1) d'(1)] d d' old by simp
    qed
  qed
  show "pte_of m' pgdir v = pte_of m pgdir v"
  proof (cases "PDX v = PDX va")
    case True
    then show ?thesis using va ep te p(1) pg PDX_PTX_lt by (simp add: pte_of_def Let_def ld)
  next
    case False
    have "tab_of (load32 m (slot pgdir (PDX v))) \<noteq> p \<and> tab_of (load32 m (slot pgdir (PDX v))) \<noteq> pgdir"
      if "load32 m (slot pgdir (PDX v)) AND PTE_P \<noteq> 0"
      using ok that PDX_PTX_lt(1) by (auto simp: pdir_ok_def)
    then show ?thesis using False pg PDX_PTX_lt by (auto simp: pte_of_def Let_def ld tab_aligned)
  qed
qed

text \<open>The free list \<open>ps\<close> and pages \<open>D\<close> in use beside a page directory.\<close>

definition aspace :: "uint \<Rightarrow> uint \<Rightarrow> uint set \<Rightarrow> uint list \<Rightarrow> 'a kmem_scheme \<Rightarrow> bool" where
  "aspace kend pgdir D ps s \<longleftrightarrow> 0 < kend \<and> kmem_rep kend s ps \<and> pdir_ok (mem s) pgdir (D \<union> set ps) \<and>
     D \<inter> set ps = {} \<and> (\<forall>q \<in> D. q mod PGSIZE = 0)"

lemma page_ok_page: "0 < kend \<Longrightarrow> page_ok kend p \<Longrightarrow> p mod PGSIZE = 0 \<and> p \<noteq> 0"
  by (auto simp: page_ok_def)

lemma aspace_pages: "aspace kend pgdir D ps s \<Longrightarrow> p \<in> set ps \<Longrightarrow> p mod PGSIZE = 0 \<and> p \<noteq> 0"
  using page_ok_page by (auto simp: aspace_def kmem_rep_def)

text \<open>A page taken off the free list belongs to its owner from then on.\<close>

lemma kalloc_aspace:
  assumes "aspace kend pgdir D (p # qs) s"
  obtains s' where "kalloc s = (p, s')" "mem s' = mem s" "kmem_rep kend s' qs" "p \<noteq> 0" "p mod PGSIZE = 0"
    "p \<notin> set qs" "p \<notin> D" "aspace kend pgdir (insert p D) qs s'"
proof -
  have rep: "kmem_rep kend s (p # qs)" using assms by (simp add: aspace_def)
  obtain s' where s': "kalloc s = (p, s')" "mem s' = mem s" "kmem_rep kend s' qs"
    using kalloc_Cons [OF rep] by blast
  have d: "D \<inter> set (p # qs) = {}" "pdir_ok (mem s) pgdir (D \<union> set (p # qs))" "0 < kend"
    "\<forall>q \<in> D. q mod PGSIZE = 0" "distinct (p # qs)"
    using assms rep unfolding aspace_def kmem_rep_def by blast+
  have p: "p mod PGSIZE = 0" "p \<noteq> 0" "p \<notin> set qs" "p \<notin> D"
    using aspace_pages [OF assms, of p] d(1,5) by simp_all
  have "insert p D \<union> set qs = D \<union> set (p # qs)" by simp
  then have "aspace kend pgdir (insert p D) qs s'" using d p s'(2,3) by (simp add: aspace_def)
  then show ?thesis using that s' p by simp
qed

text \<open>A change of memory that keeps the directory and the pages in use and free.\<close>

lemma aspace_mem:
  assumes "aspace kend pgdir D ps s" "pdir_ok m' pgdir (D \<union> set ps)"
    "\<And>q. q \<in> set ps \<Longrightarrow> page_same (mem s) m' q"
  shows "aspace kend pgdir D ps (s\<lparr>mem := m'\<rparr>)"
  using assms kmem_rep_cong [of kend s ps "s\<lparr>mem := m'\<rparr>"] page_same_load [of "mem s" m']
  by (simp add: aspace_def)

lemma aspace_mono: "aspace kend pgdir D ps s \<Longrightarrow> D' \<subseteq> D \<Longrightarrow> aspace kend pgdir D' ps s"
  using pdir_ok_mono [of "mem s" pgdir "D \<union> set ps" "D' \<union> set ps"] by (auto simp: aspace_def)

lemma walkpgdir_present:
  "load32 (mem s) (slot pgdir (PDX va)) AND PTE_P \<noteq> 0 \<Longrightarrow>
   walkpgdir pgdir va alloc s = (slot (tab_of (load32 (mem s) (slot pgdir (PDX va)))) (PTX va), s)"
  by (simp add: walkpgdir_def slot_def tab_of_def Let_def)

text \<open>The walk that allocates gives the slot of the page, in a table that was there or in a new one.\<close>

lemma walkpgdir_alloc:
  assumes as: "aspace kend pgdir D ps s" and ps: "ps \<noteq> []"
  obtains s' us qs where "walkpgdir pgdir va True s = (slot (tab_of (load32 (mem s') (slot pgdir (PDX va)))) (PTX va), s')"
    "aspace kend pgdir D qs s'" "ps = us @ qs" "length us \<le> 1"
    "load32 (mem s') (slot pgdir (PDX va)) AND PTE_P \<noteq> 0"
    "\<And>v. pte_of (mem s') pgdir v = pte_of (mem s) pgdir v"
    "\<forall>q \<in> D. page_same (mem s) (mem s') q"
proof (cases "load32 (mem s) (slot pgdir (PDX va)) AND PTE_P = 0")
  case False
  then show ?thesis using that [of s ps "[]"] walkpgdir_present [OF False] as page_same_refl by simp
next
  case True
  obtain p qs where pq: "ps = p # qs" using ps by (cases ps) auto
  obtain s1 where s1: "kalloc s = (p, s1)" "mem s1 = mem s" "kmem_rep kend s1 qs" "p \<noteq> 0" "p mod PGSIZE = 0"
    "p \<notin> set qs" "p \<notin> D" "aspace kend pgdir (insert p D) qs s1"
    by (rule kalloc_aspace [OF as [unfolded pq]])
  have ok: "pdir_ok (mem s) pgdir (D \<union> set ps)" "p \<in> D \<union> set ps" using as pq by (auto simp: aspace_def)
  have rest: "D \<union> set ps - {p} = D \<union> set qs" using pq s1(6,7) by auto
  let ?m = "store32 (fill (mem s) p 0 4096) (slot pgdir (PDX va)) (V2P p OR PTE_P OR PTE_W OR PTE_U)"
  let ?s = "s1\<lparr>mem := ?m\<rparr>"
  note nt = new_table [OF ok s1(5,4) True, unfolded rest]
  have "walkpgdir pgdir va True s = (slot p (PTX va), ?s)"
    using True s1 by (simp add: walkpgdir_def slot_def Let_def memset_fill PGSIZE_def)
  moreover have same: "\<forall>q \<in> D \<union> set qs. page_same (mem s) ?m q"
    using nt(5) aspace_pages [OF as] as pq by (auto simp: aspace_def)
  moreover have "aspace kend pgdir D qs ?s"
    by (rule aspace_mem [OF aspace_mono [OF s1(8)] nt(1)]) (use s1(2) same in auto)
  ultimately show ?thesis using that [of ?s qs "[p]"] nt pq by simp
qed

lemma PTE_P_set: "(x OR y OR PTE_P) AND PTE_P \<noteq> 0"
proof -
  have "bit ((x OR y OR PTE_P) AND PTE_P) 0" by (simp add: bit_simps PTE_P_def)
  then show ?thesis by auto
qed

lemma pte_of_slot:
  assumes "load32 m (slot pgdir (PDX va)) AND PTE_P \<noteq> 0" "pte_of m pgdir va = None"
  shows "load32 m (slot (tab_of (load32 m (slot pgdir (PDX va)))) (PTX va)) AND PTE_P = 0"
  using assms by (auto simp: pte_of_def Let_def split: if_splits)

text \<open>One turn of the loop maps one page and uses at most one free page.\<close>

lemma mappages_loop_turn:
  assumes as: "aspace kend pgdir D ps s" and ps: "ps \<noteq> []" and free: "pte_of (mem s) pgdir a = None"
  obtains s' us qs where "\<forall>q \<in> D. page_same (mem s) (mem s') q"
    "aspace kend pgdir D qs s'" "ps = us @ qs" "length us \<le> 1"
    "\<And>v. pte_of (mem s') pgdir v =
       (if PGROUNDDOWN v = PGROUNDDOWN a then Some (pa OR perm OR PTE_P) else pte_of (mem s) pgdir v)"
    "mappages_loop pgdir a lst pa perm s =
       (if a = lst then Ok (0, s')
        else if (lst - a) mod PGSIZE = 0 then mappages_loop pgdir (a + PGSIZE) lst (pa + PGSIZE) perm s' else Undef)"
proof -
  obtain s1 us qs where w: "walkpgdir pgdir a True s = (slot (tab_of (load32 (mem s1) (slot pgdir (PDX a)))) (PTX a), s1)"
    and s1: "aspace kend pgdir D qs s1" "ps = us @ qs" "length us \<le> 1"
      "load32 (mem s1) (slot pgdir (PDX a)) AND PTE_P \<noteq> 0"
      "\<And>v. pte_of (mem s1) pgdir v = pte_of (mem s) pgdir v" "\<forall>q \<in> D. page_same (mem s) (mem s1) q"
    by (rule walkpgdir_alloc [OF as ps, of a]) (rule that)
  let ?t = "tab_of (load32 (mem s1) (slot pgdir (PDX a)))"
  let ?s = "s1\<lparr>mem := store32 (mem s1) (slot ?t (PTX a)) (pa OR perm OR PTE_P)\<rparr>"
  have ok: "pdir_ok (mem s1) pgdir (D \<union> set qs)" using s1(1) by (simp add: aspace_def)
  have "?t \<noteq> 0" using ok s1(4) PDX_PTX_lt(1) by (auto simp: pdir_ok_def)
  then have nz: "slot ?t (PTX a) \<noteq> 0" by (rule slot_nonzero [OF tab_aligned PDX_PTX_lt(2)])
  have np: "load32 (mem s1) (slot ?t (PTX a)) AND PTE_P = 0"
    using pte_of_slot [OF s1(4)] s1(5) free by simp
  note st = store_pte [OF ok s1(4) PTE_P_set, of pa perm]
  have same: "\<forall>q \<in> D \<union> set qs. page_same (mem s1) (mem ?s) q"
    using st(3) aspace_pages [OF s1(1)] s1(1) by (auto simp: aspace_def)
  have "aspace kend pgdir D qs ?s" by (rule aspace_mem [OF s1(1) st(1)]) (use same in auto)
  moreover have "\<forall>q \<in> D. page_same (mem s) (mem ?s) q" using same s1(6) page_same_trans by blast
  moreover have "mappages_loop pgdir a lst pa perm s =
       (if a = lst then Ok (0, ?s)
        else if (lst - a) mod PGSIZE = 0 then mappages_loop pgdir (a + PGSIZE) lst (pa + PGSIZE) perm ?s else Undef)"
    by (subst mappages_loop.simps) (simp add: w nz np Let_def)
  ultimately show ?thesis using that [of ?s qs us] s1(2,3,5) st(2) by simp
qed

lemma step_page:
  fixes a lst :: uint
  assumes "lst = a + of_nat (Suc n) * PGSIZE" "Suc n < 2 ^ 20"
  shows "a \<noteq> lst" "(lst - a) mod PGSIZE = 0" "lst = (a + PGSIZE) + of_nat n * PGSIZE"
proof -
  have d: "lst - a = of_nat (Suc n * 4096)" using assms(1) by (simp add: PGSIZE_def algebra_simps)
  have lt: "Suc n * 4096 < 2 ^ 32" using assms(2) by simp
  have u: "unat (lst - a) = Suc n * 4096" unfolding d unat_of_nat by (rule mod_less) (use lt in simp)
  then show "a \<noteq> lst" by auto
  show "(lst - a) mod PGSIZE = 0" using u by (simp add: word_unat_eq_iff unat_mod PGSIZE_def)
  show "lst = (a + PGSIZE) + of_nat n * PGSIZE" using assms(1) by (simp add: algebra_simps)
qed

lemma page_distance:
  fixes g a :: uint
  assumes "g mod PGSIZE = 0" "a mod PGSIZE = 0" "g \<noteq> a"
  shows "unat (g - (a + PGSIZE)) + 4096 = unat (g - a)"
proof -
  have "PGSIZE \<le> g - a"
    using pages_apart [OF assms, of 0] by (simp add: word_le_nat_alt PGSIZE_def)
  then have "unat (g - a - PGSIZE) = unat (g - a) - unat PGSIZE" by (rule unat_sub)
  moreover have "4096 \<le> unat (g - a)" using \<open>PGSIZE \<le> g - a\<close> by (simp add: word_le_nat_alt PGSIZE_def)
  ultimately show ?thesis by (simp add: diff_diff_eq PGSIZE_def)
qed

lemma PGSIZE_next: "a mod PGSIZE = 0 \<Longrightarrow> (a + PGSIZE) mod PGSIZE = 0"
proof -
  assume "a mod PGSIZE = 0"
  then obtain k where k: "unat a = 4096 * k" using page_unat [of a] by (auto dest!: mod_0_imp_dvd elim!: dvdE)
  have "unat (a + PGSIZE) = (4096 * k + 4096) mod 2 ^ 32" by (simp add: unat_word_ariths k PGSIZE_def)
  then have "unat (a + PGSIZE) mod 4096 = 0" by (simp add: mod_mod_cancel)
  then show ?thesis by (simp add: word_unat_eq_iff unat_mod PGSIZE_def)
qed

lemma PGROUNDDOWN_page: "a mod PGSIZE = 0 \<Longrightarrow> PGROUNDDOWN a = a"
  using PGROUNDDOWN_diff [of a] by simp

lemma range_step:
  assumes "a mod PGSIZE = 0" "Suc n < 2 ^ 20"
  shows "unat (PGROUNDDOWN v - (a + PGSIZE)) \<le> n * 4096 \<longleftrightarrow>
    unat (PGROUNDDOWN v - a) \<le> Suc n * 4096 \<and> PGROUNDDOWN v \<noteq> a"
proof (cases "PGROUNDDOWN v = a")
  case True
  have "unat (- PGSIZE) = 2 ^ 32 - 4096" by (simp add: PGSIZE_def)
  then show ?thesis using True assms(2) by simp
next
  case False
  then show ?thesis using page_distance [OF PGROUNDDOWN_aligned assms(1) False] by (simp, linarith)
qed

text \<open>The whole loop: the \<open>n + 1\<close> pages from \<open>a\<close> on, each mapped to the frame at its distance.\<close>

lemma mappages_loop_maps:
  assumes "aspace kend pgdir D ps s" "a mod PGSIZE = 0" "lst = a + of_nat n * PGSIZE" "n < 2 ^ 20" "n < length ps"
    "\<And>v. unat (PGROUNDDOWN v - a) \<le> n * 4096 \<Longrightarrow> pte_of (mem s) pgdir v = None"
  shows "\<exists>s' us qs. mappages_loop pgdir a lst pa perm s = Ok (0, s') \<and> aspace kend pgdir D qs s' \<and>
     ps = us @ qs \<and> length us \<le> Suc n \<and> (\<forall>q \<in> D. page_same (mem s) (mem s') q) \<and>
     (\<forall>v. pte_of (mem s') pgdir v =
        (if unat (PGROUNDDOWN v - a) \<le> n * 4096 then Some ((pa + (PGROUNDDOWN v - a)) OR perm OR PTE_P)
         else pte_of (mem s) pgdir v))"
  using assms
proof (induction n arbitrary: s ps a pa)
  case 0
  have "ps \<noteq> []" "pte_of (mem s) pgdir a = None" using 0 PGROUNDDOWN_page by auto
  then obtain s' us qs where t0: "\<forall>q \<in> D. page_same (mem s) (mem s') q" and t: "aspace kend pgdir D qs s'" "ps = us @ qs" "length us \<le> 1"
    "\<And>v. pte_of (mem s') pgdir v =
       (if PGROUNDDOWN v = PGROUNDDOWN a then Some (pa OR perm OR PTE_P) else pte_of (mem s) pgdir v)"
    "mappages_loop pgdir a lst pa perm s =
       (if a = lst then Ok (0, s')
        else if (lst - a) mod PGSIZE = 0 then mappages_loop pgdir (a + PGSIZE) lst (pa + PGSIZE) perm s' else Undef)"
    by (rule mappages_loop_turn [OF 0(1)]) (rule that)
  show ?case
    by (intro exI [of _ s'] exI [of _ us] exI [of _ qs])
      (use t0 t 0 PGROUNDDOWN_page in \<open>auto simp: unat_eq_zero\<close>)
next
  case (Suc n)
  note st = step_page [OF Suc.prems(3,4)]
  have a: "PGROUNDDOWN a = a" using Suc.prems(2) by (rule PGROUNDDOWN_page)
  have "ps \<noteq> []" "pte_of (mem s) pgdir a = None" using Suc.prems(5,6) a by auto
  then obtain s1 us qs where t0: "\<forall>q \<in> D. page_same (mem s) (mem s1) q" and t: "aspace kend pgdir D qs s1" "ps = us @ qs" "length us \<le> 1"
    "\<And>v. pte_of (mem s1) pgdir v =
       (if PGROUNDDOWN v = PGROUNDDOWN a then Some (pa OR perm OR PTE_P) else pte_of (mem s) pgdir v)"
    "mappages_loop pgdir a lst pa perm s =
       (if a = lst then Ok (0, s1)
        else if (lst - a) mod PGSIZE = 0 then mappages_loop pgdir (a + PGSIZE) lst (pa + PGSIZE) perm s1 else Undef)"
    by (rule mappages_loop_turn [OF Suc.prems(1)]) (rule that)
  note dist = range_step [OF Suc.prems(2,4)]
  have ih: "\<exists>s' us' qs'. mappages_loop pgdir (a + PGSIZE) lst (pa + PGSIZE) perm s1 = Ok (0, s') \<and>
      aspace kend pgdir D qs' s' \<and> qs = us' @ qs' \<and> length us' \<le> Suc n \<and>
      (\<forall>q \<in> D. page_same (mem s1) (mem s') q) \<and>
     (\<forall>v. pte_of (mem s') pgdir v =
        (if unat (PGROUNDDOWN v - (a + PGSIZE)) \<le> n * 4096
         then Some ((pa + PGSIZE + (PGROUNDDOWN v - (a + PGSIZE))) OR perm OR PTE_P) else pte_of (mem s1) pgdir v))"
  proof (rule Suc.IH [OF t(1) PGSIZE_next [OF Suc.prems(2)] st(3)])
    show "n < length qs" using t(2,3) Suc.prems(5) by simp
    show "pte_of (mem s1) pgdir v = None" if "unat (PGROUNDDOWN v - (a + PGSIZE)) \<le> n * 4096" for v
      using that t(4) [of v] Suc.prems(6) [of v] dist [of v] a by simp
  qed (use Suc.prems(4) in simp)
  then obtain s' us' qs' where r: "mappages_loop pgdir (a + PGSIZE) lst (pa + PGSIZE) perm s1 = Ok (0, s')"
    "aspace kend pgdir D qs' s'" "qs = us' @ qs'" "length us' \<le> Suc n"
    "\<forall>q \<in> D. page_same (mem s1) (mem s') q"
    "\<And>v. pte_of (mem s') pgdir v =
        (if unat (PGROUNDDOWN v - (a + PGSIZE)) \<le> n * 4096
         then Some ((pa + PGSIZE + (PGROUNDDOWN v - (a + PGSIZE))) OR perm OR PTE_P) else pte_of (mem s1) pgdir v)"
    by blast
  have "pte_of (mem s') pgdir v =
        (if unat (PGROUNDDOWN v - a) \<le> Suc n * 4096 then Some ((pa + (PGROUNDDOWN v - a)) OR perm OR PTE_P)
         else pte_of (mem s) pgdir v)" for v
    using r(6) [of v] t(4) [of v] dist [of v] a by (auto simp: algebra_simps)
  moreover have "mappages_loop pgdir a lst pa perm s = Ok (0, s')" using t(5) st(1,2) r(1) by simp
  ultimately show ?case
    by (intro exI [of _ s'] exI [of _ "us @ us'"] exI [of _ qs']) (use r(2-5) t(2,3) t0 page_same_trans in auto)
qed

text \<open>The pages that a block of \<open>sz\<close> bytes at \<open>va\<close> touches.\<close>

definition touched :: "uint \<Rightarrow> uint \<Rightarrow> uint \<Rightarrow> bool" where
  "touched va sz v \<longleftrightarrow> PGROUNDDOWN va \<le> v \<and> PGROUNDDOWN v \<le> va + sz - 1"

definition page_count :: "uint \<Rightarrow> uint \<Rightarrow> nat" where
  "page_count va sz = (unat va + unat sz - 1) div 4096 - unat va div 4096 + 1"

lemma block_distance:
  fixes a b l :: nat
  assumes "a \<le> l" "l < 2 ^ 20"
  shows "a \<le> b \<and> b \<le> l \<longleftrightarrow>
    (if a * 4096 \<le> b * 4096 then b * 4096 - a * 4096 else b * 4096 + 2 ^ 32 - a * 4096) \<le> (l - a + 1 - 1) * 4096"
proof (cases "a \<le> b")
  case True
  then have "b * 4096 - a * 4096 = (b - a) * 4096" by (simp add: diff_mult_distrib)
  then show ?thesis using True assms(1) by auto
next
  case False
  then show ?thesis using assms by auto
qed

lemma touched_distance:
  assumes "0 < sz" "unat va + unat sz \<le> 2 ^ 32"
  shows "touched va sz v \<longleftrightarrow> unat (PGROUNDDOWN v - PGROUNDDOWN va) \<le> (page_count va sz - 1) * 4096"
    and "PGROUNDDOWN (va + sz - 1) = PGROUNDDOWN va + of_nat (page_count va sz - 1) * PGSIZE"
    and "page_count va sz - 1 < 2 ^ 20"
proof -
  have sz: "0 < unat sz" using assms(1) by (simp add: unat_gt_0 word_gt_0)
  have last: "unat (va + sz - 1) = unat va + unat sz - 1"
  proof -
    have "va + sz - 1 = of_nat (unat va + unat sz - 1)" using sz by (simp add: of_nat_diff)
    then show ?thesis using sz assms(2) by (simp only: unat_of_nat) simp
  qed
  let ?l = "(unat va + unat sz - 1) div 4096"
  have ml: "unat va div 4096 \<le> ?l" using sz by (simp add: div_le_mono)
  have l: "?l < 2 ^ 20" using sz assms(2) by (simp add: less_mult_imp_div_less)
  show "page_count va sz - 1 < 2 ^ 20" using l by (simp add: page_count_def)
  have inv: "x = of_nat (unat x)" for x :: uint by simp
  have "PGROUNDDOWN (va + sz - 1) = of_nat (?l * 4096)"
    using inv [of "PGROUNDDOWN (va + sz - 1)"] unfolding unat_PGROUNDDOWN last .
  moreover have "PGROUNDDOWN va = of_nat (unat va div 4096 * 4096)"
    using inv [of "PGROUNDDOWN va"] unfolding unat_PGROUNDDOWN .
  ultimately show "PGROUNDDOWN (va + sz - 1) = PGROUNDDOWN va + of_nat (page_count va sz - 1) * PGSIZE"
    using ml by (simp add: page_count_def PGSIZE_def of_nat_diff algebra_simps)
  have t: "touched va sz v \<longleftrightarrow> unat va div 4096 \<le> unat v div 4096 \<and> unat v div 4096 \<le> ?l"
    unfolding touched_def word_le_nat_alt unat_PGROUNDDOWN last
    by (simp add: less_eq_div_iff_mult_less_eq)
  show "touched va sz v \<longleftrightarrow> unat (PGROUNDDOWN v - PGROUNDDOWN va) \<le> (page_count va sz - 1) * 4096"
    unfolding t unat_diff_cases unat_PGROUNDDOWN page_count_def by (rule block_distance [OF ml l])
qed

lemma mappages_maps:
  assumes "aspace kend pgdir D ps s" "0 < sz" "unat va + unat sz \<le> 2 ^ 32" "page_count va sz \<le> length ps"
    and "\<And>v. touched va sz v \<Longrightarrow> pte_of (mem s) pgdir v = None"
  shows "\<exists>s' us qs. mappages pgdir va sz pa perm s = Ok (0, s') \<and> aspace kend pgdir D qs s' \<and> ps = us @ qs \<and>
    length us \<le> page_count va sz \<and> (\<forall>q \<in> D. page_same (mem s) (mem s') q) \<and>
    (\<forall>v. pte_of (mem s') pgdir v =
       (if touched va sz v then Some ((pa + (PGROUNDDOWN v - PGROUNDDOWN va)) OR perm OR PTE_P)
        else pte_of (mem s) pgdir v))"
proof -
  note td = touched_distance [OF assms(2,3)]
  have "page_count va sz - 1 < length ps" using assms(4) by (simp add: page_count_def)
  moreover have "Suc (page_count va sz - 1) = page_count va sz" by (simp add: page_count_def)
  ultimately show ?thesis
    using mappages_loop_maps [OF assms(1) PGROUNDDOWN_aligned td(2,3), of pa perm] assms(5)
    unfolding td(1) mappages_def by simp
qed

lemma pte_of_page: "PGROUNDDOWN v = PGROUNDDOWN a \<Longrightarrow> pte_of m pgdir v = pte_of m pgdir a"
proof -
  assume "PGROUNDDOWN v = PGROUNDDOWN a"
  then have "PDX v = PDX a" "PTX v = PTX a" using same_page_iff [of v a] by blast+
  then show ?thesis by (simp only: pte_of_def)
qed

lemma mappages_page:
  assumes "aspace kend pgdir D ps s" "ps \<noteq> []" "a mod PGSIZE = 0" "pte_of (mem s) pgdir a = None"
  shows "\<exists>s' us qs. mappages pgdir a PGSIZE pa perm s = Ok (0, s') \<and> aspace kend pgdir D qs s' \<and> ps = us @ qs \<and>
    length us \<le> 1 \<and> (\<forall>q \<in> D. page_same (mem s) (mem s') q) \<and>
    (\<forall>v. pte_of (mem s') pgdir v =
       (if PGROUNDDOWN v = a then Some (pa OR perm OR PTE_P) else pte_of (mem s) pgdir v))"
proof -
  obtain k where k: "unat a = 4096 * k" using page_unat [OF assms(3)] by (auto dest!: mod_0_imp_dvd elim!: dvdE)
  have a: "unat a + unat PGSIZE \<le> 2 ^ 32" using unat_uint_lt [of a] k by (simp add: PGSIZE_def)
  have "(4096 * k + 4095) div 4096 = k" by simp
  then have n: "page_count a PGSIZE = 1" by (simp add: page_count_def k PGSIZE_def)
  have g: "PGROUNDDOWN a = a" by (rule PGROUNDDOWN_page [OF assms(3)])
  have sz: "0 < PGSIZE" by (simp add: PGSIZE_def)
  have t: "touched a PGSIZE v \<longleftrightarrow> PGROUNDDOWN v = a" for v
    using touched_distance(1) [OF sz a, of v] by (simp add: n g unat_eq_zero)
  have none: "pte_of (mem s) pgdir v = None" if "PGROUNDDOWN v = a" for v
    using pte_of_page [of v a] that g assms(4) by simp
  have "page_count a PGSIZE \<le> length ps" using n assms(2) by (cases ps) simp_all
  from mappages_maps [OF assms(1) sz a this, of pa perm] none
  obtain s' us qs where r: "mappages pgdir a PGSIZE pa perm s = Ok (0, s')" "aspace kend pgdir D qs s'" "ps = us @ qs"
    "length us \<le> 1" "\<forall>q \<in> D. page_same (mem s) (mem s') q"
    "\<forall>v. pte_of (mem s') pgdir v = (if PGROUNDDOWN v = a then Some ((pa + (PGROUNDDOWN v - a)) OR perm OR PTE_P)
        else pte_of (mem s) pgdir v)"
    unfolding t n g by blast
  then show ?thesis by (intro exI [of _ s'] exI [of _ us] exI [of _ qs]) auto
qed

section \<open>Growing an address space\<close>

lemma fill_reserved:
  assumes ok: "pdir_ok m pgdir R" and p: "p \<in> R" "p mod PGSIZE = 0"
  shows "pdir_ok (fill m p 0 4096) pgdir R" "pte_of (fill m p 0 4096) pgdir v = pte_of m pgdir v"
proof -
  have pg: "pgdir mod PGSIZE = 0" "pgdir \<noteq> p" using ok p(1) by (auto simp: pdir_ok_def)
  have dir: "load32 (fill m p 0 4096) (slot pgdir d) = load32 m (slot pgdir d)" if "d < 1024" for d
    using load_fill_slot [OF p(2) pg(1) that] pg(2) by simp
  show "pdir_ok (fill m p 0 4096) pgdir R" using ok by (simp add: pdir_ok_def dir)
  have "tab_of (load32 m (slot pgdir (PDX v))) \<noteq> p" if "load32 m (slot pgdir (PDX v)) AND PTE_P \<noteq> 0"
    using ok p(1) that PDX_PTX_lt(1) by (auto simp: pdir_ok_def)
  then show "pte_of (fill m p 0 4096) pgdir v = pte_of m pgdir v"
    using load_fill_slot [OF p(2) tab_aligned PDX_PTX_lt(2)]
    by (auto simp: pte_of_def dir [OF PDX_PTX_lt(1)] Let_def)
qed

definition zero_page :: "memory \<Rightarrow> uint \<Rightarrow> bool" where
  "zero_page m q \<longleftrightarrow> (\<forall>k < 4096. m (q + of_nat k) = 0)"

lemma zero_page_fill: "zero_page (fill m p 0 4096) p"
  by (simp add: zero_page_def fill_def unat_of_nat)

lemma zero_page_same: "zero_page m q \<Longrightarrow> page_same m m' q \<Longrightarrow> zero_page m' q"
  by (simp add: zero_page_def page_same_def)

text \<open>A zeroed page off the free list, mapped at \<open>a\<close>: what one turn of the loop does.\<close>

lemma zeroed_page_mapped:
  assumes as: "aspace kend pgdir D (p # qs) s" and a: "a mod PGSIZE = 0" "pte_of (mem s) pgdir a = None" and qs: "qs \<noteq> []"
  obtains s1 s3 us rs where "kalloc s = (p, s1)" "p \<noteq> 0" "p \<notin> D"
    "mappages pgdir a PGSIZE (V2P p) perm (s1\<lparr>mem := memset (mem s1) p 0 PGSIZE\<rparr>) = Ok (0, s3)"
    "aspace kend pgdir (insert p D) rs s3" "qs = us @ rs" "length us \<le> 1"
    "\<forall>q \<in> D. page_same (mem s) (mem s3) q" "zero_page (mem s3) p"
    "\<forall>v. pte_of (mem s3) pgdir v =
       (if PGROUNDDOWN v = a then Some (V2P p OR perm OR PTE_P) else pte_of (mem s) pgdir v)"
proof -
  obtain s1 where s1: "kalloc s = (p, s1)" "mem s1 = mem s" "kmem_rep kend s1 qs" "p \<noteq> 0" "p mod PGSIZE = 0"
    "p \<notin> set qs" "p \<notin> D" "aspace kend pgdir (insert p D) qs s1"
    by (rule kalloc_aspace [OF as])
  let ?m = "fill (mem s) p 0 4096" and ?s = "s1\<lparr>mem := memset (mem s1) p 0 PGSIZE\<rparr>"
  have m: "mem ?s = ?m" using s1(2) by (simp add: memset_fill PGSIZE_def)
  have ok: "pdir_ok (mem s) pgdir (insert p D \<union> set qs)" using s1(2,8) by (simp add: aspace_def)
  note fr = fill_reserved [OF ok _ s1(5), simplified]
  have same: "page_same (mem s) ?m q" if "q \<in> D \<union> set qs" for q
    using that s1(2,6,7,8) aspace_pages [OF s1(8)] by (intro page_same_fill [OF s1(5)]) (auto simp: aspace_def)
  have as2: "aspace kend pgdir (insert p D) qs ?s"
    using aspace_mem [OF s1(8), of ?m] fr(1) same s1(2) m by simp
  have "pte_of (mem ?s) pgdir a = None" using a(2) fr(2) m by simp
  from mappages_page [OF as2 qs a(1) this, of "V2P p" perm]
  obtain s3 us rs where r: "mappages pgdir a PGSIZE (V2P p) perm ?s = Ok (0, s3)"
    "aspace kend pgdir (insert p D) rs s3" "qs = us @ rs" "length us \<le> 1"
    "\<forall>q \<in> insert p D. page_same ?m (mem s3) q"
    "\<forall>v. pte_of (mem s3) pgdir v =
       (if PGROUNDDOWN v = a then Some (V2P p OR perm OR PTE_P) else pte_of ?m pgdir v)"
    unfolding m by blast
  show ?thesis
  proof (rule that [OF s1(1,4,7) r(1,2,3,4)])
    show "\<forall>q \<in> D. page_same (mem s) (mem s3) q"
    proof
      fix q assume "q \<in> D"
      then show "page_same (mem s) (mem s3) q" using page_same_trans [OF same] r(5) by simp
    qed
    show "zero_page (mem s3) p" using zero_page_same [OF zero_page_fill [of "mem s" p]] r(5) by simp
    show "\<forall>v. pte_of (mem s3) pgdir v =
       (if PGROUNDDOWN v = a then Some (V2P p OR perm OR PTE_P) else pte_of (mem s) pgdir v)"
      using r(6) fr(2) by simp
  qed
qed

lemma rounded_step:
  assumes "a mod PGSIZE = 0" "a < newsz" "newsz < KERNBASE"
  shows "unat (a + PGSIZE) = unat a + 4096" "a < a + PGSIZE"
    "(unat newsz - unat a + 4095) div 4096 = Suc ((unat newsz - unat (a + PGSIZE) + 4095) div 4096)"
    "unat (PGROUNDDOWN v) = unat a \<longleftrightarrow> unat a \<le> unat v \<and> unat v < unat a + 4096"
proof -
  obtain k where k: "unat a = 4096 * k" using page_unat [OF assms(1)] by (auto dest!: mod_0_imp_dvd elim!: dvdE)
  have n: "unat a < unat newsz" "unat newsz < 2 ^ 31" using assms(2,3) by (simp_all add: word_less_nat_alt KERNBASE_def)
  then show u: "unat (a + PGSIZE) = unat a + 4096" by (simp add: unat_word_ariths PGSIZE_def)
  then show "a < a + PGSIZE" by (simp add: word_less_nat_alt)
  show "(unat newsz - unat a + 4095) div 4096 = Suc ((unat newsz - unat (a + PGSIZE) + 4095) div 4096)"
  proof (cases "unat newsz - unat a \<le> 4096")
    case True
    then have "unat newsz - unat a + 4095 = 4096 + (unat newsz - unat a - 1)" "unat newsz - unat a - 1 < 4096" using n by simp_all
    then have "(unat newsz - unat a + 4095) div 4096 = 1" by simp
    then show ?thesis using True u by simp
  next
    case False
    then have "unat newsz - unat a + 4095 = (unat newsz - unat (a + PGSIZE) + 4095) + 4096" using u by simp
    then show ?thesis by simp
  qed
  show "unat (PGROUNDDOWN v) = unat a \<longleftrightarrow> unat a \<le> unat v \<and> unat v < unat a + 4096"
    unfolding unat_PGROUNDDOWN k by auto
qed

text \<open>
  \<open>grown fs a s s'\<close>: the pages from \<open>a\<close> on are mapped, writable for the user, to the frames \<open>fs\<close>
  in order; every frame is a zeroed page of its own; all other entries stay.
\<close>

definition grown :: "uint \<Rightarrow> uint list \<Rightarrow> uint \<Rightarrow> 'a kmem_scheme \<Rightarrow> 'a kmem_scheme \<Rightarrow> bool" where
  "grown pgdir fs a s s' \<longleftrightarrow> distinct fs \<and> (\<forall>f \<in> set fs. zero_page (mem s') f) \<and>
     (\<forall>v. pte_of (mem s') pgdir v =
        (if unat a \<le> unat v \<and> unat v < unat a + length fs * 4096
         then Some (V2P (fs ! ((unat v - unat a) div 4096)) OR (PTE_W OR PTE_U) OR PTE_P)
         else pte_of (mem s) pgdir v))"

lemma grown_Cons:
  assumes "grown pgdir fs (a + PGSIZE) s3 s'" "p \<notin> set fs" "zero_page (mem s') p"
    "unat (a + PGSIZE) = unat a + 4096"
    "\<And>v. pte_of (mem s3) pgdir v = (if unat a \<le> unat v \<and> unat v < unat a + 4096
       then Some (V2P p OR (PTE_W OR PTE_U) OR PTE_P) else pte_of (mem s) pgdir v)"
  shows "grown pgdir (p # fs) a s s'"
proof -
  have "pte_of (mem s') pgdir v =
      (if unat a \<le> unat v \<and> unat v < unat a + length (p # fs) * 4096
       then Some (V2P ((p # fs) ! ((unat v - unat a) div 4096)) OR (PTE_W OR PTE_U) OR PTE_P)
       else pte_of (mem s) pgdir v)" for v
  proof -
    consider "unat v < unat a" | "unat a \<le> unat v" "unat v < unat a + 4096" | "unat a + 4096 \<le> unat v" by linarith
    then show ?thesis
    proof cases
      case 3
      then have "(unat v - unat a) div 4096 = Suc ((unat v - (unat a + 4096)) div 4096)"
        using div_add_self2 [of 4096 "unat v - (unat a + 4096)"] by (simp add: algebra_simps)
      then show ?thesis using 3 assms(1,4) assms(5) [of v] by (auto simp: grown_def)
    qed (use assms(1,4) assms(5) [of v] in \<open>simp_all add: grown_def\<close>)
  qed
  then show ?thesis using assms(1,2,3) unfolding grown_def by simp
qed

lemma allocuvm_loop_grows:
  assumes "aspace kend pgdir D ps s" "a mod PGSIZE = 0" "newsz < KERNBASE"
    "n = (unat newsz - unat a + 4095) div 4096" "2 * n \<le> length ps"
    "\<And>v. unat a \<le> unat v \<Longrightarrow> unat v < unat a + n * 4096 \<Longrightarrow> pte_of (mem s) pgdir v = None"
  shows "\<exists>s' us qs fs. allocuvm_loop kend pgdir a oldsz newsz s = Ok (newsz, s') \<and>
     aspace kend pgdir (D \<union> set fs) qs s' \<and> ps = us @ qs \<and> set fs \<subseteq> set us \<and> D \<inter> set fs = {} \<and> length fs = n \<and>
     (\<forall>q \<in> D. page_same (mem s) (mem s') q) \<and> grown pgdir fs a s s'"
  using assms
proof (induction n arbitrary: s ps a D)
  case 0
  then have "\<not> a < newsz" using rounded_step(3) [OF 0(2) _ 0(3)] by auto
  then have l: "allocuvm_loop kend pgdir a oldsz newsz s = Ok (newsz, s)" by (simp add: allocuvm_loop.simps)
  show ?case
    by (rule exI [of _ s], rule exI [of _ "[]"], rule exI [of _ ps], rule exI [of _ "[]"])
      (use 0(1) l page_same_refl in \<open>auto simp: grown_def\<close>)
next
  case (Suc n)
  have lt: "a < newsz"
  proof (rule ccontr)
    assume "\<not> a < newsz"
    then show False using Suc.prems(4) by (simp add: word_less_nat_alt not_less)
  qed
  note rs = rounded_step [OF Suc.prems(2) lt Suc.prems(3)]
  obtain p qs where ps: "ps = p # qs" "qs \<noteq> []" "2 * n + 1 \<le> length qs"
  proof (cases ps)
    case (Cons p qs)
    then show thesis using that [of p qs] Suc.prems(5) by (cases qs) auto
  qed (use Suc.prems(5) in simp)
  have "pte_of (mem s) pgdir a = None" using Suc.prems(6) by simp
  then obtain s1 s3 us ws where t: "kalloc s = (p, s1)" "p \<noteq> 0" "p \<notin> D"
    "mappages pgdir a PGSIZE (V2P p) (PTE_W OR PTE_U) (s1\<lparr>mem := memset (mem s1) p 0 PGSIZE\<rparr>) = Ok (0, s3)"
    "aspace kend pgdir (insert p D) ws s3" "qs = us @ ws" "length us \<le> 1"
    "\<forall>q \<in> D. page_same (mem s) (mem s3) q" "zero_page (mem s3) p"
    "\<forall>v. pte_of (mem s3) pgdir v =
       (if PGROUNDDOWN v = a then Some (V2P p OR (PTE_W OR PTE_U) OR PTE_P) else pte_of (mem s) pgdir v)"
    by (rule zeroed_page_mapped [OF Suc.prems(1) [unfolded ps(1)] Suc.prems(2) _ ps(2)]) (rule that)
  have pte: "pte_of (mem s3) pgdir v = (if unat a \<le> unat v \<and> unat v < unat a + 4096
       then Some (V2P p OR (PTE_W OR PTE_U) OR PTE_P) else pte_of (mem s) pgdir v)" for v
    using t(10) rs(4) [of v] by (simp add: word_unat_eq_iff)
  have n: "n = (unat newsz - unat (a + PGSIZE) + 4095) div 4096" using Suc.prems(4) rs(3) by simp
  have room: "2 * n \<le> length ws" using ps(3) t(6,7) by simp
  have free: "pte_of (mem s3) pgdir v = None"
    if "unat (a + PGSIZE) \<le> unat v" "unat v < unat (a + PGSIZE) + n * 4096" for v
    using that pte [of v] Suc.prems(6) [of v] rs(1) by simp
  obtain s' us' qs' fs where r: "allocuvm_loop kend pgdir (a + PGSIZE) oldsz newsz s3 = Ok (newsz, s')"
    "aspace kend pgdir (insert p D \<union> set fs) qs' s'" "ws = us' @ qs'" "set fs \<subseteq> set us'"
    "insert p D \<inter> set fs = {}" "length fs = n"
    "\<forall>q \<in> insert p D. page_same (mem s3) (mem s') q" "grown pgdir fs (a + PGSIZE) s3 s'"
    using Suc.IH [OF t(5) PGSIZE_next [OF Suc.prems(2)] Suc.prems(3) n room free] by blast
  have loop: "allocuvm_loop kend pgdir a oldsz newsz s = Ok (newsz, s')"
    by (subst allocuvm_loop.simps) (simp add: lt t(1,2,4) rs(2) r(1) Let_def)
  have "grown pgdir (p # fs) a s s'"
    by (rule grown_Cons [OF r(8) _ _ rs(1) pte]) (use r(5,7) zero_page_same [OF t(9)] in auto)
  moreover have "\<forall>q \<in> D. page_same (mem s) (mem s') q" using t(8) r(7) page_same_trans by blast
  moreover have "aspace kend pgdir (D \<union> set (p # fs)) qs' s'" using r(2) by simp
  moreover have "ps = (p # us @ us') @ qs'" using ps(1) t(6) r(3) by simp
  moreover have "set (p # fs) \<subseteq> set (p # us @ us')" "D \<inter> set (p # fs) = {}" "length (p # fs) = Suc n"
    using r(4,5,6) t(3) by auto
  ultimately show ?case using loop by blast
qed

lemma PGROUNDUP_aligned: "PGROUNDUP x mod PGSIZE = 0"
  using PGROUNDDOWN_aligned [of "x + PGSIZE - 1"] by (simp add: PGROUNDUP_def PGROUNDDOWN_def)

definition pages_upto :: "uint \<Rightarrow> nat" where
  "pages_upto sz = (unat sz + 4095) div 4096"

lemma pages_grown:
  assumes "oldsz \<le> newsz" "newsz < KERNBASE"
  shows "(unat newsz - unat (PGROUNDUP oldsz) + 4095) div 4096 = pages_upto newsz - pages_upto oldsz"
    and "unat (PGROUNDUP oldsz) = pages_upto oldsz * 4096"
    and "pages_upto oldsz \<le> pages_upto newsz"
proof -
  have le: "unat oldsz \<le> unat newsz" "unat newsz < 2 ^ 31" using assms by (simp_all add: word_le_nat_alt word_less_nat_alt KERNBASE_def)
  show up: "unat (PGROUNDUP oldsz) = pages_upto oldsz * 4096"
    unfolding pages_upto_def by (rule unat_PGROUNDUP) (use le in simp)
  show "pages_upto oldsz \<le> pages_upto newsz" unfolding pages_upto_def by (rule div_le_mono) (use le in simp)
  show "(unat newsz - unat (PGROUNDUP oldsz) + 4095) div 4096 = pages_upto newsz - pages_upto oldsz"
  proof (cases "unat newsz \<le> pages_upto oldsz * 4096")
    case True
    then have "pages_upto newsz \<le> pages_upto oldsz" by (simp add: pages_upto_def)
    then show ?thesis using True up by simp
  next
    case False
    then have "unat newsz + 4095 = (unat newsz - pages_upto oldsz * 4096 + 4095) + pages_upto oldsz * 4096" by simp
    then have "pages_upto newsz = (unat newsz - pages_upto oldsz * 4096 + 4095) div 4096 + pages_upto oldsz"
      unfolding pages_upto_def [of newsz] by (metis div_mult_self1 zero_neq_numeral add.commute)
    then show ?thesis using up by simp
  qed
qed

lemma page_same_slot:
  assumes "page_same m m' q" "q mod PGSIZE = 0" "w < 1024"
  shows "load32 m' (slot q w) = load32 m (slot q w)"
proof -
  have "m' (slot q w + of_nat j) = m (slot q w + of_nat j)" if "j < 4" for j
    using slot_byte [OF assms(2,3) that] assms(1) unfolding page_same_def by metis
  from this [of 0] this [of 1] this [of 2] this [of 3] show ?thesis by (simp add: load32_def)
qed

text \<open>A change of memory outside the directory and its tables.\<close>

lemma pdir_same:
  assumes ok: "pdir_ok m pgdir R" and dir: "page_same m m' pgdir"
    and tabs: "\<And>d. d < 1024 \<Longrightarrow> load32 m (slot pgdir d) AND PTE_P \<noteq> 0 \<Longrightarrow> page_same m m' (tab_of (load32 m (slot pgdir d)))"
  shows "pdir_ok m' pgdir R" "pte_of m' pgdir v = pte_of m pgdir v"
proof -
  have pg: "pgdir mod PGSIZE = 0" using ok by (simp add: pdir_ok_def)
  note d = page_same_slot [OF dir pg]
  show "pdir_ok m' pgdir R" using ok by (simp add: pdir_ok_def d)
  have "load32 m' (slot (tab_of (load32 m (slot pgdir (PDX v)))) (PTX v)) =
      load32 m (slot (tab_of (load32 m (slot pgdir (PDX v)))) (PTX v))"
    if "load32 m (slot pgdir (PDX v)) AND PTE_P \<noteq> 0"
    by (rule page_same_slot [OF tabs [OF PDX_PTX_lt(1) that] tab_aligned PDX_PTX_lt(2)])
  then show "pte_of m' pgdir v = pte_of m pgdir v" by (simp add: pte_of_def d [OF PDX_PTX_lt(1)] Let_def)
qed

text \<open>Giving a page in use back to the free list.\<close>

lemma kfree_aspace:
  assumes as: "aspace kend pgdir D ps s" and f: "f \<in> D" "page_ok kend f"
  obtains s' where "kfree kend f s = Ok s'" "aspace kend pgdir (D - {f}) (f # ps) s'"
    "\<And>v. pte_of (mem s') pgdir v = pte_of (mem s) pgdir v" "\<And>q. q mod PGSIZE = 0 \<Longrightarrow> q \<noteq> f \<Longrightarrow> page_same (mem s) (mem s') q"
proof -
  have a: "0 < kend" "kmem_rep kend s ps" "pdir_ok (mem s) pgdir (D \<union> set ps)" "D \<inter> set ps = {}" "\<forall>q \<in> D. q mod PGSIZE = 0"
    using as by (simp_all add: aspace_def)
  have p: "f mod PGSIZE = 0" "f \<noteq> 0" "f \<notin> set ps" using page_ok_page [OF a(1) f(2)] f(1) a(4) by auto
  obtain s' where s': "kfree kend f s = Ok s'" "kmem_rep kend s' (f # ps)"
    using kmem_rep_kfree [OF a(2) f(2) p(2,3)] by blast
  have m: "mem s' = store32 (fill (mem s) f 1 4096) (slot f 0) (freelist s)"
    using s'(1) f(2) by (auto simp: kfree_def page_ok_def memset_fill PGSIZE_def Let_def slot_0 split: if_splits)
  have same: "page_same (mem s) (mem s') q" if "q mod PGSIZE = 0" "q \<noteq> f" for q
    unfolding m by (rule page_same_trans [OF page_same_fill [OF p(1) that] page_same_store [OF p(1) that]]) simp
  have dir: "page_same (mem s) (mem s') pgdir"
    by (rule same) (use a(3) f(1) in \<open>auto simp: pdir_ok_def\<close>)
  have tabs: "page_same (mem s) (mem s') (tab_of (load32 (mem s) (slot pgdir d)))"
    if "d < 1024" "load32 (mem s) (slot pgdir d) AND PTE_P \<noteq> 0" for d
    by (rule same [OF tab_aligned]) (use a(3) f(1) that in \<open>auto simp: pdir_ok_def\<close>)
  note pd = pdir_same [OF a(3) dir tabs]
  have "D - {f} \<union> set (f # ps) = D \<union> set ps" using f(1) by auto
  then have "aspace kend pgdir (D - {f}) (f # ps) s'" using pd(1) a s'(2) by (auto simp: aspace_def)
  then show thesis using that s'(1) pd(2) same by blast
qed

lemma pte_of_SomeD:
  assumes "pte_of m pgdir v = Some e"
  shows "load32 m (slot pgdir (PDX v)) AND PTE_P \<noteq> 0" "e AND PTE_P \<noteq> 0"
    "load32 m (slot (tab_of (load32 m (slot pgdir (PDX v)))) (PTX v)) = e"
  using assms by (auto simp: pte_of_def Let_def split: if_splits)

text \<open>One turn of the loop of \<^verbatim>\<open>deallocuvm\<close> at a page that is mapped.\<close>

lemma deallocuvm_loop_turn:
  assumes as: "aspace kend pgdir D ps s" and k: "KERNBASE < kend" and a: "a < oldsz"
    and e: "pte_of (mem s) pgdir a = Some e" and f: "tab_of e \<in> D" "page_ok kend (tab_of e)"
  obtains s' where "deallocuvm_loop kend pgdir a oldsz s =
      (if a < a + PGSIZE then deallocuvm_loop kend pgdir (a + PGSIZE) oldsz s' else Undef)"
    "aspace kend pgdir (D - {tab_of e}) (tab_of e # ps) s'" "\<forall>q \<in> D - {tab_of e}. page_same (mem s) (mem s') q"
    "\<And>v. pte_of (mem s') pgdir v = (if PGROUNDDOWN v = PGROUNDDOWN a then None else pte_of (mem s) pgdir v)"
proof -
  let ?f = "tab_of e" and ?e = "load32 (mem s) (slot pgdir (PDX a))"
  note E = pte_of_SomeD [OF e]
  obtain s2 where s2: "kfree kend ?f s = Ok s2" "aspace kend pgdir (D - {?f}) (?f # ps) s2"
    "\<And>v. pte_of (mem s2) pgdir v = pte_of (mem s) pgdir v" "\<And>q. q mod PGSIZE = 0 \<Longrightarrow> q \<noteq> ?f \<Longrightarrow> page_same (mem s) (mem s2) q"
    by (rule kfree_aspace [OF as f]) (rule that)
  have ok: "pdir_ok (mem s) pgdir (D \<union> set ps)" "pgdir mod PGSIZE = 0" "pgdir \<noteq> ?f"
    using as f(1) by (auto simp: aspace_def pdir_ok_def)
  have dir: "load32 (mem s2) (slot pgdir (PDX a)) = ?e"
    by (rule page_same_slot [OF s2(4) [OF ok(2,3)] ok(2) PDX_PTX_lt(1)])
  have ok2: "pdir_ok (mem s2) pgdir (D - {?f} \<union> set (?f # ps))" using s2(2) by (simp add: aspace_def)
  let ?m = "store32 (mem s2) (slot (tab_of ?e) (PTX a)) 0"
  have e2: "load32 (mem s2) (slot pgdir (PDX a)) AND PTE_P \<noteq> 0" using E(1) dir by simp
  note st = store_pte_any [OF ok2 e2, of 0, unfolded dir]
  have nz: "PTE_ADDR e \<noteq> 0"
  proof
    assume "PTE_ADDR e = 0"
    then have "?f = KERNBASE" by (simp add: tab_of_def P2V_def)
    then show False using f(2) k by (auto simp: page_ok_def)
  qed
  have w: "walkpgdir pgdir a False s = (slot (tab_of ?e) (PTX a), s)" by (rule walkpgdir_present [OF E(1)])
  have sl: "slot (tab_of ?e) (PTX a) \<noteq> 0"
    by (rule slot_nonzero [OF tab_aligned PDX_PTX_lt(2)])
      (use as E(1) PDX_PTX_lt(1) [of a] in \<open>auto simp: aspace_def pdir_ok_def\<close>)
  have "deallocuvm_loop kend pgdir a oldsz s =
      (if a < a + PGSIZE then deallocuvm_loop kend pgdir (a + PGSIZE) oldsz (s2\<lparr>mem := ?m\<rparr>) else Undef)"
    using a s2(1) E(2,3) nz sl by (subst deallocuvm_loop.simps) (simp add: w Let_def tab_of_def)
  moreover have "aspace kend pgdir (D - {?f}) (?f # ps) (s2\<lparr>mem := ?m\<rparr>)"
    by (rule aspace_mem [OF s2(2) st(1)]) (use st(3) aspace_pages [OF s2(2)] in auto)
  moreover have "page_same (mem s) ?m q" if "q \<in> D - {?f}" for q
    using s2(4) [of q] st(3) that as page_same_trans [of "mem s" "mem s2" q ?m] by (auto simp: aspace_def)
  ultimately show thesis using that [of "s2\<lparr>mem := ?m\<rparr>"] st(2) s2(3) by simp
qed

section \<open>Shrinking an address space\<close>

text \<open>The pages from \<open>a\<close> on are mapped to the frames \<open>fs\<close> in order.\<close>

definition frames :: "memory \<Rightarrow> uint \<Rightarrow> uint \<Rightarrow> uint list \<Rightarrow> bool" where
  "frames m pgdir a fs \<longleftrightarrow> (\<forall>v. unat a \<le> unat v \<and> unat v < unat a + length fs * 4096 \<longrightarrow>
     (\<exists>e. pte_of m pgdir v = Some e \<and> tab_of e = fs ! ((unat v - unat a) div 4096)))"

lemma frames_Cons:
  assumes "frames m pgdir a (f # fs)" "unat (a + PGSIZE) = unat a + 4096"
    "\<And>v. unat a + 4096 \<le> unat v \<Longrightarrow> pte_of m' pgdir v = pte_of m pgdir v"
  shows "frames m' pgdir (a + PGSIZE) fs"
  unfolding frames_def
proof (intro allI impI)
  fix v :: uint assume v: "unat (a + PGSIZE) \<le> unat v \<and> unat v < unat (a + PGSIZE) + length fs * 4096"
  then have "unat a \<le> unat v \<and> unat v < unat a + length (f # fs) * 4096" using assms(2) by simp
  then obtain e where e: "pte_of m pgdir v = Some e" "tab_of e = (f # fs) ! ((unat v - unat a) div 4096)"
    using assms(1) unfolding frames_def by blast
  have "(unat v - unat a) div 4096 = Suc ((unat v - (unat a + 4096)) div 4096)"
    using v assms(2) div_add_self2 [of 4096 "unat v - (unat a + 4096)"] by (simp add: algebra_simps)
  then show "\<exists>e. pte_of m' pgdir v = Some e \<and> tab_of e = fs ! ((unat v - unat (a + PGSIZE)) div 4096)"
    using e assms(2,3) v by auto
qed

lemma deallocuvm_loop_frees:
  assumes "aspace kend pgdir (D \<union> set fs) ps s" "KERNBASE < kend" "a mod PGSIZE = 0" "oldsz < KERNBASE"
    "length fs = (unat oldsz - unat a + 4095) div 4096"
    "distinct fs" "D \<inter> set fs = {}" "\<forall>f \<in> set fs. page_ok kend f" "frames (mem s) pgdir a fs"
  shows "\<exists>s'. deallocuvm_loop kend pgdir a oldsz s = Ok s' \<and> aspace kend pgdir D (rev fs @ ps) s' \<and>
     (\<forall>q \<in> D. page_same (mem s) (mem s') q) \<and>
     (\<forall>v. pte_of (mem s') pgdir v =
        (if unat a \<le> unat v \<and> unat v < unat a + length fs * 4096 then None else pte_of (mem s) pgdir v))"
  using assms(1,3,5-)
proof (induction fs arbitrary: s ps a)
  case Nil
  then have "\<not> a < oldsz" using rounded_step(3) [OF Nil(2) _ assms(4)] by auto
  then have "deallocuvm_loop kend pgdir a oldsz s = Ok s" by (simp add: deallocuvm_loop.simps)
  then show ?case using Nil(1) page_same_refl by (intro exI [of _ s]) auto
next
  case (Cons f fs)
  have lt: "a < oldsz"
  proof (rule ccontr)
    assume "\<not> a < oldsz"
    then show False using Cons.prems(3) by (simp add: word_less_nat_alt not_less)
  qed
  note rs = rounded_step [OF Cons.prems(2) lt assms(4)]
  obtain e where e: "pte_of (mem s) pgdir a = Some e" "tab_of e = f"
    using Cons.prems(7) unfolding frames_def by force
  have fD: "tab_of e \<in> D \<union> set (f # fs)" "page_ok kend (tab_of e)" using e(2) Cons.prems(6) by simp_all
  obtain s1 where s1: "deallocuvm_loop kend pgdir a oldsz s =
      (if a < a + PGSIZE then deallocuvm_loop kend pgdir (a + PGSIZE) oldsz s1 else Undef)"
    "aspace kend pgdir (D \<union> set (f # fs) - {tab_of e}) (tab_of e # ps) s1"
    "\<forall>q \<in> D \<union> set (f # fs) - {tab_of e}. page_same (mem s) (mem s1) q"
    "\<And>v. pte_of (mem s1) pgdir v = (if PGROUNDDOWN v = PGROUNDDOWN a then None else pte_of (mem s) pgdir v)"
    by (rule deallocuvm_loop_turn [OF Cons.prems(1) assms(2) lt e(1) fD]) (rule that)
  have D: "D \<union> set (f # fs) - {f} = D \<union> set fs" using Cons.prems(4,5) e(2) by auto
  have pte: "pte_of (mem s1) pgdir v = (if unat a \<le> unat v \<and> unat v < unat a + 4096 then None else pte_of (mem s) pgdir v)" for v
    using s1(4) [of v] rs(4) [of v] PGROUNDDOWN_page [OF Cons.prems(2)] by (simp add: word_unat_eq_iff)
  have "length fs = (unat oldsz - unat (a + PGSIZE) + 4095) div 4096" using Cons.prems(3) rs(3) by simp
  moreover have "frames (mem s1) pgdir (a + PGSIZE) fs"
    by (rule frames_Cons [OF Cons.prems(7) rs(1)]) (simp add: pte)
  ultimately obtain s' where s': "deallocuvm_loop kend pgdir (a + PGSIZE) oldsz s1 = Ok s'"
    "aspace kend pgdir D (rev fs @ f # ps) s'" "\<forall>q \<in> D. page_same (mem s1) (mem s') q"
    "\<forall>v. pte_of (mem s') pgdir v = (if unat (a + PGSIZE) \<le> unat v \<and> unat v < unat (a + PGSIZE) + length fs * 4096
       then None else pte_of (mem s1) pgdir v)"
    using Cons.IH [OF s1(2) [unfolded e(2) D] PGSIZE_next [OF Cons.prems(2)]] Cons.prems(4-6) by auto
  have "page_same (mem s) (mem s') q" if "q \<in> D" for q
    using that s'(3) s1(3) Cons.prems(5) e(2) page_same_trans [of "mem s" "mem s1" q "mem s'"] by auto
  moreover have "pte_of (mem s') pgdir v =
      (if unat a \<le> unat v \<and> unat v < unat a + length (f # fs) * 4096 then None else pte_of (mem s) pgdir v)" for v
    using s'(4) pte [of v] rs(1) by auto
  ultimately show ?case using s'(1,2) s1(1) rs(2) by (intro exI [of _ s']) simp
qed

lemma deallocuvm_frees:
  assumes "aspace kend pgdir (D \<union> set fs) ps s" "KERNBASE < kend" "newsz < oldsz" "oldsz < KERNBASE"
    "length fs = pages_upto oldsz - pages_upto newsz"
    "distinct fs" "D \<inter> set fs = {}" "\<forall>f \<in> set fs. page_ok kend f" "frames (mem s) pgdir (PGROUNDUP newsz) fs"
  obtains s' where "deallocuvm kend pgdir oldsz newsz s = Ok (newsz, s')" "aspace kend pgdir D (rev fs @ ps) s'"
    "\<forall>q \<in> D. page_same (mem s) (mem s') q"
    "\<And>v. pte_of (mem s') pgdir v =
        (if pages_upto newsz * 4096 \<le> unat v \<and> unat v < pages_upto oldsz * 4096 then None else pte_of (mem s) pgdir v)"
proof -
  note pg = pages_grown [OF less_imp_le [OF assms(3)] assms(4)]
  have len: "length fs = (unat oldsz - unat (PGROUNDUP newsz) + 4095) div 4096" using assms(5) pg(1) by simp
  have "pages_upto newsz * 4096 + length fs * 4096 = pages_upto oldsz * 4096"
    using assms(5) pg(3) by (simp add: diff_mult_distrib)
  moreover obtain s' where s': "deallocuvm_loop kend pgdir (PGROUNDUP newsz) oldsz s = Ok s'"
    "aspace kend pgdir D (rev fs @ ps) s'" "\<forall>q \<in> D. page_same (mem s) (mem s') q"
    "\<forall>v. pte_of (mem s') pgdir v = (if unat (PGROUNDUP newsz) \<le> unat v \<and> unat v < unat (PGROUNDUP newsz) + length fs * 4096
       then None else pte_of (mem s) pgdir v)"
    using deallocuvm_loop_frees [OF assms(1,2) PGROUNDUP_aligned assms(4) len assms(6-9)] by blast
  ultimately show thesis using assms(3) pg(2) by (intro that [of s']) (auto simp: deallocuvm_def not_le)
qed

text \<open>A directory without entries at \<open>0x80200000\<close> and two free pages after it.\<close>

definition vm_demo :: kmem where
  "vm_demo = \<lparr>mem = store32 (\<lambda>_. 0) 0x80201000 0x80202000, freelist = 0x80201000, use_lock = True\<rparr>"

lemma vm_demo_dir: "d < 1024 \<Longrightarrow> load32 (mem vm_demo) (slot 0x80200000 d) = 0"
  using load_store_slot [of "0x80201000" "0x80200000" 0 d "\<lambda>_. 0" "0x80202000"]
  by (simp add: vm_demo_def slot_0 PGSIZE_def load32_def)

lemma vm_demo_aspace: "aspace 0x80115000 0x80200000 {} [0x80201000, 0x80202000] vm_demo"
proof -
  have "pdir_ok (mem vm_demo) 0x80200000 {0x80201000, 0x80202000}"
    by (simp add: pdir_ok_def vm_demo_dir PGSIZE_def)
  moreover have "load32 (store32 (\<lambda>_. 0) 0x80201000 0x80202000) 0x80202000 = 0"
    using load_store_slot [of "0x80201000" "0x80202000" 0 0 "\<lambda>_. 0" "0x80202000"]
    by (simp add: slot_0 PGSIZE_def load32_def)
  ultimately show ?thesis
    by (simp add: aspace_def kmem_rep_def page_ok_def addr_defs vm_demo_def)
qed

lemma vm_demo_unmapped: "pte_of (mem vm_demo) 0x80200000 v = None"
  by (simp add: pte_of_def vm_demo_dir PDX_PTX_lt)

text \<open>
  C33: \<^verbatim>\<open>mappages\<close> makes exactly the translation it is asked for. Where no page that the block
  touches is mapped yet and there are as many free pages as pages to map, it returns 0; each
  address of those pages then translates to the physical address at the same distance from
  \<^verbatim>\<open>pa\<close>, with the given permissions; every other address translates as before; the page
  tables stay apart from each other, from the free pages and from the pages in use, whose
  contents it does not touch.
\<close>

theorem mappages_translates:
  assumes "aspace kend pgdir D ps s" "0 < sz" "unat va + unat sz \<le> 2 ^ 32" "page_count va sz \<le> length ps"
    and "\<And>v. touched va sz v \<Longrightarrow> pte_of (mem s) pgdir v = None"
  shows "\<exists>s' us qs. mappages pgdir va sz pa perm s = Ok (0, s') \<and> aspace kend pgdir D qs s' \<and> ps = us @ qs \<and>
    length us \<le> page_count va sz \<and> (\<forall>q \<in> D. page_same (mem s) (mem s') q) \<and>
    (\<forall>v. pte_of (mem s') pgdir v =
       (if touched va sz v then Some ((pa + (PGROUNDDOWN v - PGROUNDDOWN va)) OR perm OR PTE_P)
        else pte_of (mem s) pgdir v))"
  using assms by (rule mappages_maps)

theorem mappages_translates_witness:
  "\<exists>s'. mappages 0x80200000 0x1000 0x1000 0x300000 PTE_U vm_demo = Ok (0, s') \<and>
     pte_of (mem s') 0x80200000 0x1234 = Some (0x300000 OR PTE_U OR PTE_P) \<and> pte_of (mem s') 0x80200000 0 = None"
proof -
  have t: "touched 0x1000 0x1000 0x1234" "\<not> touched 0x1000 0x1000 0"
    by (simp_all add: touched_def word_le_nat_alt unat_PGROUNDDOWN)
  have g: "PGROUNDDOWN 0x1234 = 0x1000" "PGROUNDDOWN 0x1000 = 0x1000"
    by (simp_all add: word_unat_eq_iff unat_PGROUNDDOWN)
  have "page_count 0x1000 0x1000 \<le> length [0x80201000 :: uint, 0x80202000]" by (simp add: page_count_def)
  from mappages_translates [OF vm_demo_aspace _ _ this vm_demo_unmapped, of "0x300000" PTE_U]
  obtain s' where s': "mappages 0x80200000 0x1000 0x1000 0x300000 PTE_U vm_demo = Ok (0, s')"
    "\<forall>v. pte_of (mem s') 0x80200000 v = (if touched 0x1000 0x1000 v
       then Some ((0x300000 + (PGROUNDDOWN v - PGROUNDDOWN 0x1000)) OR PTE_U OR PTE_P)
       else pte_of (mem vm_demo) 0x80200000 v)"
    by auto
  then show ?thesis using t g vm_demo_unmapped by simp
qed

text \<open>
  C34: \<^verbatim>\<open>allocuvm\<close> grows an address space by zeroed pages of its own. With two free pages for
  each new page (the page and perhaps a table) and nothing mapped in the new range, it
  returns the new size; each new page is mapped, writable for the user, to a frame that
  was free, that no other page has and that is all zero; the rest of the address space and
  the pages in use stay as they were.
\<close>

theorem allocuvm_grows:
  assumes "aspace kend pgdir D ps s" "oldsz \<le> newsz" "newsz < KERNBASE"
    "2 * (pages_upto newsz - pages_upto oldsz) \<le> length ps"
    "\<And>v. pages_upto oldsz * 4096 \<le> unat v \<Longrightarrow> unat v < pages_upto newsz * 4096 \<Longrightarrow> pte_of (mem s) pgdir v = None"
  shows "\<exists>s' us qs fs. allocuvm kend pgdir oldsz newsz s = Ok (newsz, s') \<and>
     aspace kend pgdir (D \<union> set fs) qs s' \<and> ps = us @ qs \<and> set fs \<subseteq> set us \<and> D \<inter> set fs = {} \<and>
     length fs = pages_upto newsz - pages_upto oldsz \<and>
     (\<forall>q \<in> D. page_same (mem s) (mem s') q) \<and> grown pgdir fs (PGROUNDUP oldsz) s s'"
proof -
  note pb = pages_grown [OF assms(2,3)]
  have "allocuvm kend pgdir oldsz newsz s = allocuvm_loop kend pgdir (PGROUNDUP oldsz) oldsz newsz s"
    unfolding allocuvm_def using leD [OF assms(2)] leD [of KERNBASE newsz] assms(3) by auto
  moreover have "pte_of (mem s) pgdir v = None"
    if "unat (PGROUNDUP oldsz) \<le> unat v"
      "unat v < unat (PGROUNDUP oldsz) + (pages_upto newsz - pages_upto oldsz) * 4096" for v
    using that assms(5) [of v] pb(2,3) by (simp add: diff_mult_distrib)
  ultimately show ?thesis
    using allocuvm_loop_grows [OF assms(1) PGROUNDUP_aligned assms(3) pb(1) [symmetric] assms(4)] by simp
qed

theorem allocuvm_grows_witness:
  "\<exists>s' f. allocuvm 0x80115000 0x80200000 0 0x1000 vm_demo = Ok (0x1000, s') \<and> zero_page (mem s') f \<and>
     pte_of (mem s') 0x80200000 0x10 = Some (V2P f OR (PTE_W OR PTE_U) OR PTE_P) \<and>
     f \<in> {0x80201000, 0x80202000}"
proof -
  have p: "pages_upto 0 = 0" "pages_upto 0x1000 = 1" "PGROUNDUP 0 = 0"
    by (simp_all add: pages_upto_def PGROUNDUP_def PGSIZE_def)
  have "(0x1000 :: uint) < KERNBASE" "2 * (pages_upto 0x1000 - pages_upto 0) \<le> length [0x80201000 :: uint, 0x80202000]"
    by (simp_all add: KERNBASE_def p)
  from allocuvm_grows [OF vm_demo_aspace _ this vm_demo_unmapped]
  obtain s' us qs fs where r: "allocuvm 0x80115000 0x80200000 0 0x1000 vm_demo = Ok (0x1000, s')"
    "[0x80201000, 0x80202000] = us @ qs" "set fs \<subseteq> set us" "length fs = 1" "grown 0x80200000 fs 0 vm_demo s'"
    by (auto simp: p)
  obtain f where f: "fs = [f]" using r(4) by (cases fs) auto
  have "set us \<subseteq> set [0x80201000, 0x80202000]" using r(2) by (metis set_append Un_upper1)
  then have "f \<in> {0x80201000, 0x80202000}" using r(3) f by auto
  then show ?thesis using r(1,5) f by (auto simp: grown_def)
qed

end
