(* ===== verification/Proc_Props.thy ===== *)
theory Proc_Props
  imports Mlfq_System Vm_Props
begin

text \<open>
  Properties of the process operations and of the scheduling policies that do not depend
  on the queues alone: aging, wakeup, exit, kill, the time accounting behind \<^verbatim>\<open>waitx\<close>,
  and what the round-robin, first-come-first-served and priority schedulers run.
\<close>

section \<open>Aging, wakeup, exit\<close>

text \<open>
  A sample state at tick 40: processes 1, 2 and 3 in slots 0, 1 and 2 have waited in queue 1 since tick 0, and
  process 4 in slot 3, of the same queue, sleeps on the tick counter.
\<close>

definition demo_waiting :: kproc where
  "demo_waiting = boot_kproc\<lparr>ptable := (replicate NPROC zero_proc)
       [0 := (demo_proc 1)\<lparr>p_cur_q := 1\<rparr>, Suc 0 := (demo_proc 2)\<lparr>p_cur_q := 1\<rparr>, 2 := (demo_proc 3)\<lparr>p_cur_q := 1\<rparr>,
        3 := (demo_proc 4)\<lparr>p_cur_q := 1, p_state := SLEEPING, p_chan := TicksChan\<rparr>],
     qu := (qu boot_kproc)[Suc 0 := (replicate NPROC None)[0 := Some 0, Suc 0 := Some (Suc 0), 2 := Some 2]],
     q_index := (q_index boot_kproc)[Suc 0 := 2], nextpid := 5, ticks := 40\<rparr>"

lemma demo_waiting_queues:
  "wf_queues demo_waiting" "qlist demo_waiting (Suc 0) = [0, Suc 0, 2]"
  "c < NQUEUE \<Longrightarrow> c \<noteq> Suc 0 \<Longrightarrow> qlist demo_waiting c = []"
proof -
  let ?row = "(replicate NPROC None)[0 := Some 0, Suc 0 := Some (Suc 0), 2 := Some 2]"
  let ?s = "boot_kproc\<lparr>qu := (qu boot_kproc)[Suc 0 := ?row], q_index := (q_index boot_kproc)[Suc 0 := int 3 - 1]\<rparr>"
  have tk: "take 3 ?row = [Some 0, Some (Suc 0), Some 2]"
    by (simp add: NPROC_def numeral_nat)
  have "wf_queues ?s \<and> qlist ?s (Suc 0) = map the (take 3 ?row) \<and> (\<forall>d. d \<noteq> Suc 0 \<longrightarrow> qlist ?s d = qlist boot_kproc d)"
    using row_update [OF mlfq_invD(1) [OF mlfq_inv_boot] _ refl, of "Suc 0" ?row 3] tk
    by (auto simp: NPROC_def NQUEUE_def)
  moreover have "qlist demo_waiting = qlist ?s \<and> wf_queues demo_waiting = wf_queues ?s"
    by (rule queues_cong) (simp_all add: demo_waiting_def)
  moreover have "qlist boot_kproc c = []" if "c < NQUEUE" for c
    using that by (simp add: qlist_def q_len_def boot_kproc_def)
  ultimately show "wf_queues demo_waiting" "qlist demo_waiting (Suc 0) = [0, Suc 0, 2]"
    "c < NQUEUE \<Longrightarrow> c \<noteq> Suc 0 \<Longrightarrow> qlist demo_waiting c = []" unfolding tk by simp_all
qed

lemma demo_waiting_nth:
  "i < NPROC \<Longrightarrow> ptable demo_waiting ! i =
     (if i < 3 then (demo_proc (int i + 1))\<lparr>p_cur_q := 1\<rparr>
      else if i = 3 then (demo_proc 4)\<lparr>p_cur_q := 1, p_state := SLEEPING, p_chan := TicksChan\<rparr> else zero_proc)"
  by (auto simp: demo_waiting_def nth_list_update_if numeral_nat less_Suc_eq NPROC_def)

lemma mlfq_inv_waiting: "mlfq_inv {} demo_waiting"
proof -
  have len: "length (ptable demo_waiting) = NPROC" "nextpid demo_waiting = 5"
    by (simp_all add: demo_waiting_def)
  have "table_inv (ptable demo_waiting) (nextpid demo_waiting)"
    unfolding table_inv_def len using demo_waiting_nth
    by (simp add: proc_ok_def demo_proc_def zero_proc_def NQUEUE_def)
  moreover have "i \<in> set (qlist demo_waiting c) \<longleftrightarrow> runnable (ptable demo_waiting) i \<and> p_cur_q (ptable demo_waiting ! i) = int c"
    if "c < NQUEUE" "i < NPROC" for c i
    using demo_waiting_queues(2) demo_waiting_queues(3) [OF that(1)] demo_waiting_nth [OF that(2)]
    by (cases "c = Suc 0") (auto simp: demo_proc_def zero_proc_def)
  moreover have "distinct (qlist demo_waiting c)" if "c < NQUEUE" for c
    using demo_waiting_queues(2) demo_waiting_queues(3) [OF that] by (cases "c = Suc 0") auto
  ultimately show ?thesis using demo_waiting_queues(1) by (simp add: mlfq_inv_def queues_inv_def)
qed

text \<open>
  C5: A pass of the aging loop over queue \<open>i\<close> moves processes that have waited more than 25 ticks to
  the tail of queue \<open>i - 1\<close>, in their order, sets their queue number and restarts their waiting time,
  and changes nothing else. Which of them it moves is the function \<open>age_split\<close>: the process behind a
  moved one is passed over, because the loop index advances after the array has been shifted.
\<close>

theorem age_queue_refines:
  assumes "mlfq_inv {} s" "0 < i" "i < NQUEUE"
  shows "\<exists>a d s'. age_queue i 0 (False, 0, s) = Ok (a, d, s') \<and> mlfq_inv {} s' \<and>
    (let (kept, moved) = age_split (\<lambda>p. sint (ticks s - word_of_int (p_qtime (ptable s ! p))) > 25) (qlist s i)
     in qlist s' = (qlist s)(i := kept, i - 1 := qlist s (i - 1) @ moved) \<and>
        (\<forall>k < NPROC. ptable s' ! k =
           (if k \<in> set moved then (ptable s ! k)\<lparr>p_cur_q := int (i - 1), p_qtime := sint (ticks s)\<rparr>
            else ptable s ! k)))"
proof -
  have "too_old s = (\<lambda>p. sint (ticks s - word_of_int (p_qtime (ptable s ! p))) > 25)"
    by (simp add: too_old_def aged_def fun_eq_iff)
  then show ?thesis
    using age_queue_ok [OF assms, of 0 False 0]
    by (auto simp: aged_pass_def promoted_def Let_def case_prod_beta)
qed

theorem age_queue_refines_witness:
  "\<exists>a d s'. age_queue 1 0 (False, 0, demo_waiting) = Ok (a, d, s') \<and> mlfq_inv {} s' \<and>
     qlist s' 0 = [0, 2] \<and> qlist s' 1 = [1] \<and> p_cur_q (ptable s' ! 2) = 0 \<and> p_qtime (ptable s' ! 2) = 40"
proof -
  let ?s = demo_waiting and ?old = "\<lambda>p. sint (ticks demo_waiting - word_of_int (p_qtime (ptable demo_waiting ! p))) > 25"
  have n: "(0::nat) < 1" "(1::nat) < NQUEUE" "(2::nat) < NPROC" by (simp_all add: NQUEUE_def NPROC_def)
  have t: "ticks ?s = 40" by (simp add: demo_waiting_def)
  have "?old p" if "p < 3" for p
    using that demo_waiting_nth [of p] t by (simp add: NPROC_def demo_proc_def zero_proc_def)
  then have "age_split ?old (qlist ?s 1) = ([Suc 0], [0, 2])"
    using demo_waiting_queues(2) by simp
  moreover have "qlist ?s 0 = []" using demo_waiting_queues(3) [of 0] by (simp add: NQUEUE_def)
  ultimately show ?thesis using age_queue_refines [OF mlfq_inv_waiting n(1,2)] n(3) t by (fastforce simp: Let_def)
qed

text \<open>
  C8: \<^verbatim>\<open>wakeup(chan)\<close> makes runnable exactly the processes that sleep on \<open>chan\<close> and changes no other
  process. Under the multi-level feedback policy it also appends each of them, in table order, to the
  tail of its queue, and keeps the queues consistent.
\<close>

theorem wakeup_wakes:
  assumes "length (ptable s) = NPROC" "cfg = MLFQ \<Longrightarrow> mlfq_inv {} s"
  shows "\<exists>s'. wakeup cfg ch s = Ok s' \<and>
    ptable s' = map (\<lambda>x. if p_state x = SLEEPING \<and> p_chan x = ch
       then (if cfg = MLFQ then x\<lparr>p_state := RUNNABLE, p_qtime := sint (ticks s)\<rparr> else x\<lparr>p_state := RUNNABLE\<rparr>)
       else x) (ptable s) \<and>
    (cfg = MLFQ \<longrightarrow> mlfq_inv {} s' \<and> (\<forall>c < NQUEUE. qlist s' c = qlist s c @
       filter (\<lambda>i. p_state (ptable s ! i) = SLEEPING \<and> p_chan (ptable s ! i) = ch \<and>
                   p_cur_q (ptable s ! i) = int c) [0..<NPROC]))"
proof (cases "cfg = MLFQ")
  case True
  then show ?thesis using wakeup1_MLFQ [OF assms(2), of ch] unfolding wakeup_def
    by (auto simp: roused_def asleep_on_def conj_assoc fun_eq_iff)
next
  case False
  then show ?thesis using wakeup1_other [OF False assms(1), of ch] unfolding wakeup_def
    by (auto simp: roused_def asleep_on_def)
qed

theorem wakeup_wakes_witness:
  "\<exists>s'. wakeup MLFQ TicksChan demo_waiting = Ok s' \<and> mlfq_inv {} s' \<and> qlist s' 1 = [0, 1, 2, 3] \<and>
     p_state (ptable s' ! 3) = RUNNABLE"
proof -
  let ?s = demo_waiting and ?P = "\<lambda>i. p_state (ptable demo_waiting ! i) = SLEEPING \<and>
    p_chan (ptable demo_waiting ! i) = TicksChan \<and> p_cur_q (ptable demo_waiting ! i) = int 1"
  have len: "length (ptable ?s) = NPROC" using mlfq_invD(4) [OF mlfq_inv_waiting] .
  have n: "(1::nat) < NQUEUE" "(3::nat) < NPROC" by (simp_all add: NQUEUE_def NPROC_def)
  have "filter ?P [0..<NPROC] = filter (\<lambda>i. i = 3) [0..<NPROC]"
    by (rule filter_cong [OF refl]) (auto simp: demo_waiting_nth demo_proc_def zero_proc_def)
  also have "\<dots> = [3]" by (simp add: NPROC_def upt_rec)
  finally have f: "filter ?P [0..<NPROC] = [3]" .
  obtain s' where s': "wakeup MLFQ TicksChan ?s = Ok s'" "mlfq_inv {} s'"
    "qlist s' 1 = qlist ?s 1 @ filter ?P [0..<NPROC]"
    "ptable s' = map (\<lambda>x. if p_state x = SLEEPING \<and> p_chan x = TicksChan
       then x\<lparr>p_state := RUNNABLE, p_qtime := sint (ticks ?s)\<rparr> else x) (ptable ?s)"
    using wakeup_wakes [OF len mlfq_inv_waiting, of MLFQ TicksChan] n(1) by auto
  have "p_state (ptable s' ! 3) = RUNNABLE" unfolding s'(4) using n(2) len demo_waiting_nth [OF n(2)] by simp
  then show ?thesis using s'(1-3) f demo_waiting_queues(2) by auto
qed

text \<open>
  C9: The critical section of \<^verbatim>\<open>exit\<close> makes the exiting process a zombie stamped with the present
  tick, wakes its parent if the parent sleeps in wait, and gives all its children to init, so that no
  process is left with the dead one as its parent. It keeps the queues consistent.
\<close>

theorem exit_table_hands_over:
  assumes "length (ptable s) = NPROC" "cfg = MLFQ \<Longrightarrow> mlfq_inv {} s"
    and "cur < NPROC" "p_state (ptable s ! cur) = RUNNING" "initproc s = Some ini" "ini \<noteq> cur"
    and "p_parent (ptable s ! cur) = Some par" "par < NPROC"
  shows "\<exists>s'. exit_table cfg cur s = Ok s' \<and> (cfg = MLFQ \<longrightarrow> mlfq_inv {} s') \<and>
    p_state (ptable s' ! cur) = ZOMBIE \<and> p_etime (ptable s' ! cur) = sint (ticks s) \<and>
    (\<forall>i < NPROC. p_parent (ptable s' ! i) \<noteq> Some cur) \<and>
    (\<forall>i < NPROC. p_parent (ptable s ! i) = Some cur \<longrightarrow> p_parent (ptable s' ! i) = Some ini) \<and>
    (p_state (ptable s ! par) = SLEEPING \<and> p_chan (ptable s ! par) = ProcChan par \<longrightarrow>
       p_state (ptable s' ! par) = RUNNABLE)"
proof -
  have tok: "table_ok cfg s" using assms(1,2) by (simp add: table_ok_def)
  have init: "initproc s \<noteq> Some cur" using assms(5,6) by simp
  obtain s' where s': "exit_table cfg cur s = Ok s'" "table_ok cfg s'" "p_state (ptable s' ! cur) = ZOMBIE"
    "p_etime (ptable s' ! cur) = sint (ticks s)"
    "\<forall>i < NPROC. p_parent (ptable s' ! i) =
       (if p_parent (ptable s ! i) = Some cur then initproc s else p_parent (ptable s ! i))"
    "\<forall>i < NPROC. asleep_on (chan_of_proc (p_parent (ptable s ! cur))) (ptable s ! i) \<longrightarrow> runnable (ptable s') i"
    using exit_table_ok [OF tok assms(3,4) init] by blast
  then show ?thesis using assms by (intro exI [of _ s']) (simp add: table_ok_def asleep_on_def chan_of_proc_def)
qed

text \<open>Process 2 runs in slot 1 with a child in slot 2; its parent, process 1 in slot 0, waits for it.\<close>

definition demo_family :: kproc where
  "demo_family = boot_kproc\<lparr>ptable := (replicate NPROC zero_proc)
     [0 := (demo_proc 1)\<lparr>p_state := SLEEPING, p_chan := ProcChan 0\<rparr>,
      Suc 0 := (demo_proc 2)\<lparr>p_state := RUNNING, p_parent := Some 0\<rparr>,
      2 := (demo_proc 3)\<lparr>p_state := SLEEPING, p_chan := TicksChan, p_parent := Some (Suc 0)\<rparr>],
     nextpid := 4, initproc := Some 0\<rparr>"

theorem exit_table_hands_over_witness:
  "\<exists>s'. exit_table RR (Suc 0) demo_family = Ok s' \<and> p_state (ptable s' ! Suc 0) = ZOMBIE \<and>
    p_parent (ptable s' ! 2) = Some 0 \<and> p_state (ptable s' ! 0) = RUNNABLE"
proof -
  have len: "length (ptable demo_family) = NPROC" "Suc 0 < NPROC" "(0::nat) < NPROC" "(2::nat) < NPROC"
    by (simp_all add: demo_family_def NPROC_def)
  have f: "p_state (ptable demo_family ! Suc 0) = RUNNING" "initproc demo_family = Some 0"
    "p_parent (ptable demo_family ! Suc 0) = Some 0" "p_state (ptable demo_family ! 0) = SLEEPING"
    "p_chan (ptable demo_family ! 0) = ProcChan 0" "p_parent (ptable demo_family ! 2) = Some (Suc 0)"
    using len by (simp_all add: demo_family_def)
  show ?thesis
    using exit_table_hands_over [OF len(1) _ len(2) f(1,2) _ f(3) len(3), of RR] f len by auto
qed

section \<open>The other policies\<close>

lemma pick_min_None:
  "pick_min key pt ps None = None \<longleftrightarrow> (\<forall>i \<in> set ps. \<not> runnable pt i)"
proof -
  have "pick_min key pt qs (Some f) \<noteq> None" for f qs
    by (induction qs arbitrary: f) auto
  then show ?thesis by (induction ps) auto
qed

lemma pick_min_first:
  assumes "pick_min key pt ps None = Some h"
  shows "\<exists>xs ys. ps = xs @ h # ys \<and> runnable pt h \<and>
    (\<forall>i \<in> set xs. runnable pt i \<longrightarrow> key (pt ! h) < key (pt ! i)) \<and>
    (\<forall>i \<in> set ys. runnable pt i \<longrightarrow> key (pt ! h) \<le> key (pt ! i))"
  using assms
proof (induction ps)
  case (Cons p ps)
  show ?case
  proof (cases "runnable pt p")
    case False
    with Cons obtain xs ys where "ps = xs @ h # ys" "runnable pt h"
      "\<forall>i \<in> set xs. runnable pt i \<longrightarrow> key (pt ! h) < key (pt ! i)"
      "\<forall>i \<in> set ys. runnable pt i \<longrightarrow> key (pt ! h) \<le> key (pt ! i)" by auto
    with False show ?thesis by (intro exI [of _ "p # xs"] exI [of _ ys]) auto
  next
    case True
    with Cons.prems have "pick_min key pt ps (Some p) = Some h" by simp
    from pick_min_Some [OF this] show ?thesis
    proof (elim disjE exE conjE)
      assume "h = p" "\<forall>i \<in> set ps. runnable pt i \<longrightarrow> key (pt ! p) \<le> key (pt ! i)"
      with True show ?thesis by (intro exI [of _ "[]"] exI [of _ ps]) auto
    next
      fix xs ys
      assume "ps = xs @ h # ys" "runnable pt h" "key (pt ! h) < key (pt ! p)"
        "\<forall>i \<in> set xs. runnable pt i \<longrightarrow> key (pt ! h) < key (pt ! i)"
        "\<forall>i \<in> set ys. runnable pt i \<longrightarrow> key (pt ! h) \<le> key (pt ! i)"
      then show ?thesis by (intro exI [of _ "p # xs"] exI [of _ ys]) auto
    qed
  qed
qed simp

lemma upt_split:
  assumes "[0..<n] = xs @ h # ys"
  shows "h < n" "xs = [0..<h]" "ys = [Suc h..<n]"
proof -
  have "h \<in> set [0..<n]" using assms by (metis in_set_conv_decomp)
  then show h: "h < n" by simp
  have "length xs < n" using arg_cong [OF assms, of length] by simp
  have "[0..<n] ! length xs = h" using assms by (simp add: nth_append)
  then have l: "length xs = h" using \<open>length xs < n\<close> by simp
  have "xs = take h [0..<n]" "ys = drop (Suc h) [0..<n]" using assms l by simp_all
  then show "xs = [0..<h]" "ys = [Suc h..<n]" using h by (simp_all add: take_upt)
qed

text \<open>
  C17: When some process is runnable, the FCFS scheduler runs the runnable process with the greatest
  creation time (the first one in the table among equals), that is the one created last, and does
  nothing else. The documentation promises the process with the lowest creation time.
\<close>

theorem scheduler_FCFS_latest:
  assumes "i < NPROC" "runnable (ptable s) i"
  shows "\<exists>p < NPROC. runnable (ptable s) p \<and>
    (\<forall>k < NPROC. runnable (ptable s) k \<longrightarrow> p_ctime (ptable s ! k) \<le> p_ctime (ptable s ! p)) \<and>
    (\<forall>k < p. runnable (ptable s) k \<longrightarrow> p_ctime (ptable s ! k) < p_ctime (ptable s ! p)) \<and>
    scheduler_FCFS swtch s = run_proc swtch p s"
proof -
  let ?key = "\<lambda>x. - p_ctime x"
  obtain p where p: "pick_min ?key (ptable s) [0..<NPROC] None = Some p"
    using pick_min_None [of ?key "ptable s" "[0..<NPROC]"] assms by (cases "pick_min ?key (ptable s) [0..<NPROC] None") auto
  from pick_min_first [OF p] obtain xs ys where x: "[0..<NPROC] = xs @ p # ys" "runnable (ptable s) p"
    "\<forall>i \<in> set xs. runnable (ptable s) i \<longrightarrow> ?key (ptable s ! p) < ?key (ptable s ! i)"
    "\<forall>i \<in> set ys. runnable (ptable s) i \<longrightarrow> ?key (ptable s ! p) \<le> ?key (ptable s ! i)" by blast
  note u = upt_split [OF x(1)]
  have "p_ctime (ptable s ! k) \<le> p_ctime (ptable s ! p)" if "k < NPROC" "runnable (ptable s) k" for k
    using that x(3,4) u by (cases "k < p"; cases "k = p") auto
  moreover have "scheduler_FCFS swtch s = run_proc swtch p s"
    using p x(2) by (simp add: scheduler_FCFS_def fcfs_pick_min)
  ultimately show ?thesis using x(2,3) u by (intro exI [of _ p]) auto
qed

text \<open>The sample processes, created at ticks 5 and 9.\<close>

definition demo_times :: kproc where
  "demo_times = demo_kproc\<lparr>ptable := (ptable demo_kproc)[0 := (demo_proc 1)\<lparr>p_ctime := 5\<rparr>,
     Suc 0 := (demo_proc 2)\<lparr>p_ctime := 9\<rparr>]\<rparr>"

lemma demo_times_nth:
  "i < NPROC \<Longrightarrow> ptable demo_times ! i = (if i = 0 then (demo_proc 1)\<lparr>p_ctime := 5\<rparr>
     else if i = Suc 0 then (demo_proc 2)\<lparr>p_ctime := 9\<rparr> else zero_proc)"
  using demo_nth by (simp add: demo_times_def demo_kproc_def nth_list_update_if)

theorem scheduler_FCFS_latest_witness:
  "scheduler_FCFS (\<lambda>p s. Ok (yield p s)) demo_times = run_proc (\<lambda>p s. Ok (yield p s)) 1 demo_times"
proof -
  have n: "(0::nat) < NPROC" "Suc 0 < NPROC" by (simp_all add: NPROC_def)
  have r: "runnable (ptable demo_times) 0" "runnable (ptable demo_times) (Suc 0)"
    using n by (simp_all add: demo_times_nth demo_proc_def)
  from scheduler_FCFS_latest [OF n(1) r(1), of "\<lambda>p s. Ok (yield p s)"] obtain p where
    p: "p < NPROC" "runnable (ptable demo_times) p"
      "p_ctime (ptable demo_times ! Suc 0) \<le> p_ctime (ptable demo_times ! p)"
      "scheduler_FCFS (\<lambda>p s. Ok (yield p s)) demo_times = run_proc (\<lambda>p s. Ok (yield p s)) p demo_times"
    using n(2) r(2) by blast
  have "p = Suc 0" using p(1-3) n(2) by (auto simp: demo_times_nth zero_proc_def demo_proc_def split: if_splits)
  with p(4) show ?thesis by simp
qed

text \<open>
  \<open>checked_swtch\<close> gives the CPU to a process only when no runnable process is strictly more important;
  otherwise it stops the kernel.
\<close>

definition most_important :: "'a kproc_scheme \<Rightarrow> nat \<Rightarrow> bool" where
  "most_important s p \<longleftrightarrow> (\<forall>x \<in> set (ptable s). p_state x = RUNNABLE \<longrightarrow> p_priority (ptable s ! p) \<le> p_priority x)"

definition checked_swtch ::
  "(nat \<Rightarrow> 'a kproc_scheme \<Rightarrow> 'a kproc_scheme res) \<Rightarrow> nat \<Rightarrow> 'a kproc_scheme \<Rightarrow> 'a kproc_scheme res" where
  "checked_swtch swtch p s = (if most_important s p then swtch p s else Panic ''less important process run'')"

lemma run_proc_checked:
  assumes "\<not> pbs_outranked (ptable s) h" "p_priority (ptable s ! p) = p_priority (ptable s ! h)"
  shows "run_proc (checked_swtch swtch) p s = run_proc swtch p s"
proof -
  have min: "most_important (upd_proc p (\<lambda>x. x\<lparr>p_n_run := p_n_run x + 1, p_state := RUNNING\<rparr>) s1) p"
    if "switchuvm p (s\<lparr>c_proc := Some p\<rparr>) = Ok s1" for s1
  proof -
    have s1: "ptable s1 = ptable s" "p < length (ptable s)" using that by (auto simp: switchuvm_def bindR_eq_Ok_iff)
    show ?thesis unfolding most_important_def
    proof (intro ballI impI)
      let ?y = "(ptable s ! p)\<lparr>p_n_run := p_n_run (ptable s ! p) + 1, p_state := RUNNING\<rparr>"
      fix x assume x: "x \<in> set (ptable (upd_proc p (\<lambda>x. x\<lparr>p_n_run := p_n_run x + 1, p_state := RUNNING\<rparr>) s1))"
        "p_state x = RUNNABLE"
      then have "x \<in> insert ?y (set (ptable s))" using set_update_subset_insert s1(1) by fastforce
      then have "x \<in> set (ptable s)" using x(2) by auto
      then have "p_priority (ptable s ! p) \<le> p_priority x"
        using assms x(2) by (auto simp: pbs_outranked_def not_less)
      then show "p_priority (ptable (upd_proc p (\<lambda>x. x\<lparr>p_n_run := p_n_run x + 1, p_state := RUNNING\<rparr>) s1) ! p) \<le> p_priority x"
        using s1 by simp
    qed
  qed
  show ?thesis unfolding run_proc_def Let_def
    by (rule bindR_cong [OF refl]) (simp add: checked_swtch_def min)
qed

lemma pbs_loop_checked: "pbs_loop (checked_swtch swtch) h ps s = pbs_loop swtch h ps s"
proof (induction ps arbitrary: s)
  case (Cons p ps)
  have "bindR (run_proc swtch p s) (pbs_loop (checked_swtch swtch) h ps) = bindR (run_proc swtch p s) (pbs_loop swtch h ps)"
    by (rule bindR_cong [OF refl]) (rule Cons.IH)
  then show ?case using Cons.IH run_proc_checked [of s h p swtch] by simp
qed simp

text \<open>
  C18: The priority scheduler first runs a most important runnable process (least priority value, first in
  the table among equals), and in its whole pass over the table it never gives the CPU to a process
  while a strictly more important one is runnable, whatever happens to the table while processes run:
  replacing the switch by one that stops the kernel in that case makes no difference.
\<close>

theorem scheduler_PBS_runs_most_important:
  assumes "length (ptable s) = NPROC" "i < NPROC" "runnable (ptable s) i"
  shows "scheduler_PBS (checked_swtch swtch) s = scheduler_PBS swtch s \<and>
    (\<exists>h < NPROC. runnable (ptable s) h \<and>
       (\<forall>k < NPROC. runnable (ptable s) k \<longrightarrow> p_priority (ptable s ! h) \<le> p_priority (ptable s ! k)) \<and>
       (\<forall>k < h. runnable (ptable s) k \<longrightarrow> p_priority (ptable s ! h) < p_priority (ptable s ! k)) \<and>
       scheduler_PBS swtch s = bindR (run_proc swtch h s) (pbs_loop swtch h [Suc h..<NPROC]))"
proof -
  obtain h where h: "pick_min p_priority (ptable s) [0..<NPROC] None = Some h"
    using pick_min_None [of p_priority "ptable s" "[0..<NPROC]"] assms(2,3)
    by (cases "pick_min p_priority (ptable s) [0..<NPROC] None") auto
  from pick_min_first [OF h] obtain xs ys where x: "[0..<NPROC] = xs @ h # ys" "runnable (ptable s) h"
    "\<forall>i \<in> set xs. runnable (ptable s) i \<longrightarrow> p_priority (ptable s ! h) < p_priority (ptable s ! i)"
    "\<forall>i \<in> set ys. runnable (ptable s) i \<longrightarrow> p_priority (ptable s ! h) \<le> p_priority (ptable s ! i)" by blast
  note u = upt_split [OF x(1)]
  have le: "p_priority (ptable s ! h) \<le> p_priority (ptable s ! k)" if "k < NPROC" "runnable (ptable s) k" for k
    using that x(3,4) u by (cases "k < h"; cases "k = h") auto
  then have no: "\<not> pbs_outranked (ptable s) h"
    using assms(1) by (auto simp: pbs_outranked_def in_set_conv_nth not_less)
  have skip: "pbs_loop swtch h (zs @ h # ys) s = bindR (run_proc swtch h s) (pbs_loop swtch h ys)"
    if "\<forall>i \<in> set zs. runnable (ptable s) i \<longrightarrow> p_priority (ptable s ! h) < p_priority (ptable s ! i)" for zs
    using that
  proof (induction zs)
    case (Cons z zs)
    then show ?case using no by auto
  qed (simp add: no x(2))
  have "scheduler_PBS swtch s = bindR (run_proc swtch h s) (pbs_loop swtch h [Suc h..<NPROC])"
    using h skip [OF x(3)] unfolding scheduler_PBS_def pbs_pick_min x(1) u(3) by simp
  moreover have "scheduler_PBS (checked_swtch swtch) s = scheduler_PBS swtch s"
    by (simp add: scheduler_PBS_def pbs_loop_checked split: option.splits)
  ultimately show ?thesis using u x(2,3) le by auto
qed

theorem scheduler_PBS_runs_most_important_witness:
  "scheduler_PBS (checked_swtch (\<lambda>p s. Ok (yield p s))) demo_kproc = scheduler_PBS (\<lambda>p s. Ok (yield p s)) demo_kproc"
proof -
  have "length (ptable demo_kproc) = NPROC" "(0::nat) < NPROC" "runnable (ptable demo_kproc) 0"
    using mlfq_invD(4) [OF mlfq_inv_demo] demo_nth [of 0] by (simp_all add: NPROC_def demo_proc_def)
  from scheduler_PBS_runs_most_important [OF this] show ?thesis by blast
qed

text \<open>
  The turns of a pass are recorded behind the state, in the extension of the record: \<open>logged_swtch\<close> appends
  every process that gets the CPU.
\<close>

definition logged_swtch :: "(nat \<Rightarrow> nat list kproc_scheme \<Rightarrow> nat list kproc_scheme res) \<Rightarrow>
    nat \<Rightarrow> nat list kproc_scheme \<Rightarrow> nat list kproc_scheme res" where
  "logged_swtch swtch p s = bindR (swtch p s) (\<lambda>s'. Ok (kproc.more_update (\<lambda>l. l @ [p]) s'))"

definition table_wf :: "'a kproc_scheme \<Rightarrow> bool" where
  "table_wf s \<longleftrightarrow> length (ptable s) = NPROC \<and>
     (\<forall>p < NPROC. p_state (ptable s ! p) \<in> {SLEEPING, RUNNABLE, RUNNING} \<longrightarrow>
        p_kstack (ptable s ! p) \<noteq> 0 \<and> p_pgdir (ptable s ! p) \<noteq> 0)"

text \<open>
  What a turn may do on a machine with one CPU: change the process that runs, wake, create, kill or reap others,
  but not take a runnable process off the table, which only the scheduler does.
\<close>

definition turn_ok :: "(nat \<Rightarrow> 'a kproc_scheme \<Rightarrow> 'a kproc_scheme res) \<Rightarrow> bool" where
  "turn_ok swtch \<longleftrightarrow> (\<forall>p s. p < NPROC \<and> table_wf s \<and> p_state (ptable s ! p) = RUNNING \<longrightarrow>
     (\<exists>s'. swtch p s = Ok s' \<and> table_wf s' \<and> kproc.more s' = kproc.more s \<and>
        (\<forall>k < NPROC. k \<noteq> p \<longrightarrow> runnable (ptable s) k \<longrightarrow> runnable (ptable s') k)))"

definition wakes_none :: "(nat \<Rightarrow> 'a kproc_scheme \<Rightarrow> 'a kproc_scheme res) \<Rightarrow> bool" where
  "wakes_none swtch \<longleftrightarrow> (\<forall>p s s'. swtch p s = Ok s' \<longrightarrow>
     (\<forall>k < NPROC. k \<noteq> p \<longrightarrow> runnable (ptable s') k \<longrightarrow> runnable (ptable s) k))"

lemma run_proc_turn:
  assumes sw: "turn_ok swtch" and p: "p < NPROC" "table_wf s" "runnable (ptable s) p"
  obtains s' where "run_proc (logged_swtch swtch) p s = Ok s'" "table_wf s'" "kproc.more s' = kproc.more s @ [p]"
    "\<And>k. k < NPROC \<Longrightarrow> k \<noteq> p \<Longrightarrow> runnable (ptable s) k \<Longrightarrow> runnable (ptable s') k"
    "\<And>k. wakes_none swtch \<Longrightarrow> k < NPROC \<Longrightarrow> k \<noteq> p \<Longrightarrow> runnable (ptable s') k \<Longrightarrow> runnable (ptable s) k"
proof -
  have len: "length (ptable s) = NPROC" and k: "p_kstack (ptable s ! p) \<noteq> 0" "p_pgdir (ptable s ! p) \<noteq> 0"
    using p by (auto simp: table_wf_def)
  define s1 where "s1 = s\<lparr>c_proc := Some p, ts_esp0 := p_kstack (ptable s ! p) + of_nat KSTACKSIZE,
    cr3 := V2P (p_pgdir (ptable s ! p))\<rparr>"
  define s2 where "s2 = upd_proc p (\<lambda>x. x\<lparr>p_n_run := p_n_run x + 1, p_state := RUNNING\<rparr>) s1"
  have sv: "switchuvm p (s\<lparr>c_proc := Some p\<rparr>) = Ok s1" using p(1) len k by (simp add: switchuvm_def s1_def)
  have s2: "length (ptable s2) = NPROC" "p_state (ptable s2 ! p) = RUNNING" "kproc.more s2 = kproc.more s"
    "\<And>k. k \<noteq> p \<Longrightarrow> ptable s2 ! k = ptable s ! k" using p(1) len by (simp_all add: s2_def s1_def upd_proc_def)
  have "p_kstack (ptable s2 ! p) \<noteq> 0" "p_pgdir (ptable s2 ! p) \<noteq> 0"
    using p(1) len k by (simp_all add: s2_def s1_def upd_proc_def)
  then have "table_wf s2" unfolding table_wf_def using s2(1,4) p(2) by (metis table_wf_def)
  then obtain s3 where s3: "swtch p s2 = Ok s3" "table_wf s3" "kproc.more s3 = kproc.more s2"
    "\<And>k. k < NPROC \<Longrightarrow> k \<noteq> p \<Longrightarrow> runnable (ptable s2) k \<Longrightarrow> runnable (ptable s3) k"
    using sw p(1) s2(2) unfolding turn_ok_def by blast
  let ?s4 = "(switchkvm (kproc.more_update (\<lambda>l. l @ [p]) s3))\<lparr>c_proc := None\<rparr>"
  have t: "ptable ?s4 = ptable s3" by (simp add: switchkvm_def)
  show thesis
  proof (rule that)
    show "run_proc (logged_swtch swtch) p s = Ok ?s4"
      using sv s3(1) by (simp add: run_proc_def s2_def logged_swtch_def)
    show "table_wf ?s4" using s3(2) unfolding table_wf_def t .
    show "kproc.more ?s4 = kproc.more s @ [p]" using s3(3) s2(3) by (simp add: switchkvm_def)
    show "runnable (ptable ?s4) k" if "k < NPROC" "k \<noteq> p" "runnable (ptable s) k" for k
      unfolding t by (rule s3(4)) (use that s2(4) in simp_all)
    show "runnable (ptable s) k" if "wakes_none swtch" "k < NPROC" "k \<noteq> p" "runnable (ptable ?s4) k" for k
    proof -
      have "runnable (ptable s2) k" using that s3(1) unfolding wakes_none_def t by blast
      then show ?thesis using s2(4) [OF that(3)] by simp
    qed
  qed
qed

lemma rr_loop_turns:
  assumes sw: "turn_ok swtch" and "table_wf s" "sorted_wrt (<) ps" "\<forall>p \<in> set ps. p < NPROC"
  shows "\<exists>s' ts. rr_loop (logged_swtch swtch) ps s = Ok s' \<and> kproc.more s' = kproc.more s @ ts \<and>
    sorted_wrt (<) ts \<and> set ts \<subseteq> set ps \<and> (\<forall>k \<in> set ps. runnable (ptable s) k \<longrightarrow> k \<in> set ts) \<and>
    (wakes_none swtch \<longrightarrow> ts = filter (runnable (ptable s)) ps)"
  using assms(2-4)
proof (induction ps arbitrary: s)
  case (Cons p ps)
  have ps: "sorted_wrt (<) ps" "\<forall>p \<in> set ps. p < NPROC" "\<forall>k \<in> set ps. p < k" "p < NPROC" using Cons.prems by auto
  show ?case
  proof (cases "runnable (ptable s) p")
    case False
    with Cons.IH [OF Cons.prems(1) ps(1,2)] show ?thesis by auto
  next
    case True
    obtain s1 where s1: "run_proc (logged_swtch swtch) p s = Ok s1" "table_wf s1" "kproc.more s1 = kproc.more s @ [p]"
      "\<And>k. k < NPROC \<Longrightarrow> k \<noteq> p \<Longrightarrow> runnable (ptable s) k \<Longrightarrow> runnable (ptable s1) k"
      "\<And>k. wakes_none swtch \<Longrightarrow> k < NPROC \<Longrightarrow> k \<noteq> p \<Longrightarrow> runnable (ptable s1) k \<Longrightarrow> runnable (ptable s) k"
      by (rule run_proc_turn [OF sw ps(4) Cons.prems(1) True]) (rule that)
    from Cons.IH [OF s1(2) ps(1,2)] obtain s' ts where
      s': "rr_loop (logged_swtch swtch) ps s1 = Ok s'" "kproc.more s' = kproc.more s1 @ ts" "sorted_wrt (<) ts"
        "set ts \<subseteq> set ps" "\<forall>k \<in> set ps. runnable (ptable s1) k \<longrightarrow> k \<in> set ts"
        "wakes_none swtch \<longrightarrow> ts = filter (runnable (ptable s1)) ps" by blast
    have kept: "runnable (ptable s1) k" if "k \<in> set ps" "runnable (ptable s) k" for k
      using s1(4) [of k] that ps(2,3) by auto
    have "filter (runnable (ptable s1)) ps = filter (runnable (ptable s)) ps" if "wakes_none swtch"
      by (rule filter_cong [OF refl]) (metis kept s1(5) that ps(2,3) less_irrefl)
    then have "wakes_none swtch \<longrightarrow> p # ts = filter (runnable (ptable s)) (p # ps)" using s'(6) True by simp
    moreover have "sorted_wrt (<) (p # ts)" using s'(3,4) ps(3) by auto
    moreover have "\<forall>k \<in> set (p # ps). runnable (ptable s) k \<longrightarrow> k \<in> set (p # ts)" using kept s'(5) by auto
    moreover have "rr_loop (logged_swtch swtch) (p # ps) s = Ok s'" using True s1(1) s'(1) by simp
    moreover have "kproc.more s' = kproc.more s @ p # ts" using s'(2) s1(3) by simp
    moreover have "set (p # ts) \<subseteq> set (p # ps)" using s'(4) by auto
    ultimately show ?thesis by blast
  qed
qed simp

text \<open>
  C19: One pass of the round-robin scheduler goes through the process table in its order. Every process that is
  runnable at the start of the pass gets the CPU, no process gets it twice, and the turns come in table order.
  When moreover no process makes another one runnable during its turn, the processes that run are exactly those
  runnable at the start. This holds for every switch that returns and, as on a machine with one CPU, leaves the
  other runnable processes runnable.
\<close>

theorem scheduler_RR_one_turn_each:
  assumes "turn_ok swtch" "table_wf s"
  shows "\<exists>s' turns. scheduler_RR (logged_swtch swtch) s = Ok s' \<and> kproc.more s' = kproc.more s @ turns \<and>
    sorted_wrt (<) turns \<and> set turns \<subseteq> {..<NPROC} \<and> (\<forall>p < NPROC. runnable (ptable s) p \<longrightarrow> p \<in> set turns) \<and>
    (wakes_none swtch \<longrightarrow> turns = filter (runnable (ptable s)) [0..<NPROC])"
  using rr_loop_turns [OF assms, of "[0..<NPROC]"] by (auto simp: scheduler_RR_def lessThan_atLeast0)

theorem scheduler_RR_one_turn_each_witness:
  "\<exists>s'. scheduler_RR (logged_swtch (\<lambda>p s. Ok (yield p s))) (kproc.extend (kproc.truncate demo_kproc) []) = Ok s' \<and>
     kproc.more s' = [0, 1]"
proof -
  let ?s = "kproc.extend (kproc.truncate demo_kproc) ([] :: nat list)"
  have sw: "turn_ok (\<lambda>p s. Ok (yield p (s :: nat list kproc_scheme)))"
    unfolding turn_ok_def table_wf_def by (auto simp: yield_def upd_proc_def nth_list_update)
  have wk: "wakes_none (\<lambda>p s. Ok (yield p (s :: nat list kproc_scheme)))"
    unfolding wakes_none_def by (auto simp: yield_def upd_proc_def)
  have t: "ptable ?s = ptable demo_kproc" "kproc.more ?s = []" by (simp_all add: kproc.defs)
  have wf: "table_wf ?s" unfolding table_wf_def t
    using mlfq_invD(4) [OF mlfq_inv_demo] table_invD(1) [OF mlfq_invD(2) [OF mlfq_inv_demo]] by (auto simp: proc_ok_def)
  have "filter (runnable (ptable ?s)) [0..<NPROC] = filter (\<lambda>p. p < 2) [0..<NPROC]"
    by (rule filter_cong [OF refl]) (auto simp: t demo_nth demo_proc_def zero_proc_def)
  also have "\<dots> = [0, 1]" by (simp add: NPROC_def upt_rec)
  finally show ?thesis using scheduler_RR_one_turn_each [OF sw wf] wk t(2) by auto
qed

section \<open>Two defects\<close>

lemma allocproc_takes:
  assumes i: "i < length (ptable s)" "p_state (ptable s ! i) = UNUSED" "\<And>j. j < i \<Longrightarrow> p_state (ptable s ! j) \<noteq> UNUSED"
    and mem: "freelist s \<noteq> 0"
  shows "\<exists>s'. allocproc cfg K s = (Some i, s') \<and> length (ptable s') = length (ptable s) \<and>
    p_killed (ptable s' ! i) = p_killed (ptable s ! i) \<and> p_pid (ptable s' ! i) = nextpid s \<and>
    p_rtime (ptable s' ! i) = 0 \<and> p_iotime (ptable s' ! i) = 0 \<and> p_etime (ptable s' ! i) = 0 \<and>
    p_ctime (ptable s' ! i) = sint (ticks s)"
proof -
  have "find_index (\<lambda>p. p_state p = UNUSED) (ptable s) = Some i"
    using i by (intro find_index_eqI) auto
  then show ?thesis
    using i(1) mem by (simp add: allocproc_def kalloc_def Let_def upd_proc_def init_times_def)
qed

text \<open>
  C20: \<^verbatim>\<open>kill(0)\<close> succeeds on a slot that is not in use, because an unused slot has pid 0, and marks it
  killed. Nothing clears the mark when the slot is taken, so the next process created in it is born
  killed and exits on its first return from the kernel.
\<close>

theorem kill_0_dooms_next_process:
  assumes "i < length (ptable s)" "p_state (ptable s ! i) = UNUSED" "p_pid (ptable s ! i) = 0"
    and "\<forall>j < i. p_state (ptable s ! j) \<noteq> UNUSED \<and> p_pid (ptable s ! j) \<noteq> 0" "freelist s \<noteq> 0"
  shows "\<exists>s1 s2. kill cfg 0 s = Ok (0, s1) \<and> allocproc cfg K s1 = (Some i, s2) \<and> p_killed (ptable s2 ! i)"
proof -
  let ?s1 = "upd_proc i (\<lambda>x. x\<lparr>p_killed := True\<rparr>) s"
  have "find_index (\<lambda>p. p_pid p = 0) (ptable s) = Some i" using assms by (intro find_index_eqI) auto
  then have k: "kill cfg 0 s = Ok (0, ?s1)" using assms(1,2) by (simp add: kill_def)
  have "\<exists>s2. allocproc cfg K ?s1 = (Some i, s2) \<and> p_killed (ptable s2 ! i) = p_killed (ptable ?s1 ! i)"
    using allocproc_takes [of i ?s1 cfg K] assms by (auto simp: upd_proc_def)
  then show ?thesis using k assms(1) by auto
qed

theorem kill_0_dooms_next_process_witness:
  "\<exists>s1 s2. kill RR 0 (boot_kproc\<lparr>freelist := 0x80400000\<rparr>) = Ok (0, s1) \<and>
    allocproc RR \<lparr>k_end = 0, k_data = 0, k_forkret = 0, k_trapret = 0\<rparr> s1 = (Some 0, s2) \<and> p_killed (ptable s2 ! 0)"
proof -
  let ?s = "boot_kproc\<lparr>freelist := 0x80400000\<rparr>"
  have "0 < length (ptable ?s)" "p_state (ptable ?s ! 0) = UNUSED" "p_pid (ptable ?s ! 0) = 0"
    "\<forall>j < 0. p_state (ptable ?s ! j) \<noteq> UNUSED \<and> p_pid (ptable ?s ! j) \<noteq> 0" "freelist ?s \<noteq> 0"
    by (simp_all add: boot_kproc_def zero_proc_def NPROC_def)
  from kill_0_dooms_next_process [OF this] show ?thesis .
qed

lemma q_delete_at_only: "q_delete_at c ind s = Ok s' \<Longrightarrow> only_queues s s'"
  unfolding q_delete_at_def only_queues_def by (auto simp: bindR_eq_Ok_iff)

lemma dequeue_only: "dequeue c pid s = Ok s' \<Longrightarrow> only_queues s s'"
  unfolding dequeue_def using q_delete_at_only
  by (auto simp: bindR_eq_Ok_iff only_queues_def split: option.splits)

lemma freevm_last: "freevm kend pgdir s = Ok s' \<Longrightarrow> freelist s' = pgdir \<and> pgdir \<noteq> 0"
  by (auto simp: freevm_def kfree_def Let_def bindR_eq_Ok_iff split: if_splits)

text \<open>What is left of a reaped process in its slot; at least its page directory is free afterwards.\<close>

definition reaped :: "proc \<Rightarrow> proc" where
  "reaped x = x\<lparr>p_kstack := 0, p_pid := 0, p_parent := None, p_name := (p_name x)[0 := 0],
     p_killed := False, p_state := UNUSED\<rparr>"

lemma reap_slot:
  fixes s s' :: "'a kproc_scheme"
  assumes i: "i < length (ptable s)" and r: "reap cfg K i s = Ok (pid, s')"
  shows "pid = p_pid (ptable s ! i)" "ptable s' = (ptable s)[i := reaped (ptable s ! i)]"
    "ticks s' = ticks s" "freelist s' \<noteq> 0"
proof -
  let ?f = "\<lambda>x. x\<lparr>p_pid := 0, p_parent := None, p_name := (p_name x)[0 := 0], p_killed := False, p_state := UNUSED\<rparr>"
  obtain s1 s2 where s1: "kfree (k_end K) (p_kstack (ptable s ! i)) s = Ok s1"
    and s2: "freevm (k_end K) (p_pgdir (ptable s1 ! i)) (upd_proc i (\<lambda>x. x\<lparr>p_kstack := 0\<rparr>) s1) = Ok s2"
    and q: "(if cfg = MLFQ then dequeue (p_cur_q (ptable (upd_proc i ?f s2) ! i)) (p_pid (ptable (upd_proc i ?f s2) ! i)) (upd_proc i ?f s2)
       else Ok (upd_proc i ?f s2)) = Ok s'"
    and pid: "pid = p_pid (ptable s ! i)"
    using r unfolding reap_def Let_def bindR_eq_Ok_iff by auto
  note m1 = only_mem_kproc [OF only_mem_kfree [OF s1]] and m2 = only_mem_kproc [OF only_mem_freevm [OF s2]]
  have "only_queues (upd_proc i ?f s2) s'" using q dequeue_only by (auto simp: only_queues_def split: if_splits)
  note f = only_queues_kproc [OF this]
  have f2: "freelist s2 \<noteq> 0" using freevm_last [OF s2] by simp
  show "pid = p_pid (ptable s ! i)" by (rule pid)
  show "ptable s' = (ptable s)[i := reaped (ptable s ! i)]"
    using i unfolding f(1) by (simp add: m1(1) m2(1) reaped_def)
  show "ticks s' = ticks s" unfolding f(3) using m1(3) m2(3) by (simp add: upd_proc_def)
  show "freelist s' \<noteq> 0" unfolding f(7) using f2 by (simp add: upd_proc_def)
qed

lemma wait_scan_zombie:
  "wait_scan cur k ps h = (Some i, b) \<Longrightarrow>
     k \<le> i \<and> i - k < length ps \<and> p_parent (ps ! (i - k)) = Some cur \<and> p_state (ps ! (i - k)) = ZOMBIE"
proof (induction ps arbitrary: k h)
  case (Cons p ps)
  show ?case
  proof (cases "p_parent p = Some cur \<and> p_state p = ZOMBIE")
    case True
    then show ?thesis using Cons.prems by auto
  next
    case False
    then obtain h' where "wait_scan cur (Suc k) ps h' = (Some i, b)" using Cons.prems by (auto split: if_splits)
    from Cons.IH [OF this] show ?thesis by (auto simp: nth_Cons' Suc_diff_le)
  qed
qed simp

text \<open>
  C21: \<^verbatim>\<open>waitx\<close> reads the times of the reaped child after it has released the lock. When nothing comes in
  between, it reports the pid of a zombie child of the caller with the child's own running and waiting time.
  When another process is created in between and the slot is the first free one, \<^verbatim>\<open>allocproc\<close> takes it,
  and \<^verbatim>\<open>waitx\<close> reports for the same child a running time of 0 and a negative waiting time, the negated
  tick count.
\<close>

theorem waitx_reads_recycled_slot:
  fixes s s1 :: "'a kproc_scheme"
  assumes "waitx_round cfg K cur s = Ok (Reaped (pid, i), s1)" "\<forall>j < i. p_state (ptable s ! j) \<noteq> UNUSED"
  shows "let c = ptable s ! i in p_state c = ZOMBIE \<and> p_parent c = Some cur \<and> p_pid c = pid \<and>
    waitx cfg K (\<lambda>s. s) cur s =
      Ok (Reaped (pid, p_rtime c, p_etime c - p_ctime c - p_rtime c - p_iotime c), s1) \<and>
    (\<exists>s2. allocproc cfg K s1 = (Some i, s2) \<and>
       waitx cfg K (\<lambda>s. snd (allocproc cfg K s)) cur s = Ok (Reaped (pid, 0, - sint (ticks s)), s2))"
proof -
  define c where "c = ptable s ! i"
  obtain b where w: "wait_scan cur 0 (ptable s) False = (Some i, b)" and r: "reap cfg K i s = Ok (pid, s1)"
    using assms(1) unfolding waitx_round_def by (auto simp: bindR_eq_Ok_iff split: prod.splits option.splits if_splits)
  have i: "i < length (ptable s)" and z: "p_state c = ZOMBIE" "p_parent c = Some cur"
    using wait_scan_zombie [OF w] by (simp_all add: c_def)
  note rs = reap_slot [OF i r, folded c_def]
  have n: "ptable s1 ! i = reaped c" "length (ptable s1) = length (ptable s)" "\<And>j. j < i \<Longrightarrow> ptable s1 ! j = ptable s ! j"
    unfolding rs(2) using i by simp_all
  have "\<exists>s2. allocproc cfg K s1 = (Some i, s2) \<and> length (ptable s2) = length (ptable s1) \<and>
    p_killed (ptable s2 ! i) = p_killed (ptable s1 ! i) \<and> p_pid (ptable s2 ! i) = nextpid s1 \<and>
    p_rtime (ptable s2 ! i) = 0 \<and> p_iotime (ptable s2 ! i) = 0 \<and> p_etime (ptable s2 ! i) = 0 \<and>
    p_ctime (ptable s2 ! i) = sint (ticks s1)"
    by (rule allocproc_takes) (use n i assms(2) rs(4) in \<open>simp_all add: reaped_def\<close>)
  then obtain s2 where s2: "allocproc cfg K s1 = (Some i, s2)" "waitx_times i s2 = (0, - sint (ticks s))"
    using rs(3) by (auto simp: waitx_times_def)
  have "waitx_times i s1 = (p_rtime c, p_etime c - p_ctime c - p_rtime c - p_iotime c)"
    by (simp add: waitx_times_def n reaped_def Let_def)
  then show ?thesis using z rs(1) s2 assms(1) unfolding Let_def c_def [symmetric] by (simp add: waitx_def)
qed

text \<open>An address space without page tables: there is nothing to free but its directory.\<close>

definition empty_dir :: "uint \<Rightarrow> 'a kmem_scheme \<Rightarrow> bool" where
  "empty_dir pgdir s \<longleftrightarrow> (\<forall>d < 1024. load32 (mem s) (slot pgdir d) = 0)"

lemma next_directory_entry:
  assumes "a < KERNBASE"
  shows "a < PGADDR (PDX a + 1) 0 0 - PGSIZE + PGSIZE"
proof -
  have a: "unat a < 2147483648" using assms by (simp add: KERNBASE_def word_less_nat_alt)
  define d where "d = unat a div 4194304"
  have d: "d < 512" "unat a < 4194304 * Suc d" using a unfolding d_def by auto
  have "PDX a = of_nat d" using d(1) by (simp add: word_unat_eq_iff unat_PDX unat_of_nat d_def [symmetric])
  then have "PDX a + 1 = of_nat (Suc d)" by simp
  then have "PGADDR (PDX a + 1) 0 0 = of_nat (4194304 * Suc d)"
    by (simp add: PGADDR_def push_bit_eq_mult)
  then have "unat (PGADDR (PDX a + 1) 0 0) = 4194304 * Suc d"
    using d(1) by (simp only: unat_of_nat) simp
  then show ?thesis using d(2) by (simp add: word_less_nat_alt)
qed

lemma deallocuvm_loop_empty:
  assumes "empty_dir pgdir s"
  shows "oldsz \<le> KERNBASE \<Longrightarrow> deallocuvm_loop kend pgdir a oldsz s = Ok s"
proof (induction "2 ^ 32 - unat a" arbitrary: a rule: less_induct)
  case less
  have w: "walkpgdir pgdir a False s = (0, s)"
    using assms PDX_PTX_lt(1) [of a] by (simp add: empty_dir_def slot_def walkpgdir_def)
  show ?case
  proof (cases "a < oldsz")
    case True
    let ?b = "PGADDR (PDX a + 1) 0 0 - PGSIZE + PGSIZE"
    have b: "a < ?b" using True less.prems by (intro next_directory_entry) simp
    then have "2 ^ 32 - unat ?b < 2 ^ 32 - unat a"
      using unat_uint_lt [of a] by (simp add: word_less_nat_alt diff_less_mono2)
    from less.hyps [OF this less.prems] show ?thesis
      using True b w by (simp add: deallocuvm_loop.simps [of kend pgdir a] Let_def)
  qed (simp add: deallocuvm_loop.simps)
qed

lemma free_tables_empty: "empty_dir pgdir s \<Longrightarrow> i + n \<le> 1024 \<Longrightarrow> free_tables kend pgdir i n s = Ok s"
proof (induction n arbitrary: i)
  case (Suc n)
  have "load32 (mem s) (slot pgdir (of_nat i)) = 0"
    using Suc.prems by (simp add: empty_dir_def word_less_nat_alt unat_of_nat)
  then show ?case using Suc by (simp add: slot_def)
qed simp

lemma freevm_empty: "empty_dir pgdir s \<Longrightarrow> pgdir \<noteq> 0 \<Longrightarrow> freevm kend pgdir s = kfree kend pgdir s"
  by (simp add: freevm_def deallocuvm_def deallocuvm_loop_empty free_tables_empty NPDENTRIES_def KERNBASE_def)

text \<open>
  Process 1 in slot 0 waits for its child, process 2 in slot 1, which was created at tick 10, ran for 30 ticks,
  slept for 5 and ended at tick 90. The time is 100 ticks.
\<close>

definition demo_zombie :: kproc where
  "demo_zombie = boot_kproc\<lparr>ptable := (replicate NPROC zero_proc)
     [0 := (demo_proc 1)\<lparr>p_state := RUNNING\<rparr>,
      Suc 0 := (demo_proc 2)\<lparr>p_state := ZOMBIE, p_parent := Some 0, p_kstack := 0x80400000, p_pgdir := 0x80401000,
        p_ctime := 10, p_etime := 90, p_rtime := 30, p_iotime := 5\<rparr>],
     nextpid := 3, ticks := 100\<rparr>"

lemma demo_zombie_slot:
  "ptable demo_zombie ! 0 = (demo_proc 1)\<lparr>p_state := RUNNING\<rparr>"
  "ptable demo_zombie ! Suc 0 = (demo_proc 2)\<lparr>p_state := ZOMBIE, p_parent := Some 0, p_kstack := 0x80400000,
     p_pgdir := 0x80401000, p_ctime := 10, p_etime := 90, p_rtime := 30, p_iotime := 5\<rparr>"
  "length (ptable demo_zombie) = NPROC"
  by (simp_all add: demo_zombie_def NPROC_def)

lemma demo_zombie_reaped: "\<exists>s1. waitx_round RR demo_kernel 0 demo_zombie = Ok (Reaped (2, Suc 0), s1)"
proof -
  let ?s = "demo_zombie"
  obtain ps where "ptable ?s = ptable ?s ! 0 # ptable ?s ! Suc 0 # ps"
    using demo_zombie_slot(3) by (simp add: NPROC_def) (metis Cons_nth_drop_Suc One_nat_def drop0 zero_less_numeral one_less_numeral_iff semiring_norm(76))
  then have "wait_scan 0 0 (ptable ?s) False = wait_scan 0 0 (ptable ?s ! 0 # ptable ?s ! Suc 0 # ps) False" by simp
  also have "\<dots> = (Some (Suc 0), True)" by (simp add: demo_zombie_slot demo_proc_def zero_proc_def)
  finally have w: "wait_scan 0 0 (ptable ?s) False = (Some (Suc 0), True)" .
  let ?m = "store32 (fill (\<lambda>_. 0) 0x80400000 1 4096) 0x80400000 0"
  let ?s1 = "?s\<lparr>mem := ?m, freelist := 0x80400000\<rparr>"
  let ?s2 = "upd_proc (Suc 0) (\<lambda>x. x\<lparr>p_kstack := 0\<rparr>) ?s1"
  have k: "kfree (k_end demo_kernel) (p_kstack (ptable ?s ! Suc 0)) ?s = Ok ?s1"
    unfolding demo_zombie_slot
    by (simp add: kfree_def demo_kernel_def addr_defs memset_fill) (simp add: demo_zombie_def boot_kproc_def)
  have "page_same (\<lambda>_. 0) ?m 0x80401000"
    by (rule page_same_trans [OF page_same_fill page_same_store [of _ _ 0, unfolded slot_0]]) (simp_all add: PGSIZE_def)
  from page_same_slot [OF this] have "empty_dir 0x80401000 ?s2"
    by (simp add: empty_dir_def upd_proc_def load32_def PGSIZE_def)
  then have "freevm (k_end demo_kernel) (p_pgdir (ptable ?s1 ! Suc 0)) ?s2 = kfree (k_end demo_kernel) 0x80401000 ?s2"
    by (simp add: freevm_empty demo_zombie_slot)
  moreover obtain s3 where "kfree (k_end demo_kernel) 0x80401000 ?s2 = Ok s3"
    by (simp add: kfree_def demo_kernel_def addr_defs)
  ultimately show ?thesis using w k by (simp add: waitx_round_def reap_def Let_def demo_zombie_slot demo_proc_def zero_proc_def)
qed

theorem waitx_reads_recycled_slot_witness:
  "\<exists>s1 s2. waitx RR demo_kernel (\<lambda>s. s) 0 demo_zombie = Ok (Reaped (2, 30, 45), s1) \<and>
     waitx RR demo_kernel (\<lambda>s. snd (allocproc RR demo_kernel s)) 0 demo_zombie = Ok (Reaped (2, 0, -100), s2)"
proof -
  obtain s1 where s1: "waitx_round RR demo_kernel 0 demo_zombie = Ok (Reaped (2, Suc 0), s1)"
    using demo_zombie_reaped by blast
  have j: "\<forall>j < Suc 0. p_state (ptable demo_zombie ! j) \<noteq> UNUSED" by (simp add: demo_zombie_slot)
  have t: "sint (ticks demo_zombie) = 100" by (simp add: demo_zombie_def)
  show ?thesis using waitx_reads_recycled_slot [OF s1 j] unfolding Let_def demo_zombie_slot t by auto
qed

end
