(* ===== verification/Sleeplock.thy ===== *)
theory Sleeplock
  imports Xv6_Prelude
begin

text \<open>
  Sleep locks (\<^verbatim>\<open>sleeplock.c\<close>, \<^verbatim>\<open>sleeplock.h\<close>). A sleep lock is held across
  disk operations; a process that finds it taken sleeps on the address of the lock. Each
  function is one critical section of the inner spin lock \<open>lk\<close>. The pid of the running
  process, \<^verbatim>\<open>myproc()->pid\<close>, is an argument; a call of \<^verbatim>\<open>wakeup(lk)\<close> is the
  caller's to record, since the lock does not know its own address here.
\<close>

record sleeplock =
  sl_locked :: bool        \<comment> \<open>Is the lock held?\<close>
  sl_name :: string        \<comment> \<open>Name of lock\<close>
  sl_pid :: int            \<comment> \<open>Process holding lock\<close>

definition initsleeplock :: "sleeplock \<Rightarrow> string \<Rightarrow> sleeplock" where
  "initsleeplock lk nm = lk\<lparr>sl_name := nm, sl_locked := False, sl_pid := 0\<rparr>"

text \<open>
  \<^verbatim>\<open>acquiresleep\<close>: the loop leaves when the lock is free; a process that finds it taken
  sleeps on it and comes back to this test.
\<close>

definition acquiresleep :: "int \<Rightarrow> sleeplock \<Rightarrow> sleeplock res" where
  "acquiresleep pid lk =
     (if sl_locked lk then Sleeps else Ok (lk\<lparr>sl_locked := True, sl_pid := pid\<rparr>))"

definition releasesleep :: "sleeplock \<Rightarrow> sleeplock" where
  "releasesleep lk = lk\<lparr>sl_locked := False, sl_pid := 0\<rparr>"

definition holdingsleep :: "int \<Rightarrow> sleeplock \<Rightarrow> bool" where
  "holdingsleep pid lk \<longleftrightarrow> sl_locked lk \<and> sl_pid lk = pid"

definition zero_sleeplock :: sleeplock where
  "zero_sleeplock = \<lparr>sl_locked = False, sl_name = [], sl_pid = 0\<rparr>"

named_theorems sleeplock_defs
  \<comment> \<open>the sleep lock operations, unfolded by the components that hold such locks\<close>

lemmas [sleeplock_defs] =
  initsleeplock_def acquiresleep_def releasesleep_def holdingsleep_def

lemma acquiresleep_holds: "acquiresleep pid lk = Ok lk' \<Longrightarrow> holdingsleep pid lk'"
  by (auto simp: sleeplock_defs split: if_splits)

lemma acquiresleep_excludes: "holdingsleep q lk \<Longrightarrow> acquiresleep p lk = Sleeps"
  by (simp add: sleeplock_defs)

lemma releasesleep_free: "\<exists>lk'. acquiresleep p (releasesleep lk) = Ok lk' \<and> sl_pid lk' = p"
  by (simp add: sleeplock_defs)

end
