(* ===== verification/Bio.thy ===== *)
theory Bio
  imports Sleeplock
begin

text \<open>
  The buffer cache (\<^verbatim>\<open>bio.c\<close>, \<^verbatim>\<open>buf.h\<close>) over the in-memory disk driver
  \<^verbatim>\<open>memide.c\<close>. A pointer to a buffer is its index in the array; the list head
  \<^verbatim>\<open>bcache.head\<close> is the entry \<open>NBUF\<close> behind the array, so that the \<open>prev\<close> and
  \<open>next\<close> links are plain indices. A block is the list of its \<^verbatim>\<open>BSIZE\<close> bytes and
  the disk the list of its blocks.

  A call of \<^verbatim>\<open>wakeup\<close> appends its channel to \<open>woken\<close>; the process table sees these
  wakeups in that order. The field \<open>dtrace\<close> is a ghost: the blocks written to the disk,
  in the order of the writes, from which the states after a crash are built.

  A process that finds a buffer's sleep lock taken ends with the outcome \<^term>\<open>Sleeps\<close> and runs
  \<^verbatim>\<open>bread\<close> again when the lock is free; the reference that it holds on the buffer while it waits
  (\<^verbatim>\<open>refcnt++\<close> before \<^verbatim>\<open>acquiresleep\<close>) does not show in the state of the cache.
\<close>

section \<open>Data\<close>

definition BSIZE :: nat where [param_defs]: "BSIZE = 512"

type_synonym block = "uchar list"

record buf =
  b_valid :: bool          \<comment> \<open>B_VALID: buffer has been read from disk\<close>
  b_dirty :: bool          \<comment> \<open>B_DIRTY: buffer needs to be written to disk\<close>
  b_dev :: uint
  b_blockno :: uint
  b_lock :: sleeplock
  b_refcnt :: uint
  b_prev :: nat            \<comment> \<open>LRU cache list\<close>
  b_next :: nat
  b_data :: block

record kio =
  disk :: "block list"            \<comment> \<open>\<open>memdisk\<close>, of \<open>disksize\<close> blocks\<close>
  bufs :: "buf list"              \<comment> \<open>\<open>bcache.buf\<close> and, last, \<open>bcache.head\<close>\<close>
  mypid :: int                    \<comment> \<open>\<open>myproc()->pid\<close>\<close>
  woken :: "chan list"            \<comment> \<open>the channels passed to \<open>wakeup\<close>\<close>
  dtrace :: "(uint \<times> block) list" \<comment> \<open>ghost: the disk writes so far\<close>

definition upd_buf :: "nat \<Rightarrow> (buf \<Rightarrow> buf) \<Rightarrow> 'a kio_scheme \<Rightarrow> 'a kio_scheme" where
  "upd_buf i f s = s\<lparr>bufs := (bufs s)[i := f (bufs s ! i)]\<rparr>"

definition wake :: "chan \<Rightarrow> 'a kio_scheme \<Rightarrow> 'a kio_scheme" where
  "wake ch s = s\<lparr>woken := woken s @ [ch]\<rparr>"

section \<open>The disk driver\<close>

text \<open>
  \<^verbatim>\<open>iderw\<close> of \<^verbatim>\<open>memide.c\<close>: write the buffer if it is dirty, else read the block into
  it. The two calls of \<^verbatim>\<open>memmove\<close> move one whole block.
\<close>

definition iderw :: "nat \<Rightarrow> 'a kio_scheme \<Rightarrow> 'a kio_scheme res" where
  "iderw i s =
     (let b = bufs s ! i; p = unat (b_blockno b) in
      bindR (guardR (holdingsleep (mypid s) (b_lock b)) ''iderw: buf not locked'') (\<lambda>_.
      bindR (guardR (\<not> (b_valid b \<and> \<not> b_dirty b)) ''iderw: nothing to do'') (\<lambda>_.
      bindR (guardR (b_dev b = 1) ''iderw: request not for disk 1'') (\<lambda>_.
      bindR (guardR (p < length (disk s)) ''iderw: block out of range'') (\<lambda>_.
      Ok (if b_dirty b
          then upd_buf i (\<lambda>x. x\<lparr>b_dirty := False, b_valid := True\<rparr>)
                 (s\<lparr>disk := (disk s)[p := b_data b],
                    dtrace := dtrace s @ [(b_blockno b, b_data b)]\<rparr>)
          else upd_buf i (\<lambda>x. x\<lparr>b_data := disk s ! p, b_valid := True\<rparr>) s))))))"

section \<open>The cache\<close>

text \<open>
  \<^verbatim>\<open>binit\<close>: each buffer in turn is linked in behind the head.
\<close>

definition link_front :: "nat \<Rightarrow> 'a kio_scheme \<Rightarrow> 'a kio_scheme" where
  "link_front b s =
     (let n = b_next (bufs s ! NBUF);
          s1 = upd_buf b (\<lambda>x. x\<lparr>b_next := n\<rparr>) s;
          s2 = upd_buf b (\<lambda>x. x\<lparr>b_prev := NBUF\<rparr>) s1;
          s3 = upd_buf (b_next (bufs s2 ! NBUF)) (\<lambda>x. x\<lparr>b_prev := b\<rparr>) s2
      in upd_buf NBUF (\<lambda>x. x\<lparr>b_next := b\<rparr>) s3)"

definition binit_one :: "nat \<Rightarrow> 'a kio_scheme \<Rightarrow> 'a kio_scheme" where
  "binit_one b s = link_front b
     (upd_buf b (\<lambda>x. x\<lparr>b_lock := initsleeplock (b_lock x) ''buffer''\<rparr>) s)"

definition binit :: "'a kio_scheme \<Rightarrow> 'a kio_scheme" where
  "binit s = fold binit_one [0..<NBUF]
     (upd_buf NBUF (\<lambda>x. x\<lparr>b_prev := NBUF, b_next := NBUF\<rparr>) s)"

text \<open>
  The two loops of \<^verbatim>\<open>bget\<close> walk the list until they are back at the head. A ring of
  \<open>NBUF + 1\<close> entries is walked in at most \<open>NBUF + 1\<close> tests; a walk that takes more
  is caught in a corrupted list and never ends.
\<close>

fun scan :: "nat \<Rightarrow> (nat \<Rightarrow> nat) \<Rightarrow> (nat \<Rightarrow> bool) \<Rightarrow> nat \<Rightarrow> nat option res" where
  "scan 0 step P b = Undef"
| "scan (Suc fuel) step P b =
     (if b = NBUF then Ok None
      else if NBUF < b then Undef
      else if P b then Ok (Some b)
      else scan fuel step P (step b))"

definition buf_nx :: "'a kio_scheme \<Rightarrow> nat \<Rightarrow> nat" where
  "buf_nx s i = b_next (bufs s ! i)"

definition buf_pv :: "'a kio_scheme \<Rightarrow> nat \<Rightarrow> nat" where
  "buf_pv s i = b_prev (bufs s ! i)"

definition bget_lock :: "nat \<Rightarrow> 'a kio_scheme \<Rightarrow> (nat \<times> 'a kio_scheme) res" where
  "bget_lock i s =
     bindR (acquiresleep (mypid s) (b_lock (bufs s ! i))) (\<lambda>lk.
     Ok (i, upd_buf i (\<lambda>x. x\<lparr>b_lock := lk\<rparr>) s))"

definition bget :: "uint \<Rightarrow> uint \<Rightarrow> 'a kio_scheme \<Rightarrow> (nat \<times> 'a kio_scheme) res" where
  "bget dev blockno s =
     bindR (scan (Suc NBUF) (buf_nx s)
              (\<lambda>i. b_dev (bufs s ! i) = dev \<and> b_blockno (bufs s ! i) = blockno)
              (buf_nx s NBUF)) (\<lambda>found.
     case found of
       Some i \<Rightarrow> bget_lock i (upd_buf i (\<lambda>x. x\<lparr>b_refcnt := b_refcnt x + 1\<rparr>) s)
     | None \<Rightarrow>
         bindR (scan (Suc NBUF) (buf_pv s)
                  (\<lambda>i. b_refcnt (bufs s ! i) = 0 \<and> \<not> b_dirty (bufs s ! i))
                  (buf_pv s NBUF)) (\<lambda>free.
         case free of
           Some i \<Rightarrow> bget_lock i
             (upd_buf i (\<lambda>x. x\<lparr>b_dev := dev, b_blockno := blockno, b_valid := False,
                               b_dirty := False, b_refcnt := 1\<rparr>) s)
         | None \<Rightarrow> Panic ''bget: no buffers''))"

definition bread :: "uint \<Rightarrow> uint \<Rightarrow> 'a kio_scheme \<Rightarrow> (nat \<times> 'a kio_scheme) res" where
  "bread dev blockno s =
     bindR (bget dev blockno s) (\<lambda>(i, s1).
     if b_valid (bufs s1 ! i) then Ok (i, s1)
     else bindR (iderw i s1) (\<lambda>s2. Ok (i, s2)))"

definition bwrite :: "nat \<Rightarrow> 'a kio_scheme \<Rightarrow> 'a kio_scheme res" where
  "bwrite i s =
     bindR (guardR (holdingsleep (mypid s) (b_lock (bufs s ! i))) ''bwrite'') (\<lambda>_.
     iderw i (upd_buf i (\<lambda>x. x\<lparr>b_dirty := True\<rparr>) s))"

definition unlink_buf :: "nat \<Rightarrow> 'a kio_scheme \<Rightarrow> 'a kio_scheme" where
  "unlink_buf b s =
     (let s1 = upd_buf (b_next (bufs s ! b)) (\<lambda>x. x\<lparr>b_prev := b_prev (bufs s ! b)\<rparr>) s
      in upd_buf (b_prev (bufs s1 ! b)) (\<lambda>x. x\<lparr>b_next := b_next (bufs s1 ! b)\<rparr>) s1)"

definition brelse :: "nat \<Rightarrow> 'a kio_scheme \<Rightarrow> 'a kio_scheme res" where
  "brelse i s =
     bindR (guardR (holdingsleep (mypid s) (b_lock (bufs s ! i))) ''brelse'') (\<lambda>_.
     let s1 = wake (BufLockChan i) (upd_buf i (\<lambda>x. x\<lparr>b_lock := releasesleep (b_lock x)\<rparr>) s);
         s2 = upd_buf i (\<lambda>x. x\<lparr>b_refcnt := b_refcnt x - 1\<rparr>) s1 in
     Ok (if b_refcnt (bufs s2 ! i) = 0 then link_front i (unlink_buf i s2) else s2))"

section \<open>The list of buffers\<close>

text \<open>
  A doubly linked segment: from \<open>a\<close> the links lead through \<open>xs\<close> to \<open>b\<close>, forwards by
  \<open>nx\<close> and backwards by \<open>pv\<close>. The cache list is the segment from the head to itself.
\<close>

fun dseg :: "(nat \<Rightarrow> nat) \<Rightarrow> (nat \<Rightarrow> nat) \<Rightarrow> nat \<Rightarrow> nat list \<Rightarrow> nat \<Rightarrow> bool" where
  "dseg nx pv a [] b \<longleftrightarrow> nx a = b \<and> pv b = a"
| "dseg nx pv a (x # xs) b \<longleftrightarrow> nx a = x \<and> pv x = a \<and> dseg nx pv x xs b"

definition lru :: "nat list \<Rightarrow> 'a kio_scheme \<Rightarrow> bool" where
  "lru xs s \<longleftrightarrow> dseg (buf_nx s) (buf_pv s) NBUF xs NBUF \<and> distinct xs \<and> set xs = {..<NBUF}"

lemma dseg_append:
  "dseg nx pv a (xs @ y # ys) b \<longleftrightarrow> dseg nx pv a xs y \<and> dseg nx pv y ys b"
  by (induction xs arbitrary: a) auto

lemma dseg_cong:
  assumes "\<And>i. i \<in> insert a (set xs) \<Longrightarrow> nx' i = nx i"
    and "\<And>i. i \<in> insert b (set xs) \<Longrightarrow> pv' i = pv i"
  shows "dseg nx' pv' a xs b = dseg nx pv a xs b"
  using assms by (induction xs arbitrary: a) auto

lemma dseg_first: "dseg nx pv a xs b \<Longrightarrow> nx a = hd (xs @ [b])"
  by (cases xs) auto

lemma dseg_final: "dseg nx pv a xs b \<Longrightarrow> pv b = last (a # xs)"
  by (induction xs arbitrary: a) auto

text \<open>Putting an element behind the head of a segment, and taking one out of the middle.\<close>

lemma dseg_insert:
  assumes "dseg nx pv a xs b" "x \<notin> insert a (insert b (set xs))" "a \<notin> set xs" "distinct xs"
    "b \<notin> set xs"
  shows "dseg (nx(x := nx a, a := x)) (pv(x := a, nx a := x)) a (x # xs) b"
proof (cases xs)
  case Nil
  with assms show ?thesis by auto
next
  case (Cons y ys)
  with assms have "dseg (nx(x := nx a, a := x)) (pv(x := a, nx a := x)) y ys b = dseg nx pv y ys b"
    by (intro dseg_cong) auto
  with Cons assms show ?thesis by auto
qed

lemma dseg_retarget:
  assumes "dseg nx pv a xs x" "distinct (a # xs)" "c \<notin> set xs"
  shows "dseg (nx(last (a # xs) := c)) (pv(c := last (a # xs))) a xs c"
  using assms
proof (induction xs arbitrary: a)
  case Nil
  then show ?case by simp
next
  case (Cons y ys)
  have "dseg (nx(last (y # ys) := c)) (pv(c := last (y # ys))) y ys c"
    by (rule Cons.IH) (use Cons.prems in auto)
  moreover have "a \<noteq> last (y # ys)" using Cons.prems(2) last_in_set [of "y # ys"] by fastforce
  moreover have "last (a # y # ys) = last (y # ys)" by simp
  ultimately show ?case using Cons.prems by (simp add: fun_upd_def del: last.simps)
qed

lemma dseg_remove:
  assumes "dseg nx pv a (xs @ x # ys) b" "distinct (xs @ x # ys)"
    "a \<notin> set (xs @ x # ys)" "b \<notin> set (xs @ x # ys)"
  shows "dseg (nx(pv x := nx x)) (pv(nx x := pv x)) a (xs @ ys) b"
proof -
  from assms(1) have l: "dseg nx pv a xs x" and r: "dseg nx pv x ys b"
    by (simp_all add: dseg_append)
  from l have px: "pv x = last (a # xs)" by (rule dseg_final)
  from r have nxx: "nx x = hd (ys @ [b])" by (rule dseg_first)
  have c: "nx x \<notin> set xs" using nxx assms by (cases ys) auto
  have left: "dseg (nx(pv x := nx x)) (pv(nx x := pv x)) a xs (nx x)"
    unfolding px using dseg_retarget [OF l, of "nx x"] c assms(2,3) by simp
  show ?thesis
  proof (cases ys)
    case Nil
    with left nxx show ?thesis by simp
  next
    case (Cons y zs)
    have "last (a # xs) \<in> insert a (set xs)" by simp
    then have "pv x \<noteq> y" "pv x \<notin> set zs" using Cons assms unfolding px by auto
    moreover have "nx x = y" using nxx Cons by simp
    ultimately have "dseg (nx(pv x := nx x)) (pv(nx x := pv x)) y zs b = dseg nx pv y zs b"
      using Cons assms by (intro dseg_cong) auto
    with Cons left r \<open>nx x = y\<close> show ?thesis by (simp add: dseg_append)
  qed
qed

text \<open>The scans of \<^verbatim>\<open>bget\<close> find the first, or the last, entry of the list.\<close>

lemma scan_forward:
  assumes "dseg nx pv a xs NBUF" "\<forall>x \<in> set xs. x < NBUF" "length xs < fuel"
  shows "scan fuel nx P (nx a) = Ok (find P xs)"
  using assms
proof (induction xs arbitrary: a fuel)
  case Nil
  then show ?case by (cases fuel) auto
next
  case (Cons x xs)
  then obtain f where "fuel = Suc f" by (cases fuel) auto
  with Cons show ?case by auto
qed

lemma scan_backward:
  assumes "dseg nx pv NBUF xs b" "\<forall>x \<in> set xs. x < NBUF" "length xs < fuel"
  shows "scan fuel pv P (pv b) = Ok (find P (rev xs))"
  using assms
proof (induction xs arbitrary: b fuel rule: rev_induct)
  case Nil
  then show ?case by (cases fuel) auto
next
  case (snoc x xs)
  then obtain f where "fuel = Suc f" by (cases fuel) auto
  with snoc show ?case by (auto simp: dseg_append)
qed
lemma upd_buf_simps [simp]:
  "length (bufs (upd_buf i f s)) = length (bufs s)"
  "disk (upd_buf i f s) = disk s" "mypid (upd_buf i f s) = mypid s"
  "woken (upd_buf i f s) = woken s" "dtrace (upd_buf i f s) = dtrace s"
  "kio.more (upd_buf i f s) = kio.more s"
  by (simp_all add: upd_buf_def)

lemma bufs_upd_buf:
  "i < length (bufs s) \<Longrightarrow> bufs (upd_buf i f s) ! j = (if j = i then f (bufs s ! i) else bufs s ! j)"
  by (simp add: upd_buf_def)

lemma wake_simps [simp]:
  "bufs (wake ch s) = bufs s" "disk (wake ch s) = disk s" "mypid (wake ch s) = mypid s"
  "woken (wake ch s) = woken s @ [ch]" "dtrace (wake ch s) = dtrace s"
  by (simp_all add: wake_def)

definition only_bufs :: "'a kio_scheme \<Rightarrow> 'a kio_scheme \<Rightarrow> bool" where
  "only_bufs s s' \<longleftrightarrow> s' = s\<lparr>bufs := bufs s'\<rparr> \<and> length (bufs s') = length (bufs s)"

lemma only_bufs_upd_buf [simp, intro]: "only_bufs s (upd_buf i f s)"
  by (simp add: only_bufs_def upd_buf_def)

lemma only_bufs_trans: "only_bufs s t \<Longrightarrow> only_bufs t u \<Longrightarrow> only_bufs s u"
  by (cases s; cases t; cases u) (auto simp: only_bufs_def)

lemma only_bufsD:
  assumes "only_bufs s s'"
  shows "disk s' = disk s" "mypid s' = mypid s" "woken s' = woken s" "dtrace s' = dtrace s"
    "kio.more s' = kio.more s" "length (bufs s') = length (bufs s)"
  using assms by (cases s; cases s'; auto simp: only_bufs_def)+

text \<open>Relinking changes the links only: the rest of every buffer stays as it is.\<close>

definition core_buf :: "buf \<Rightarrow> buf" where
  "core_buf x = x\<lparr>b_prev := 0, b_next := 0\<rparr>"

lemma core_buf_cong:
  assumes "core_buf x = core_buf y"
  shows "b_valid x = b_valid y" "b_dirty x = b_dirty y" "b_dev x = b_dev y"
    "b_blockno x = b_blockno y" "b_lock x = b_lock y" "b_refcnt x = b_refcnt y"
    "b_data x = b_data y"
proof -
  show "b_valid x = b_valid y" using arg_cong [OF assms, of b_valid] by (simp add: core_buf_def)
  show "b_dirty x = b_dirty y" using arg_cong [OF assms, of b_dirty] by (simp add: core_buf_def)
  show "b_dev x = b_dev y" using arg_cong [OF assms, of b_dev] by (simp add: core_buf_def)
  show "b_blockno x = b_blockno y"
    using arg_cong [OF assms, of b_blockno] by (simp add: core_buf_def)
  show "b_lock x = b_lock y" using arg_cong [OF assms, of b_lock] by (simp add: core_buf_def)
  show "b_refcnt x = b_refcnt y"
    using arg_cong [OF assms, of b_refcnt] by (simp add: core_buf_def)
  show "b_data x = b_data y" using arg_cong [OF assms, of b_data] by (simp add: core_buf_def)
qed

lemma link_front_effect:
  assumes "length (bufs s) = Suc NBUF" "b < NBUF" "buf_nx s NBUF < Suc NBUF" "buf_nx s NBUF \<noteq> b"
  shows "buf_nx (link_front b s) = (buf_nx s)(b := buf_nx s NBUF, NBUF := b)"
    and "buf_pv (link_front b s) = (buf_pv s)(b := NBUF, buf_nx s NBUF := b)"
    and "core_buf (bufs (link_front b s) ! j) = core_buf (bufs s ! j)"
    and "only_bufs s (link_front b s)"
proof -
  show "buf_nx (link_front b s) = (buf_nx s)(b := buf_nx s NBUF, NBUF := b)"
    using assms by (intro ext) (simp add: link_front_def Let_def buf_nx_def bufs_upd_buf)
  show "buf_pv (link_front b s) = (buf_pv s)(b := NBUF, buf_nx s NBUF := b)"
    using assms by (intro ext) (simp add: link_front_def Let_def buf_nx_def buf_pv_def bufs_upd_buf)
  show "core_buf (bufs (link_front b s) ! j) = core_buf (bufs s ! j)"
    using assms
    by (simp add: link_front_def Let_def buf_nx_def buf_pv_def bufs_upd_buf core_buf_def)
  show "only_bufs s (link_front b s)"
    unfolding link_front_def Let_def by (intro only_bufs_upd_buf only_bufs_trans [OF _ only_bufs_upd_buf])
qed

lemma unlink_buf_effect:
  assumes "length (bufs s) = Suc NBUF" "b < NBUF" "buf_nx s b < Suc NBUF" "buf_pv s b < Suc NBUF"
    "buf_nx s b \<noteq> b"
  shows "buf_nx (unlink_buf b s) = (buf_nx s)(buf_pv s b := buf_nx s b)"
    and "buf_pv (unlink_buf b s) = (buf_pv s)(buf_nx s b := buf_pv s b)"
    and "core_buf (bufs (unlink_buf b s) ! j) = core_buf (bufs s ! j)"
    and "only_bufs s (unlink_buf b s)"
proof -
  show "buf_nx (unlink_buf b s) = (buf_nx s)(buf_pv s b := buf_nx s b)"
    using assms by (intro ext) (simp add: unlink_buf_def Let_def buf_nx_def buf_pv_def bufs_upd_buf)
  show "buf_pv (unlink_buf b s) = (buf_pv s)(buf_nx s b := buf_pv s b)"
    using assms by (intro ext) (simp add: unlink_buf_def Let_def buf_nx_def buf_pv_def bufs_upd_buf)
  show "core_buf (bufs (unlink_buf b s) ! j) = core_buf (bufs s ! j)"
    using assms
    by (simp add: unlink_buf_def Let_def buf_nx_def buf_pv_def bufs_upd_buf core_buf_def)
  show "only_bufs s (unlink_buf b s)"
    unfolding unlink_buf_def Let_def by (intro only_bufs_upd_buf only_bufs_trans [OF _ only_bufs_upd_buf])
qed

text \<open>The relinking of \<^verbatim>\<open>brelse\<close> moves the buffer to the front of the list.\<close>

lemma dseg_links:
  assumes "dseg nx pv a xs b" "i \<in> set xs"
  shows "nx i \<in> insert b (set xs)" "pv i \<in> insert a (set xs)"
    "distinct xs \<Longrightarrow> b \<notin> set xs \<Longrightarrow> nx i \<noteq> i"
proof -
  from assms(2) obtain ys zs where xs: "xs = ys @ i # zs" by (auto dest: split_list)
  with assms(1) have l: "dseg nx pv a ys i" and r: "dseg nx pv i zs b"
    by (simp_all add: dseg_append)
  have "nx i = hd (zs @ [b])" by (rule dseg_first [OF r])
  then show "nx i \<in> insert b (set xs)" "distinct xs \<Longrightarrow> b \<notin> set xs \<Longrightarrow> nx i \<noteq> i"
    by (cases zs; auto simp: xs)+
  have "pv i = last (a # ys)" by (rule dseg_final [OF l])
  then show "pv i \<in> insert a (set xs)" by (simp add: xs)
qed

lemma lru_bound:
  assumes "lru xs s" "i < NBUF"
  shows "buf_nx s i < Suc NBUF" "buf_pv s i < Suc NBUF" "buf_nx s i \<noteq> i"
proof -
  have seg: "dseg (buf_nx s) (buf_pv s) NBUF xs NBUF" and i: "i \<in> set xs"
    and xs: "distinct xs" "set xs = {..<NBUF}"
    using assms by (auto simp: lru_def)
  note dl = dseg_links [OF seg i]
  show "buf_nx s i < Suc NBUF" using dl(1) unfolding xs(2) by auto
  show "buf_pv s i < Suc NBUF" using dl(2) unfolding xs(2) by auto
  show "buf_nx s i \<noteq> i" by (rule dl(3) [OF xs(1)]) (simp add: xs(2))
qed

lemma lru_move_front:
  assumes "length (bufs s) = Suc NBUF" "lru xs s" "b < NBUF"
  shows "lru (b # remove1 b xs) (link_front b (unlink_buf b s))"
    and "core_buf (bufs (link_front b (unlink_buf b s)) ! j) = core_buf (bufs s ! j)"
    and "only_bufs s (link_front b (unlink_buf b s))"
proof -
  from assms(2,3) obtain ys zs where xs: "xs = ys @ b # zs"
    unfolding lru_def by (metis lessThan_iff split_list)
  have seg: "dseg (buf_nx s) (buf_pv s) NBUF (ys @ b # zs) NBUF" and dis: "distinct (ys @ b # zs)"
    and set: "set (ys @ b # zs) = {..<NBUF}" using assms(2) unfolding lru_def xs by auto
  have nb: "NBUF \<notin> set (ys @ b # zs)" unfolding set by simp
  note bnd = lru_bound [OF assms(2,3)]
  note eff = unlink_buf_effect [OF assms(1,3) bnd]
  let ?u = "unlink_buf b s"
  have useg: "dseg (buf_nx ?u) (buf_pv ?u) NBUF (ys @ zs) NBUF"
    unfolding eff(1,2) by (rule dseg_remove [OF seg dis nb nb])
  have ulen: "length (bufs ?u) = Suc NBUF" using only_bufsD(6) [OF eff(4)] assms(1) by simp
  have "buf_nx ?u NBUF = hd ((ys @ zs) @ [NBUF])" by (rule dseg_first [OF useg])
  then have "buf_nx ?u NBUF \<in> insert NBUF (set (ys @ zs))"
    by (cases "ys @ zs") (auto simp flip: append_assoc)
  then have n: "buf_nx ?u NBUF < Suc NBUF" "buf_nx ?u NBUF \<noteq> b"
    using set dis assms(3) by (auto simp: less_Suc_eq)
  note lf = link_front_effect [OF ulen assms(3) n]
  have "dseg (buf_nx (link_front b ?u)) (buf_pv (link_front b ?u)) NBUF (b # ys @ zs) NBUF"
    unfolding lf(1,2) by (rule dseg_insert [OF useg]) (use dis nb assms(3) in auto)
  moreover have "remove1 b xs = ys @ zs" using dis unfolding xs by (simp add: remove1_append)
  ultimately show "lru (b # remove1 b xs) (link_front b ?u)"
    using dis set unfolding lru_def by auto
  show "core_buf (bufs (link_front b ?u) ! j) = core_buf (bufs s ! j)"
    by (simp add: lf(3) eff(3))
  show "only_bufs s (link_front b ?u)" by (rule only_bufs_trans [OF eff(4) lf(4)])
qed
section \<open>The invariant of the cache\<close>

text \<open>
  Seen by the process that runs, a buffer is referenced exactly while it is locked (other
  processes are between two of their system calls or asleep on a lock). A buffer is valid
  exactly when it stands for a block of the disk, device 1; a clean buffer that nobody
  holds agrees with the disk. No two buffers stand for the same block.
\<close>

definition buf_ok :: "block list \<Rightarrow> buf \<Rightarrow> bool" where
  "buf_ok d x \<longleftrightarrow>
     b_refcnt x = (if sl_locked (b_lock x) then 1 else 0) \<and>
     (b_valid x \<longleftrightarrow> b_dev x = 1) \<and> (b_dirty x \<or> sl_locked (b_lock x) \<longrightarrow> b_valid x) \<and>
     (b_valid x \<longrightarrow> unat (b_blockno x) < length d) \<and>
     (b_valid x \<and> \<not> b_dirty x \<and> \<not> sl_locked (b_lock x) \<longrightarrow>
        b_data x = d ! unat (b_blockno x))"

definition has :: "'a kio_scheme \<Rightarrow> nat \<Rightarrow> uint \<Rightarrow> bool" where
  "has s i b \<longleftrightarrow> i < NBUF \<and> b_dev (bufs s ! i) = 1 \<and> b_blockno (bufs s ! i) = b"

definition binv_lru :: "nat list \<Rightarrow> 'a kio_scheme \<Rightarrow> bool" where
  "binv_lru xs s \<longleftrightarrow> length (bufs s) = Suc NBUF \<and> lru xs s \<and>
     (\<forall>i < NBUF. buf_ok (disk s) (bufs s ! i)) \<and>
     (\<forall>i j b. has s i b \<and> has s j b \<longrightarrow> i = j)"

definition binv :: "'a kio_scheme \<Rightarrow> bool" where
  "binv s \<longleftrightarrow> (\<exists>xs. binv_lru xs s)"

text \<open>
  What the cache looks like from outside: the contents of each block as a reader gets
  them, the blocks whose buffers are held, and the blocks pinned by the log.
\<close>

definition cblock :: "'a kio_scheme \<Rightarrow> uint \<Rightarrow> block" where
  "cblock s b =
     (case find (\<lambda>i. b_dev (bufs s ! i) = 1 \<and> b_blockno (bufs s ! i) = b) [0..<NBUF] of
        Some i \<Rightarrow> b_data (bufs s ! i)
      | None \<Rightarrow> disk s ! unat b)"

definition held :: "'a kio_scheme \<Rightarrow> uint set" where
  "held s = {b. \<exists>i. has s i b \<and> sl_locked (b_lock (bufs s ! i))}"

definition dirty :: "'a kio_scheme \<Rightarrow> uint set" where
  "dirty s = {b. \<exists>i. has s i b \<and> b_dirty (bufs s ! i)}"

definition mine :: "'a kio_scheme \<Rightarrow> nat \<Rightarrow> uint \<Rightarrow> bool" where
  "mine s i b \<longleftrightarrow> has s i b \<and> holdingsleep (mypid s) (b_lock (bufs s ! i))"

lemma binv_lruD:
  assumes "binv_lru xs s"
  shows "length (bufs s) = Suc NBUF" "lru xs s" "i < NBUF \<Longrightarrow> buf_ok (disk s) (bufs s ! i)"
    "has s i b \<Longrightarrow> has s j b \<Longrightarrow> i = j"
  using assms unfolding binv_lru_def by blast+

lemma find_upt_has:
  "find (\<lambda>i. b_dev (bufs s ! i) = 1 \<and> b_blockno (bufs s ! i) = b) [0..<NBUF] = None \<longleftrightarrow>
     (\<forall>i. \<not> has s i b)"
  by (auto simp: find_None_iff has_def)

lemma cblock_has:
  assumes "binv_lru xs s" "has s i b"
  shows "cblock s b = b_data (bufs s ! i)"
proof (cases "find (\<lambda>i. b_dev (bufs s ! i) = 1 \<and> b_blockno (bufs s ! i) = b) [0..<NBUF]")
  case None
  with assms(2) show ?thesis unfolding find_upt_has by blast
next
  case (Some j)
  then have "has s j b" by (auto simp: find_Some_iff has_def)
  with binv_lruD(4) [OF assms(1)] assms(2) have "j = i" by blast
  with Some show ?thesis by (simp add: cblock_def)
qed

lemma cblock_not_has: "(\<And>i. \<not> has s i b) \<Longrightarrow> cblock s b = disk s ! unat b"
  using find_upt_has [of s b] by (simp add: cblock_def)

lemma cblock_clean:
  assumes "binv s" "b \<notin> held s" "b \<notin> dirty s"
  shows "cblock s b = disk s ! unat b"
proof -
  from assms(1) obtain xs where inv: "binv_lru xs s" unfolding binv_def by blast
  show ?thesis
  proof (cases "\<exists>i. has s i b")
    case True
    then obtain i where i: "has s i b" by blast
    then have "buf_ok (disk s) (bufs s ! i)" using binv_lruD(3) [OF inv] by (simp add: has_def)
    with i assms show ?thesis
      unfolding cblock_has [OF inv i] by (auto simp: buf_ok_def held_def dirty_def has_def)
  next
    case False
    then show ?thesis by (simp add: cblock_not_has)
  qed
qed

text \<open>One buffer changed, its links and those of the others kept.\<close>

lemma lru_cong:
  assumes "\<And>i. i \<le> NBUF \<Longrightarrow> b_next (bufs s' ! i) = b_next (bufs s ! i)"
    and "\<And>i. i \<le> NBUF \<Longrightarrow> b_prev (bufs s' ! i) = b_prev (bufs s ! i)"
  shows "lru xs s' = lru xs s"
proof -
  have "set xs = {..<NBUF} \<Longrightarrow>
      dseg (buf_nx s') (buf_pv s') NBUF xs NBUF = dseg (buf_nx s) (buf_pv s) NBUF xs NBUF"
    using assms by (intro dseg_cong) (auto simp: buf_nx_def buf_pv_def)
  then show ?thesis by (auto simp: lru_def)
qed

lemma has_upd_buf:
  assumes "length (bufs s) = Suc NBUF" "i < NBUF"
  shows "has (upd_buf i f s) j b \<longleftrightarrow>
    (if j = i then b_dev (f (bufs s ! i)) = 1 \<and> b_blockno (f (bufs s ! i)) = b else has s j b)"
  using assms by (auto simp: has_def bufs_upd_buf)

lemma binv_upd_buf:
  assumes inv: "binv_lru xs s" and i: "i < NBUF"
    and links: "\<And>x. b_next (f x) = b_next x" "\<And>x. b_prev (f x) = b_prev x"
    and ok: "buf_ok (disk s) (f (bufs s ! i))"
    and uniq: "\<And>j. j \<noteq> i \<Longrightarrow> b_dev (f (bufs s ! i)) = 1 \<Longrightarrow> \<not> has s j (b_blockno (f (bufs s ! i)))"
  shows "binv_lru xs (upd_buf i f s)"
  unfolding binv_lru_def
proof (intro conjI allI impI)
  note len = binv_lruD(1) [OF inv]
  show "length (bufs (upd_buf i f s)) = Suc NBUF" using len by simp
  have "lru xs (upd_buf i f s) = lru xs s"
    using len i by (intro lru_cong) (simp_all add: bufs_upd_buf links)
  then show "lru xs (upd_buf i f s)" using binv_lruD(2) [OF inv] by simp
  show "buf_ok (disk (upd_buf i f s)) (bufs (upd_buf i f s) ! j)" if "j < NBUF" for j
    using ok binv_lruD(3) [OF inv that] len i by (simp add: bufs_upd_buf)
  show "j = k" if "has (upd_buf i f s) j b \<and> has (upd_buf i f s) k b" for j k b
    using that uniq binv_lruD(4) [OF inv] unfolding has_upd_buf [OF len i]
    by (metis (full_types))
qed

section \<open>Reading, writing and releasing a buffer\<close>

lemma upd_buf_upd_buf:
  "i < length (bufs s) \<Longrightarrow> upd_buf i f (upd_buf i g s) = upd_buf i (\<lambda>x. f (g x)) s"
  by (simp add: upd_buf_def)

lemma upd_buf_cong: "f (bufs s ! i) = g (bufs s ! i) \<Longrightarrow> upd_buf i f s = upd_buf i g s"
  by (simp add: upd_buf_def)

lemma find_SomeD: "find P ys = Some x \<Longrightarrow> P x \<and> x \<in> set ys"
  by (induction ys) (auto split: if_splits)

text \<open>The two ways through \<^verbatim>\<open>bread\<close>, in closed form.\<close>

lemma scan_cached:
  assumes "binv_lru xs s"
  shows "scan (Suc NBUF) (buf_nx s) P (buf_nx s NBUF) = Ok (find P xs)"
    and "scan (Suc NBUF) (buf_pv s) P (buf_pv s NBUF) = Ok (find P (rev xs))"
proof -
  have seg: "dseg (buf_nx s) (buf_pv s) NBUF xs NBUF" and xs: "distinct xs" "set xs = {..<NBUF}"
    using binv_lruD(2) [OF assms] by (auto simp: lru_def)
  from xs have len: "length xs < Suc NBUF" using distinct_card [OF xs(1)] by simp
  have bound: "\<forall>x \<in> set xs. x < NBUF" unfolding xs(2) by simp
  show "scan (Suc NBUF) (buf_nx s) P (buf_nx s NBUF) = Ok (find P xs)"
    by (rule scan_forward [OF seg bound len])
  show "scan (Suc NBUF) (buf_pv s) P (buf_pv s NBUF) = Ok (find P (rev xs))"
    by (rule scan_backward [OF seg bound len])
qed

lemma find_has:
  assumes "binv_lru xs s" "has s i b"
  shows "find (\<lambda>i. b_dev (bufs s ! i) = 1 \<and> b_blockno (bufs s ! i) = b) xs = Some i"
proof -
  have set: "set xs = {..<NBUF}" using binv_lruD(2) [OF assms(1)] by (simp add: lru_def)
  let ?P = "\<lambda>i. b_dev (bufs s ! i) = 1 \<and> b_blockno (bufs s ! i) = b"
  have "find ?P xs \<noteq> None" using assms(2) set by (auto simp: find_None_iff has_def)
  then obtain j where j: "find ?P xs = Some j" by blast
  then have "?P j" "j \<in> set xs" by (auto simp: find_Some_iff)
  then have "has s j b" using set by (simp add: has_def)
  then have "j = i" using binv_lruD(4) [OF assms(1)] assms(2) by blast
  with j show ?thesis by simp
qed

lemma find_has_None:
  assumes "binv_lru xs s" "\<And>i. \<not> has s i b"
  shows "find (\<lambda>i. b_dev (bufs s ! i) = 1 \<and> b_blockno (bufs s ! i) = b) xs = None"
  using assms(2) binv_lruD(2) [OF assms(1)] by (auto simp: find_None_iff has_def lru_def)

definition taken :: "int \<Rightarrow> sleeplock \<Rightarrow> sleeplock" where
  "taken pid lk = lk\<lparr>sl_locked := True, sl_pid := pid\<rparr>"

lemma taken_simps [simp]: "sl_locked (taken pid lk)" "holdingsleep pid (taken pid lk)"
  by (simp_all add: taken_def holdingsleep_def)

lemma bread_hit:
  assumes "binv_lru xs s" "has s i b" "\<not> sl_locked (b_lock (bufs s ! i))"
  shows "bread 1 b s = Ok (i, upd_buf i (\<lambda>x. x\<lparr>b_refcnt := b_refcnt x + 1,
           b_lock := taken (mypid s) (b_lock x)\<rparr>) s)"
proof -
  have "b_valid (bufs s ! i)" "i < length (bufs s)"
    using binv_lruD(1,3) [OF assms(1)] assms(2) by (auto simp: has_def buf_ok_def)
  then show ?thesis
    using scan_cached(1) [OF assms(1)] find_has [OF assms(1,2)] assms(3)
    by (simp add: bread_def bget_def bget_lock_def bufs_upd_buf acquiresleep_def taken_def
        upd_buf_upd_buf del: scan.simps, intro upd_buf_cong, simp)
qed

lemma bread_miss:
  assumes "binv_lru xs s" "\<And>i. \<not> has s i b" "unat b < length (disk s)"
    and "find (\<lambda>i. b_refcnt (bufs s ! i) = 0 \<and> \<not> b_dirty (bufs s ! i)) (rev xs) = Some i"
  shows "bread 1 b s = Ok (i, upd_buf i (\<lambda>x. x\<lparr>b_dev := 1, b_blockno := b, b_valid := True,
           b_dirty := False, b_refcnt := 1, b_lock := taken (mypid s) (b_lock x),
           b_data := disk s ! unat b\<rparr>) s)"
proof -
  have r: "i < NBUF" "b_refcnt (bufs s ! i) = 0"
    using find_SomeD [OF assms(4)] binv_lruD(2) [OF assms(1)] by (auto simp: lru_def)
  then have "\<not> sl_locked (b_lock (bufs s ! i))" "i < length (bufs s)"
    using binv_lruD(1,3) [OF assms(1)] by (auto simp: buf_ok_def split: if_splits)
  then show ?thesis
    using scan_cached [OF assms(1)] find_has_None [OF assms(1,2)] assms(3,4)
    by (simp add: bread_def bget_def bget_lock_def bufs_upd_buf acquiresleep_def taken_def
        upd_buf_upd_buf iderw_def holdingsleep_def Let_def del: scan.simps, intro upd_buf_cong, simp)
qed
text \<open>
  How a change of one buffer shows from outside: first for a buffer that keeps its block,
  then for a free buffer that is given another one.
\<close>

lemma has_lt: "has s i b \<Longrightarrow> i < NBUF"
  by (simp add: has_def)

lemma view_upd_same:
  assumes inv: "binv_lru xs s" and i: "has s i b"
    and keep: "\<And>x. b_dev (f x) = b_dev x" "\<And>x. b_blockno (f x) = b_blockno x"
    and inv': "binv_lru xs (upd_buf i f s)"
  shows "has (upd_buf i f s) j c \<longleftrightarrow> has s j c"
    and "cblock (upd_buf i f s) = (cblock s)(b := b_data (f (bufs s ! i)))"
    and "held (upd_buf i f s) =
           (if sl_locked (b_lock (f (bufs s ! i))) then insert b (held s) else held s - {b})"
    and "dirty (upd_buf i f s) =
           (if b_dirty (f (bufs s ! i)) then insert b (dirty s) else dirty s - {b})"
proof -
  let ?s = "upd_buf i f s"
  have len: "length (bufs s) = Suc NBUF" by (rule binv_lruD(1) [OF inv])
  have nth: "bufs ?s ! j = (if j = i then f (bufs s ! i) else bufs s ! j)" for j
    using len has_lt [OF i] by (simp add: bufs_upd_buf)
  have h: "has ?s j c \<longleftrightarrow> has s j c" for j c
    using keep by (simp add: has_def nth)
  then show "has (upd_buf i f s) j c \<longleftrightarrow> has s j c" .
  have u: "has s j b \<longleftrightarrow> j = i" for j using i binv_lruD(4) [OF inv] by blast
  have v: "has s i c \<longleftrightarrow> c = b" for c using i by (auto simp: has_def)
  show "cblock ?s = (cblock s)(b := b_data (f (bufs s ! i)))"
  proof
    fix c
    show "cblock ?s c = ((cblock s)(b := b_data (f (bufs s ! i)))) c"
    proof (cases "\<exists>j. has s j c")
      case True
      then obtain j where j: "has s j c" by blast
      with cblock_has [OF inv'] h have "cblock ?s c = b_data (bufs ?s ! j)" by blast
      with j u v show ?thesis unfolding nth by (auto simp: cblock_has [OF inv j])
    next
      case False
      with i h show ?thesis by (auto simp: cblock_not_has)
    qed
  qed
  show "held ?s = (if sl_locked (b_lock (f (bufs s ! i))) then insert b (held s) else held s - {b})"
    unfolding held_def h nth using u v i by (auto; metis)
  show "dirty ?s = (if b_dirty (f (bufs s ! i)) then insert b (dirty s) else dirty s - {b})"
    unfolding dirty_def h nth using u v i by (auto; metis)
qed

lemma view_upd_free:
  assumes inv: "binv_lru xs s" and i: "i < NBUF"
    and free: "\<not> sl_locked (b_lock (bufs s ! i))" "\<not> b_dirty (bufs s ! i)"
    and nb: "\<And>j. \<not> has s j b"
    and f: "b_dev (f (bufs s ! i)) = 1" "b_blockno (f (bufs s ! i)) = b"
      "b_data (f (bufs s ! i)) = disk s ! unat b" "sl_locked (b_lock (f (bufs s ! i)))"
      "\<not> b_dirty (f (bufs s ! i))"
    and inv': "binv_lru xs (upd_buf i f s)"
  shows "has (upd_buf i f s) i b" and "cblock (upd_buf i f s) = cblock s"
    and "held (upd_buf i f s) = insert b (held s)" and "dirty (upd_buf i f s) = dirty s"
proof -
  let ?s = "upd_buf i f s"
  have len: "length (bufs s) = Suc NBUF" by (rule binv_lruD(1) [OF inv])
  have nth: "bufs ?s ! j = (if j = i then f (bufs s ! i) else bufs s ! j)" for j
    using len i by (simp add: bufs_upd_buf)
  have h: "has ?s j c \<longleftrightarrow> (if j = i then c = b else has s j c)" for j c
    using f i by (auto simp: has_def nth)
  then show hb: "has ?s i b" by simp
  have clean: "cblock s c = disk s ! unat c" if "has s i c" for c
    using cblock_has [OF inv that] binv_lruD(3) [OF inv i] free that
    by (auto simp: buf_ok_def has_def)
  show "cblock ?s = cblock s"
  proof
    fix c
    show "cblock ?s c = cblock s c"
    proof (cases "\<exists>j. has ?s j c")
      case True
      then obtain j where j: "has ?s j c" by blast
      then have "cblock ?s c = b_data (bufs ?s ! j)" by (rule cblock_has [OF inv'])
      with j nb f(3) show ?thesis
        by (cases "j = i") (auto simp: h nth cblock_not_has cblock_has [OF inv])
    next
      case False
      then have n: "cblock ?s c = disk s ! unat c" by (simp add: cblock_not_has)
      show ?thesis
      proof (cases "\<exists>j. has s j c")
        case True
        then have "has s i c" using False h by metis
        with n clean show ?thesis by simp
      next
        case False
        with n show ?thesis by (simp add: cblock_not_has)
      qed
    qed
  qed
  show "held ?s = insert b (held s)" "dirty ?s = dirty s"
    unfolding held_def dirty_def h nth using free nb f by (auto; metis)+
qed

text \<open>
  There is a buffer to recycle as long as fewer than \<open>NBUF\<close> blocks are held or pinned.
\<close>

lemma finite_has [simp]: "finite {b. \<exists>i. has s i b \<and> P i}"
proof -
  have "{b. \<exists>i. has s i b \<and> P i} \<subseteq> (\<lambda>i. b_blockno (bufs s ! i)) ` {..<NBUF}"
    by (auto simp: has_def)
  then show ?thesis by (rule finite_subset) simp
qed

lemma finite_held [simp]: "finite (held s)" and finite_dirty [simp]: "finite (dirty s)"
  unfolding held_def dirty_def by simp_all

lemma free_buffer:
  assumes inv: "binv_lru xs s" and room: "card (held s \<union> dirty s) < NBUF"
  obtains i where "i < NBUF" "\<not> sl_locked (b_lock (bufs s ! i))" "\<not> b_dirty (bufs s ! i)"
    "find (\<lambda>i. b_refcnt (bufs s ! i) = 0 \<and> \<not> b_dirty (bufs s ! i)) (rev xs) = Some i"
proof -
  let ?P = "\<lambda>i. b_refcnt (bufs s ! i) = 0 \<and> \<not> b_dirty (bufs s ! i)"
  have set: "set xs = {..<NBUF}" using binv_lruD(2) [OF inv] by (simp add: lru_def)
  have ok: "buf_ok (disk s) (bufs s ! i)" if "i < NBUF" for i by (rule binv_lruD(3) [OF inv that])
  have "\<exists>i < NBUF. ?P i"
  proof (rule ccontr)
    assume no: "\<not> (\<exists>i < NBUF. ?P i)"
    have busy: "sl_locked (b_lock (bufs s ! i)) \<or> b_dirty (bufs s ! i)" if "i < NBUF" for i
      using no that ok [OF that] by (auto simp: buf_ok_def split: if_splits)
    then have hs: "has s i (b_blockno (bufs s ! i))" if "i < NBUF" for i
      using that ok [OF that] by (auto simp: buf_ok_def has_def)
    have "inj_on (\<lambda>i. b_blockno (bufs s ! i)) {..<NBUF}"
      using binv_lruD(4) [OF inv] hs by (intro inj_onI) (metis lessThan_iff)
    moreover have "(\<lambda>i. b_blockno (bufs s ! i)) ` {..<NBUF} \<subseteq> held s \<union> dirty s"
      using hs busy by (auto simp: held_def dirty_def)
    ultimately have "NBUF \<le> card (held s \<union> dirty s)"
      using card_inj_on_le [of _ "{..<NBUF}" "held s \<union> dirty s"] by simp
    with room show False by simp
  qed
  then obtain i where i: "find ?P (rev xs) = Some i"
    using set by (cases "find ?P (rev xs)") (auto simp: find_None_iff)
  with find_SomeD [OF i] set ok [of i] that show ?thesis
    by (auto simp: buf_ok_def split: if_splits)
qed
lemma has_iffs:
  assumes "binv_lru xs s" "has s i b"
  shows "b \<in> dirty s \<longleftrightarrow> b_dirty (bufs s ! i)"
    and "b \<in> held s \<longleftrightarrow> sl_locked (b_lock (bufs s ! i))"
proof -
  have "has s j b \<longleftrightarrow> j = i" for j using assms binv_lruD(4) [OF assms(1)] by blast
  then show "b \<in> dirty s \<longleftrightarrow> b_dirty (bufs s ! i)"
    "b \<in> held s \<longleftrightarrow> sl_locked (b_lock (bufs s ! i))"
    by (simp_all add: dirty_def held_def)
qed

lemma bread_lru:
  assumes inv: "binv_lru xs s" and b: "unat b < length (disk s)" "b \<notin> held s"
    and room: "b \<in> dirty s \<or> card (held s \<union> dirty s) < NBUF"
  obtains i s' where "bread 1 b s = Ok (i, s')" "mine s' i b" "binv_lru xs s'"
    "held s' = insert b (held s)" "dirty s' = dirty s" "cblock s' = cblock s" "only_bufs s s'"
    "\<And>j. j \<noteq> i \<Longrightarrow> bufs s' ! j = bufs s ! j" "\<not> sl_locked (b_lock (bufs s ! i))"
proof (cases "\<exists>i. has s i b")
  case True
  then obtain i where i: "has s i b" by blast
  have free: "\<not> sl_locked (b_lock (bufs s ! i))" using b(2) i by (auto simp: held_def)
  let ?f = "\<lambda>x. x\<lparr>b_refcnt := b_refcnt x + 1, b_lock := taken (mypid s) (b_lock x)\<rparr>"
  let ?s = "upd_buf i ?f s"
  have ok: "buf_ok (disk s) (bufs s ! i)" by (rule binv_lruD(3) [OF inv has_lt [OF i]])
  have nth: "bufs ?s ! j = (if j = i then ?f (bufs s ! i) else bufs s ! j)" for j
    using binv_lruD(1) [OF inv] has_lt [OF i] by (simp add: bufs_upd_buf)
  have inv': "binv_lru xs ?s"
  proof (rule binv_upd_buf [OF inv has_lt [OF i]])
    show "buf_ok (disk s) (?f (bufs s ! i))"
      using ok free i by (auto simp: buf_ok_def has_def)
    show "\<not> has s j (b_blockno (?f (bufs s ! i)))" if "j \<noteq> i" for j
      using binv_lruD(4) [OF inv i, of j] i that by (auto simp: has_def)
  qed simp_all
  note v = view_upd_same [OF inv i _ _ inv']
  show thesis
  proof (rule that [OF bread_hit [OF inv i free] _ inv'])
    show "mine ?s i b" using v(1) [of i b] i by (simp add: mine_def nth)
    show "cblock ?s = cblock s" using v(2) cblock_has [OF inv i] by auto
    show "held ?s = insert b (held s)" using v(3) by simp
    show "dirty ?s = dirty s" using v(4) has_iffs(1) [OF inv i] by auto
  qed (simp_all add: nth free)
next
  case False
  then have nb: "\<not> has s j b" for j by blast
  then have "card (held s \<union> dirty s) < NBUF" using room by (auto simp: dirty_def)
  from free_buffer [OF inv this] obtain i where i: "i < NBUF"
    "\<not> sl_locked (b_lock (bufs s ! i))" "\<not> b_dirty (bufs s ! i)"
    "find (\<lambda>i. b_refcnt (bufs s ! i) = 0 \<and> \<not> b_dirty (bufs s ! i)) (rev xs) = Some i" .
  let ?f = "\<lambda>x. x\<lparr>b_dev := 1, b_blockno := b, b_valid := True, b_dirty := False, b_refcnt := 1,
      b_lock := taken (mypid s) (b_lock x), b_data := disk s ! unat b\<rparr>"
  let ?s = "upd_buf i ?f s"
  have nth: "bufs ?s ! j = (if j = i then ?f (bufs s ! i) else bufs s ! j)" for j
    using binv_lruD(1) [OF inv] i(1) by (simp add: bufs_upd_buf)
  have inv': "binv_lru xs ?s"
    using nb b(1) by (intro binv_upd_buf [OF inv i(1)]) (simp_all add: buf_ok_def)
  note v = view_upd_free [OF inv i(1-3) nb, of ?f, OF _ _ _ _ _ inv']
  show thesis
  proof (rule that [OF bread_miss [OF inv nb b(1) i(4)] _ inv'])
    show "mine ?s i b" using v(1) by (simp add: mine_def nth)
    show "cblock ?s = cblock s" by (rule v(2)) simp_all
    show "held ?s = insert b (held s)" by (rule v(3)) simp_all
    show "dirty ?s = dirty s" by (rule v(4)) simp_all
  qed (simp_all add: nth i)
qed

lemma mine_has: "mine s i b \<Longrightarrow> has s i b"
  by (simp add: mine_def)

lemma mine_held: "mine s i b \<Longrightarrow> b \<in> held s"
  by (auto simp: mine_def held_def holdingsleep_def)

text \<open>Storing into a held buffer, and pinning it.\<close>

lemma store_lru:
  fixes d :: block
  assumes inv: "binv_lru xs s" and m: "mine s i b"
  defines "s' \<equiv> upd_buf i (\<lambda>x. x\<lparr>b_data := d\<rparr>) s"
  shows "binv_lru xs s'" "mine s' j c \<longleftrightarrow> mine s j c" "held s' = held s" "dirty s' = dirty s"
    "cblock s' = (cblock s)(b := d)"
proof -
  have i: "has s i b" by (rule mine_has [OF m])
  have nth: "bufs s' ! j = (if j = i then (bufs s ! i)\<lparr>b_data := d\<rparr> else bufs s ! j)" for j
    unfolding s'_def using binv_lruD(1) [OF inv] has_lt [OF i] by (simp add: bufs_upd_buf)
  show inv': "binv_lru xs s'"
    unfolding s'_def
  proof (rule binv_upd_buf [OF inv has_lt [OF i]])
    show "buf_ok (disk s) ((bufs s ! i)\<lparr>b_data := d\<rparr>)"
      using binv_lruD(3) [OF inv has_lt [OF i]] m
      by (auto simp add: buf_ok_def mine_def holdingsleep_def)
    show "\<not> has s j (b_blockno ((bufs s ! i)\<lparr>b_data := d\<rparr>))" if "j \<noteq> i" for j
      using binv_lruD(4) [OF inv i, of j] i that by (auto simp: has_def)
  qed simp_all
  note v = view_upd_same [OF inv i _ _ inv' [unfolded s'_def], folded s'_def]
  show "mine s' j c \<longleftrightarrow> mine s j c"
    using v(1) [of j c] by (simp add: mine_def nth) (simp add: s'_def)
  show "cblock s' = (cblock s)(b := d)" using v(2) by simp
  show "held s' = held s" using v(3) mine_held [OF m] m
    by (auto simp: mine_def holdingsleep_def)
  show "dirty s' = dirty s" using v(4) has_iffs(1) [OF inv i] by auto
qed

lemma pin_lru:
  assumes inv: "binv_lru xs s" and m: "mine s i b"
  defines "s' \<equiv> upd_buf i (\<lambda>x. x\<lparr>b_dirty := True\<rparr>) s"
  shows "binv_lru xs s'" "mine s' j c \<longleftrightarrow> mine s j c" "held s' = held s"
    "dirty s' = insert b (dirty s)" "cblock s' = cblock s"
proof -
  have i: "has s i b" by (rule mine_has [OF m])
  have nth: "bufs s' ! j = (if j = i then (bufs s ! i)\<lparr>b_dirty := True\<rparr> else bufs s ! j)" for j
    unfolding s'_def using binv_lruD(1) [OF inv] has_lt [OF i] by (simp add: bufs_upd_buf)
  show inv': "binv_lru xs s'"
    unfolding s'_def
  proof (rule binv_upd_buf [OF inv has_lt [OF i]])
    show "buf_ok (disk s) ((bufs s ! i)\<lparr>b_dirty := True\<rparr>)"
      using binv_lruD(3) [OF inv has_lt [OF i]] i m
      by (auto simp add: buf_ok_def mine_def holdingsleep_def has_def)
    show "\<not> has s j (b_blockno ((bufs s ! i)\<lparr>b_dirty := True\<rparr>))" if "j \<noteq> i" for j
      using binv_lruD(4) [OF inv i, of j] i that by (auto simp: has_def)
  qed simp_all
  note v = view_upd_same [OF inv i _ _ inv' [unfolded s'_def], folded s'_def]
  show "mine s' j c \<longleftrightarrow> mine s j c"
    using v(1) [of j c] by (simp add: mine_def nth) (simp add: s'_def)
  show "cblock s' = cblock s" using v(2) cblock_has [OF inv i] by auto
  show "held s' = held s" using v(3) mine_held [OF m] m
    by (auto simp: mine_def holdingsleep_def)
  show "dirty s' = insert b (dirty s)" using v(4) by simp
qed

lemma unat_block_eq [simp]: "unat (b :: uint) = unat c \<longleftrightarrow> b = c"
  by (simp add: word_unat_eq_iff)

text \<open>\<^verbatim>\<open>bwrite\<close> puts the buffer on the disk and unpins it.\<close>

lemma bwrite_lru:
  assumes inv: "binv_lru xs s" and m: "mine s i b"
  obtains s' where "bwrite i s = Ok s'" "binv_lru xs s'" "\<And>j c. mine s' j c \<longleftrightarrow> mine s j c"
    "held s' = held s" "dirty s' = dirty s - {b}" "cblock s' = cblock s"
    "disk s' = (disk s)[unat b := cblock s b]" "dtrace s' = dtrace s @ [(b, cblock s b)]"
    "woken s' = woken s" "mypid s' = mypid s" "kio.more s' = kio.more s"
proof -
  have i: "has s i b" by (rule mine_has [OF m])
  have len: "length (bufs s) = Suc NBUF" by (rule binv_lruD(1) [OF inv])
  have ok: "buf_ok (disk s) (bufs s ! i)" by (rule binv_lruD(3) [OF inv has_lt [OF i]])
  have x: "b_dev (bufs s ! i) = 1" "b_blockno (bufs s ! i) = b" "b_data (bufs s ! i) = cblock s b"
    "b_valid (bufs s ! i)" "unat b < length (disk s)"
    using i ok cblock_has [OF inv i] by (auto simp: has_def buf_ok_def)
  let ?d = "(disk s)[unat b := cblock s b]"
  let ?t = "s\<lparr>disk := ?d, dtrace := dtrace s @ [(b, cblock s b)]\<rparr>"
  let ?f = "\<lambda>x. x\<lparr>b_dirty := False, b_valid := True\<rparr>"
  have st: "bwrite i s = Ok (upd_buf i ?f ?t)"
    using m has_lt [OF i] len x
    by (simp add: bwrite_def mine_def iderw_def Let_def bufs_upd_buf holdingsleep_def)
      (simp add: upd_buf_def)
  have h: "has (upd_buf i ?f ?t) j c \<longleftrightarrow> has s j c" for j c
    using len has_lt [OF i] by (auto simp: has_def bufs_upd_buf)
  have nth: "bufs (upd_buf i ?f ?t) ! j = (if j = i then ?f (bufs s ! i) else bufs s ! j)" for j
    using len has_lt [OF i] by (simp add: bufs_upd_buf)
  have other: "b_blockno (bufs s ! j) \<noteq> b" if "j \<noteq> i" "j < NBUF" "b_dev (bufs s ! j) = 1" for j
    using binv_lruD(4) [OF inv i, of j] that by (auto simp: has_def)
  have inv': "binv_lru xs (upd_buf i ?f ?t)"
    unfolding binv_lru_def h
  proof (intro conjI allI impI)
    show "length (bufs (upd_buf i ?f ?t)) = Suc NBUF" using len by simp
    have "lru xs (upd_buf i ?f ?t) = lru xs s" by (rule lru_cong) (simp_all add: nth)
    then show "lru xs (upd_buf i ?f ?t)" using binv_lruD(2) [OF inv] by simp
    show "buf_ok (disk (upd_buf i ?f ?t)) (bufs (upd_buf i ?f ?t) ! j)" if "j < NBUF" for j
      using binv_lruD(3) [OF inv that] other [of j] that x ok unfolding nth
      by (auto simp: buf_ok_def nth_list_update)
    show "j = k" if "has s j c \<and> has s k c" for j k c
      using that binv_lruD(4) [OF inv] by blast
  qed
  have u: "has s j b \<longleftrightarrow> j = i" for j using i binv_lruD(4) [OF inv] by blast
  have v: "has s i c \<longleftrightarrow> c = b" for c using i by (auto simp: has_def)
  show thesis
  proof (rule that [OF st inv'])
    show "mine (upd_buf i ?f ?t) j c \<longleftrightarrow> mine s j c" for j c
      unfolding mine_def h nth by simp
    show "held (upd_buf i ?f ?t) = held s" unfolding held_def h nth by auto
    show "dirty (upd_buf i ?f ?t) = dirty s - {b}"
      using u v unfolding dirty_def h nth by (auto; metis)
    show "cblock (upd_buf i ?f ?t) = cblock s"
    proof
      fix c
      show "cblock (upd_buf i ?f ?t) c = cblock s c"
      proof (cases "\<exists>j. has s j c")
        case True
        then obtain j where j: "has s j c" by blast
        with cblock_has [OF inv', of j c] cblock_has [OF inv j] show ?thesis
          unfolding h nth by (simp split: if_splits)
      next
        case False
        with i have "c \<noteq> b" by auto
        with False show ?thesis by (simp add: cblock_not_has h)
      qed
    qed
  qed (simp_all)
qed

text \<open>Relinking is invisible: nothing but the order of the list changes.\<close>

lemma view_relink:
  assumes inv: "binv_lru xs s" and only: "only_bufs s s'"
    and core: "\<And>j. core_buf (bufs s' ! j) = core_buf (bufs s ! j)" and ord: "lru ys s'"
  shows "binv_lru ys s'" "has s' j c \<longleftrightarrow> has s j c" "mine s' j c \<longleftrightarrow> mine s j c"
    "held s' = held s" "dirty s' = dirty s" "cblock s' = cblock s"
proof -
  note c = core_buf_cong [OF core]
  have h: "has s' = has s" by (intro ext) (simp add: has_def c)
  then show "has s' j c \<longleftrightarrow> has s j c" by simp
  show inv': "binv_lru ys s'"
    unfolding binv_lru_def h
  proof (intro conjI allI impI)
    show "length (bufs s') = Suc NBUF" using only_bufsD(6) [OF only] binv_lruD(1) [OF inv] by simp
    show "lru ys s'" by (rule ord)
    show "buf_ok (disk s') (bufs s' ! i)" if "i < NBUF" for i
      using binv_lruD(3) [OF inv that] only_bufsD(1) [OF only] by (auto simp: buf_ok_def c)
    show "i = j" if "has s i b \<and> has s j b" for i j b
      using that binv_lruD(4) [OF inv] by blast
  qed
  show "mine s' j c \<longleftrightarrow> mine s j c" by (simp add: mine_def h c only_bufsD(2) [OF only])
  show "held s' = held s" "dirty s' = dirty s" unfolding held_def dirty_def h by (simp_all add: c)
  show "cblock s' = cblock s"
    by (intro ext) (simp add: cblock_def c only_bufsD(1) [OF only] cong: option.case_cong)
qed

lemma view_cong:
  assumes "bufs s' = bufs s" "disk s' = disk s" "mypid s' = mypid s"
  shows "has s' = has s" "binv_lru xs s' = binv_lru xs s" "binv s' = binv s" "held s' = held s"
    "dirty s' = dirty s" "cblock s' = cblock s" "mine s' = mine s"
proof -
  show h: "has s' = has s" by (intro ext) (simp add: has_def assms)
  have l: "lru ys s' = lru ys s" for ys by (rule lru_cong) (simp_all add: assms)
  show "binv_lru xs s' = binv_lru xs s" by (simp add: binv_lru_def h l assms)
  show "binv s' = binv s" by (simp add: binv_def binv_lru_def h l assms)
  show "held s' = held s" "dirty s' = dirty s" by (simp_all add: held_def dirty_def h assms)
  show "cblock s' = cblock s"
    by (intro ext) (simp add: cblock_def assms cong: option.case_cong)
  show "mine s' = mine s" by (intro ext) (simp add: mine_def h assms)
qed

lemma brelse_lru:
  assumes inv: "binv_lru xs s" and m: "mine s i b"
    and clean: "b \<in> dirty s \<or> cblock s b = disk s ! unat b"
  obtains s' where "brelse i s = Ok s'" "binv_lru (i # remove1 i xs) s'"
    "\<And>j c. mine s' j c \<longleftrightarrow> mine s j c \<and> c \<noteq> b"
    "held s' = held s - {b}" "dirty s' = dirty s" "cblock s' = cblock s" "disk s' = disk s"
    "dtrace s' = dtrace s" "woken s' = woken s @ [BufLockChan i]" "mypid s' = mypid s"
    "kio.more s' = kio.more s" "\<And>j c. has s' j c \<longleftrightarrow> has s j c"
proof -
  have i: "has s i b" by (rule mine_has [OF m])
  have len: "length (bufs s) = Suc NBUF" by (rule binv_lruD(1) [OF inv])
  have ok: "buf_ok (disk s) (bufs s ! i)" by (rule binv_lruD(3) [OF inv has_lt [OF i]])
  have lk: "sl_locked (b_lock (bufs s ! i))" using m by (simp add: mine_def holdingsleep_def)
  let ?w = "s\<lparr>woken := woken s @ [BufLockChan i]\<rparr>"
  let ?f = "\<lambda>x. x\<lparr>b_lock := releasesleep (b_lock x), b_refcnt := b_refcnt x - 1\<rparr>"
  let ?u = "upd_buf i ?f ?w"
  have nth: "bufs ?u ! j = (if j = i then ?f (bufs s ! i) else bufs s ! j)" for j
    using len has_lt [OF i] by (simp add: bufs_upd_buf)
  have "b_refcnt (bufs ?u ! i) = 0" using ok lk by (simp add: nth buf_ok_def)
  moreover have "upd_buf i (\<lambda>x. x\<lparr>b_refcnt := b_refcnt x - 1\<rparr>)
      (wake (BufLockChan i) (upd_buf i (\<lambda>x. x\<lparr>b_lock := releasesleep (b_lock x)\<rparr>) s)) = ?u"
    using len has_lt [OF i] by (simp add: upd_buf_def wake_def)
  ultimately have st: "brelse i s = Ok (link_front i (unlink_buf i ?u))"
    using m by (simp add: brelse_def mine_def Let_def)
  note view_woken = view_cong [of ?w s, simplified]
  have inv': "binv_lru xs ?w" and i': "has ?w i b" using inv i by (simp_all add: view_woken)
  have invu: "binv_lru xs ?u"
  proof (rule binv_upd_buf [OF inv' has_lt [OF i]])
    show "buf_ok (disk ?w) (?f (bufs ?w ! i))"
      using ok lk clean has_iffs(1) [OF inv i] cblock_has [OF inv i] i
      by (auto simp: buf_ok_def releasesleep_def has_def)
    show "\<not> has ?w j (b_blockno (?f (bufs ?w ! i)))" if "j \<noteq> i" for j
      using binv_lruD(4) [OF inv i, of j] i that by (auto simp: has_def)
  qed simp_all
  note v = view_upd_same [OF inv' i' _ _ invu]
  have "lru xs ?u" by (rule binv_lruD(2) [OF invu])
  then have mf: "lru (i # remove1 i xs) (link_front i (unlink_buf i ?u))"
    "core_buf (bufs (link_front i (unlink_buf i ?u)) ! j) = core_buf (bufs ?u ! j)"
    "only_bufs ?u (link_front i (unlink_buf i ?u))" for j
    using lru_move_front [of ?u xs i] len has_lt [OF i] by simp_all
  note r = view_relink [OF invu mf(3,2,1)] and only = only_bufsD [OF mf(3)]
  show thesis
  proof (rule that [OF st r(1)])
    have hu: "has ?u j c \<longleftrightarrow> has s j c" for j c using v(1) [of j c] by (simp add: view_woken)
    show "has (link_front i (unlink_buf i ?u)) j c \<longleftrightarrow> has s j c" for j c
      unfolding r(2) by (rule hu)
    have u: "has s j b \<longleftrightarrow> j = i" and u2: "has s i c \<longleftrightarrow> c = b" for j c
      using i binv_lruD(4) [OF inv] by (blast, auto simp: has_def)
    have "mine ?u j c \<longleftrightarrow> mine s j c \<and> c \<noteq> b" for j c
      unfolding mine_def hu nth using u u2 by (auto simp: holdingsleep_def releasesleep_def)
    then show "mine (link_front i (unlink_buf i ?u)) j c \<longleftrightarrow> mine s j c \<and> c \<noteq> b" for j c
      by (simp add: r(3))
    show "held (link_front i (unlink_buf i ?u)) = held s - {b}"
      using v(3) unfolding r(4) by (simp add: releasesleep_def view_woken)
    show "dirty (link_front i (unlink_buf i ?u)) = dirty s"
      using v(4) has_iffs(1) [OF inv i] unfolding r(5) by (auto simp: view_woken)
    show "cblock (link_front i (unlink_buf i ?u)) = cblock s"
      using v(2) cblock_has [OF inv i] unfolding r(6) by (auto simp: view_woken)
  qed (simp_all add: only)
qed

section \<open>Initialisation\<close>

definition zero_buf :: buf where
  "zero_buf = \<lparr>b_valid = False, b_dirty = False, b_dev = 0, b_blockno = 0,
     b_lock = zero_sleeplock, b_refcnt = 0, b_prev = 0, b_next = 0, b_data = replicate BSIZE 0\<rparr>"

text \<open>The state at boot: the static buffers are zero.\<close>

definition boot_kio :: "block list \<Rightarrow> kio" where
  "boot_kio d = \<lparr>disk = d, bufs = replicate (Suc NBUF) zero_buf, mypid = 1, woken = [],
     dtrace = []\<rparr>"

definition fresh_buf :: "buf \<Rightarrow> bool" where
  "fresh_buf x \<longleftrightarrow> \<not> b_valid x \<and> \<not> b_dirty x \<and> b_dev x = 0 \<and> b_refcnt x = 0 \<and>
     \<not> sl_locked (b_lock x)"

lemma binit_prefix:
  assumes "length (bufs s) = Suc NBUF" "\<forall>j < NBUF. fresh_buf (bufs s ! j)" "k \<le> NBUF"
  defines "t \<equiv> fold binit_one [0..<k] (upd_buf NBUF (\<lambda>x. x\<lparr>b_prev := NBUF, b_next := NBUF\<rparr>) s)"
  shows "dseg (buf_nx t) (buf_pv t) NBUF (rev [0..<k]) NBUF \<and> only_bufs s t \<and>
    (\<forall>j < NBUF. fresh_buf (bufs t ! j))"
  using assms(3) unfolding t_def
proof (induction k)
  case 0
  then show ?case
    using assms(1,2) by (auto simp: buf_nx_def buf_pv_def bufs_upd_buf)
next
  case (Suc k)
  let ?t = "fold binit_one [0..<k] (upd_buf NBUF (\<lambda>x. x\<lparr>b_prev := NBUF, b_next := NBUF\<rparr>) s)"
  let ?l = "upd_buf k (\<lambda>x. x\<lparr>b_lock := initsleeplock (b_lock x) ''buffer''\<rparr>) ?t"
  have ih: "dseg (buf_nx ?t) (buf_pv ?t) NBUF (rev [0..<k]) NBUF" "only_bufs s ?t"
    "\<forall>j < NBUF. fresh_buf (bufs ?t ! j)" using Suc by simp_all
  have len: "length (bufs ?t) = Suc NBUF" using only_bufsD(6) [OF ih(2)] assms(1) by simp
  have k: "k < NBUF" using Suc.prems by simp
  have nx: "buf_nx ?l = buf_nx ?t" "buf_pv ?l = buf_pv ?t"
    using len k by (auto simp: buf_nx_def buf_pv_def bufs_upd_buf)
  have seg: "dseg (buf_nx ?l) (buf_pv ?l) NBUF (rev [0..<k]) NBUF" using ih(1) by (simp add: nx)
  have "buf_nx ?l NBUF = hd (rev [0..<k] @ [NBUF])" by (rule dseg_first [OF seg])
  then have "buf_nx ?l NBUF \<in> insert NBUF {..<k}" by (cases k) auto
  then have n: "buf_nx ?l NBUF < Suc NBUF" "buf_nx ?l NBUF \<noteq> k" using k by auto
  have lenl: "length (bufs ?l) = Suc NBUF" using len by simp
  note lf = link_front_effect [OF lenl k n]
  have step: "fold binit_one [0..<Suc k] (upd_buf NBUF (\<lambda>x. x\<lparr>b_prev := NBUF, b_next := NBUF\<rparr>) s)
      = link_front k ?l" by (simp add: binit_one_def)
  have "dseg (buf_nx (link_front k ?l)) (buf_pv (link_front k ?l)) NBUF (k # rev [0..<k]) NBUF"
    unfolding lf(1,2) by (rule dseg_insert [OF seg]) (use k in auto)
  moreover have "only_bufs s (link_front k ?l)"
    by (rule only_bufs_trans [OF only_bufs_trans [OF ih(2) only_bufs_upd_buf] lf(4)])
  moreover have "fresh_buf (bufs (link_front k ?l) ! j)" if "j < NBUF" for j
    using ih(3) that len k core_buf_cong [OF lf(3) [of j]]
    by (auto simp: fresh_buf_def bufs_upd_buf initsleeplock_def)
  ultimately show ?case unfolding step by simp
qed

lemma binit_inv:
  assumes "length (bufs s) = Suc NBUF" "\<forall>j < NBUF. fresh_buf (bufs s ! j)"
  shows "binv_lru (rev [0..<NBUF]) (binit s)" "held (binit s) = {}" "dirty (binit s) = {}"
    "cblock (binit s) b = disk s ! unat b" "only_bufs s (binit s)"
proof -
  note p = binit_prefix [OF assms le_refl, folded binit_def]
  have only: "only_bufs s (binit s)" and fr: "\<And>j. j < NBUF \<Longrightarrow> fresh_buf (bufs (binit s) ! j)"
    and seg: "dseg (buf_nx (binit s)) (buf_pv (binit s)) NBUF (rev [0..<NBUF]) NBUF"
    using p by auto
  have nh: "\<not> has (binit s) i b" for i b using fr by (auto simp: has_def fresh_buf_def)
  have "lru (rev [0..<NBUF]) (binit s)" using seg by (auto simp: lru_def)
  moreover have "length (bufs (binit s)) = Suc NBUF" using only_bufsD(6) [OF only] assms(1) by simp
  moreover have "buf_ok (disk (binit s)) (bufs (binit s) ! j)" if "j < NBUF" for j
    using fr [OF that] by (auto simp: fresh_buf_def buf_ok_def)
  ultimately show "binv_lru (rev [0..<NBUF]) (binit s)" by (auto simp: binv_lru_def nh)
  show "held (binit s) = {}" "dirty (binit s) = {}" by (simp_all add: held_def dirty_def nh)
  show "cblock (binit s) b = disk s ! unat b"
    using cblock_not_has [OF nh, of b] only_bufsD(1) [OF only] by simp
  show "only_bufs s (binit s)" by (rule only)
qed

lemma boot_bufs_fresh:
  "length (bufs (boot_kio d)) = Suc NBUF" "\<forall>j < NBUF. fresh_buf (bufs (boot_kio d) ! j)"
proof -
  show "length (bufs (boot_kio d)) = Suc NBUF" by (simp add: boot_kio_def)
  have "fresh_buf zero_buf" by (simp add: fresh_buf_def zero_buf_def zero_sleeplock_def)
  then show "\<forall>j < NBUF. fresh_buf (bufs (boot_kio d) ! j)"
    by (simp add: boot_kio_def nth_Cons' del: replicate_Suc) 
qed

section \<open>The rules the layers above use\<close>

text \<open>
  The same facts without the order of the list, as the log and the file system use them.
\<close>

lemma binvI [intro]: "binv_lru xs s \<Longrightarrow> binv s"
  by (auto simp: binv_def)

lemma bread_ok:
  assumes "binv s" "unat b < length (disk s)" "b \<notin> held s"
    "b \<in> dirty s \<or> card (held s \<union> dirty s) < NBUF"
  obtains i s' where "bread 1 b s = Ok (i, s')" "mine s' i b" "binv s'"
    "held s' = insert b (held s)" "dirty s' = dirty s" "cblock s' = cblock s" "only_bufs s s'"
    "\<forall>j c. mine s j c \<longrightarrow> mine s' j c" "b_data (bufs s' ! i) = cblock s b"
proof -
  from assms(1) obtain xs where inv: "binv_lru xs s" by (auto simp: binv_def)
  obtain i s' where r: "bread 1 b s = Ok (i, s')" "mine s' i b" "binv_lru xs s'"
    "held s' = insert b (held s)" "dirty s' = dirty s" "cblock s' = cblock s" "only_bufs s s'"
    "\<And>j. j \<noteq> i \<Longrightarrow> bufs s' ! j = bufs s ! j" "\<not> sl_locked (b_lock (bufs s ! i))"
    using bread_lru [OF inv assms(2-4)] by metis
  have "mine s' j c" if "mine s j c" for j c
  proof -
    have "j \<noteq> i" using that r(9) by (auto simp: mine_def holdingsleep_def)
    with r(8) [of j] that only_bufsD(2) [OF r(7)] show ?thesis by (auto simp: mine_def has_def)
  qed
  moreover have "b_data (bufs s' ! i) = cblock s b"
    using cblock_has [OF r(3) mine_has [OF r(2)]] r(6) by simp
  ultimately show thesis using that r binvI by (metis (no_types))
qed

lemma mine_data:
  assumes "binv s" "mine s i b"
  shows "b_data (bufs s ! i) = cblock s b" "b_blockno (bufs s ! i) = b" "unat b < length (disk s)"
    "i < length (bufs s)"
proof -
  from assms(1) obtain xs where inv: "binv_lru xs s" by (auto simp: binv_def)
  note i = mine_has [OF assms(2)]
  show "b_data (bufs s ! i) = cblock s b" using cblock_has [OF inv i] by simp
  show "b_blockno (bufs s ! i) = b" using i by (simp add: has_def)
  show "unat b < length (disk s)"
    using binv_lruD(3) [OF inv has_lt [OF i]] i by (auto simp: buf_ok_def has_def)
  show "i < length (bufs s)" using has_lt [OF i] binv_lruD(1) [OF inv] by simp
qed

lemma store_ok:
  fixes d :: block
  assumes "binv s" "mine s i b"
  defines "s' \<equiv> upd_buf i (\<lambda>x. x\<lparr>b_data := d\<rparr>) s"
  shows "binv s'" "mine s' = mine s" "held s' = held s" "dirty s' = dirty s"
    "cblock s' = (cblock s)(b := d)" "only_bufs s s'"
proof -
  from assms(1) obtain xs where inv: "binv_lru xs s" by (auto simp: binv_def)
  note st = store_lru [OF inv assms(2), of d, folded s'_def]
  show "binv s'" "held s' = held s" "dirty s' = dirty s" "cblock s' = (cblock s)(b := d)"
    using st by blast+
  show "mine s' = mine s" by (intro ext) (rule st(2))
  show "only_bufs s s'" by (simp add: s'_def)
qed

lemma pin_ok:
  assumes "binv s" "mine s i b"
  defines "s' \<equiv> upd_buf i (\<lambda>x. x\<lparr>b_dirty := True\<rparr>) s"
  shows "binv s'" "mine s' = mine s" "held s' = held s" "dirty s' = insert b (dirty s)"
    "cblock s' = cblock s" "only_bufs s s'"
proof -
  from assms(1) obtain xs where inv: "binv_lru xs s" by (auto simp: binv_def)
  note st = pin_lru [OF inv assms(2), folded s'_def]
  show "binv s'" "held s' = held s" "dirty s' = insert b (dirty s)" "cblock s' = cblock s"
    using st by blast+
  show "mine s' = mine s" by (intro ext) (rule st(2))
  show "only_bufs s s'" by (simp add: s'_def)
qed

lemma bwrite_ok:
  assumes "binv s" "mine s i b"
  obtains s' where "bwrite i s = Ok s'" "binv s'" "mine s' = mine s" "held s' = held s"
    "dirty s' = dirty s - {b}" "cblock s' = cblock s" "disk s' = (disk s)[unat b := cblock s b]"
    "dtrace s' = dtrace s @ [(b, cblock s b)]" "mypid s' = mypid s" "kio.more s' = kio.more s"
proof -
  from assms(1) obtain xs where inv: "binv_lru xs s" by (auto simp: binv_def)
  show thesis
  proof (rule bwrite_lru [OF inv assms(2)])
    fix s'
    assume "bwrite i s = Ok s'" "binv_lru xs s'" "\<And>j c. mine s' j c \<longleftrightarrow> mine s j c"
      "held s' = held s" "dirty s' = dirty s - {b}" "cblock s' = cblock s"
      "disk s' = (disk s)[unat b := cblock s b]" "dtrace s' = dtrace s @ [(b, cblock s b)]"
      "woken s' = woken s" "mypid s' = mypid s" "kio.more s' = kio.more s"
    then show thesis by (intro that [of s']) auto
  qed
qed

lemma brelse_ok:
  assumes "binv s" "mine s i b" "b \<in> dirty s \<or> cblock s b = disk s ! unat b"
  obtains s' where "brelse i s = Ok s'" "binv s'" "mine s' = (\<lambda>j c. mine s j c \<and> c \<noteq> b)"
    "held s' = held s - {b}" "dirty s' = dirty s" "cblock s' = cblock s" "disk s' = disk s"
    "dtrace s' = dtrace s" "mypid s' = mypid s" "kio.more s' = kio.more s"
proof -
  from assms(1) obtain xs where inv: "binv_lru xs s" by (auto simp: binv_def)
  show thesis
  proof (rule brelse_lru [OF inv assms(2,3)])
    fix s'
    assume "brelse i s = Ok s'" "binv_lru (i # remove1 i xs) s'"
      "\<And>j c. mine s' j c \<longleftrightarrow> mine s j c \<and> c \<noteq> b" "held s' = held s - {b}" "dirty s' = dirty s"
      "cblock s' = cblock s" "disk s' = disk s" "dtrace s' = dtrace s" "mypid s' = mypid s"
      "kio.more s' = kio.more s"
    then show thesis by (intro that [of s']) auto
  qed
qed

section \<open>What the cache promises\<close>

lemma find_rev_last: "find P (rev xs) = Some x \<Longrightarrow> filter P xs \<noteq> [] \<and> x = last (filter P xs)"
  by (induction xs rule: rev_induct) (auto split: if_splits)

text \<open>
  C15: \<^verbatim>\<open>bread\<close> returns: it hands out a buffer locked by the caller that holds the current
  contents of the block, and changes no block's contents. A block that is not cached gets
  the least recently released buffer that is neither referenced nor pinned by the log. It
  needs a block within the disk that nobody holds and fewer than \<open>NBUF\<close> blocks in use.
\<close>

theorem bread_returns_block:
  assumes "binv_lru xs s" "unat b < length (disk s)" "b \<notin> held s"
    "card (held s \<union> dirty s) < NBUF"
  shows "\<exists>i s'. bread 1 b s = Ok (i, s') \<and> b_data (bufs s' ! i) = cblock s b \<and>
    holdingsleep (mypid s) (b_lock (bufs s' ! i)) \<and> binv_lru xs s' \<and> cblock s' = cblock s \<and>
    held s' = insert b (held s) \<and> dirty s' = dirty s \<and>
    ((\<forall>j. \<not> has s j b) \<longrightarrow>
       i = last (filter (\<lambda>j. b_refcnt (bufs s ! j) = 0 \<and> \<not> b_dirty (bufs s ! j)) xs))"
proof -
  obtain i s' where r: "bread 1 b s = Ok (i, s')" "mine s' i b" "binv_lru xs s'"
    "held s' = insert b (held s)" "dirty s' = dirty s" "cblock s' = cblock s" "only_bufs s s'"
    by (rule bread_lru [OF assms(1-3) disjI2 [OF assms(4)]])
  have "b_data (bufs s' ! i) = cblock s b"
    using cblock_has [OF r(3) mine_has [OF r(2)]] r(6) by simp
  moreover have "holdingsleep (mypid s) (b_lock (bufs s' ! i))"
    using r(2) only_bufsD(2) [OF r(7)] by (simp add: mine_def)
  moreover have "i = last (filter (\<lambda>j. b_refcnt (bufs s ! j) = 0 \<and> \<not> b_dirty (bufs s ! j)) xs)"
    if "\<forall>j. \<not> has s j b"
  proof -
    obtain k where k: "find (\<lambda>i. b_refcnt (bufs s ! i) = 0 \<and> \<not> b_dirty (bufs s ! i)) (rev xs) = Some k"
      by (rule free_buffer [OF assms(1,4)])
    have "i = k" using bread_miss [OF assms(1) _ assms(2) k] that r(1) by simp
    with find_rev_last [OF k] show ?thesis by simp
  qed
  ultimately show ?thesis using r by blast
qed

text \<open>
  A disk of \<open>FSSIZE\<close> zero blocks at boot.
\<close>

definition demo_kio :: kio where
  "demo_kio = binit (boot_kio (replicate FSSIZE (replicate BSIZE 0)))"

lemma demo_kio_inv:
  "binv_lru (rev [0..<NBUF]) demo_kio" "held demo_kio = {}" "dirty demo_kio = {}"
  "length (disk demo_kio) = 1000" "unat b < 1000 \<Longrightarrow> cblock demo_kio b = replicate BSIZE 0"
  "mypid demo_kio = 1"
proof -
  note bi = binit_inv [OF boot_bufs_fresh, folded demo_kio_def]
  show "binv_lru (rev [0..<NBUF]) demo_kio" "held demo_kio = {}" "dirty demo_kio = {}"
    unfolding demo_kio_def by (rule binit_inv [OF boot_bufs_fresh])+
  have "only_bufs (boot_kio (replicate FSSIZE (replicate BSIZE 0))) demo_kio"
    unfolding demo_kio_def by (rule binit_inv(5) [OF boot_bufs_fresh])
  from only_bufsD [OF this]
  show "length (disk demo_kio) = 1000" "mypid demo_kio = 1" by (simp_all add: boot_kio_def FSSIZE_def)
  show "cblock demo_kio b = replicate BSIZE 0" if "unat b < 1000"
    unfolding demo_kio_def binit_inv(4) [OF boot_bufs_fresh]
    using that by (simp add: boot_kio_def FSSIZE_def)
qed

theorem bread_returns_block_witness:
  "\<exists>i s'. bread 1 1 demo_kio = Ok (i, s') \<and> b_data (bufs s' ! i) = replicate BSIZE 0"
  using bread_returns_block [OF demo_kio_inv(1), of 1] demo_kio_inv(2,3,4) demo_kio_inv(5) [of 1]
  by (auto simp: param_defs)

text \<open>
  C16: Writing through the cache is durable. Read a block, store new contents, \<^verbatim>\<open>bwrite\<close>
  and \<^verbatim>\<open>brelse\<close>: every step returns, the disk has the new contents at that block and its
  old contents elsewhere, the buffer becomes the most recently used one, and the next
  \<^verbatim>\<open>bread\<close> of the block finds the new contents in the same buffer.
\<close>

theorem bwrite_durable:
  assumes "binv_lru xs s" "unat b < length (disk s)" "b \<notin> held s"
    "card (held s \<union> dirty s) < NBUF"
  shows "\<exists>i s1 s2 s3 s4. bread 1 b s = Ok (i, s1) \<and>
    bwrite i (upd_buf i (\<lambda>x. x\<lparr>b_data := d\<rparr>) s1) = Ok s2 \<and> brelse i s2 = Ok s3 \<and>
    disk s3 = (disk s)[unat b := d] \<and> binv_lru (i # remove1 i xs) s3 \<and> held s3 = held s \<and>
    (\<forall>c. c \<noteq> b \<longrightarrow> cblock s3 c = cblock s c) \<and>
    bread 1 b s3 = Ok (i, s4) \<and> b_data (bufs s4 ! i) = d"
proof -
  obtain i s1 where r: "bread 1 b s = Ok (i, s1)" "mine s1 i b" "binv_lru xs s1"
    "held s1 = insert b (held s)" "dirty s1 = dirty s" "cblock s1 = cblock s" "only_bufs s s1"
    by (rule bread_lru [OF assms(1-3) disjI2 [OF assms(4)]])
  let ?t = "upd_buf i (\<lambda>x. x\<lparr>b_data := d\<rparr>) s1"
  note st = store_lru [OF r(3,2), of d]
  have m: "mine ?t i b" using st(2) r(2) by simp
  obtain s2 where w: "bwrite i ?t = Ok s2" "binv_lru xs s2" "\<And>j c. mine s2 j c \<longleftrightarrow> mine ?t j c"
    "held s2 = held ?t" "dirty s2 = dirty ?t - {b}" "cblock s2 = cblock ?t"
    "disk s2 = (disk ?t)[unat b := cblock ?t b]"
    using bwrite_lru [OF st(1) m] by metis
  have b: "unat b < length (disk s1)" using assms(2) only_bufsD(1) [OF r(7)] by simp
  have d: "cblock s2 b = disk s2 ! unat b" using w(6,7) b st(5) by simp
  have m2: "mine s2 i b" using w(3) m by simp
  obtain s3 where e: "brelse i s2 = Ok s3" "binv_lru (i # remove1 i xs) s3"
    "held s3 = held s2 - {b}" "dirty s3 = dirty s2" "cblock s3 = cblock s2" "disk s3 = disk s2"
    and hs: "has s3 i b"
    using brelse_lru [OF w(2) m2] d mine_has [OF m2] by metis
  have h: "held s3 = held s" using e(3) w(4) st(3) r(4) assms(3) by simp
  then have "\<not> sl_locked (b_lock (bufs s3 ! i))" using assms(3) has_iffs(2) [OF e(2) hs] by simp
  note n = bread_hit [OF e(2) hs this]
  have "b_data (bufs s3 ! i) = d"
    using cblock_has [OF e(2) hs] e(5) w(6) st(5) by simp
  moreover have "i < length (bufs s3)" using has_lt [OF hs] binv_lruD(1) [OF e(2)] by simp
  moreover have "disk s3 = (disk s)[unat b := d]"
    using e(6) w(7) st(5) only_bufsD(1) [OF r(7)] by simp
  moreover have "\<forall>c. c \<noteq> b \<longrightarrow> cblock s3 c = cblock s c" using e(5) w(6) st(5) r(6) by simp
  ultimately show ?thesis
    using r(1) w(1) e(1,2) h n by (auto simp: bufs_upd_buf)
qed

theorem bwrite_durable_witness:
  "\<exists>i s1 s2 s3. bread 1 5 demo_kio = Ok (i, s1) \<and>
    bwrite i (upd_buf i (\<lambda>x. x\<lparr>b_data := replicate BSIZE 7\<rparr>) s1) = Ok s2 \<and> brelse i s2 = Ok s3 \<and>
    disk s3 ! 5 = replicate BSIZE 7"
  using bwrite_durable [OF demo_kio_inv(1), of 5 "replicate BSIZE 7"] demo_kio_inv(2,3,4)
  by (fastforce simp: param_defs)

end
