(* ===== verification/Disk_Layout.thy ===== *)
theory Disk_Layout
  imports Bio Kstring
begin

text \<open>
  The on-disk format of the file system (\<^verbatim>\<open>fs.h\<close>): the super block, inodes and
  directory entries as the bytes the kernel reads and writes through casts of
  \<^verbatim>\<open>bp->data\<close>. Integers are little-endian, \<^verbatim>\<open>short\<close> fields are 16-bit words. Reading
  and writing part of a block are \<open>getn\<close> and \<open>putn\<close>; the lemmas say that what is written
  is read back and that disjoint parts do not interfere.
\<close>

section \<open>Parts of a block\<close>

definition getn :: "uchar list \<Rightarrow> nat \<Rightarrow> nat \<Rightarrow> uchar list" where
  "getn d off n = take n (drop off d)"

definition putn :: "uchar list \<Rightarrow> nat \<Rightarrow> uchar list \<Rightarrow> uchar list" where
  "putn d off bs = take off d @ bs @ drop (off + length bs) d"

lemma length_getn [simp]: "off + n \<le> length d \<Longrightarrow> length (getn d off n) = n"
  by (simp add: getn_def)

lemma length_putn [simp]: "off + length bs \<le> length d \<Longrightarrow> length (putn d off bs) = length d"
  by (simp add: putn_def)

lemma nth_getn: "off + n \<le> length d \<Longrightarrow> i < n \<Longrightarrow> getn d off n ! i = d ! (off + i)"
  by (simp add: getn_def)

lemma nth_putn:
  assumes "off + length bs \<le> length d" "i < length d"
  shows "putn d off bs ! i =
    (if off \<le> i \<and> i < off + length bs then bs ! (i - off) else d ! i)"
  using assms by (auto simp: putn_def nth_append min_def)

lemma getn_putn_same: "off + length bs \<le> length d \<Longrightarrow> getn (putn d off bs) off (length bs) = bs"
  by (simp add: getn_def putn_def min_def)

lemma getn_putn_part:
  assumes "off + length bs \<le> length d" "off \<le> o'" "o' + n \<le> off + length bs"
  shows "getn (putn d off bs) o' n = getn bs (o' - off) n"
  using assms by (intro nth_equalityI) (auto simp: nth_getn nth_putn)

lemma getn_putn_other:
  assumes "off + length bs \<le> length d" "o' + n \<le> length d" "o' + n \<le> off \<or> off + length bs \<le> o'"
  shows "getn (putn d off bs) o' n = getn d o' n"
  using assms by (intro nth_equalityI) (auto simp: nth_getn nth_putn)

lemma putn_getn: "off + n \<le> length d \<Longrightarrow> putn d off (getn d off n) = d"
  by (intro nth_equalityI) (auto simp: nth_putn nth_getn)

section \<open>Integers\<close>

definition bytes16 :: "ushort \<Rightarrow> uchar list" where
  "bytes16 v = [ucast v, ucast (drop_bit 8 v)]"

definition word16 :: "uchar list \<Rightarrow> ushort" where
  "word16 bs = ucast (bs ! 0) OR push_bit 8 (ucast (bs ! 1))"

definition bytes32 :: "uint \<Rightarrow> uchar list" where
  "bytes32 v = [ucast v, ucast (drop_bit 8 v), ucast (drop_bit 16 v), ucast (drop_bit 24 v)]"

definition word32 :: "uchar list \<Rightarrow> uint" where
  "word32 bs = ucast (bs ! 0) OR push_bit 8 (ucast (bs ! 1)) OR push_bit 16 (ucast (bs ! 2))
     OR push_bit 24 (ucast (bs ! 3))"

lemma length_bytes [simp]: "length (bytes16 h) = 2" "length (bytes32 v) = 4"
  by (simp_all add: bytes16_def bytes32_def)

lemma word32_bytes32 [simp]: "word32 (bytes32 v) = v"
  using bytes_of_word [of v] by (simp add: word32_def bytes32_def numeral_2_eq_2 numeral_3_eq_3)

lemma word16_bytes16 [simp]: "word16 (bytes16 v) = v"
proof -
  have "ucast (ucast v :: uchar) OR push_bit 8 (ucast (ucast (drop_bit 8 v) :: uchar)) = (v :: ushort)"
  proof (rule bit_word_eqI)
    fix n assume "n < LENGTH(16)"
    then have "n < 8 \<or> 8 \<le> n \<and> n < 16" by auto
    then show "bit (ucast (ucast v :: uchar) OR push_bit 8 (ucast (ucast (drop_bit 8 v) :: uchar)) :: ushort) n
        = bit v n"
      by (elim disjE; simp add: bit_or_iff bit_push_bit_iff bit_ucast_iff bit_drop_bit_eq; auto)
  qed
  then show ?thesis by (simp add: word16_def bytes16_def)
qed

definition get32 :: "uchar list \<Rightarrow> nat \<Rightarrow> uint" where
  "get32 d off = word32 (getn d off 4)"

definition put32 :: "uchar list \<Rightarrow> nat \<Rightarrow> uint \<Rightarrow> uchar list" where
  "put32 d off v = putn d off (bytes32 v)"

definition get16 :: "uchar list \<Rightarrow> nat \<Rightarrow> ushort" where
  "get16 d off = word16 (getn d off 2)"

lemma length_put32 [simp]: "off + 4 \<le> length d \<Longrightarrow> length (put32 d off v) = length d"
  by (simp add: put32_def)

lemma get32_put32 [simp]: "off + 4 \<le> length d \<Longrightarrow> get32 (put32 d off v) off = v"
  using getn_putn_same [of off "bytes32 v" d] by (simp add: get32_def put32_def)

lemma get32_put32_other:
  "off + 4 \<le> length d \<Longrightarrow> o' + 4 \<le> length d \<Longrightarrow> o' + 4 \<le> off \<or> off + 4 \<le> o' \<Longrightarrow>
     get32 (put32 d off v) o' = get32 d o'"
  by (simp add: get32_def put32_def getn_putn_other)

section \<open>The super block\<close>

record superblock =
  sb_size :: uint         \<comment> \<open>Size of file system image (blocks)\<close>
  sb_nblocks :: uint      \<comment> \<open>Number of data blocks\<close>
  sb_ninodes :: uint      \<comment> \<open>Number of inodes\<close>
  sb_nlog :: uint         \<comment> \<open>Number of log blocks\<close>
  sb_logstart :: uint     \<comment> \<open>Block number of first log block\<close>
  sb_inodestart :: uint   \<comment> \<open>Block number of first inode block\<close>
  sb_bmapstart :: uint    \<comment> \<open>Block number of first free map block\<close>

definition superblock_of :: "uchar list \<Rightarrow> superblock" where
  "superblock_of d = \<lparr>sb_size = get32 d 0, sb_nblocks = get32 d 4, sb_ninodes = get32 d 8,
     sb_nlog = get32 d 12, sb_logstart = get32 d 16, sb_inodestart = get32 d 20,
     sb_bmapstart = get32 d 24\<rparr>"

definition readsb :: "uint \<Rightarrow> 'a kio_scheme \<Rightarrow> (superblock \<times> 'a kio_scheme) res" where
  "readsb dev s =
     bindR (bread dev 1 s) (\<lambda>(bp, s1).
     let sb = superblock_of (b_data (bufs s1 ! bp)) in
     bindR (brelse bp s1) (\<lambda>s2. Ok (sb, s2)))"

section \<open>Inodes and directory entries\<close>

definition ROOTINO :: uint where [param_defs]: "ROOTINO = 1"
definition NDIRECT :: nat where [param_defs]: "NDIRECT = 12"
definition NINDIRECT :: nat where [param_defs]: "NINDIRECT = BSIZE div 4"
definition MAXFILE :: nat where [param_defs]: "MAXFILE = NDIRECT + NINDIRECT"
definition IPB :: nat where [param_defs]: "IPB = BSIZE div 64"
definition BPB :: nat where [param_defs]: "BPB = BSIZE * 8"
definition DIRSIZ :: nat where [param_defs]: "DIRSIZ = 14"

definition IBLOCK :: "uint \<Rightarrow> superblock \<Rightarrow> uint" where
  "IBLOCK i sb = i div of_nat IPB + sb_inodestart sb"

definition BBLOCK :: "uint \<Rightarrow> superblock \<Rightarrow> uint" where
  "BBLOCK b sb = b div of_nat BPB + sb_bmapstart sb"

record dinode =
  d_type :: ushort          \<comment> \<open>File type\<close>
  d_major :: ushort         \<comment> \<open>Major device number (T_DEV only)\<close>
  d_minor :: ushort         \<comment> \<open>Minor device number (T_DEV only)\<close>
  d_nlink :: ushort         \<comment> \<open>Number of links to inode in file system\<close>
  d_size :: uint            \<comment> \<open>Size of file (bytes)\<close>
  d_addrs :: "uint list"    \<comment> \<open>Data block addresses\<close>

definition dinode_bytes :: "dinode \<Rightarrow> uchar list" where
  "dinode_bytes di = bytes16 (d_type di) @ bytes16 (d_major di) @ bytes16 (d_minor di) @
     bytes16 (d_nlink di) @ bytes32 (d_size di) @ concat (map bytes32 (d_addrs di))"

definition dinode_of :: "uchar list \<Rightarrow> nat \<Rightarrow> dinode" where
  "dinode_of d off = \<lparr>d_type = get16 d off, d_major = get16 d (off + 2),
     d_minor = get16 d (off + 4), d_nlink = get16 d (off + 6), d_size = get32 d (off + 8),
     d_addrs = map (\<lambda>k. get32 d (off + 12 + 4 * k)) [0..<Suc NDIRECT]\<rparr>"

record dirent =
  de_inum :: ushort
  de_name :: "uchar list"

definition dirent_bytes :: "dirent \<Rightarrow> uchar list" where
  "dirent_bytes de = bytes16 (de_inum de) @ de_name de"

definition dirent_of :: "uchar list \<Rightarrow> dirent" where
  "dirent_of d = \<lparr>de_inum = get16 d 0, de_name = getn d 2 DIRSIZ\<rparr>"

lemma length_dinode_bytes [simp]: "length (d_addrs di) = Suc NDIRECT \<Longrightarrow> length (dinode_bytes di) = 64"
proof -
  have "length (concat (map bytes32 xs)) = 4 * length xs" for xs by (induction xs) auto
  then show "length (d_addrs di) = Suc NDIRECT \<Longrightarrow> length (dinode_bytes di) = 64"
    by (simp add: dinode_bytes_def NDIRECT_def)
qed

lemma length_dirent_bytes [simp]: "length (de_name de) = DIRSIZ \<Longrightarrow> length (dirent_bytes de) = 16"
  by (simp add: dirent_bytes_def DIRSIZ_def)

lemma getn_append_left: "off + n \<le> length xs \<Longrightarrow> getn (xs @ ys) off n = getn xs off n"
  by (simp add: getn_def)

lemma getn_append_right: "length xs \<le> off \<Longrightarrow> getn (xs @ ys) off n = getn ys (off - length xs) n"
  by (simp add: getn_def)

lemma getn_all [simp]: "length d = n \<Longrightarrow> getn d 0 n = d"
  by (simp add: getn_def)

lemma getn_concat_bytes32:
  "k < length xs \<Longrightarrow> getn (concat (map bytes32 xs)) (4 * k) 4 = bytes32 (xs ! k)"
proof (induction xs arbitrary: k)
  case Nil
  then show ?case by simp
next
  case (Cons x xs)
  show ?case
  proof (cases k)
    case 0
    then show ?thesis by (simp add: getn_append_left)
  next
    case (Suc j)
    with Cons show ?thesis by (simp add: getn_append_right)
  qed
qed

text \<open>What is written into a slot of a block is read back from it.\<close>

lemma dirent_roundtrip: "length (de_name de) = DIRSIZ \<Longrightarrow> dirent_of (dirent_bytes de) = de"
  by (simp add: dirent_of_def dirent_bytes_def get16_def getn_append_left getn_append_right)

lemma dinode_roundtrip:
  assumes "length (d_addrs di) = Suc NDIRECT" "off + 64 \<le> length d"
  shows "dinode_of (putn d off (dinode_bytes di)) off = di"
proof -
  let ?b = "dinode_bytes di"
  have len: "length ?b = 64" using assms(1) by simp
  have g: "getn (putn d off ?b) (off + k) n = getn ?b k n" if "k + n \<le> 64" for k n
    using getn_putn_part [of off ?b d "off + k" n] len assms(2) that by simp
  have a: "get32 (putn d off ?b) (off + 12 + 4 * k) = d_addrs di ! k" if "k < Suc NDIRECT" for k
  proof -
    have "getn ?b (12 + 4 * k) 4 = getn (concat (map bytes32 (d_addrs di))) (4 * k) 4"
      by (simp add: dinode_bytes_def getn_append_right)
    also have "\<dots> = bytes32 (d_addrs di ! k)"
      by (rule getn_concat_bytes32) (use that assms(1) in simp)
    finally show ?thesis
      using g [of "12 + 4 * k" 4] that by (simp add: get32_def NDIRECT_def add.assoc)
  qed
  have "map (\<lambda>k. get32 (putn d off ?b) (off + 12 + 4 * k)) [0..<Suc NDIRECT] = d_addrs di"
    using a assms(1) by (intro nth_equalityI) (auto simp: nth_append simp del: upt_Suc)
  then show ?thesis
    using g [of 0 2] g [of 2 2] g [of 4 2] g [of 6 2] g [of 8 4]
    by (simp add: dinode_of_def get16_def get32_def dinode_bytes_def getn_append_left
        getn_append_right)
qed

lemma dinode_of_other:
  assumes "off + length bs \<le> length d" "o' + 64 \<le> length d" "o' + 64 \<le> off \<or> off + length bs \<le> o'"
  shows "dinode_of (putn d off bs) o' = dinode_of d o'"
proof -
  have g: "getn (putn d off bs) (o' + k) n = getn d (o' + k) n" if "k + n \<le> 64" for k n
    using assms that by (intro getn_putn_other) auto
  have "get32 (putn d off bs) (o' + 12 + 4 * k) = get32 d (o' + 12 + 4 * k)" if "k < Suc NDIRECT" for k
    using g [of "12 + 4 * k" 4] that by (simp add: get32_def NDIRECT_def add.assoc)
  then show ?thesis
    using g [of 0 2] g [of 2 2] g [of 4 2] g [of 6 2] g [of 8 4]
    by (simp add: dinode_of_def get16_def get32_def del: upt_Suc)
qed

end
