(* ===== verification/Log.thy ===== *)
theory Log
  imports Disk_Layout
begin

text \<open>
  The write-ahead log (\<^verbatim>\<open>log.c\<close>). The in-memory log extends the state of the buffer
  cache; \<^verbatim>\<open>struct logheader\<close> is the pair of \<open>lh_n\<close> and \<open>lh_block\<close>. Block numbers
  are kept as the 32-bit words that \<^verbatim>\<open>bread\<close> takes. A \<^verbatim>\<open>begin_op\<close> that has to wait is
  the outcome \<^term>\<open>Sleeps\<close>: the process sleeps on the log and tests again when woken.

  The on-disk log is a header block at \<open>log_start\<close> followed by the logged blocks. The
  theory \<^verbatim>\<open>Log_Crash\<close> shows what a crash at any moment of a commit leaves behind, and what
  recovery makes of it.
\<close>

section \<open>Data\<close>

record klog = kio +
  log_start :: uint
  log_size :: int
  log_outstanding :: int     \<comment> \<open>how many FS sys calls are executing\<close>
  log_committing :: bool     \<comment> \<open>in commit(), please wait\<close>
  log_dev :: uint
  lh_n :: int
  lh_block :: "uint list"    \<comment> \<open>LOGSIZE block numbers\<close>

section \<open>Copying blocks between the log and their homes\<close>

text \<open>The body of the loop of \<^verbatim>\<open>install_trans\<close>, and the loop.\<close>

definition install_one :: "nat \<Rightarrow> 'a klog_scheme \<Rightarrow> 'a klog_scheme res" where
  "install_one tail s =
     bindR (bread (log_dev s) (log_start s + of_nat tail + 1) s) (\<lambda>(lbuf, s1).
     bindR (nthR (lh_block s1) tail) (\<lambda>home.
     bindR (bread (log_dev s1) home s1) (\<lambda>(dbuf, s2).
     bindR (bwrite dbuf (upd_buf dbuf (\<lambda>x. x\<lparr>b_data := b_data (bufs s2 ! lbuf)\<rparr>) s2)) (\<lambda>s3.
     bindR (brelse lbuf s3) (\<lambda>s4. brelse dbuf s4)))))"

fun install_loop :: "nat list \<Rightarrow> 'a klog_scheme \<Rightarrow> 'a klog_scheme res" where
  "install_loop [] s = Ok s"
| "install_loop (k # ks) s = bindR (install_one k s) (install_loop ks)"

definition install_trans :: "'a klog_scheme \<Rightarrow> 'a klog_scheme res" where
  "install_trans s = install_loop [0..<nat (lh_n s)] s"

definition write_log_one :: "nat \<Rightarrow> 'a klog_scheme \<Rightarrow> 'a klog_scheme res" where
  "write_log_one tail s =
     bindR (bread (log_dev s) (log_start s + of_nat tail + 1) s) (\<lambda>(to, s1).
     bindR (nthR (lh_block s1) tail) (\<lambda>home.
     bindR (bread (log_dev s1) home s1) (\<lambda>(from, s2).
     bindR (bwrite to (upd_buf to (\<lambda>x. x\<lparr>b_data := b_data (bufs s2 ! from)\<rparr>) s2)) (\<lambda>s3.
     bindR (brelse from s3) (\<lambda>s4. brelse to s4)))))"

fun write_log_loop :: "nat list \<Rightarrow> 'a klog_scheme \<Rightarrow> 'a klog_scheme res" where
  "write_log_loop [] s = Ok s"
| "write_log_loop (k # ks) s = bindR (write_log_one k s) (write_log_loop ks)"

definition write_log :: "'a klog_scheme \<Rightarrow> 'a klog_scheme res" where
  "write_log s = write_log_loop [0..<nat (lh_n s)] s"

section \<open>The header\<close>

text \<open>
  \<^verbatim>\<open>read_head\<close>: a count beyond the array would be written outside of it.
\<close>

definition hdr_n :: "block \<Rightarrow> int" where
  "hdr_n d = sint (get32 d 0)"

definition hdr_block :: "block \<Rightarrow> nat \<Rightarrow> uint" where
  "hdr_block d k = get32 d (4 + 4 * k)"

definition read_head :: "'a klog_scheme \<Rightarrow> 'a klog_scheme res" where
  "read_head s =
     bindR (bread (log_dev s) (log_start s) s) (\<lambda>(buf, s1).
     let lh = b_data (bufs s1 ! buf); n = hdr_n lh in
     if nat n > length (lh_block s1) then Undef
     else brelse buf (s1\<lparr>lh_n := n,
            lh_block := map (hdr_block lh) [0..<nat n] @ drop (nat n) (lh_block s1)\<rparr>))"

fun put_blocks :: "nat \<Rightarrow> uint list \<Rightarrow> block \<Rightarrow> block" where
  "put_blocks k [] d = d"
| "put_blocks k (b # bs) d = put_blocks (Suc k) bs (put32 d (4 + 4 * k) b)"

definition head_data :: "int \<Rightarrow> uint list \<Rightarrow> block \<Rightarrow> block" where
  "head_data n bs d = put_blocks 0 (take (nat n) bs) (put32 d 0 (word_of_int n))"

definition write_head :: "'a klog_scheme \<Rightarrow> 'a klog_scheme res" where
  "write_head s =
     bindR (bread (log_dev s) (log_start s) s) (\<lambda>(buf, s1).
     if nat (lh_n s1) > length (lh_block s1) then Undef
     else bindR (bwrite buf (upd_buf buf
                   (\<lambda>x. x\<lparr>b_data := head_data (lh_n s1) (lh_block s1) (b_data x)\<rparr>) s1)) (\<lambda>s2.
          brelse buf s2))"

section \<open>Recovery, transactions and commit\<close>

definition recover_from_log :: "'a klog_scheme \<Rightarrow> 'a klog_scheme res" where
  "recover_from_log s =
     bindR (read_head s) (\<lambda>s1.
     bindR (install_trans s1) (\<lambda>s2.
     write_head (s2\<lparr>lh_n := 0\<rparr>)))"

definition initlog :: "uint \<Rightarrow> 'a klog_scheme \<Rightarrow> 'a klog_scheme res" where
  "initlog dev s =
     bindR (guardR (4 + 4 * LOGSIZE < BSIZE) ''initlog: too big logheader'') (\<lambda>_.
     bindR (readsb dev s) (\<lambda>(sb, s1).
     recover_from_log (s1\<lparr>log_start := sb_logstart sb, log_size := sint (sb_nlog sb),
                          log_dev := dev\<rparr>)))"

definition begin_op :: "'a klog_scheme \<Rightarrow> 'a klog_scheme res" where
  "begin_op s =
     (if log_committing s then Sleeps
      else if lh_n s + (log_outstanding s + 1) * int MAXOPBLOCKS > int LOGSIZE then Sleeps
      else Ok (s\<lparr>log_outstanding := log_outstanding s + 1\<rparr>))"

definition commit :: "'a klog_scheme \<Rightarrow> 'a klog_scheme res" where
  "commit s =
     (if lh_n s > 0
      then bindR (write_log s) (\<lambda>s1.
           bindR (write_head s1) (\<lambda>s2.
           bindR (install_trans s2) (\<lambda>s3.
           write_head (s3\<lparr>lh_n := 0\<rparr>))))
      else Ok s)"

text \<open>
  \<^verbatim>\<open>end_op\<close>: the critical section that decides, and the commit of the last operation,
  which runs without the lock while \<open>log_committing\<close> keeps the others out.
\<close>

definition end_op_leave :: "'a klog_scheme \<Rightarrow> (bool \<times> 'a klog_scheme) res" where
  "end_op_leave s =
     (let s1 = s\<lparr>log_outstanding := log_outstanding s - 1\<rparr> in
      bindR (guardR (\<not> log_committing s1) ''log.committing'') (\<lambda>_.
      if log_outstanding s1 = 0 then Ok (True, s1\<lparr>log_committing := True\<rparr>)
      else Ok (False, wake LogChan s1)))"

definition end_op :: "'a klog_scheme \<Rightarrow> 'a klog_scheme res" where
  "end_op s =
     bindR (end_op_leave s) (\<lambda>(do_commit, s1).
     if do_commit
     then bindR (commit s1) (\<lambda>s2. Ok (wake LogChan (s2\<lparr>log_committing := False\<rparr>)))
     else Ok s1)"

definition log_write :: "nat \<Rightarrow> 'a klog_scheme \<Rightarrow> 'a klog_scheme res" where
  "log_write b s =
     bindR (guardR (\<not> (lh_n s \<ge> int LOGSIZE \<or> lh_n s \<ge> log_size s - 1))
              ''too big a transaction'') (\<lambda>_.
     bindR (guardR (\<not> log_outstanding s < 1) ''log_write outside of trans'') (\<lambda>_.
     let bno = b_blockno (bufs s ! b); n = nat (lh_n s);
         i = (case find_index (\<lambda>c. c = bno) (take n (lh_block s)) of Some i \<Rightarrow> i | None \<Rightarrow> n);
         s1 = s\<lparr>lh_block := (lh_block s)[i := bno]\<rparr>;
         s2 = (if int i = lh_n s1 then s1\<lparr>lh_n := lh_n s1 + 1\<rparr> else s1) in
     Ok (upd_buf b (\<lambda>x. x\<lparr>b_dirty := True\<rparr>) s2)))"

section \<open>One block copied\<close>

lemma two_reads:
  assumes "binv s" "held s = {}" "a \<noteq> b" "unat a < length (disk s)" "unat b < length (disk s)"
    "card (dirty s) < NBUF" "b \<in> dirty s \<or> card (dirty s) + 1 < NBUF"
  obtains i s1 j s2 where "bread 1 a s = Ok (i, s1)" "bread 1 b s1 = Ok (j, s2)" "only_bufs s s1"
    "only_bufs s1 s2" "binv s2" "mine s2 i a" "mine s2 j b" "held s2 = {a, b}"
    "dirty s2 = dirty s" "cblock s2 = cblock s"
proof -
  have pre: "a \<notin> held s" "a \<in> dirty s \<or> card (held s \<union> dirty s) < NBUF"
    using assms(2,6) by simp_all
  obtain i s1 where r: "bread 1 a s = Ok (i, s1)" "mine s1 i a" "binv s1"
    "held s1 = insert a (held s)" "dirty s1 = dirty s" "cblock s1 = cblock s" "only_bufs s s1"
    by (rule bread_ok [OF assms(1,4) pre])
  have "card (held s1 \<union> dirty s1) \<le> card (dirty s) + 1"
    unfolding r(4,5) assms(2) by (simp add: card_insert_if)
  then have room: "b \<in> dirty s1 \<or> card (held s1 \<union> dirty s1) < NBUF"
    using assms(7) unfolding r(5) by linarith
  have bd: "unat b < length (disk s1)" "b \<notin> held s1"
    using assms(2,3,5) r(4) only_bufsD(1) [OF r(7)] by auto
  obtain j s2 where q: "bread 1 b s1 = Ok (j, s2)" "mine s2 j b" "binv s2"
    "held s2 = insert b (held s1)" "dirty s2 = dirty s1" "cblock s2 = cblock s1" "only_bufs s1 s2"
    and keep: "\<forall>k c. mine s1 k c \<longrightarrow> mine s2 k c"
    by (rule bread_ok [OF r(3) bd room])
  show thesis
    by (rule that [OF r(1) q(1) r(7) q(7) q(3) keep [rule_format, OF r(2)] q(2)])
      (use q(4-6) r(4-6) assms(2) in auto)
qed

lemma finish_copy:
  assumes inv: "binv s" and src: "mine s i a" and dst: "mine s j b" and ne: "a \<noteq> b"
    and h: "held s = {a, b}" and c: "a \<in> dirty s \<or> cblock s a = disk s ! unat a"
  obtains s1 s2 s3 where
    "bwrite j (upd_buf j (\<lambda>x. x\<lparr>b_data := b_data (bufs s ! i)\<rparr>) s) = Ok s1"
    "brelse i s1 = Ok s2" "brelse j s2 = Ok s3" "binv s3" "held s3 = {}"
    "dirty s3 = dirty s - {b}" "cblock s3 = (cblock s)(b := cblock s a)"
    "disk s3 = (disk s)[unat b := cblock s a]" "dtrace s3 = dtrace s @ [(b, cblock s a)]"
    "mypid s3 = mypid s" "kio.more s3 = kio.more s"
proof -
  let ?t = "upd_buf j (\<lambda>x. x\<lparr>b_data := b_data (bufs s ! i)\<rparr>) s"
  note st = store_ok [OF inv dst, of "b_data (bufs s ! i)", unfolded mine_data(1) [OF inv src]]
  have t: "?t = upd_buf j (\<lambda>x. x\<lparr>b_data := cblock s a\<rparr>) s"
    by (simp only: mine_data(1) [OF inv src])
  have mt: "mine ?t j b" using st(2) dst unfolding t by simp
  obtain s1 where w: "bwrite j ?t = Ok s1" "binv s1" "mine s1 = mine ?t" "held s1 = held ?t"
    "dirty s1 = dirty ?t - {b}" "cblock s1 = cblock ?t" "disk s1 = (disk ?t)[unat b := cblock ?t b]"
    "dtrace s1 = dtrace ?t @ [(b, cblock ?t b)]" "mypid s1 = mypid ?t" "kio.more s1 = kio.more ?t"
    by (rule bwrite_ok [OF st(1) [folded t] mt])
  have m1: "mine s1 i a" "mine s1 j b" using w(3) st(2) src dst unfolding t by simp_all
  have ca: "a \<in> dirty s1 \<or> cblock s1 a = disk s1 ! unat a"
    using c ne w(5-7) st(4,5) unfolding t by auto
  obtain s2 where e: "brelse i s1 = Ok s2" "binv s2" "mine s2 = (\<lambda>j c. mine s1 j c \<and> c \<noteq> a)"
    "held s2 = held s1 - {a}" "dirty s2 = dirty s1" "cblock s2 = cblock s1" "disk s2 = disk s1"
    "dtrace s2 = dtrace s1" "mypid s2 = mypid s1" "kio.more s2 = kio.more s1"
    by (rule brelse_ok [OF w(2) m1(1) ca])
  have m2: "mine s2 j b" using e(3) m1 ne by simp
  have cb: "b \<in> dirty s2 \<or> cblock s2 b = disk s2 ! unat b"
    using e(6,7) w(6,7) mine_data(3) [OF inv dst] by simp
  obtain s3 where f: "brelse j s2 = Ok s3" "binv s3" "held s3 = held s2 - {b}"
    "dirty s3 = dirty s2" "cblock s3 = cblock s2" "disk s3 = disk s2" "dtrace s3 = dtrace s2"
    "mypid s3 = mypid s2" "kio.more s3 = kio.more s2"
    by (rule brelse_ok [OF e(2) m2 cb])
  show thesis
  proof (rule that [OF w(1) e(1) f(1,2)])
    show "held s3 = {}" using f(3) e(4) w(4) st(3) h unfolding t by auto
    show "dirty s3 = dirty s - {b}" using f(4) e(5) w(5) st(4) unfolding t by simp
    show "cblock s3 = (cblock s)(b := cblock s a)" using f(5) e(6) w(6) st(5) unfolding t by simp
    show "disk s3 = (disk s)[unat b := cblock s a]" using f(6) e(7) w(7) st(5) unfolding t by simp
    show "dtrace s3 = dtrace s @ [(b, cblock s a)]" using f(7) e(8) w(8) st(5) unfolding t by simp
  qed (use f(8,9) e(9,10) w(9,10) in simp_all)
qed
section \<open>The two loops\<close>

lemma klog_more_cong:
  assumes "kio.more s' = kio.more s"
  shows "log_start s' = log_start s" "log_size s' = log_size s" "log_dev s' = log_dev s"
    "lh_n s' = lh_n s" "lh_block s' = lh_block s" "log_outstanding s' = log_outstanding s"
    "log_committing s' = log_committing s" "klog.more s' = klog.more s"
  using assms by (cases s; cases s'; simp)+

abbreviation logblk :: "'a klog_scheme \<Rightarrow> nat \<Rightarrow> uint" where
  "logblk s k \<equiv> log_start s + of_nat k + 1"

abbreviation home :: "'a klog_scheme \<Rightarrow> nat \<Rightarrow> uint" where
  "home s k \<equiv> lh_block s ! k"

lemma install_one_ok:
  assumes "binv s" "held s = {}" "log_dev s = 1" "k < length (lh_block s)"
    "logblk s k \<noteq> home s k" "unat (logblk s k) < length (disk s)" "unat (home s k) < length (disk s)"
    "logblk s k \<notin> dirty s" "card (dirty s) < NBUF"
    "home s k \<in> dirty s \<or> card (dirty s) + 1 < NBUF"
  obtains s' where "install_one k s = Ok s'" "binv s'" "held s' = {}"
    "dirty s' = dirty s - {home s k}" "cblock s' = (cblock s)(home s k := cblock s (logblk s k))"
    "disk s' = (disk s)[unat (home s k) := cblock s (logblk s k)]"
    "dtrace s' = dtrace s @ [(home s k, cblock s (logblk s k))]"
    "mypid s' = mypid s" "kio.more s' = kio.more s"
proof -
  obtain i s1 j s2 where r: "bread 1 (logblk s k) s = Ok (i, s1)" "bread 1 (home s k) s1 = Ok (j, s2)"
    "only_bufs s s1" "only_bufs s1 s2" "binv s2" "mine s2 i (logblk s k)" "mine s2 j (home s k)"
    "held s2 = {logblk s k, home s k}" "dirty s2 = dirty s" "cblock s2 = cblock s"
    by (rule two_reads [OF assms(1,2,5,6,7,9,10)])
  note m1 = klog_more_cong [OF only_bufsD(5) [OF r(3)]]
  have only: "only_bufs s s2" by (rule only_bufs_trans [OF r(3,4)])
  have "cblock s (logblk s k) = disk s ! unat (logblk s k)"
    by (rule cblock_clean [OF assms(1)]) (use assms(2,8) in simp_all)
  then have c: "logblk s k \<in> dirty s2 \<or> cblock s2 (logblk s k) = disk s2 ! unat (logblk s k)"
    unfolding r(10) only_bufsD(1) [OF only] by simp
  obtain s3 s4 s5 where w: "bwrite j (upd_buf j (\<lambda>x. x\<lparr>b_data := b_data (bufs s2 ! i)\<rparr>) s2) = Ok s3"
    "brelse i s3 = Ok s4" "brelse j s4 = Ok s5" "binv s5" "held s5 = {}"
    "dirty s5 = dirty s2 - {home s k}" "cblock s5 = (cblock s2)(home s k := cblock s2 (logblk s k))"
    "disk s5 = (disk s2)[unat (home s k) := cblock s2 (logblk s k)]"
    "dtrace s5 = dtrace s2 @ [(home s k, cblock s2 (logblk s k))]"
    "mypid s5 = mypid s2" "kio.more s5 = kio.more s2"
    by (rule finish_copy [OF r(5,6,7) assms(5) r(8) c])
  have st: "install_one k s = Ok s5"
    using r(1,2) w(1-3) assms(3,4) by (simp add: install_one_def m1)
  show thesis
    by (rule that [OF st w(4,5) w(6-11) [unfolded r(9,10) only_bufsD [OF only]]])
qed

lemma write_log_one_ok:
  assumes "binv s" "held s = {}" "log_dev s = 1" "k < length (lh_block s)"
    "logblk s k \<noteq> home s k" "unat (logblk s k) < length (disk s)" "unat (home s k) < length (disk s)"
    "home s k \<in> dirty s" "logblk s k \<notin> dirty s" "card (dirty s) < NBUF"
  obtains s' where "write_log_one k s = Ok s'" "binv s'" "held s' = {}"
    "dirty s' = dirty s" "cblock s' = (cblock s)(logblk s k := cblock s (home s k))"
    "disk s' = (disk s)[unat (logblk s k) := cblock s (home s k)]"
    "dtrace s' = dtrace s @ [(logblk s k, cblock s (home s k))]"
    "mypid s' = mypid s" "kio.more s' = kio.more s"
proof -
  obtain i s1 j s2 where r: "bread 1 (logblk s k) s = Ok (i, s1)" "bread 1 (home s k) s1 = Ok (j, s2)"
    "only_bufs s s1" "only_bufs s1 s2" "binv s2" "mine s2 i (logblk s k)" "mine s2 j (home s k)"
    "held s2 = {logblk s k, home s k}" "dirty s2 = dirty s" "cblock s2 = cblock s"
    by (rule two_reads [OF assms(1,2,5,6,7,10) disjI1 [OF assms(8)]])
  note m1 = klog_more_cong [OF only_bufsD(5) [OF r(3)]]
  have only: "only_bufs s s2" by (rule only_bufs_trans [OF r(3,4)])
  have c: "home s k \<in> dirty s2 \<or> cblock s2 (home s k) = disk s2 ! unat (home s k)"
    using assms(8) unfolding r(9) by blast
  have h: "held s2 = {home s k, logblk s k}" unfolding r(8) by blast
  obtain s3 s4 s5 where w: "bwrite i (upd_buf i (\<lambda>x. x\<lparr>b_data := b_data (bufs s2 ! j)\<rparr>) s2) = Ok s3"
    "brelse j s3 = Ok s4" "brelse i s4 = Ok s5" "binv s5" "held s5 = {}"
    "dirty s5 = dirty s2 - {logblk s k}"
    "cblock s5 = (cblock s2)(logblk s k := cblock s2 (home s k))"
    "disk s5 = (disk s2)[unat (logblk s k) := cblock s2 (home s k)]"
    "dtrace s5 = dtrace s2 @ [(logblk s k, cblock s2 (home s k))]"
    "mypid s5 = mypid s2" "kio.more s5 = kio.more s2"
    by (rule finish_copy [OF r(5,7,6) not_sym [OF assms(5)] h c])
  have st: "write_log_one k s = Ok s5"
    using r(1,2) w(1-3) assms(3,4) by (simp add: write_log_one_def m1)
  have d: "dirty s5 = dirty s" using assms(9) unfolding w(6) r(9) by blast
  show thesis
    by (rule that [OF st w(4,5) d w(7-11) [unfolded r(9,10) only_bufsD [OF only]]])
qed

text \<open>
  A transaction of \<open>n\<close> blocks that fits: the log blocks and the homes are on the disk, no
  home is a block of the log, no block is logged twice.
\<close>

definition log_wf :: "nat \<Rightarrow> 'a klog_scheme \<Rightarrow> bool" where
  "log_wf n s \<longleftrightarrow> log_dev s = 1 \<and> n \<le> length (lh_block s) \<and> n < NBUF \<and>
     length (disk s) \<le> 2 ^ 32 \<and> unat (log_start s) + n < length (disk s) \<and>
     distinct (take n (lh_block s)) \<and>
     (\<forall>k < n. unat (home s k) < length (disk s) \<and>
        (unat (home s k) < unat (log_start s) \<or> unat (log_start s) + n < unat (home s k)))"

definition apply_writes :: "(uint \<times> block) list \<Rightarrow> block list \<Rightarrow> block list" where
  "apply_writes ws d = foldl (\<lambda>d (b, x). d[unat b := x]) d ws"

lemma apply_writes_simps [simp]:
  "apply_writes [] d = d" "apply_writes ((b, x) # ws) d = apply_writes ws (d[unat b := x])"
  "apply_writes (ws @ vs) d = apply_writes vs (apply_writes ws d)"
  "length (apply_writes ws d) = length d"
proof -
  show "length (apply_writes ws d) = length d"
    by (induction ws arbitrary: d) (auto simp: apply_writes_def)
qed (simp_all add: apply_writes_def)

lemma log_wf_cong:
  assumes "kio.more s' = kio.more s" "length (disk s') = length (disk s)"
  shows "log_wf n s' = log_wf n s"
  by (simp add: log_wf_def klog_more_cong [OF assms(1)] assms(2))

lemma log_wfD:
  assumes "log_wf n s" "k < n"
  shows "unat (logblk s k) = unat (log_start s) + k + 1" "unat (logblk s k) < length (disk s)"
    "unat (home s k) < length (disk s)" "j < n \<Longrightarrow> logblk s k \<noteq> home s j" "k < length (lh_block s)"
    "j < n \<Longrightarrow> home s j = home s k \<longleftrightarrow> j = k" "log_start s \<noteq> home s k" "log_start s \<noteq> logblk s k"
    "j < n \<Longrightarrow> logblk s j = logblk s k \<longleftrightarrow> j = k"
proof -
  have b: "unat (log_start s) + n < 2 ^ 32" using assms(1) by (simp add: log_wf_def)
  have lb: "unat (logblk s j) = unat (log_start s) + j + 1" if "j < n" for j
  proof -
    have j: "unat (of_nat (Suc j) :: uint) = Suc j"
      using b that by (simp add: unat_of_nat del: of_nat_Suc)
    have "unat (log_start s + of_nat (Suc j)) = unat (log_start s) + unat (of_nat (Suc j) :: uint)"
    proof (rule unat_uint_add)
      show "unat (log_start s) + unat (of_nat (Suc j) :: uint) < 2 ^ 32"
        unfolding j using b that by linarith
    qed
    moreover have "logblk s j = log_start s + of_nat (Suc j)" by (simp add: algebra_simps)
    ultimately have "unat (logblk s j) = unat (log_start s) + Suc j" by (simp only: j)
    then show ?thesis by linarith
  qed
  show l: "unat (logblk s k) = unat (log_start s) + k + 1" by (rule lb [OF assms(2)])
  show "unat (logblk s k) < length (disk s)" unfolding l using assms by (simp add: log_wf_def)
  have h: "unat (home s j) < length (disk s) \<and>
      (unat (home s j) < unat (log_start s) \<or> unat (log_start s) + n < unat (home s j))"
    if "j < n" for j using assms(1) that unfolding log_wf_def by blast
  show "unat (home s k) < length (disk s)" using h [OF assms(2)] by blast
  show "logblk s k \<noteq> home s j" if "j < n"
  proof
    assume "logblk s k = home s j"
    then have "unat (home s j) = unat (log_start s) + k + 1" using l by metis
    with h [OF that] assms(2) show False by linarith
  qed
  show "k < length (lh_block s)" using assms by (simp add: log_wf_def)
  have "distinct (take n (lh_block s))" "n \<le> length (lh_block s)" using assms(1) by (auto simp: log_wf_def)
  then show "home s j = home s k \<longleftrightarrow> j = k" if "j < n"
    using nth_eq_iff_index_eq [of "take n (lh_block s)" j k] that assms(2) by simp
  show "log_start s \<noteq> home s k" using h [OF assms(2)] by auto
  show "log_start s \<noteq> logblk s k" 
  proof
    assume "log_start s = logblk s k"
    then have "unat (log_start s) = unat (log_start s) + k + 1" using l by metis
    then show False by linarith
  qed
  show "logblk s j = logblk s k \<longleftrightarrow> j = k" if "j < n"
  proof
    assume "logblk s j = logblk s k"
    then have "unat (log_start s) + j + 1 = unat (log_start s) + k + 1"
      using l lb [OF that] by metis
    then show "j = k" by linarith
  qed simp
qed

lemma install_loop_ok:
  assumes "log_wf n s" "binv s" "held s = {}" "distinct ks" "set ks \<subseteq> {..<n}"
    "dirty s = {} \<or> dirty s = home s ` set ks"
  defines "W \<equiv> map (\<lambda>k. (home s k, cblock s (logblk s k))) ks"
  shows "\<exists>s'. install_loop ks s = Ok s' \<and> binv s' \<and> held s' = {} \<and> dirty s' = {} \<and>
    disk s' = apply_writes W (disk s) \<and> dtrace s' = dtrace s @ W \<and> mypid s' = mypid s \<and>
    kio.more s' = kio.more s"
  using assms(1-6) unfolding W_def
proof (induction ks arbitrary: s)
  case Nil
  then show ?case by auto
next
  case (Cons k ks)
  note wf = Cons.prems(1)
  have k: "k < n" "set ks \<subseteq> {..<n}" "k \<notin> set ks" "distinct ks" using Cons.prems(4,5) by auto
  note D = log_wfD [OF wf k(1)]
  have nb: "n < NBUF" "log_dev s = 1" using wf by (auto simp: log_wf_def)
  have "card (set (k # ks)) \<le> card {..<n}" by (rule card_mono) (use Cons.prems(5) in auto)
  then have "card (home s ` set (k # ks)) < NBUF"
    using card_image_le [of "set (k # ks)" "\<lambda>j. home s j"] nb by simp
  then have cd: "card (dirty s) < NBUF" "home s k \<in> dirty s \<or> card (dirty s) + 1 < NBUF"
    using Cons.prems(6) by (elim disjE; simp add: param_defs)+
  have "logblk s k \<noteq> home s j" if "j \<in> set (k # ks)" for j
    using D(4) Cons.prems(5) that by blast
  then have ld: "logblk s k \<notin> dirty s" using Cons.prems(6) by blast
  obtain s1 where o: "install_one k s = Ok s1" "binv s1" "held s1 = {}"
    "dirty s1 = dirty s - {home s k}" "cblock s1 = (cblock s)(home s k := cblock s (logblk s k))"
    "disk s1 = (disk s)[unat (home s k) := cblock s (logblk s k)]"
    "dtrace s1 = dtrace s @ [(home s k, cblock s (logblk s k))]"
    "mypid s1 = mypid s" "kio.more s1 = kio.more s"
    by (rule install_one_ok [OF Cons.prems(2,3) nb(2) D(5) D(4) [OF k(1)] D(2,3) ld cd])
  note m = klog_more_cong [OF o(9)]
  have wf1: "log_wf n s1" using wf log_wf_cong [OF o(9)] o(6) by simp
  have hk: "home s j \<noteq> home s k" if "j \<in> set ks" for j
  proof -
    have "j < n" "j \<noteq> k" using that k(2,3) by auto
    then show ?thesis using D(6) by blast
  qed
  then have "home s ` set (k # ks) - {home s k} = home s ` set ks" by force
  then have d1: "dirty s1 = {} \<or> dirty s1 = home s1 ` set ks"
    using Cons.prems(6) unfolding o(4) m by blast
  have "cblock s1 (logblk s j) = cblock s (logblk s j)" if "j \<in> set ks" for j
  proof -
    have "j < n" using that k(2) by auto
    then have "logblk s j \<noteq> home s k" using log_wfD(4) [OF wf] k(1) by blast
    then show ?thesis unfolding o(5) by simp
  qed
  then have W: "map (\<lambda>j. (home s1 j, cblock s1 (logblk s1 j))) ks
      = map (\<lambda>j. (home s j, cblock s (logblk s j))) ks"
    unfolding m by (intro map_cong refl) (simp only:)
  from Cons.IH [OF wf1 o(2,3) k(4,2) d1] obtain s' where s': "install_loop ks s1 = Ok s'"
    "binv s'" "held s' = {}" "dirty s' = {}"
    "disk s' = apply_writes (map (\<lambda>j. (home s j, cblock s (logblk s j))) ks) (disk s1)"
    "dtrace s' = dtrace s1 @ map (\<lambda>j. (home s j, cblock s (logblk s j))) ks"
    "mypid s' = mypid s1" "kio.more s' = kio.more s1"
    unfolding W by blast
  have "install_loop (k # ks) s = Ok s'" using o(1) s'(1) by simp
  then show ?case
    using s'(2-8) unfolding o(6-9) by (intro exI [of _ s']) simp
qed
lemma write_log_loop_ok:
  assumes "log_wf n s" "binv s" "held s = {}" "distinct ks" "set ks \<subseteq> {..<n}"
    "dirty s = home s ` {..<n}"
  defines "W \<equiv> map (\<lambda>k. (logblk s k, cblock s (home s k))) ks"
  shows "\<exists>s'. write_log_loop ks s = Ok s' \<and> binv s' \<and> held s' = {} \<and> dirty s' = dirty s \<and>
    (\<forall>b. b \<notin> logblk s ` set ks \<longrightarrow> cblock s' b = cblock s b) \<and>
    disk s' = apply_writes W (disk s) \<and> dtrace s' = dtrace s @ W \<and> mypid s' = mypid s \<and>
    kio.more s' = kio.more s"
  using assms(1-6) unfolding W_def
proof (induction ks arbitrary: s)
  case Nil
  then show ?case by auto
next
  case (Cons k ks)
  note wf = Cons.prems(1)
  have k: "k < n" "set ks \<subseteq> {..<n}" "k \<notin> set ks" "distinct ks" using Cons.prems(4,5) by auto
  note D = log_wfD [OF wf k(1)]
  have nb: "n < NBUF" "log_dev s = 1" using wf by (auto simp: log_wf_def)
  have cd: "card (dirty s) < NBUF"
    unfolding Cons.prems(6) using card_image_le [of "{..<n}" "\<lambda>j. home s j"] nb by simp
  have hd: "home s k \<in> dirty s" unfolding Cons.prems(6) using k(1) by blast
  have "logblk s k \<noteq> home s j" if "j \<in> {..<n}" for j using D(4) that by blast
  then have ld: "logblk s k \<notin> dirty s" unfolding Cons.prems(6) by blast
  obtain s1 where o: "write_log_one k s = Ok s1" "binv s1" "held s1 = {}" "dirty s1 = dirty s"
    "cblock s1 = (cblock s)(logblk s k := cblock s (home s k))"
    "disk s1 = (disk s)[unat (logblk s k) := cblock s (home s k)]"
    "dtrace s1 = dtrace s @ [(logblk s k, cblock s (home s k))]"
    "mypid s1 = mypid s" "kio.more s1 = kio.more s"
    by (rule write_log_one_ok [OF Cons.prems(2,3) nb(2) D(5) D(4) [OF k(1)] D(2,3) hd ld cd])
  note m = klog_more_cong [OF o(9)]
  have wf1: "log_wf n s1" using wf log_wf_cong [OF o(9)] o(6) by simp
  have d1: "dirty s1 = home s1 ` {..<n}" unfolding o(4) m by (rule Cons.prems(6))
  have "cblock s1 (home s j) = cblock s (home s j)" if "j \<in> set ks" for j
  proof -
    have "j < n" using that k(2) by auto
    then have "home s j \<noteq> logblk s k" using D(4) by metis
    then show ?thesis unfolding o(5) by simp
  qed
  then have W: "map (\<lambda>j. (logblk s1 j, cblock s1 (home s1 j))) ks
      = map (\<lambda>j. (logblk s j, cblock s (home s j))) ks"
    unfolding m by (intro map_cong refl) (simp only:)
  from Cons.IH [OF wf1 o(2,3) k(4,2) d1] obtain s' where s': "write_log_loop ks s1 = Ok s'"
    "binv s'" "held s' = {}" "dirty s' = dirty s1"
    "\<forall>b. b \<notin> logblk s ` set ks \<longrightarrow> cblock s' b = cblock s1 b"
    "disk s' = apply_writes (map (\<lambda>j. (logblk s j, cblock s (home s j))) ks) (disk s1)"
    "dtrace s' = dtrace s1 @ map (\<lambda>j. (logblk s j, cblock s (home s j))) ks"
    "mypid s' = mypid s1" "kio.more s' = kio.more s1"
    unfolding W unfolding m by blast
  have "write_log_loop (k # ks) s = Ok s'" using o(1) s'(1) by simp
  moreover have "\<forall>b. b \<notin> logblk s ` set (k # ks) \<longrightarrow> cblock s' b = cblock s b"
    using s'(5) unfolding o(5) by simp
  ultimately show ?case
    using s'(2-4,6-9) unfolding o(4,6-9) by (intro exI [of _ s']) simp
qed

section \<open>The header block\<close>

lemma length_put_blocks:
  "4 + 4 * (k + length bs) \<le> length d \<Longrightarrow> length (put_blocks k bs d) = length d"
  by (induction bs arbitrary: k d) auto

lemma get32_put_blocks:
  assumes "4 + 4 * (k + length bs) \<le> length d" "j < k"
  shows "get32 (put_blocks k bs d) 0 = get32 d 0"
    and "get32 (put_blocks k bs d) (4 + 4 * j) = get32 d (4 + 4 * j)"
  using assms by (induction bs arbitrary: k d) (auto simp: get32_put32_other)

lemma hdr_put_blocks:
  assumes "4 + 4 * (k + length bs) \<le> length d" "j < length bs"
  shows "get32 (put_blocks k bs d) (4 + 4 * (k + j)) = bs ! j"
  using assms
proof (induction bs arbitrary: k d j)
  case Nil
  then show ?case by simp
next
  case (Cons b bs)
  show ?case
  proof (cases j)
    case 0
    with Cons.prems get32_put_blocks(2) [of "Suc k" bs "put32 d (4 + 4 * k) b" k] show ?thesis
      by simp
  next
    case (Suc i)
    with Cons.IH [of "Suc k" "put32 d (4 + 4 * k) b" i] Cons.prems show ?thesis by simp
  qed
qed

lemma put_blocks_0: "4 + 4 * length bs \<le> length d \<Longrightarrow> get32 (put_blocks 0 bs d) 0 = get32 d 0"
  using get32_put_blocks(1) [of 1 "tl bs" "put32 d 4 (hd bs)" 0]
  by (cases bs) (simp_all add: get32_put32_other)

lemma head_data:
  assumes "length d = BSIZE" "n \<le> LOGSIZE" "n \<le> length bs"
  shows "length (head_data (int n) bs d) = BSIZE" "hdr_n (head_data (int n) bs d) = int n"
    "k < n \<Longrightarrow> hdr_block (head_data (int n) bs d) k = bs ! k"
proof -
  let ?e = "put32 d 0 (word_of_int (int n))"
  have len: "length ?e = BSIZE" using assms(1) by (simp add: BSIZE_def)
  have le: "4 + 4 * (0 + length (take n bs)) \<le> length ?e" using assms len by (simp add: param_defs)
  show "length (head_data (int n) bs d) = BSIZE"
    using length_put_blocks [OF le] len by (simp add: head_data_def)
  have "get32 ?e 0 = word_of_int (int n)" using assms(1) by (simp add: BSIZE_def)
  moreover have "sint (word_of_int (int n) :: uint) = int n"
    by (rule sint_of_int) (use assms(2) in \<open>simp_all add: param_defs\<close>)
  ultimately show "hdr_n (head_data (int n) bs d) = int n"
    using put_blocks_0 [of "take n bs" ?e] le by (simp add: hdr_n_def head_data_def)
  show "hdr_block (head_data (int n) bs d) k = bs ! k" if "k < n"
    using hdr_put_blocks [OF le, of k] that assms(3) by (simp add: hdr_block_def head_data_def)
qed

lemma write_head_ok:
  assumes "binv s" "held s = {}" "log_dev s = 1" "unat (log_start s) < length (disk s)"
    "log_start s \<notin> dirty s" "card (dirty s) < NBUF" "nat (lh_n s) \<le> length (lh_block s)"
  defines "H \<equiv> head_data (lh_n s) (lh_block s) (cblock s (log_start s))"
  obtains s' where "write_head s = Ok s'" "binv s'" "held s' = {}" "dirty s' = dirty s"
    "cblock s' = (cblock s)(log_start s := H)" "disk s' = (disk s)[unat (log_start s) := H]"
    "dtrace s' = dtrace s @ [(log_start s, H)]" "mypid s' = mypid s" "kio.more s' = kio.more s"
proof -
  let ?b = "log_start s"
  have pre: "?b \<notin> held s" "?b \<in> dirty s \<or> card (held s \<union> dirty s) < NBUF"
    using assms(2,6) by simp_all
  obtain i s1 where r: "bread 1 ?b s = Ok (i, s1)" "mine s1 i ?b" "binv s1"
    "held s1 = insert ?b (held s)" "dirty s1 = dirty s" "cblock s1 = cblock s" "only_bufs s s1"
    "b_data (bufs s1 ! i) = cblock s ?b"
    by (rule bread_ok [OF assms(1,4) pre])
  note m1 = klog_more_cong [OF only_bufsD(5) [OF r(7)]]
  let ?t = "upd_buf i (\<lambda>x. x\<lparr>b_data := H\<rparr>) s1"
  note st = store_ok [OF r(3,2), of H]
  have t: "upd_buf i (\<lambda>x. x\<lparr>b_data := head_data (lh_n s1) (lh_block s1) (b_data x)\<rparr>) s1 = ?t"
    by (rule upd_buf_cong) (simp add: m1 r(8) H_def)
  have mt: "mine ?t i ?b" unfolding st(2) by (rule r(2))
  obtain s2 where w: "bwrite i ?t = Ok s2" "binv s2" "mine s2 = mine ?t" "held s2 = held ?t"
    "dirty s2 = dirty ?t - {?b}" "cblock s2 = cblock ?t" "disk s2 = (disk ?t)[unat ?b := cblock ?t ?b]"
    "dtrace s2 = dtrace ?t @ [(?b, cblock ?t ?b)]" "mypid s2 = mypid ?t" "kio.more s2 = kio.more ?t"
    by (rule bwrite_ok [OF st(1) mt])
  have m2: "mine s2 i ?b" unfolding w(3) by (rule mt)
  have c: "?b \<in> dirty s2 \<or> cblock s2 ?b = disk s2 ! unat ?b"
    unfolding w(6,7) using mine_data(3) [OF st(1) mt] by simp
  obtain s3 where e: "brelse i s2 = Ok s3" "binv s3" "mine s3 = (\<lambda>j c. mine s2 j c \<and> c \<noteq> ?b)"
    "held s3 = held s2 - {?b}" "dirty s3 = dirty s2" "cblock s3 = cblock s2" "disk s3 = disk s2"
    "dtrace s3 = dtrace s2" "mypid s3 = mypid s2" "kio.more s3 = kio.more s2"
    by (rule brelse_ok [OF w(2) m2 c])
  have "\<not> length (lh_block s1) < nat (lh_n s1)" using assms(7) unfolding m1 by simp
  then have "write_head s = Ok s3"
    using r(1) w(1) e(1) assms(3) unfolding write_head_def by (simp add: t)
  then show thesis
  proof (rule that [OF _ e(2)])
    show "held s3 = {}" unfolding e(4) w(4) st(3) r(4) assms(2) by simp
    show "dirty s3 = dirty s" unfolding e(5) w(5) st(4) r(5) using assms(5) by simp
    show "cblock s3 = (cblock s)(?b := H)" unfolding e(6) w(6) st(5) r(6) ..
    show "disk s3 = (disk s)[unat ?b := H]"
      unfolding e(7) w(7) st(5) using only_bufsD(1) [OF r(7)] by simp
    show "dtrace s3 = dtrace s @ [(?b, H)]"
      unfolding e(8) w(8) st(5) using only_bufsD(4) [OF r(7)] by simp
    show "mypid s3 = mypid s" unfolding e(9) w(9) using only_bufsD(2) [OF r(7)] by simp
    show "kio.more s3 = kio.more s" unfolding e(10) w(10) using only_bufsD(5) [OF r(7)] by simp
  qed
qed

lemma read_head_ok:
  assumes "binv s" "held s = {}" "log_dev s = 1" "unat (log_start s) < length (disk s)"
    "dirty s = {}" "nat (hdr_n (cblock s (log_start s))) \<le> length (lh_block s)"
  defines "n \<equiv> hdr_n (cblock s (log_start s))"
  obtains s' where "read_head s = Ok s'" "binv s'" "held s' = {}" "dirty s' = {}"
    "cblock s' = cblock s" "disk s' = disk s" "dtrace s' = dtrace s" "mypid s' = mypid s"
    "kio.more s' = kio.more (s\<lparr>lh_n := n, lh_block :=
       map (hdr_block (cblock s (log_start s))) [0..<nat n] @ drop (nat n) (lh_block s)\<rparr>)"
proof -
  let ?b = "log_start s"
  have pre: "?b \<notin> held s" "?b \<in> dirty s \<or> card (held s \<union> dirty s) < NBUF"
    using assms(2,5) by (simp_all add: param_defs)
  obtain i s1 where r: "bread 1 ?b s = Ok (i, s1)" "mine s1 i ?b" "binv s1"
    "held s1 = insert ?b (held s)" "dirty s1 = dirty s" "cblock s1 = cblock s" "only_bufs s s1"
    "b_data (bufs s1 ! i) = cblock s ?b"
    by (rule bread_ok [OF assms(1,4) pre])
  note m1 = klog_more_cong [OF only_bufsD(5) [OF r(7)]]
  define B where "B = map (hdr_block (cblock s ?b)) [0..<nat n] @ drop (nat n) (lh_block s)"
  let ?t = "s1\<lparr>lh_n := n, lh_block := B\<rparr>"
  have v: "binv ?t" "mine ?t = mine s1" "held ?t = held s1" "dirty ?t = dirty s1" "cblock ?t = cblock s1"
    using view_cong [of ?t s1] r(3) by simp_all
  have mt: "mine ?t i ?b" unfolding v(2) by (rule r(2))
  have "cblock s ?b = disk s ! unat ?b"
    by (rule cblock_clean [OF assms(1)]) (simp_all add: assms(2,5))
  then have c: "?b \<in> dirty ?t \<or> cblock ?t ?b = disk ?t ! unat ?b"
    unfolding v(4,5) r(6) using only_bufsD(1) [OF r(7)] by simp
  obtain s3 where e: "brelse i ?t = Ok s3" "binv s3" "mine s3 = (\<lambda>j c. mine ?t j c \<and> c \<noteq> ?b)"
    "held s3 = held ?t - {?b}" "dirty s3 = dirty ?t" "cblock s3 = cblock ?t" "disk s3 = disk ?t"
    "dtrace s3 = dtrace ?t" "mypid s3 = mypid ?t" "kio.more s3 = kio.more ?t"
    by (rule brelse_ok [OF v(1) mt c])
  have "\<not> length (lh_block s1) < nat n" using assms(6) unfolding m1 n_def by simp
  then have "read_head s = Ok s3"
    using r(1) e(1) assms(3) unfolding read_head_def by (simp add: r(8) m1 n_def B_def Let_def)
  then show thesis
  proof (rule that [OF _ e(2)])
    show "held s3 = {}" unfolding e(4) v(3) r(4) assms(2) by simp
    show "dirty s3 = {}" unfolding e(5) v(4) r(5) by (rule assms(5))
    show "cblock s3 = cblock s" unfolding e(6) v(5) by (rule r(6))
    show "disk s3 = disk s" "dtrace s3 = dtrace s" "mypid s3 = mypid s"
      unfolding e(7-9) using only_bufsD [OF r(7)] by simp_all
    have "kio.more ?t = kio.more (s\<lparr>lh_n := n, lh_block := B\<rparr>)"
      using only_bufsD(5) [OF r(7)] by (cases s; cases s1) simp
    then show "kio.more s3 = kio.more (s\<lparr>lh_n := n, lh_block :=
       map (hdr_block (cblock s ?b)) [0..<nat n] @ drop (nat n) (lh_block s)\<rparr>)"
      unfolding e(10) B_def .
  qed
qed
section \<open>Commit\<close>

definition commit_writes :: "nat \<Rightarrow> 'a klog_scheme \<Rightarrow> (uint \<times> block) list" where
  "commit_writes n s =
     (let H = head_data (int n) (lh_block s) (cblock s (log_start s)) in
      map (\<lambda>k. (logblk s k, cblock s (home s k))) [0..<n] @
      (log_start s, H) #
      map (\<lambda>k. (home s k, cblock s (home s k))) [0..<n] @
      [(log_start s, head_data 0 (lh_block s) H)])"

lemma apply_writes_notin:
  "m \<notin> (\<lambda>w. unat (fst w)) ` set ws \<Longrightarrow> apply_writes ws d ! m = d ! m"
  by (induction ws arbitrary: d) auto

lemma apply_writes_in:
  "distinct (map fst ws) \<Longrightarrow> (b, x) \<in> set ws \<Longrightarrow> unat b < length d \<Longrightarrow>
     apply_writes ws d ! unat b = x"
proof (induction ws arbitrary: d)
  case Nil
  then show ?case by simp
next
  case (Cons w ws)
  obtain c y where w: "w = (c, y)" by (cases w)
  show ?case
  proof (cases "(b, x) = (c, y)")
    case True
    with Cons.prems w have "b \<notin> fst ` set ws" by auto
    then have "unat b \<notin> (\<lambda>w. unat (fst w)) ` set ws" by force
    then show ?thesis using True w Cons.prems by (simp add: apply_writes_notin)
  next
    case False
    with Cons.prems w have "(b, x) \<in> set ws" by auto
    with Cons.IH [of "d[unat c := y]"] Cons.prems w show ?thesis by simp
  qed
qed

definition in_txn :: "nat \<Rightarrow> 'a klog_scheme \<Rightarrow> bool" where
  "in_txn n s \<longleftrightarrow> log_wf n s \<and> lh_n s = int n \<and> binv s \<and> held s = {} \<and>
     dirty s = home s ` {..<n}"

abbreviation commit_head :: "nat \<Rightarrow> 'a klog_scheme \<Rightarrow> block" where
  "commit_head n s \<equiv> head_data (int n) (lh_block s) (cblock s (log_start s))"

lemma in_txnD:
  assumes "in_txn n s"
  shows "log_wf n s" "lh_n s = int n" "binv s" "held s = {}" "dirty s = home s ` {..<n}"
    "log_dev s = 1" "n \<le> length (lh_block s)" "unat (log_start s) < length (disk s)"
    "card (dirty s) < NBUF" "log_start s \<notin> dirty s" "k < n \<Longrightarrow> logblk s k \<notin> dirty s"
proof -
  show wf: "log_wf n s" and "lh_n s = int n" "binv s" "held s = {}" and d: "dirty s = home s ` {..<n}"
    using assms by (auto simp: in_txn_def)
  show "log_dev s = 1" "n \<le> length (lh_block s)" "unat (log_start s) < length (disk s)"
    using wf by (auto simp: log_wf_def)
  have "n < NBUF" using wf by (simp add: log_wf_def)
  then show "card (dirty s) < NBUF"
    using card_image_le [of "{..<n}" "\<lambda>j. home s j"] unfolding d by simp
  show "log_start s \<notin> dirty s" using log_wfD(7) [OF wf] unfolding d by blast
  show "logblk s k \<notin> dirty s" if "k < n" using log_wfD(4) [OF wf that] unfolding d by blast
qed

text \<open>The first half of a commit: the blocks and then the header go to the log.\<close>

lemma commit_log_phase:
  assumes t: "in_txn n s"
  obtains s1 s2 where "write_log s = Ok s1" "write_head s1 = Ok s2" "binv s2" "held s2 = {}"
    "dirty s2 = dirty s" "\<forall>k < n. cblock s2 (logblk s k) = cblock s (home s k)"
    "disk s2 = apply_writes (map (\<lambda>k. (logblk s k, cblock s (home s k))) [0..<n] @
       [(log_start s, commit_head n s)]) (disk s)"
    "dtrace s2 = dtrace s @ map (\<lambda>k. (logblk s k, cblock s (home s k))) [0..<n] @
       [(log_start s, commit_head n s)]"
    "mypid s2 = mypid s" "kio.more s2 = kio.more s"
proof -
  note D = in_txnD [OF t] and wf = in_txnD(1) [OF t] and d = in_txnD(5) [OF t]
  let ?L = "map (\<lambda>k. (logblk s k, cblock s (home s k))) [0..<n]"
  obtain s1 where a: "write_log s = Ok s1" "binv s1" "held s1 = {}" "dirty s1 = dirty s"
    "\<forall>b. b \<notin> logblk s ` set [0..<n] \<longrightarrow> cblock s1 b = cblock s b"
    "disk s1 = apply_writes ?L (disk s)" "dtrace s1 = dtrace s @ ?L" "mypid s1 = mypid s"
    "kio.more s1 = kio.more s"
    using write_log_loop_ok [OF wf D(3,4), of "[0..<n]"] d unfolding write_log_def D(2)
    by (auto simp: atLeast0LessThan)
  note m1 = klog_more_cong [OF a(9)]
  have "log_start s \<notin> logblk s ` set [0..<n]" using log_wfD(8) [OF wf] by auto
  then have cs: "cblock s1 (log_start s) = cblock s (log_start s)" using a(5) by blast
  have p: "log_dev s1 = 1" "unat (log_start s1) < length (disk s1)" "log_start s1 \<notin> dirty s1"
    "card (dirty s1) < NBUF" "nat (lh_n s1) \<le> length (lh_block s1)"
    unfolding m1 a(4,6) using D by simp_all
  obtain s2 where b: "write_head s1 = Ok s2" "binv s2" "held s2 = {}" "dirty s2 = dirty s"
    "cblock s2 = (cblock s1)(log_start s := commit_head n s)"
    "disk s2 = (disk s1)[unat (log_start s) := commit_head n s]"
    "dtrace s2 = dtrace s1 @ [(log_start s, commit_head n s)]" "mypid s2 = mypid s1"
    "kio.more s2 = kio.more s1"
    by (rule write_head_ok [OF a(2,3) p, unfolded m1 a(4) D(2) cs])
  have "cblock s2 (logblk s k) = cblock s (home s k)" if "k < n" for k
  proof -
    have "cblock s1 (logblk s k) = disk s1 ! unat (logblk s k)"
      using cblock_clean [OF a(2)] D(11) [OF that] unfolding a(3,4) by blast
    also have "\<dots> = cblock s (home s k)"
      unfolding a(6) by (rule apply_writes_in)
        (use that log_wfD(2,9) [OF wf] in \<open>auto simp: distinct_map inj_on_def\<close>)
    finally show ?thesis unfolding b(5) using log_wfD(8) [OF wf that] by simp
  qed
  then show thesis
    by (intro that [OF a(1) b(1-4)]) (simp_all add: b(6-9) a(6-9))
qed

text \<open>The second half: the blocks go to their homes, and the header is cleared.\<close>

lemma commit_install_phase:
  assumes wf: "log_wf n s" and n: "lh_n s = int n" and inv: "binv s" "held s = {}"
    and d: "dirty s = {} \<or> dirty s = home s ` {..<n}"
    and H: "disk s ! unat (log_start s) = H"
  obtains s1 s2 where "install_trans s = Ok s1" "write_head (s1\<lparr>lh_n := 0\<rparr>) = Ok s2" "binv s2"
    "held s2 = {}" "dirty s2 = {}"
    "disk s2 = apply_writes (map (\<lambda>k. (home s k, cblock s (logblk s k))) [0..<n] @
       [(log_start s, head_data 0 (lh_block s) H)]) (disk s)"
    "dtrace s2 = dtrace s @ map (\<lambda>k. (home s k, cblock s (logblk s k))) [0..<n] @
       [(log_start s, head_data 0 (lh_block s) H)]"
    "mypid s2 = mypid s" "kio.more s2 = kio.more (s\<lparr>lh_n := 0\<rparr>)"
proof -
  let ?I = "map (\<lambda>k. (home s k, cblock s (logblk s k))) [0..<n]"
  have st0: "unat (log_start s) < length (disk s)" "log_dev s = 1" using wf by (auto simp: log_wf_def)
  obtain s3 where c: "install_trans s = Ok s3" "binv s3" "held s3 = {}" "dirty s3 = {}"
    "disk s3 = apply_writes ?I (disk s)" "dtrace s3 = dtrace s @ ?I" "mypid s3 = mypid s"
    "kio.more s3 = kio.more s"
    using install_loop_ok [OF wf inv, of "[0..<n]"] d unfolding install_trans_def
    by (auto simp: n atLeast0LessThan)
  note m3 = klog_more_cong [OF c(8)]
  let ?s3 = "s3\<lparr>lh_n := 0\<rparr>"
  note v = view_cong [of ?s3 s3, simplified]
  have "log_start s \<noteq> home s k" if "k < n" for k by (rule log_wfD(7) [OF wf that])
  then have "log_start s \<notin> home s ` {..<n}" by blast
  then have st: "unat (log_start s) \<notin> (\<lambda>w. unat (fst w)) ` set ?I" by (force simp: image_image)
  have "cblock s3 (log_start s) = disk s3 ! unat (log_start s)"
    by (rule cblock_clean [OF c(2)]) (simp_all add: c(3,4))
  then have cH: "cblock s3 (log_start s) = H" unfolding c(5) apply_writes_notin [OF st] by (simp add: H)
  have q: "binv ?s3" "held ?s3 = {}" "log_dev ?s3 = 1" "unat (log_start ?s3) < length (disk ?s3)"
    "log_start ?s3 \<notin> dirty ?s3" "card (dirty ?s3) < NBUF" "nat (lh_n ?s3) \<le> length (lh_block ?s3)"
    using c(2,3,4) st0 v by (simp_all add: m3 c(5) param_defs)
  let ?H = "head_data (lh_n ?s3) (lh_block ?s3) (cblock ?s3 (log_start ?s3))"
  have H0: "?H = head_data 0 (lh_block s) H" by (simp add: v m3 cH)
  obtain s4 where e: "write_head ?s3 = Ok s4" "binv s4" "held s4 = {}" "dirty s4 = dirty ?s3"
    "cblock s4 = (cblock ?s3)(log_start ?s3 := ?H)"
    "disk s4 = (disk ?s3)[unat (log_start ?s3) := ?H]"
    "dtrace s4 = dtrace ?s3 @ [(log_start ?s3, ?H)]"
    "mypid s4 = mypid ?s3" "kio.more s4 = kio.more ?s3"
    by (rule write_head_ok [OF q])
  show thesis
  proof (rule that [OF c(1) e(1-3)])
    show "dirty s4 = {}" using e(4) c(4) v by simp
    show "disk s4 = apply_writes (?I @ [(log_start s, head_data 0 (lh_block s) H)]) (disk s)"
      using e(6) unfolding H0 by (simp add: m3 c(5))
    show "dtrace s4 = dtrace s @ ?I @ [(log_start s, head_data 0 (lh_block s) H)]"
      using e(7) unfolding H0 by (simp add: m3 c(6))
    show "mypid s4 = mypid s" using e(8) c(7) by simp
    show "kio.more s4 = kio.more (s\<lparr>lh_n := 0\<rparr>)" using e(9) c(8) by (cases s; cases s3) simp
  qed
qed

lemma commit_ok:
  assumes t: "in_txn n s" and n: "0 < n"
  obtains s' where "commit s = Ok s'" "binv s'" "held s' = {}" "dirty s' = {}"
    "disk s' = apply_writes (commit_writes n s) (disk s)"
    "dtrace s' = dtrace s @ commit_writes n s" "mypid s' = mypid s"
    "kio.more s' = kio.more (s\<lparr>lh_n := 0\<rparr>)"
proof -
  obtain s1 s2 where a: "write_log s = Ok s1" "write_head s1 = Ok s2" "binv s2" "held s2 = {}"
    "dirty s2 = dirty s" "\<forall>k < n. cblock s2 (logblk s k) = cblock s (home s k)"
    "disk s2 = apply_writes (map (\<lambda>k. (logblk s k, cblock s (home s k))) [0..<n] @
       [(log_start s, commit_head n s)]) (disk s)"
    "dtrace s2 = dtrace s @ map (\<lambda>k. (logblk s k, cblock s (home s k))) [0..<n] @
       [(log_start s, commit_head n s)]"
    "mypid s2 = mypid s" "kio.more s2 = kio.more s"
    by (rule commit_log_phase [OF t])
  note m = klog_more_cong [OF a(10)]
  have wf: "log_wf n s2" using in_txnD(1) [OF t] log_wf_cong [OF a(10)] a(7) by simp
  have d: "dirty s2 = {} \<or> dirty s2 = home s2 ` {..<n}" using in_txnD(5) [OF t] a(5) m by simp
  have H: "disk s2 ! unat (log_start s2) = commit_head n s"
    using in_txnD(8) [OF t] unfolding m a(7) by simp
  have n2: "lh_n s2 = int n" using in_txnD(2) [OF t] m by simp
  obtain s3 s4 where b: "install_trans s2 = Ok s3" "write_head (s3\<lparr>lh_n := 0\<rparr>) = Ok s4" "binv s4"
    "held s4 = {}" "dirty s4 = {}"
    "disk s4 = apply_writes (map (\<lambda>k. (home s2 k, cblock s2 (logblk s2 k))) [0..<n] @
       [(log_start s2, head_data 0 (lh_block s2) (commit_head n s))]) (disk s2)"
    "dtrace s4 = dtrace s2 @ map (\<lambda>k. (home s2 k, cblock s2 (logblk s2 k))) [0..<n] @
       [(log_start s2, head_data 0 (lh_block s2) (commit_head n s))]"
    "mypid s4 = mypid s2" "kio.more s4 = kio.more (s2\<lparr>lh_n := 0\<rparr>)"
    by (rule commit_install_phase [OF wf n2 a(3,4) d H])
  have I: "map (\<lambda>k. (home s k, cblock s2 (logblk s k))) [0..<n] =
      map (\<lambda>k. (home s k, cblock s (home s k))) [0..<n]" using a(6) by simp
  have "commit s = Ok s4" using n in_txnD(2) [OF t] a(1,2) b(1,2) by (simp add: commit_def)
  then show thesis
  proof (rule that [OF _ b(3-5)])
    show "disk s4 = apply_writes (commit_writes n s) (disk s)"
      unfolding b(6) m a(7) commit_writes_def by (simp add: Let_def I)
    show "dtrace s4 = dtrace s @ commit_writes n s"
      unfolding b(7) m a(8) commit_writes_def by (simp add: Let_def I)
    show "mypid s4 = mypid s" unfolding b(8) a(9) ..
    show "kio.more s4 = kio.more (s\<lparr>lh_n := 0\<rparr>)" using b(9) a(10) by (cases s; cases s2) simp
  qed
qed

section \<open>log_write\<close>

text \<open>The blocks of the current transaction.\<close>

definition logged :: "'a klog_scheme \<Rightarrow> uint list" where
  "logged s = take (nat (lh_n s)) (lh_block s)"

definition log_room :: "'a klog_scheme \<Rightarrow> bool" where
  "log_room s \<longleftrightarrow> 0 \<le> lh_n s \<and> lh_n s < int LOGSIZE \<and> lh_n s < log_size s - 1 \<and>
     1 \<le> log_outstanding s \<and> length (lh_block s) = LOGSIZE"

lemma log_write_ok:
  assumes inv: "binv s" and m: "mine s i b" and room: "log_room s"
  obtains s' where "log_write i s = Ok s'" "binv s'" "mine s' = mine s" "held s' = held s"
    "dirty s' = insert b (dirty s)" "cblock s' = cblock s" "disk s' = disk s"
    "dtrace s' = dtrace s" "mypid s' = mypid s" "klog.more s' = klog.more s"
    "logged s' = (if b \<in> set (logged s) then logged s else logged s @ [b])"
    "lh_n s' = (if b \<in> set (logged s) then lh_n s else lh_n s + 1)"
    "log_start s' = log_start s" "log_size s' = log_size s" "log_dev s' = log_dev s"
    "log_outstanding s' = log_outstanding s" "log_committing s' = log_committing s"
    "length (lh_block s') = LOGSIZE"
proof -
  define n where "n = nat (lh_n s)"
  have n: "lh_n s = int n" "n < LOGSIZE" "length (lh_block s) = LOGSIZE"
    using room by (auto simp: log_room_def n_def)
  define k where "k = (case find_index (\<lambda>c. c = b) (take n (lh_block s)) of Some i \<Rightarrow> i | None \<Rightarrow> n)"
  define s2 where "s2 = (let s1 = s\<lparr>lh_block := (lh_block s)[k := b]\<rparr> in
     if int k = lh_n s1 then s1\<lparr>lh_n := lh_n s1 + 1\<rparr> else s1)"
  have bn: "b_blockno (bufs s ! i) = b" by (rule mine_data(2) [OF inv m])
  have st: "log_write i s = Ok (upd_buf i (\<lambda>x. x\<lparr>b_dirty := True\<rparr>) s2)"
    using room n(1) unfolding log_write_def log_room_def s2_def
    by (simp add: bn Let_def k_def)
  have same: "bufs s2 = bufs s" "disk s2 = disk s" "mypid s2 = mypid s" "dtrace s2 = dtrace s"
    "klog.more s2 = klog.more s" "log_start s2 = log_start s" "log_size s2 = log_size s"
    "log_dev s2 = log_dev s" "log_outstanding s2 = log_outstanding s"
    "log_committing s2 = log_committing s" "length (lh_block s2) = LOGSIZE"
    using n(3) by (simp_all add: s2_def Let_def)
  note v = view_cong [OF same(1-3)]
  have inv2: "binv s2" "mine s2 i b" using inv m v by simp_all
  note p = pin_ok [OF inv2]
  note more = klog_more_cong [OF only_bufsD(5) [OF p(6)]]
  have lg: "logged s2 = (if b \<in> set (logged s) then logged s else logged s @ [b]) \<and>
      lh_n s2 = (if b \<in> set (logged s) then lh_n s else lh_n s + 1)"
  proof (cases "b \<in> set (take n (lh_block s))")
    case True
    then obtain j where j: "find_index (\<lambda>c. c = b) (take n (lh_block s)) = Some j"
      using find_index_Some_ex [OF True, of "\<lambda>c. c = b"] by auto
    note jD = find_index_SomeD(1,2) [OF j]
    have "(lh_block s)[j := b] = lh_block s"
      using jD by (metis length_take list_update_id min_less_iff_conj nth_take)
    moreover have "k = j" "j < n" using j jD(1) by (simp_all add: k_def)
    ultimately show ?thesis using True n(1) by (simp add: s2_def Let_def logged_def)
  next
    case False
    then have "find_index (\<lambda>c. c = b) (take n (lh_block s)) = None"
      unfolding find_index_None_iff by blast
    then have k: "k = n" by (simp add: k_def)
    have "take (Suc n) ((lh_block s)[n := b]) = take n (lh_block s) @ [b]"
      using n(2,3) by (simp add: take_Suc_conv_app_nth)
    with k False n(1) show ?thesis
      by (simp add: s2_def Let_def logged_def nat_add_distrib)
  qed
  let ?s = "upd_buf i (\<lambda>x. x\<lparr>b_dirty := True\<rparr>) s2"
  have lgs: "logged ?s = logged s2" unfolding logged_def more ..
  show thesis
  proof (rule that [OF st p(1)])
    show "mine ?s = mine s" "held ?s = held s" "dirty ?s = insert b (dirty s)" "cblock ?s = cblock s"
      unfolding p(2-5) v by (rule refl)+
    show "logged ?s = (if b \<in> set (logged s) then logged s else logged s @ [b])"
      unfolding lgs using lg by blast
    show "lh_n ?s = (if b \<in> set (logged s) then lh_n s else lh_n s + 1)"
      unfolding more using lg by blast
  qed (simp_all add: more same only_bufsD [OF p(6)])
qed

end
