(* ===== verification/Log_Crash.thy ===== *)
theory Log_Crash
  imports Log
begin

text \<open>
  Crash safety of the log: what \<^verbatim>\<open>initlog\<close> makes of a disk at boot, and that a crash
  after any number of the disk writes of a commit leaves a disk from which the boot
  recovers all of the transaction or none of it.
\<close>

section \<open>Recovery\<close>

text \<open>The state of a freshly booted kernel over a disk, and its initialisation.\<close>

definition boot_klog :: "block list \<Rightarrow> klog" where
  "boot_klog d = \<lparr>disk = d, bufs = replicate (Suc NBUF) zero_buf, mypid = 1, woken = [],
     dtrace = [], log_start = 0, log_size = 0, log_outstanding = 0, log_committing = False,
     log_dev = 0, lh_n = 0, lh_block = replicate LOGSIZE 0\<rparr>"

definition reboot :: "block list \<Rightarrow> klog res" where
  "reboot d = initlog 1 (binit (boot_klog d))"

lemma readsb_ok:
  assumes "binv s" "held s = {}" "1 < length (disk s)" "dirty s = {}"
  obtains s' where "readsb 1 s = Ok (superblock_of (cblock s 1), s')" "binv s'" "held s' = {}"
    "dirty s' = {}" "cblock s' = cblock s" "disk s' = disk s" "dtrace s' = dtrace s"
    "mypid s' = mypid s" "kio.more s' = kio.more s"
proof -
  have pre: "unat (1 :: uint) < length (disk s)" "1 \<notin> held s"
    "1 \<in> dirty s \<or> card (held s \<union> dirty s) < NBUF"
    using assms(2-4) by (simp_all add: param_defs)
  obtain i s1 where r: "bread 1 1 s = Ok (i, s1)" "mine s1 i 1" "binv s1"
    "held s1 = insert 1 (held s)" "dirty s1 = dirty s" "cblock s1 = cblock s" "only_bufs s s1"
    "b_data (bufs s1 ! i) = cblock s 1"
    by (rule bread_ok [OF assms(1) pre])
  have "cblock s 1 = disk s ! unat (1 :: uint)"
    by (rule cblock_clean [OF assms(1)]) (simp_all add: assms(2,4))
  then have c: "1 \<in> dirty s1 \<or> cblock s1 1 = disk s1 ! unat (1 :: uint)"
    unfolding r(6) only_bufsD(1) [OF r(7)] by simp
  obtain s3 where e: "brelse i s1 = Ok s3" "binv s3" "mine s3 = (\<lambda>j c. mine s1 j c \<and> c \<noteq> 1)"
    "held s3 = held s1 - {1}" "dirty s3 = dirty s1" "cblock s3 = cblock s1" "disk s3 = disk s1"
    "dtrace s3 = dtrace s1" "mypid s3 = mypid s1" "kio.more s3 = kio.more s1"
    by (rule brelse_ok [OF r(3,2) c])
  have "readsb 1 s = Ok (superblock_of (cblock s 1), s3)"
    using r(1,8) e(1) by (simp add: readsb_def Let_def)
  then show thesis
    by (rule that [OF _ e(2)])
      (simp_all add: e(4-10) r(4-6) only_bufsD [OF r(7)] assms(2,4))
qed

text \<open>
  What a disk must look like for recovery: the super block says where the log is, and the
  header, if it counts any blocks, names distinct homes on the disk outside the log.
\<close>

definition log_image :: "uint \<Rightarrow> block list \<Rightarrow> bool" where
  "log_image st d \<longleftrightarrow>
     (let H = d ! unat st; n = nat (hdr_n H) in
      1 < length d \<and> length d \<le> 2 ^ 32 \<and> sb_logstart (superblock_of (d ! 1)) = st \<and>
      0 \<le> hdr_n H \<and> n < NBUF \<and> unat st + n < length d \<and>
      distinct (map (hdr_block H) [0..<n]) \<and>
      (\<forall>k < n. unat (hdr_block H k) < length d \<and>
         (unat (hdr_block H k) < unat st \<or> unat st + n < unat (hdr_block H k))))"

lemma recover_ok:
  assumes "log_image (log_start s) d" "disk s = d" "binv s" "held s = {}" "dirty s = {}"
    "log_dev s = 1" "length (lh_block s) = LOGSIZE"
  defines "H \<equiv> d ! unat (log_start s)"
  obtains s' where "recover_from_log s = Ok s'" "binv s'" "held s' = {}" "dirty s' = {}"
    "disk s' = apply_writes
       (map (\<lambda>k. (hdr_block H k, d ! (unat (log_start s) + k + 1))) [0..<nat (hdr_n H)] @
        [(log_start s, head_data 0 (map (hdr_block H) [0..<nat (hdr_n H)] @
            drop (nat (hdr_n H)) (lh_block s)) H)]) d"
    "lh_n s' = 0" "log_start s' = log_start s"
proof -
  let ?n = "nat (hdr_n H)" and ?st = "log_start s"
  have im: "0 \<le> hdr_n H" "?n < NBUF" "unat ?st + ?n < length d" "length d \<le> 2 ^ 32"
    "distinct (map (hdr_block H) [0..<?n])"
    "\<forall>k < ?n. unat (hdr_block H k) < length d \<and>
       (unat (hdr_block H k) < unat ?st \<or> unat ?st + ?n < unat (hdr_block H k))"
    using assms(1) unfolding log_image_def Let_def H_def by auto
  have cd: "cblock s b = d ! unat b" for b
    using cblock_clean [OF assms(3), of b] assms(2,4,5) by simp
  have cH: "cblock s ?st = H" by (simp add: cd H_def)
  have st: "unat ?st < length (disk s)" using im(3) assms(2) by simp
  have nl: "nat (hdr_n (cblock s ?st)) \<le> length (lh_block s)"
    unfolding cH assms(7) using im(2) by (simp add: param_defs)
  let ?B = "map (hdr_block H) [0..<?n] @ drop ?n (lh_block s)"
  obtain s1 where a: "read_head s = Ok s1" "binv s1" "held s1 = {}" "dirty s1 = {}"
    "cblock s1 = cblock s" "disk s1 = disk s" "dtrace s1 = dtrace s" "mypid s1 = mypid s"
    "kio.more s1 = kio.more (s\<lparr>lh_n := hdr_n H, lh_block := ?B\<rparr>)"
    by (rule read_head_ok [OF assms(3,4,6) st assms(5) nl, unfolded cH])
  note m = klog_more_cong [OF a(9), simplified]
  have n1: "lh_n s1 = int ?n" using m(4) im(1) by simp
  have hb: "home s1 k = hdr_block H k" if "k < ?n" for k using that m(5) by (simp add: nth_append)
  have wf: "log_wf ?n s1"
    unfolding log_wf_def using im assms(2,6,7) hb a(6) m by (simp add: param_defs)
  have lb: "cblock s1 (logblk s1 k) = d ! (unat ?st + k + 1)" if "k < ?n" for k
    using log_wfD(1) [OF wf that] unfolding a(5) cd m by simp
  have H1: "disk s1 ! unat (log_start s1) = H" by (simp add: m a(6) assms(2) H_def)
  obtain s2 s3 where b: "install_trans s1 = Ok s2" "write_head (s2\<lparr>lh_n := 0\<rparr>) = Ok s3" "binv s3"
    "held s3 = {}" "dirty s3 = {}"
    "disk s3 = apply_writes (map (\<lambda>k. (home s1 k, cblock s1 (logblk s1 k))) [0..<?n] @
       [(log_start s1, head_data 0 (lh_block s1) H)]) (disk s1)"
    "dtrace s3 = dtrace s1 @ map (\<lambda>k. (home s1 k, cblock s1 (logblk s1 k))) [0..<?n] @
       [(log_start s1, head_data 0 (lh_block s1) H)]"
    "mypid s3 = mypid s1" "kio.more s3 = kio.more (s1\<lparr>lh_n := 0\<rparr>)"
    by (rule commit_install_phase [OF wf n1 a(2,3) disjI1 [OF a(4)] H1])
  have I: "map (\<lambda>k. (home s1 k, cblock s1 (logblk s1 k))) [0..<?n] =
      map (\<lambda>k. (hdr_block H k, d ! (unat ?st + k + 1))) [0..<?n]"
    using hb lb by simp
  note m3 = klog_more_cong [OF b(9), simplified]
  show thesis
    by (rule that [OF _ b(3-5)])
      (use a(1) b(1,2) b(6) [unfolded I] m m3 a(6) assms(2) in \<open>simp_all add: recover_from_log_def\<close>)
qed
lemma boot_klog_fresh:
  "length (bufs (boot_klog d)) = Suc NBUF" "\<forall>j < NBUF. fresh_buf (bufs (boot_klog d) ! j)"
  using boot_bufs_fresh [of d] by (simp_all add: boot_klog_def boot_kio_def)

text \<open>
  A reboot: a committed transaction found in the log is installed, block by block, and the
  header is cleared.
\<close>

definition recovered :: "uint \<Rightarrow> block list \<Rightarrow> block list" where
  "recovered st d =
     (let H = d ! unat st in
      apply_writes (map (\<lambda>k. (hdr_block H k, d ! (unat st + k + 1))) [0..<nat (hdr_n H)]) d)"

lemma reboot_ok:
  assumes "log_image st d"
  obtains t where "reboot d = Ok t" "binv t" "held t = {}" "dirty t = {}" "lh_n t = 0"
    "log_start t = st" "length (disk t) = length d"
    "\<And>m. m \<noteq> unat st \<Longrightarrow> disk t ! m = recovered st d ! m"
proof -
  let ?s = "binit (boot_klog d)"
  note bi = binit_inv [OF boot_klog_fresh [of d]]
  note only = only_bufsD [OF bi(5)]
  have len: "1 < length d" and sb: "sb_logstart (superblock_of (d ! 1)) = st"
    using assms by (auto simp: log_image_def Let_def)
  have dd: "disk ?s = d" unfolding only(1) by (simp add: boot_klog_def)
  obtain s1 where r: "readsb 1 ?s = Ok (superblock_of (cblock ?s 1), s1)" "binv s1" "held s1 = {}"
    "dirty s1 = {}" "cblock s1 = cblock ?s" "disk s1 = disk ?s" "dtrace s1 = dtrace ?s"
    "mypid s1 = mypid ?s" "kio.more s1 = kio.more ?s"
    using readsb_ok [OF binvI [OF bi(1)] bi(2) _ bi(3)] len dd by auto
  have c1: "cblock ?s 1 = d ! 1" using bi(4) [of 1] by (simp add: boot_klog_def)
  let ?sb = "superblock_of (d ! 1)"
  let ?t = "s1\<lparr>log_start := st, log_size := sint (sb_nlog ?sb), log_dev := 1\<rparr>"
  note v = view_cong [of ?t s1, simplified]
  have lb: "length (lh_block ?t) = LOGSIZE"
    using klog_more_cong(5) [OF r(9)] klog_more_cong(5) [OF only(5)] by (simp add: boot_klog_def)
  have pre: "log_image (log_start ?t) d" "disk ?t = d" "binv ?t" "held ?t = {}" "dirty ?t = {}"
    "log_dev ?t = 1"
    using assms r dd v by simp_all
  obtain s2 where e: "recover_from_log ?t = Ok s2" "binv s2" "held s2 = {}" "dirty s2 = {}"
    "disk s2 = apply_writes
       (map (\<lambda>k. (hdr_block (d ! unat (log_start ?t)) k, d ! (unat (log_start ?t) + k + 1)))
          [0..<nat (hdr_n (d ! unat (log_start ?t)))] @
        [(log_start ?t, head_data 0 (map (hdr_block (d ! unat (log_start ?t)))
            [0..<nat (hdr_n (d ! unat (log_start ?t)))] @
            drop (nat (hdr_n (d ! unat (log_start ?t)))) (lh_block ?t)) (d ! unat (log_start ?t)))]) d"
    "lh_n s2 = 0" "log_start s2 = log_start ?t"
    by (rule recover_ok [OF pre lb])
  have "reboot d = Ok s2"
    using r(1) e(1) sb unfolding reboot_def initlog_def c1 by (simp add: param_defs)
  then show thesis
    by (rule that [OF _ e(2-4,6)]) (simp_all add: e(5,7) recovered_def Let_def)
qed

lemma recovered_none: "hdr_n (d ! unat st) = 0 \<Longrightarrow> recovered st d = d"
  by (simp add: recovered_def)
section \<open>A crash at any moment of a commit\<close>

text \<open>
  A transaction about to commit over a disk whose log is empty. The super block, block 1,
  lies before the log and is never logged.
\<close>

definition crash_pre :: "nat \<Rightarrow> 'a klog_scheme \<Rightarrow> bool" where
  "crash_pre n s \<longleftrightarrow> in_txn n s \<and> 0 < n \<and> log_image (log_start s) (disk s) \<and>
     hdr_n (disk s ! unat (log_start s)) = 0 \<and> length (disk s ! unat (log_start s)) = BSIZE \<and>
     1 < unat (log_start s) \<and> (\<forall>k < n. home s k \<noteq> 1)"

definition outside_log :: "nat \<Rightarrow> 'a klog_scheme \<Rightarrow> uint \<Rightarrow> bool" where
  "outside_log n s b \<longleftrightarrow> unat b < length (disk s) \<and>
     (unat b < unat (log_start s) \<or> unat (log_start s) + n < unat b)"

definition log_part :: "nat \<Rightarrow> 'a klog_scheme \<Rightarrow> (uint \<times> block) list" where
  "log_part n s = map (\<lambda>k. (logblk s k, cblock s (home s k))) [0..<n]"

definition home_part :: "nat \<Rightarrow> 'a klog_scheme \<Rightarrow> (uint \<times> block) list" where
  "home_part n s = map (\<lambda>k. (home s k, cblock s (home s k))) [0..<n]"

lemma commit_writes_parts:
  "commit_writes n s = log_part n s @ [(log_start s, commit_head n s)] @ home_part n s @
     [(log_start s, head_data 0 (lh_block s) (commit_head n s))]"
  by (simp add: commit_writes_def log_part_def home_part_def Let_def)

lemma crash_preD:
  assumes "crash_pre n s"
  shows "in_txn n s" "0 < n" "log_image (log_start s) (disk s)"
    "hdr_n (disk s ! unat (log_start s)) = 0" "length (disk s ! unat (log_start s)) = BSIZE"
    "1 < unat (log_start s)" "k < n \<Longrightarrow> home s k \<noteq> 1"
    "cblock s (log_start s) = disk s ! unat (log_start s)" "log_wf n s"
proof -
  show t: "in_txn n s" and "0 < n" "log_image (log_start s) (disk s)"
    "hdr_n (disk s ! unat (log_start s)) = 0" "length (disk s ! unat (log_start s)) = BSIZE"
    "1 < unat (log_start s)" "k < n \<Longrightarrow> home s k \<noteq> 1"
    using assms by (auto simp: crash_pre_def)
  show "cblock s (log_start s) = disk s ! unat (log_start s)"
    by (rule cblock_clean [OF in_txnD(3) [OF t]]) (simp_all add: in_txnD(4,10) [OF t])
  show "log_wf n s" by (rule in_txnD(1) [OF t])
qed

lemma commit_head_hdr:
  assumes "crash_pre n s"
  shows "hdr_n (commit_head n s) = int n" "k < n \<Longrightarrow> hdr_block (commit_head n s) k = home s k"
    "hdr_n (head_data 0 (lh_block s) (commit_head n s)) = 0"
proof -
  note D = crash_preD [OF assms]
  have l: "length (cblock s (log_start s)) = BSIZE" using D(5,8) by simp
  have n: "n \<le> LOGSIZE" "n \<le> length (lh_block s)" using D(9) by (auto simp: log_wf_def param_defs)
  note h = head_data [OF l n]
  show "hdr_n (commit_head n s) = int n" "k < n \<Longrightarrow> hdr_block (commit_head n s) k = home s k"
    using h(2,3) by simp_all
  show "hdr_n (head_data 0 (lh_block s) (commit_head n s)) = 0"
    using head_data(2) [OF h(1), of 0 "lh_block s"] by simp
qed

lemma log_part_inside:
  assumes "log_wf n s" "w \<in> set (log_part n s)"
  shows "unat (log_start s) < unat (fst w)" "unat (fst w) \<le> unat (log_start s) + n"
  using assms(2) log_wfD(1) [OF assms(1)] unfolding log_part_def by auto

lemma outside_log_part:
  assumes "log_wf n s" "m < unat (log_start s) \<or> unat (log_start s) + n < m \<or> m = unat (log_start s)"
    "set ws \<subseteq> set (log_part n s)"
  shows "apply_writes ws d ! m = d ! m"
proof (rule apply_writes_notin)
  have "unat (fst w) \<noteq> m" if "w \<in> set ws" for w
    using log_part_inside [OF assms(1), of w] that assms(2,3) by fastforce
  then show "m \<notin> (\<lambda>w. unat (fst w)) ` set ws" by blast
qed

text \<open>Before the header is on the disk, recovery finds an empty log.\<close>

lemma crash_before:
  fixes k :: nat
  assumes "crash_pre n s"
  defines "d \<equiv> apply_writes (take k (log_part n s)) (disk s)"
  shows "log_image (log_start s) d" "hdr_n (d ! unat (log_start s)) = 0"
    "outside_log n s b \<Longrightarrow> d ! unat b = disk s ! unat b"
proof -
  note D = crash_preD [OF assms(1)]
  have s: "set (take k (log_part n s)) \<subseteq> set (log_part n s)" by (rule set_take_subset)
  note o = outside_log_part [OF D(9) _ s]
  have h: "d ! unat (log_start s) = disk s ! unat (log_start s)"
    unfolding d_def by (rule o) simp
  then show "hdr_n (d ! unat (log_start s)) = 0" using D(4) by simp
  have "d ! 1 = disk s ! 1" unfolding d_def by (rule o) (use D(6) in simp)
  then show "log_image (log_start s) d"
    using D(3,4) h unfolding log_image_def Let_def by (simp add: d_def)
  show "d ! unat b = disk s ! unat b" if "outside_log n s b"
    unfolding d_def by (rule o) (use that in \<open>auto simp: outside_log_def\<close>)
qed

text \<open>
  From then on the disk holds the new contents of every logged block, in the log or at home.
\<close>

lemma home_part_keeps:
  assumes "log_wf n s" "unat (log_start s) \<le> m" "m \<le> unat (log_start s) + n"
    "set ws \<subseteq> set (home_part n s)"
  shows "apply_writes ws d ! m = d ! m"
proof (rule apply_writes_notin)
  have "unat (fst w) \<noteq> m" if "w \<in> set ws" for w
  proof -
    have "w \<in> set (home_part n s)" using that assms(4) by blast
    then obtain k where k: "k < n" "fst w = home s k" unfolding home_part_def by auto
    have "unat (home s k) < unat (log_start s) \<or> unat (log_start s) + n < unat (home s k)"
      using assms(1) k(1) unfolding log_wf_def by blast
    with k(2) assms(2,3) show ?thesis by auto
  qed
  then show "m \<notin> (\<lambda>w. unat (fst w)) ` set ws" by blast
qed

lemma logged_disk:
  fixes ws :: "(uint \<times> block) list"
  assumes "crash_pre n s" "set ws \<subseteq> set (home_part n s)"
  defines "d \<equiv> apply_writes (log_part n s @ [(log_start s, commit_head n s)] @ ws) (disk s)"
  shows "d ! unat (log_start s) = commit_head n s" "d ! 1 = disk s ! 1" "length d = length (disk s)"
    "k < n \<Longrightarrow> d ! (unat (log_start s) + k + 1) = cblock s (home s k)"
    "unat b \<notin> (\<lambda>w. unat (fst w)) ` set (home_part n s) \<Longrightarrow> outside_log n s b \<Longrightarrow>
       d ! unat b = disk s ! unat b"
proof -
  note D = crash_preD [OF assms(1)]
  let ?st = "unat (log_start s)"
  let ?e = "apply_writes (log_part n s) (disk s)"
  have d: "d = apply_writes ws (?e[?st := commit_head n s])" by (simp add: d_def)
  have st: "?st < length (disk s)" by (rule in_txnD(8) [OF D(1)])
  show "length d = length (disk s)" by (simp add: d_def)
  show "d ! ?st = commit_head n s"
    unfolding d using home_part_keeps [OF D(9) _ _ assms(2), of ?st] st by simp
  have "home s k \<noteq> 1" if "k < n" for k by (rule D(7) [OF that])
  then have "unat (home s k) \<noteq> 1" if "k < n" for k
    using that unat_block_eq [of "home s k" 1] by simp
  then have n1: "1 \<notin> (\<lambda>w. unat (fst w)) ` set ws" using assms(2) unfolding home_part_def by fastforce
  show "d ! 1 = disk s ! 1"
    unfolding d using apply_writes_notin [OF n1] outside_log_part [OF D(9) _ subset_refl, of 1] D(6)
    by simp
  show "d ! (?st + k + 1) = cblock s (home s k)" if "k < n"
  proof -
    have "?e ! unat (logblk s k) = cblock s (home s k)"
      by (rule apply_writes_in)
        (use that log_wfD(2,9) [OF D(9)] in \<open>auto simp: log_part_def distinct_map inj_on_def\<close>)
    then show ?thesis
      unfolding d using home_part_keeps [OF D(9) _ _ assms(2), of "?st + k + 1"] that
        log_wfD(1) [OF D(9) that] by simp
  qed
  show "d ! unat b = disk s ! unat b"
    if "unat b \<notin> (\<lambda>w. unat (fst w)) ` set (home_part n s)" "outside_log n s b"
  proof -
    have "unat b \<notin> (\<lambda>w. unat (fst w)) ` set ws" using that(1) assms(2) by blast
    moreover have "unat b \<noteq> ?st" using that(2) by (auto simp: outside_log_def)
    moreover have "?e ! unat b = disk s ! unat b"
      by (rule outside_log_part [OF D(9) _ subset_refl]) (use that(2) in \<open>auto simp: outside_log_def\<close>)
    ultimately show ?thesis unfolding d by (simp add: apply_writes_notin)
  qed
qed

lemma new_contents:
  assumes "crash_pre n s" "outside_log n s b"
    and "\<And>k. k < n \<Longrightarrow> d ! unat (home s k) = cblock s (home s k)"
    and "unat b \<notin> (\<lambda>w. unat (fst w)) ` set (home_part n s) \<Longrightarrow> d ! unat b = disk s ! unat b"
  shows "d ! unat b = cblock s b"
proof (cases "\<exists>k < n. home s k = b")
  case True
  then show ?thesis using assms(3) by blast
next
  case False
  then have "b \<notin> dirty s" using in_txnD(5) [OF crash_preD(1) [OF assms(1)]] by auto
  then have "cblock s b = disk s ! unat b"
    using cblock_clean [OF in_txnD(3) [OF crash_preD(1) [OF assms(1)]]]
      in_txnD(4) [OF crash_preD(1) [OF assms(1)]] by simp
  moreover have "unat b \<notin> (\<lambda>w. unat (fst w)) ` set (home_part n s)"
    using False unfolding home_part_def by auto
  ultimately show ?thesis using assms(4) by simp
qed
lemma crash_after:
  assumes "crash_pre n s" "set ws \<subseteq> set (home_part n s)"
  defines "d \<equiv> apply_writes (log_part n s @ [(log_start s, commit_head n s)] @ ws) (disk s)"
  shows "log_image (log_start s) d"
    "outside_log n s b \<Longrightarrow> recovered (log_start s) d ! unat b = cblock s b"
proof -
  note D = crash_preD [OF assms(1)] and wf = crash_preD(9) [OF assms(1)]
  note L = logged_disk [OF assms(1,2), folded d_def] and H = commit_head_hdr [OF assms(1)]
  let ?W = "map (\<lambda>k. (home s k, cblock s (home s k))) [0..<n]"
  have hb: "map (hdr_block (commit_head n s)) [0..<n] = map (\<lambda>k. home s k) [0..<n]"
    using H(2) by simp
  have dis: "distinct (map (\<lambda>k. home s k) [0..<n])"
    using log_wfD(6) [OF wf] by (auto simp: distinct_map inj_on_def)
  show "log_image (log_start s) d"
    using D(3) wf dis unfolding log_image_def Let_def L(1-3) H(1) log_wf_def
    by (simp add: hb H(2))
  have rec: "recovered (log_start s) d = apply_writes ?W d"
    unfolding recovered_def Let_def L(1) H(1) using L(4) H(2)
    by (intro arg_cong2 [where f = apply_writes]) (simp_all cong: map_cong)
  have W: "?W = home_part n s" by (simp add: home_part_def)
  show "recovered (log_start s) d ! unat b = cblock s b" if o: "outside_log n s b"
    unfolding rec W
  proof (rule new_contents [OF assms(1) o])
    show "apply_writes (home_part n s) d ! unat (home s k) = cblock s (home s k)" if "k < n" for k
      by (rule apply_writes_in)
        (use that dis L(3) log_wfD(3) [OF wf that] in \<open>auto simp: home_part_def comp_def\<close>)
    show "apply_writes (home_part n s) d ! unat b = disk s ! unat b"
      if "unat b \<notin> (\<lambda>w. unat (fst w)) ` set (home_part n s)"
      using L(5) [OF that o] that by (simp add: apply_writes_notin)
  qed
qed

lemma crash_done:
  assumes "crash_pre n s"
  defines "d \<equiv> apply_writes (commit_writes n s) (disk s)"
  shows "log_image (log_start s) d" "hdr_n (d ! unat (log_start s)) = 0"
    "outside_log n s b \<Longrightarrow> d ! unat b = cblock s b"
proof -
  note D = crash_preD [OF assms(1)] and wf = crash_preD(9) [OF assms(1)]
  let ?e = "apply_writes (log_part n s @ [(log_start s, commit_head n s)] @ home_part n s) (disk s)"
  let ?H = "head_data 0 (lh_block s) (commit_head n s)"
  note L = logged_disk [OF assms(1) subset_refl]
  have d: "d = ?e[unat (log_start s) := ?H]" by (simp add: d_def commit_writes_parts)
  have st: "unat (log_start s) < length ?e" using in_txnD(8) [OF D(1)] L(3) by simp
  have h: "d ! unat (log_start s) = ?H" unfolding d using st by simp
  then show z: "hdr_n (d ! unat (log_start s)) = 0" using commit_head_hdr(3) [OF assms(1)] by simp
  have "d ! 1 = disk s ! 1" unfolding d using L(2) D(6) by simp
  then show "log_image (log_start s) d"
    using D(3,4) z L(3) d unfolding log_image_def Let_def by simp
  show "d ! unat b = cblock s b" if o: "outside_log n s b"
  proof (rule new_contents [OF assms(1) o])
    have ne: "unat c \<noteq> unat (log_start s)" if "outside_log n s c" for c
      using that by (auto simp: outside_log_def)
    show "d ! unat (home s k) = cblock s (home s k)" if "k < n" for k
    proof -
      have "apply_writes (home_part n s) x ! unat (home s k) = cblock s (home s k)"
        if "length x = length (disk s)" for x
        by (rule apply_writes_in)
          (use \<open>k < n\<close> that log_wfD(3,6) [OF wf] in \<open>auto simp: home_part_def distinct_map inj_on_def\<close>)
      moreover have "unat (home s k) \<noteq> unat (log_start s)" using log_wfD(7) [OF wf that] by simp
      ultimately show ?thesis unfolding d by simp
    qed
    show "d ! unat b = disk s ! unat b" if "unat b \<notin> (\<lambda>w. unat (fst w)) ` set (home_part n s)"
      using L(5) [OF that o] ne [OF o] unfolding d by simp
  qed
qed

text \<open>A prefix of the writes of a commit is one of three kinds.\<close>

lemma commit_prefix:
  obtains "take k (commit_writes n s) = take k (log_part n s)"
  | ws where "take k (commit_writes n s) = log_part n s @ [(log_start s, commit_head n s)] @ ws"
      "set ws \<subseteq> set (home_part n s)"
  | "take k (commit_writes n s) = commit_writes n s"
proof -
  let ?L = "log_part n s" and ?I = "home_part n s"
  have len: "length ?L = n" "length ?I = n" by (simp_all add: log_part_def home_part_def)
  consider "k \<le> n" | "n < k" "k \<le> 2 * n + 1" | "2 * n + 1 < k" by linarith
  then show thesis
  proof cases
    case 1
    then show ?thesis using that(1) len by (simp add: commit_writes_parts)
  next
    case 2
    then obtain j where j: "k = n + 1 + j" "j \<le> n" by (metis add.commute add_le_cancel_left le_Suc_ex Suc_leI Suc_eq_plus1 mult_2 add.assoc)
    have "take k (commit_writes n s) = ?L @ [(log_start s, commit_head n s)] @ take j ?I"
      using j len by (simp add: commit_writes_parts)
    then show ?thesis using that(2) set_take_subset by metis
  next
    case 3
    then have "length (commit_writes n s) \<le> k" using len by (simp add: commit_writes_parts)
    then show ?thesis using that(3) by simp
  qed
qed
lemma reboot_outside:
  assumes "log_image (log_start s) d"
  shows "\<exists>t. reboot d = Ok t \<and> lh_n t = 0 \<and>
    (\<forall>b. outside_log n s b \<longrightarrow> disk t ! unat b = recovered (log_start s) d ! unat b)"
proof (rule reboot_ok [OF assms])
  fix t assume t: "reboot d = Ok t" "lh_n t = 0"
    "\<And>m. m \<noteq> unat (log_start s) \<Longrightarrow> disk t ! m = recovered (log_start s) d ! m"
  have "unat b \<noteq> unat (log_start s)" if "outside_log n s b" for b
    using that by (auto simp: outside_log_def)
  with t show ?thesis by blast
qed

text \<open>
  C14: Crash safety. A commit returns, and if the machine crashes after any number of its
  disk writes, the next boot recovers a disk that agrees, outside the log, either with the
  disk before the transaction or with the transaction applied in full; after the last
  write it is the transaction applied.
\<close>

theorem commit_crash_atomic:
  assumes "crash_pre n s"
  shows "\<exists>s' W. commit s = Ok s' \<and> dtrace s' = dtrace s @ W \<and> lh_n s' = 0 \<and> dirty s' = {} \<and>
    (\<forall>b. outside_log n s b \<longrightarrow> disk s' ! unat b = cblock s b) \<and>
    (\<forall>k \<le> length W. \<exists>t. reboot (apply_writes (take k W) (disk s)) = Ok t \<and> lh_n t = 0 \<and>
       ((\<forall>b. outside_log n s b \<longrightarrow> disk t ! unat b = disk s ! unat b) \<or>
        (\<forall>b. outside_log n s b \<longrightarrow> disk t ! unat b = cblock s b)))"
proof -
  note D = crash_preD [OF assms]
  obtain s' where c: "commit s = Ok s'" "binv s'" "held s' = {}" "dirty s' = {}"
    "disk s' = apply_writes (commit_writes n s) (disk s)"
    "dtrace s' = dtrace s @ commit_writes n s" "mypid s' = mypid s"
    "kio.more s' = kio.more (s\<lparr>lh_n := 0\<rparr>)"
    by (rule commit_ok [OF D(1,2)])
  have ln: "lh_n s' = 0" using klog_more_cong(4) [OF c(8)] by simp
  have fin: "\<forall>b. outside_log n s b \<longrightarrow> disk s' ! unat b = cblock s b"
    using crash_done(3) [OF assms] c(5) by simp
  have "\<exists>t. reboot (apply_writes (take k (commit_writes n s)) (disk s)) = Ok t \<and> lh_n t = 0 \<and>
       ((\<forall>b. outside_log n s b \<longrightarrow> disk t ! unat b = disk s ! unat b) \<or>
        (\<forall>b. outside_log n s b \<longrightarrow> disk t ! unat b = cblock s b))" for k
  proof (rule commit_prefix [of k n s])
    assume k: "take k (commit_writes n s) = take k (log_part n s)"
    note b = crash_before [OF assms, where k = k]
    show ?thesis unfolding k using reboot_outside [OF b(1), of n] b(3) unfolding recovered_none [OF b(2)] by metis
  next
    fix ws assume k: "take k (commit_writes n s) = log_part n s @ [(log_start s, commit_head n s)] @ ws"
      and ws: "set ws \<subseteq> set (home_part n s)"
    note b = crash_after [OF assms ws]
    show ?thesis unfolding k using reboot_outside [OF b(1), of n] b(2) by metis
  next
    assume k: "take k (commit_writes n s) = commit_writes n s"
    note b = crash_done [OF assms]
    show ?thesis unfolding k using reboot_outside [OF b(1), of n] b(3) unfolding recovered_none [OF b(2)] by metis
  qed
  then show ?thesis using c(1,4,6) ln fin by blast
qed

text \<open>
  A disk of \<open>FSSIZE\<close> zero blocks with a super block that puts a log of \<open>LOGSIZE\<close>
  blocks at block 2, and the kernel over it with one operation running.
\<close>

definition demo_disk :: "block list" where
  "demo_disk = (replicate FSSIZE (replicate BSIZE 0))
     [1 := put32 (put32 (replicate BSIZE 0) 12 (of_nat LOGSIZE)) 16 2]"

definition demo_klog :: klog where
  "demo_klog = (binit (boot_klog demo_disk))
     \<lparr>log_start := 2, log_size := int LOGSIZE, log_dev := 1, log_outstanding := 1\<rparr>"

lemma get32_zero [simp]: "off + 4 \<le> n \<Longrightarrow> get32 (replicate n 0) off = 0"
  by (simp add: get32_def word32_def nth_getn)

lemma demo_disk_nth:
  "length demo_disk = 1000" "demo_disk ! 2 = replicate BSIZE 0"
  "sb_logstart (superblock_of (demo_disk ! Suc 0)) = 2"
  by (simp_all add: demo_disk_def superblock_of_def param_defs)

lemma demo_disk_image: "log_image 2 demo_disk"
  by (simp add: log_image_def Let_def demo_disk_nth hdr_n_def param_defs)

lemma demo_klog_ok:
  "binv demo_klog" "held demo_klog = {}" "dirty demo_klog = {}" "disk demo_klog = demo_disk"
  "log_start demo_klog = 2" "log_dev demo_klog = 1" "lh_n demo_klog = 0" "log_room demo_klog"
  "lh_block demo_klog = replicate LOGSIZE 0"
proof -
  let ?s = "binit (boot_klog demo_disk)"
  note bi = binit_inv [OF boot_klog_fresh [of demo_disk]]
  note only = only_bufsD [OF bi(5)]
  have more: "lh_n ?s = 0" "lh_block ?s = replicate LOGSIZE 0"
    using klog_more_cong(4,5) [OF only(5)] by (simp_all add: boot_klog_def)
  note v = view_cong [of demo_klog ?s, unfolded demo_klog_def, simplified]
  show "binv demo_klog" "held demo_klog = {}" "dirty demo_klog = {}"
    using v bi(1-3) by (auto simp: demo_klog_def)
  show "disk demo_klog = demo_disk" using only(1) by (simp add: demo_klog_def boot_klog_def)
  show "log_start demo_klog = 2" "log_dev demo_klog = 1" "lh_n demo_klog = 0" "log_room demo_klog"
    "lh_block demo_klog = replicate LOGSIZE 0"
    using more by (simp_all add: demo_klog_def log_room_def param_defs)
qed

lemma demo_txn:
  "\<exists>s :: klog. crash_pre 1 s \<and> disk s = demo_disk \<and> cblock s 100 = replicate BSIZE 7"
proof -
  note D = demo_klog_ok
  have pre: "unat (100 :: uint) < length (disk demo_klog)" "100 \<notin> held demo_klog"
    "100 \<in> dirty demo_klog \<or> card (held demo_klog \<union> dirty demo_klog) < NBUF"
    by (simp_all add: D demo_disk_nth param_defs)
  obtain i s1 where r: "bread 1 100 demo_klog = Ok (i, s1)" "mine s1 i 100" "binv s1"
    "held s1 = insert 100 (held demo_klog)" "dirty s1 = dirty demo_klog"
    "cblock s1 = cblock demo_klog" "only_bufs demo_klog s1"
    by (rule bread_ok [OF D(1) pre])
  note m1 = klog_more_cong [OF only_bufsD(5) [OF r(7)]]
  let ?t = "upd_buf i (\<lambda>x. x\<lparr>b_data := replicate BSIZE 7\<rparr>) s1"
  note st = store_ok [OF r(3,2), of "replicate BSIZE 7"]
  note m2 = klog_more_cong [OF only_bufsD(5) [OF st(6)], unfolded m1]
  have mt: "mine ?t i 100" unfolding st(2) by (rule r(2))
  have room: "log_room ?t" using D(8) unfolding log_room_def m2 .
  obtain s2 where w: "log_write i ?t = Ok s2" "binv s2" "mine s2 = mine ?t" "held s2 = held ?t"
    "dirty s2 = insert 100 (dirty ?t)" "cblock s2 = cblock ?t" "disk s2 = disk ?t"
    "logged s2 = (if 100 \<in> set (logged ?t) then logged ?t else logged ?t @ [100])"
    "lh_n s2 = (if 100 \<in> set (logged ?t) then lh_n ?t else lh_n ?t + 1)"
    "log_start s2 = log_start ?t" "log_dev s2 = log_dev ?t" "length (lh_block s2) = LOGSIZE"
    by (rule log_write_ok [OF st(1) mt room])
  have m: "mine s2 i 100" unfolding w(3) by (rule mt)
  have dd: "100 \<in> dirty s2 \<or> cblock s2 100 = disk s2 ! unat (100 :: uint)" unfolding w(5) by simp
  obtain s3 where e: "brelse i s2 = Ok s3" "binv s3" "mine s3 = (\<lambda>j c. mine s2 j c \<and> c \<noteq> 100)"
    "held s3 = held s2 - {100}" "dirty s3 = dirty s2" "cblock s3 = cblock s2" "disk s3 = disk s2"
    "dtrace s3 = dtrace s2" "mypid s3 = mypid s2" "kio.more s3 = kio.more s2"
    by (rule brelse_ok [OF w(2) m dd])
  note m3 = klog_more_cong [OF e(10)]
  have lg: "logged ?t = []" unfolding logged_def m2 D(7) by simp
  have n: "lh_n s3 = 1" "log_start s3 = 2" "log_dev s3 = 1"
    unfolding m3 w(9-11) lg m2 D(5-7) by simp_all
  have len: "length (lh_block s3) = LOGSIZE" unfolding m3 by (rule w(12))
  have tk: "take (Suc 0) (lh_block s3) = [100]"
    using w(8,9) unfolding lg m2 D(7) m3 logged_def by simp
  then have hm: "home s3 0 = 100" using len by (cases "lh_block s3") (auto simp: param_defs)
  have disk: "disk s3 = demo_disk"
    unfolding e(7) w(7) using only_bufsD(1) [OF st(6)] only_bufsD(1) [OF r(7)] D(4) by simp
  have wf: "log_wf 1 s3"
    unfolding log_wf_def using n len hm by (simp add: tk disk demo_disk_nth param_defs)
  have "in_txn 1 s3"
    unfolding in_txn_def using wf n e(2,4,5) w(4,5) st(3,4) r(4,5) D(2,3) hm by auto
  then have "crash_pre 1 s3"
    unfolding crash_pre_def n disk demo_disk_nth
    using demo_disk_image hm by (simp add: demo_disk_nth hdr_n_def param_defs)
  moreover have "cblock s3 100 = replicate BSIZE 7" unfolding e(6) w(6) st(5) by simp
  ultimately show ?thesis using disk by blast
qed

theorem commit_crash_atomic_witness:
  "\<exists>(s :: klog) s'. disk s ! 100 = replicate BSIZE 0 \<and> commit s = Ok s' \<and>
     disk s' ! 100 = replicate BSIZE 7 \<and> lh_n s' = 0"
proof -
  obtain s :: klog where s: "crash_pre 1 s" "disk s = demo_disk" "cblock s 100 = replicate BSIZE 7"
    using demo_txn by blast
  have st: "log_start s = 2"
    using crash_preD(3) [OF s(1)] by (simp add: log_image_def Let_def s(2) demo_disk_nth)
  have "outside_log 1 s 100" by (simp add: outside_log_def st s(2) demo_disk_nth)
  then obtain s' where "commit s = Ok s'" "lh_n s' = 0" "disk s' ! unat (100 :: uint) = cblock s 100"
    using commit_crash_atomic [OF s(1)] by blast
  moreover have "disk s ! 100 = replicate BSIZE 0" by (simp add: s(2) demo_disk_def param_defs)
  ultimately show ?thesis using s(3) by auto
qed

end
