(* ===== verification/Fs.thy ===== *)
theory Fs
  imports Log
begin

text \<open>
  The file system of \<^verbatim>\<open>fs.c\<close>: the block allocator, inodes and the inode cache, file
  contents, directories and path names, in the order of the source. The state extends the
  log with the super block \<^verbatim>\<open>sb\<close>, the inode cache and the device table. A pointer to an
  in-memory inode is its index in the cache, a null pointer \<open>None\<close>.

  A \<^verbatim>\<open>readi\<close> or \<^verbatim>\<open>writei\<close> of a device calls \<^verbatim>\<open>devsw[major]\<close>: the outcome
  \<open>IoDev major\<close> says so, and the caller runs the device's function. The bytes that
  \<^verbatim>\<open>readi\<close> moves to its destination are part of its result; those that \<^verbatim>\<open>writei\<close> reads
  from its source are an argument. A sleep lock that is taken ends an operation with
  \<^term>\<open>Sleeps\<close>.
\<close>

section \<open>Data\<close>

definition T_DIR :: ushort where [param_defs]: "T_DIR = 1"
definition T_FILE :: ushort where [param_defs]: "T_FILE = 2"
definition T_DEV :: ushort where [param_defs]: "T_DEV = 3"

record inode =
  i_dev :: uint           \<comment> \<open>Device number\<close>
  i_inum :: uint          \<comment> \<open>Inode number\<close>
  i_ref :: int            \<comment> \<open>Reference count\<close>
  i_lock :: sleeplock     \<comment> \<open>protects everything below here\<close>
  i_valid :: bool         \<comment> \<open>inode has been read from disk?\<close>
  i_type :: ushort        \<comment> \<open>copy of disk inode\<close>
  i_major :: ushort
  i_minor :: ushort
  i_nlink :: ushort
  i_size :: uint
  i_addrs :: "uint list"

record stat =
  st_type :: ushort       \<comment> \<open>Type of file\<close>
  st_dev :: uint          \<comment> \<open>File system's disk device\<close>
  st_ino :: uint          \<comment> \<open>Inode number\<close>
  st_nlink :: ushort      \<comment> \<open>Number of links to file\<close>
  st_size :: uint         \<comment> \<open>Size of file in bytes\<close>

record kfs = klog +
  sb :: superblock
  icache :: "inode list"
  devsw :: "bool list"    \<comment> \<open>which devices have read and write functions\<close>

datatype 'r io = IoFail | IoDev nat | IoDone 'r

text \<open>Static storage at boot, over the disk \<open>d\<close>.\<close>

definition zero_inode :: inode where
  "zero_inode = \<lparr>i_dev = 0, i_inum = 0, i_ref = 0, i_lock = zero_sleeplock, i_valid = False,
     i_type = 0, i_major = 0, i_minor = 0, i_nlink = 0, i_size = 0, i_addrs = replicate (Suc NDIRECT) 0\<rparr>"

definition zero_superblock :: superblock where
  "zero_superblock = superblock_of (replicate BSIZE 0)"

definition boot_kfs :: "block list \<Rightarrow> kfs" where
  "boot_kfs d = \<lparr>disk = d, bufs = replicate (Suc NBUF) zero_buf, mypid = 0, woken = [], dtrace = [],
     log_start = 0, log_size = 0, log_outstanding = 0, log_committing = False, log_dev = 0, lh_n = 0,
     lh_block = replicate LOGSIZE 0, sb = zero_superblock, icache = replicate NINODE zero_inode,
     devsw = replicate NDEV False\<rparr>"

definition upd_inode :: "nat \<Rightarrow> (inode \<Rightarrow> inode) \<Rightarrow> 'a kfs_scheme \<Rightarrow> 'a kfs_scheme" where
  "upd_inode ip f s = s\<lparr>icache := (icache s)[ip := f (icache s ! ip)]\<rparr>"

definition set_data :: "nat \<Rightarrow> block \<Rightarrow> 'a kio_scheme \<Rightarrow> 'a kio_scheme" where
  "set_data bp d s = upd_buf bp (\<lambda>x. x\<lparr>b_data := d\<rparr>) s"

section \<open>Blocks\<close>

definition bzero :: "uint \<Rightarrow> uint \<Rightarrow> 'a klog_scheme \<Rightarrow> 'a klog_scheme res" where
  "bzero dev bno s =
     bindR (bread dev bno s) (\<lambda>(bp, s1).
     bindR (log_write bp (set_data bp (replicate BSIZE 0) s1)) (\<lambda>s2.
     brelse bp s2))"

text \<open>The test and the marking of bit \<open>bi\<close> of a block of the free map.\<close>

definition bit_free :: "block \<Rightarrow> nat \<Rightarrow> bool" where
  "bit_free d bi \<longleftrightarrow> d ! (bi div 8) AND push_bit (bi mod 8) 1 = 0"

definition bit_mark :: "block \<Rightarrow> nat \<Rightarrow> block" where
  "bit_mark d bi = d[bi div 8 := d ! (bi div 8) OR push_bit (bi mod 8) 1]"

definition bit_clear :: "block \<Rightarrow> nat \<Rightarrow> block" where
  "bit_clear d bi = d[bi div 8 := d ! (bi div 8) AND NOT (push_bit (bi mod 8) 1)]"

text \<open>
  The outer loop of \<^verbatim>\<open>balloc\<close>, from the map block that holds bit \<open>b\<close> on; \<open>sz\<close> is
  \<^verbatim>\<open>sb.size\<close>, which nothing changes.
\<close>

function balloc_from :: "uint \<Rightarrow> nat \<Rightarrow> nat \<Rightarrow> 'a kfs_scheme \<Rightarrow> (uint \<times> 'a kfs_scheme) res" where
  "balloc_from dev sz b s =
     (if b < sz
      then bindR (bread dev (BBLOCK (of_nat b) (sb s)) s) (\<lambda>(bp, s1).
           case find (bit_free (b_data (bufs s1 ! bp))) [0..<min BPB (sz - b)] of
             Some bi \<Rightarrow>
               bindR (log_write bp (set_data bp (bit_mark (b_data (bufs s1 ! bp)) bi) s1)) (\<lambda>s2.
               bindR (brelse bp s2) (\<lambda>s3.
               bindR (bzero dev (of_nat (b + bi)) s3) (\<lambda>s4.
               Ok (of_nat (b + bi), s4))))
           | None \<Rightarrow> bindR (brelse bp s1) (\<lambda>s2. balloc_from dev sz (b + BPB) s2))
      else Panic ''balloc: out of blocks'')"
  by pat_completeness auto
termination
  by (relation "measure (\<lambda>(dev, sz, b, s). sz - b)") (auto simp: BPB_def BSIZE_def)

declare balloc_from.simps [simp del]

definition balloc :: "uint \<Rightarrow> 'a kfs_scheme \<Rightarrow> (uint \<times> 'a kfs_scheme) res" where
  "balloc dev s = balloc_from dev (unat (sb_size (sb s))) 0 s"

definition bfree :: "uint \<Rightarrow> uint \<Rightarrow> 'a kfs_scheme \<Rightarrow> 'a kfs_scheme res" where
  "bfree dev b s =
     bindR (bread dev (BBLOCK b (sb s)) s) (\<lambda>(bp, s1).
     let bi = unat b mod BPB; d = b_data (bufs s1 ! bp) in
     bindR (guardR (\<not> bit_free d bi) ''freeing free block'') (\<lambda>_.
     bindR (log_write bp (set_data bp (bit_clear d bi) s1)) (\<lambda>s2.
     brelse bp s2)))"

section \<open>Inodes\<close>

definition iinit :: "uint \<Rightarrow> 'a kfs_scheme \<Rightarrow> 'a kfs_scheme res" where
  "iinit dev s =
     (let s1 = s\<lparr>icache := map (\<lambda>x. x\<lparr>i_lock := initsleeplock (i_lock x) ''inode''\<rparr>) (icache s)\<rparr> in
      bindR (readsb dev s1) (\<lambda>(v, s2). Ok (s2\<lparr>sb := v\<rparr>)))"

definition iget :: "uint \<Rightarrow> uint \<Rightarrow> 'a kfs_scheme \<Rightarrow> (nat \<times> 'a kfs_scheme) res" where
  "iget dev inum s =
     (case find_index (\<lambda>x. i_ref x > 0 \<and> i_dev x = dev \<and> i_inum x = inum) (icache s) of
        Some ip \<Rightarrow> Ok (ip, upd_inode ip (\<lambda>x. x\<lparr>i_ref := i_ref x + 1\<rparr>) s)
      | None \<Rightarrow>
          (case find_index (\<lambda>x. i_ref x = 0) (icache s) of
             None \<Rightarrow> Panic ''iget: no inodes''
           | Some ip \<Rightarrow>
               Ok (ip, upd_inode ip
                     (\<lambda>x. x\<lparr>i_dev := dev, i_inum := inum, i_ref := 1, i_valid := False\<rparr>) s)))"

text \<open>The place of inode \<open>inum\<close> in its block.\<close>

definition ioff :: "uint \<Rightarrow> nat" where
  "ioff inum = 64 * (unat inum mod IPB)"

definition zero_dinode :: dinode where
  "zero_dinode = \<lparr>d_type = 0, d_major = 0, d_minor = 0, d_nlink = 0, d_size = 0,
     d_addrs = replicate (Suc NDIRECT) 0\<rparr>"

function ialloc_from ::
  "uint \<Rightarrow> ushort \<Rightarrow> nat \<Rightarrow> nat \<Rightarrow> 'a kfs_scheme \<Rightarrow> (nat \<times> 'a kfs_scheme) res" where
  "ialloc_from dev type ninodes inum s =
     (if inum < ninodes
      then bindR (bread dev (IBLOCK (of_nat inum) (sb s)) s) (\<lambda>(bp, s1).
           let d = b_data (bufs s1 ! bp); off = ioff (of_nat inum) in
           if d_type (dinode_of d off) = 0
           then bindR (log_write bp (set_data bp
                         (putn d off (dinode_bytes (zero_dinode\<lparr>d_type := type\<rparr>))) s1)) (\<lambda>s2.
                bindR (brelse bp s2) (\<lambda>s3. iget dev (of_nat inum) s3))
           else bindR (brelse bp s1) (\<lambda>s2. ialloc_from dev type ninodes (Suc inum) s2))
      else Panic ''ialloc: no inodes'')"
  by pat_completeness auto
termination
  by (relation "measure (\<lambda>(dev, type, ninodes, inum, s). ninodes - inum)") auto

declare ialloc_from.simps [simp del]

definition ialloc :: "uint \<Rightarrow> ushort \<Rightarrow> 'a kfs_scheme \<Rightarrow> (nat \<times> 'a kfs_scheme) res" where
  "ialloc dev type s = ialloc_from dev type (unat (sb_ninodes (sb s))) 1 s"

definition dinode_of_inode :: "inode \<Rightarrow> dinode" where
  "dinode_of_inode x = \<lparr>d_type = i_type x, d_major = i_major x, d_minor = i_minor x,
     d_nlink = i_nlink x, d_size = i_size x, d_addrs = i_addrs x\<rparr>"

definition iupdate :: "nat \<Rightarrow> 'a kfs_scheme \<Rightarrow> 'a kfs_scheme res" where
  "iupdate ip s =
     (let x = icache s ! ip in
      bindR (bread (i_dev x) (IBLOCK (i_inum x) (sb s)) s) (\<lambda>(bp, s1).
      bindR (log_write bp (set_data bp
               (putn (b_data (bufs s1 ! bp)) (ioff (i_inum x)) (dinode_bytes (dinode_of_inode x))) s1))
        (\<lambda>s2. brelse bp s2)))"

definition idup :: "nat \<Rightarrow> 'a kfs_scheme \<Rightarrow> 'a kfs_scheme" where
  "idup ip s = upd_inode ip (\<lambda>x. x\<lparr>i_ref := i_ref x + 1\<rparr>) s"

definition ilock_take :: "nat \<Rightarrow> 'a kfs_scheme \<Rightarrow> 'a kfs_scheme res" where
  "ilock_take ip s =
     bindR (acquiresleep (mypid s) (i_lock (icache s ! ip))) (\<lambda>lk.
     Ok (upd_inode ip (\<lambda>x. x\<lparr>i_lock := lk\<rparr>) s))"

definition ilock_drop :: "nat \<Rightarrow> 'a kfs_scheme \<Rightarrow> 'a kfs_scheme" where
  "ilock_drop ip s =
     wake (InodeLockChan ip) (upd_inode ip (\<lambda>x. x\<lparr>i_lock := releasesleep (i_lock x)\<rparr>) s)"

definition inode_fill :: "dinode \<Rightarrow> inode \<Rightarrow> inode" where
  "inode_fill di x = x\<lparr>i_type := d_type di, i_major := d_major di, i_minor := d_minor di,
     i_nlink := d_nlink di, i_size := d_size di, i_addrs := d_addrs di\<rparr>"

definition ilock :: "nat \<Rightarrow> 'a kfs_scheme \<Rightarrow> 'a kfs_scheme res" where
  "ilock ip s =
     bindR (guardR (\<not> i_ref (icache s ! ip) < 1) ''ilock'') (\<lambda>_.
     bindR (ilock_take ip s) (\<lambda>s1.
     let x = icache s1 ! ip in
     if i_valid x then Ok s1
     else bindR (bread (i_dev x) (IBLOCK (i_inum x) (sb s1)) s1) (\<lambda>(bp, s2).
          let di = dinode_of (b_data (bufs s2 ! bp)) (ioff (i_inum x)) in
          bindR (brelse bp (upd_inode ip (inode_fill di) s2)) (\<lambda>s3.
          let s4 = upd_inode ip (\<lambda>x. x\<lparr>i_valid := True\<rparr>) s3 in
          bindR (guardR (i_type (icache s4 ! ip) \<noteq> 0) ''ilock: no type'') (\<lambda>_. Ok s4)))))"

definition iunlock :: "nat \<Rightarrow> 'a kfs_scheme \<Rightarrow> 'a kfs_scheme res" where
  "iunlock ip s =
     bindR (guardR (holdingsleep (mypid s) (i_lock (icache s ! ip)) \<and> \<not> i_ref (icache s ! ip) < 1)
              ''iunlock'') (\<lambda>_. Ok (ilock_drop ip s))"

section \<open>Inode content\<close>

text \<open>\<^verbatim>\<open>itrunc\<close>: the direct blocks, the blocks of the indirect block, the indirect block.\<close>

fun itrunc_direct :: "nat \<Rightarrow> nat list \<Rightarrow> 'a kfs_scheme \<Rightarrow> 'a kfs_scheme res" where
  "itrunc_direct ip [] s = Ok s"
| "itrunc_direct ip (i # js) s =
     (let a = i_addrs (icache s ! ip) ! i in
      if a \<noteq> 0
      then bindR (bfree (i_dev (icache s ! ip)) a s) (\<lambda>s1.
           itrunc_direct ip js (upd_inode ip (\<lambda>x. x\<lparr>i_addrs := (i_addrs x)[i := 0]\<rparr>) s1))
      else itrunc_direct ip js s)"

fun itrunc_indirect :: "nat \<Rightarrow> nat \<Rightarrow> nat list \<Rightarrow> 'a kfs_scheme \<Rightarrow> 'a kfs_scheme res" where
  "itrunc_indirect ip bp [] s = Ok s"
| "itrunc_indirect ip bp (j # js) s =
     (let a = get32 (b_data (bufs s ! bp)) (4 * j) in
      if a \<noteq> 0
      then bindR (bfree (i_dev (icache s ! ip)) a s) (itrunc_indirect ip bp js)
      else itrunc_indirect ip bp js s)"

definition itrunc :: "nat \<Rightarrow> 'a kfs_scheme \<Rightarrow> 'a kfs_scheme res" where
  "itrunc ip s =
     bindR (itrunc_direct ip [0..<NDIRECT] s) (\<lambda>s1.
     let x = icache s1 ! ip; ind = i_addrs x ! NDIRECT in
     bindR (if ind \<noteq> 0
            then bindR (bread (i_dev x) ind s1) (\<lambda>(bp, s2).
                 bindR (itrunc_indirect ip bp [0..<NINDIRECT] s2) (\<lambda>s3.
                 bindR (brelse bp s3) (\<lambda>s4.
                 bindR (bfree (i_dev (icache s4 ! ip)) (i_addrs (icache s4 ! ip) ! NDIRECT) s4) (\<lambda>s5.
                 Ok (upd_inode ip (\<lambda>x. x\<lparr>i_addrs := (i_addrs x)[NDIRECT := 0]\<rparr>) s5)))))
            else Ok s1) (\<lambda>s6.
     iupdate ip (upd_inode ip (\<lambda>x. x\<lparr>i_size := 0\<rparr>) s6)))"

definition iput :: "nat \<Rightarrow> 'a kfs_scheme \<Rightarrow> 'a kfs_scheme res" where
  "iput ip s =
     bindR (ilock_take ip s) (\<lambda>s1.
     let x = icache s1 ! ip in
     bindR (if i_valid x \<and> i_nlink x = 0 \<and> i_ref x = 1
            then bindR (itrunc ip s1) (\<lambda>s2.
                 bindR (iupdate ip (upd_inode ip (\<lambda>x. x\<lparr>i_type := 0\<rparr>) s2)) (\<lambda>s3.
                 Ok (upd_inode ip (\<lambda>x. x\<lparr>i_valid := False\<rparr>) s3)))
            else Ok s1) (\<lambda>s4.
     Ok (upd_inode ip (\<lambda>x. x\<lparr>i_ref := i_ref x - 1\<rparr>) (ilock_drop ip s4))))"

definition iunlockput :: "nat \<Rightarrow> 'a kfs_scheme \<Rightarrow> 'a kfs_scheme res" where
  "iunlockput ip s = bindR (iunlock ip s) (\<lambda>s1. iput ip s1)"

definition bmap_direct :: "nat \<Rightarrow> nat \<Rightarrow> 'a kfs_scheme \<Rightarrow> (uint \<times> 'a kfs_scheme) res" where
  "bmap_direct ip k s =
     (let x = icache s ! ip; addr = i_addrs x ! k in
      if addr = 0
      then bindR (balloc (i_dev x) s) (\<lambda>(addr, s1).
           Ok (addr, upd_inode ip (\<lambda>x. x\<lparr>i_addrs := (i_addrs x)[k := addr]\<rparr>) s1))
      else Ok (addr, s))"

definition bmap :: "nat \<Rightarrow> nat \<Rightarrow> 'a kfs_scheme \<Rightarrow> (uint \<times> 'a kfs_scheme) res" where
  "bmap ip bn s =
     (if bn < NDIRECT then bmap_direct ip bn s
      else if bn - NDIRECT < NINDIRECT
      then bindR (bmap_direct ip NDIRECT s) (\<lambda>(addr, s1).
           bindR (bread (i_dev (icache s1 ! ip)) addr s1) (\<lambda>(bp, s2).
           let k = 4 * (bn - NDIRECT); a = get32 (b_data (bufs s2 ! bp)) k in
           bindR (if a = 0
                  then bindR (balloc (i_dev (icache s2 ! ip)) s2) (\<lambda>(addr, s3).
                       bindR (log_write bp (set_data bp (put32 (b_data (bufs s3 ! bp)) k addr) s3))
                         (\<lambda>s4. Ok (addr, s4)))
                  else Ok (a, s2)) (\<lambda>(addr, s5).
           bindR (brelse bp s5) (\<lambda>s6. Ok (addr, s6)))))
      else Panic ''bmap: out of range'')"

definition stati :: "nat \<Rightarrow> 'a kfs_scheme \<Rightarrow> stat" where
  "stati ip s =
     (let x = icache s ! ip in
      \<lparr>st_type = i_type x, st_dev = i_dev x, st_ino = i_inum x, st_nlink = i_nlink x,
       st_size = i_size x\<rparr>)"

text \<open>
  The loops of \<^verbatim>\<open>readi\<close> and \<^verbatim>\<open>writei\<close>; \<open>rest\<close> is \<^verbatim>\<open>n - tot\<close>. The guards before them
  rule out that \<^verbatim>\<open>off\<close> wraps around.
\<close>

definition chunk :: "nat \<Rightarrow> nat \<Rightarrow> nat" where
  "chunk off rest = min rest (BSIZE - off mod BSIZE)"

lemma chunk_pos [simp]: "0 < rest \<Longrightarrow> 0 < chunk off rest"
  by (simp add: chunk_def BSIZE_def)

lemma chunk_le [simp]: "chunk off rest \<le> rest"
  by (simp add: chunk_def)

function readi_loop :: "nat \<Rightarrow> nat \<Rightarrow> nat \<Rightarrow> 'a kfs_scheme \<Rightarrow> (uchar list \<times> 'a kfs_scheme) res" where
  "readi_loop ip off rest s =
     (if rest = 0 then Ok ([], s)
      else bindR (bmap ip (off div BSIZE) s) (\<lambda>(b, s1).
           bindR (bread (i_dev (icache s1 ! ip)) b s1) (\<lambda>(bp, s2).
           let m = chunk off rest; bs = getn (b_data (bufs s2 ! bp)) (off mod BSIZE) m in
           bindR (brelse bp s2) (\<lambda>s3.
           bindR (readi_loop ip (off + m) (rest - m) s3) (\<lambda>(cs, s4).
           Ok (bs @ cs, s4))))))"
  by pat_completeness auto
termination
  by (relation "measure (\<lambda>(ip, off, rest, s). rest)") (auto simp: chunk_def param_defs)

declare readi_loop.simps [simp del]

definition dev_ok :: "ushort \<Rightarrow> 'a kfs_scheme \<Rightarrow> bool" where
  "dev_ok major s \<longleftrightarrow> \<not> (sint major < 0 \<or> sint major \<ge> int NDEV \<or> \<not> devsw s ! nat (sint major))"

definition readi :: "nat \<Rightarrow> uint \<Rightarrow> uint \<Rightarrow> 'a kfs_scheme \<Rightarrow> (uchar list io \<times> 'a kfs_scheme) res" where
  "readi ip off n s =
     (let x = icache s ! ip in
      if i_type x = T_DEV
      then Ok (if dev_ok (i_major x) s then IoDev (nat (sint (i_major x))) else IoFail, s)
      else if off > i_size x \<or> off + n < off then Ok (IoFail, s)
      else let n = (if off + n > i_size x then i_size x - off else n) in
           bindR (readi_loop ip (unat off) (unat n) s) (\<lambda>(bs, s1). Ok (IoDone bs, s1)))"

function writei_loop :: "nat \<Rightarrow> uchar list \<Rightarrow> nat \<Rightarrow> 'a kfs_scheme \<Rightarrow> 'a kfs_scheme res" where
  "writei_loop ip src off s =
     (if src = [] then Ok s
      else bindR (bmap ip (off div BSIZE) s) (\<lambda>(b, s1).
           bindR (bread (i_dev (icache s1 ! ip)) b s1) (\<lambda>(bp, s2).
           let m = chunk off (length src) in
           bindR (log_write bp (set_data bp
                    (putn (b_data (bufs s2 ! bp)) (off mod BSIZE) (take m src)) s2)) (\<lambda>s3.
           bindR (brelse bp s3) (\<lambda>s4.
           writei_loop ip (drop m src) (off + m) s4)))))"
  by pat_completeness auto
termination
  by (relation "measure (\<lambda>(ip, src, off, s). length src)") (auto simp: chunk_def param_defs)

declare writei_loop.simps [simp del]

definition writei :: "nat \<Rightarrow> uchar list \<Rightarrow> uint \<Rightarrow> 'a kfs_scheme \<Rightarrow> (nat io \<times> 'a kfs_scheme) res" where
  "writei ip src off s =
     (let x = icache s ! ip; n = of_nat (length src) in
      if i_type x = T_DEV
      then Ok (if dev_ok (i_major x) s then IoDev (nat (sint (i_major x))) else IoFail, s)
      else if off > i_size x \<or> off + n < off then Ok (IoFail, s)
      else if off + n > of_nat (MAXFILE * BSIZE) then Ok (IoFail, s)
      else bindR (writei_loop ip src (unat off) s) (\<lambda>s1.
           bindR (if n > 0 \<and> off + n > i_size (icache s1 ! ip)
                  then iupdate ip (upd_inode ip (\<lambda>x. x\<lparr>i_size := off + n\<rparr>) s1)
                  else Ok s1) (\<lambda>s2. Ok (IoDone (length src), s2))))"

section \<open>Directories\<close>

definition namecmp :: "uchar list \<Rightarrow> uchar list \<Rightarrow> int" where
  "namecmp s t = strncmp s t DIRSIZ"

text \<open>
  The loops over the entries of a directory of \<open>sz\<close> bytes (\<^verbatim>\<open>dp->size\<close>, which does
  not change while the directory is locked and read). An offset that wraps around would
  start again at the front for ever.
\<close>

function dirlookup_from ::
  "nat \<Rightarrow> uchar list \<Rightarrow> nat \<Rightarrow> nat \<Rightarrow> 'a kfs_scheme \<Rightarrow> ((nat \<times> uint) option \<times> 'a kfs_scheme) res" where
  "dirlookup_from dp name sz off s =
     (if off < sz
      then bindR (readi dp (of_nat off) 16 s) (\<lambda>(r, s1).
           case r of
             IoDone d \<Rightarrow>
               if length d \<noteq> 16 then Panic ''dirlookup read''
               else let de = dirent_of d in
                 if de_inum de \<noteq> 0 \<and> namecmp name (de_name de) = 0
                 then bindR (iget (i_dev (icache s1 ! dp)) (ucast (de_inum de)) s1) (\<lambda>(ip, s2).
                      Ok (Some (ip, of_nat off), s2))
                 else if off + 16 < 2 ^ 32 then dirlookup_from dp name sz (off + 16) s1
                 else Undef
           | _ \<Rightarrow> Panic ''dirlookup read'')
      else Ok (None, s))"
  by pat_completeness auto
termination
  by (relation "measure (\<lambda>(dp, name, sz, off, s). sz - off)") auto

declare dirlookup_from.simps [simp del]

definition dirlookup ::
  "nat \<Rightarrow> uchar list \<Rightarrow> 'a kfs_scheme \<Rightarrow> ((nat \<times> uint) option \<times> 'a kfs_scheme) res" where
  "dirlookup dp name s =
     bindR (guardR (i_type (icache s ! dp) = T_DIR) ''dirlookup not DIR'') (\<lambda>_.
     dirlookup_from dp name (unat (i_size (icache s ! dp))) 0 s)"

function dirlink_slot :: "nat \<Rightarrow> nat \<Rightarrow> nat \<Rightarrow> 'a kfs_scheme \<Rightarrow> (nat \<times> 'a kfs_scheme) res" where
  "dirlink_slot dp sz off s =
     (if off < sz
      then bindR (readi dp (of_nat off) 16 s) (\<lambda>(r, s1).
           case r of
             IoDone d \<Rightarrow>
               if length d \<noteq> 16 then Panic ''dirlink read''
               else if de_inum (dirent_of d) = 0 then Ok (off, s1)
               else if off + 16 < 2 ^ 32 then dirlink_slot dp sz (off + 16) s1
               else Undef
           | _ \<Rightarrow> Panic ''dirlink read'')
      else Ok (off, s))"
  by pat_completeness auto
termination
  by (relation "measure (\<lambda>(dp, sz, off, s). sz - off)") auto

declare dirlink_slot.simps [simp del]

definition dirlink ::
  "nat \<Rightarrow> uchar list \<Rightarrow> uint \<Rightarrow> 'a kfs_scheme \<Rightarrow> (int \<times> 'a kfs_scheme) res" where
  "dirlink dp name inum s =
     bindR (dirlookup dp name s) (\<lambda>(found, s1).
     case found of
       Some (ip, _) \<Rightarrow> bindR (iput ip s1) (\<lambda>s2. Ok (-1, s2))
     | None \<Rightarrow>
         bindR (dirlink_slot dp (unat (i_size (icache s1 ! dp))) 0 s1) (\<lambda>(off, s2).
         let de = \<lparr>de_inum = ucast inum, de_name = strncpy_bytes name DIRSIZ\<rparr> in
         bindR (writei dp (dirent_bytes de) (of_nat off) s2) (\<lambda>(r, s3).
         if r = IoDone 16 then Ok (0, s3) else Panic ''dirlink'')))"

section \<open>Paths\<close>

text \<open>
  A path is the list of its characters; the NUL at its end is the end of the list. The
  array \<open>name\<close> of \<^verbatim>\<open>DIRSIZ\<close> bytes is overwritten from its front.
\<close>

definition slash :: uchar where "slash = 0x2f"

definition skipelem :: "uchar list \<Rightarrow> uchar list \<Rightarrow> (uchar list \<times> uchar list) option" where
  "skipelem path name =
     (let path1 = dropWhile (\<lambda>c. c = slash) path in
      if path1 = [] then None
      else let s = takeWhile (\<lambda>c. c \<noteq> slash) path1;
               path2 = dropWhile (\<lambda>c. c \<noteq> slash) path1;
               name1 = (if length s \<ge> DIRSIZ then take DIRSIZ s
                        else s @ 0 # drop (Suc (length s)) name)
           in Some (dropWhile (\<lambda>c. c = slash) path2, name1))"

lemma skipelem_shorter:
  assumes "skipelem path name = Some (p, nm)"
  shows "length p < length path"
proof -
  let ?q = "dropWhile (\<lambda>c. c = slash) path"
  have q: "?q \<noteq> []" "p = dropWhile (\<lambda>c. c = slash) (dropWhile (\<lambda>c. c \<noteq> slash) ?q)"
    using assms by (simp_all add: skipelem_def Let_def split: if_splits)
  then obtain c r where c: "?q = c # r" by (cases ?q) simp_all
  have "hd ?q \<noteq> slash" by (rule hd_dropWhile [OF q(1)])
  then have "p = dropWhile (\<lambda>c. c = slash) (dropWhile (\<lambda>c. c \<noteq> slash) r)"
    unfolding q(2) c by simp
  then have "length p \<le> length r"
    using length_dropWhile_le [of _ r] length_dropWhile_le [of "\<lambda>c. c = slash"] order_trans by blast
  moreover have "length (c # r) \<le> length path" unfolding c [symmetric] by (rule length_dropWhile_le)
  ultimately show ?thesis by simp
qed

function namex_loop ::
  "bool \<Rightarrow> uchar list \<Rightarrow> uchar list \<Rightarrow> nat \<Rightarrow> 'a kfs_scheme \<Rightarrow>
   ((nat \<times> uchar list) option \<times> 'a kfs_scheme) res" where
  "namex_loop nameiparent path name ip s =
     (case skipelem path name of
        None \<Rightarrow>
          if nameiparent then bindR (iput ip s) (\<lambda>s1. Ok (None, s1)) else Ok (Some (ip, name), s)
      | Some (path1, name1) \<Rightarrow>
          bindR (ilock ip s) (\<lambda>s1.
          if i_type (icache s1 ! ip) \<noteq> T_DIR
          then bindR (iunlockput ip s1) (\<lambda>s2. Ok (None, s2))
          else if nameiparent \<and> path1 = []
          then bindR (iunlock ip s1) (\<lambda>s2. Ok (Some (ip, name1), s2))
          else bindR (dirlookup ip name1 s1) (\<lambda>(found, s2).
               case found of
                 None \<Rightarrow> bindR (iunlockput ip s2) (\<lambda>s3. Ok (None, s3))
               | Some (nx, _) \<Rightarrow>
                   bindR (iunlockput ip s2) (\<lambda>s3. namex_loop nameiparent path1 name1 nx s3))))"
  by pat_completeness auto
termination
  by (relation "measure (\<lambda>(np, path, name, ip, s). length path)") (auto simp: skipelem_shorter)

declare namex_loop.simps [simp del]

text \<open>\<open>cwd\<close> is \<^verbatim>\<open>myproc()->cwd\<close>.\<close>

definition namex ::
  "nat \<Rightarrow> uchar list \<Rightarrow> bool \<Rightarrow> uchar list \<Rightarrow> 'a kfs_scheme \<Rightarrow>
   ((nat \<times> uchar list) option \<times> 'a kfs_scheme) res" where
  "namex cwd path nameiparent name s =
     bindR (if path \<noteq> [] \<and> hd path = slash then iget ROOTDEV ROOTINO s
            else Ok (cwd, idup cwd s)) (\<lambda>(ip, s1).
     namex_loop nameiparent path name ip s1)"

definition namei :: "nat \<Rightarrow> uchar list \<Rightarrow> 'a kfs_scheme \<Rightarrow> (nat option \<times> 'a kfs_scheme) res" where
  "namei cwd path s =
     bindR (namex cwd path False (replicate DIRSIZ 0) s) (\<lambda>(r, s1). Ok (map_option fst r, s1))"

definition nameiparent ::
  "nat \<Rightarrow> uchar list \<Rightarrow> 'a kfs_scheme \<Rightarrow> ((nat \<times> uchar list) option \<times> 'a kfs_scheme) res" where
  "nameiparent cwd path s = namex cwd path True (replicate DIRSIZ 0) s"

end
