(* ===== verification/File.thy ===== *)
theory File
  imports Sched Fs
begin

text \<open>
  Open files and pipes (\<^verbatim>\<open>file.c\<close>, \<^verbatim>\<open>pipe.c\<close>, \<^verbatim>\<open>file.h\<close>), on the state of the whole
  kernel: the process side (memory, run queues, process table), the storage side as one
  field, the table of open files and the pipes.

  A pointer to an open file is its index in \<^verbatim>\<open>ftable.file\<close>. A pipe lives in a page of
  its own; \<open>pipes\<close> gives the structure that this page holds.

  An operation that sleeps in the middle returns with the state in which the process is
  asleep and says how far it has come (\<open>FSleep\<close>); when the process runs again it goes on
  from there. An operation on a device file returns \<open>FDev\<close> and the device function runs
  between this return and the operation's end.
\<close>

section \<open>Data\<close>

datatype filetype = FD_NONE | FD_PIPE | FD_INODE

record file_t =
  f_type :: filetype
  f_ref :: int            \<comment> \<open>reference count\<close>
  f_readable :: bool
  f_writable :: bool
  f_pipe :: uint
  f_ip :: nat
  f_off :: uint

definition PIPESIZE :: nat where [param_defs]: "PIPESIZE = 512"

record pipe =
  pi_data :: "uchar list"
  pi_nread :: uint        \<comment> \<open>number of bytes read\<close>
  pi_nwrite :: uint       \<comment> \<open>number of bytes written\<close>
  pi_readopen :: bool     \<comment> \<open>read fd is still open\<close>
  pi_writeopen :: bool    \<comment> \<open>write fd is still open\<close>

record kern = kproc +
  kf :: kfs               \<comment> \<open>disk, buffer cache, log, inodes\<close>
  ftable :: "file_t list"   \<comment> \<open>\<open>ftable.file[NFILE]\<close>\<close>
  pipes :: "uint \<Rightarrow> pipe option"

text \<open>Static storage at boot.\<close>

definition zero_file :: file_t where
  "zero_file = \<lparr>f_type = FD_NONE, f_ref = 0, f_readable = False, f_writable = False, f_pipe = 0,
     f_ip = 0, f_off = 0\<rparr>"

definition boot_kern :: "block list \<Rightarrow> kern" where
  "boot_kern d = kproc.extend boot_kproc
     (kern.fields (boot_kfs d) (replicate NFILE zero_file) (\<lambda>_. None))"

datatype 'r fout = FDone 'r | FSleep nat | FDev nat nat

section \<open>Running the storage side\<close>

text \<open>
  A piece of storage code run by process \<open>cur\<close>. Its wakeups reach the process table in
  their order.
\<close>

fun wakeups :: "sched_policy \<Rightarrow> chan list \<Rightarrow> 'a kproc_scheme \<Rightarrow> 'a kproc_scheme res" where
  "wakeups cfg [] s = Ok s"
| "wakeups cfg (ch # chs) s = bindR (wakeup cfg ch s) (wakeups cfg chs)"

definition fs_op ::
  "sched_policy \<Rightarrow> nat \<Rightarrow> (kfs \<Rightarrow> ('r \<times> kfs) res) \<Rightarrow> 'a kern_scheme \<Rightarrow> ('r \<times> 'a kern_scheme) res" where
  "fs_op cfg cur f s =
     bindR (f ((kf s)\<lparr>mypid := p_pid (ptable s ! cur), woken := []\<rparr>)) (\<lambda>(r, k).
     bindR (wakeups cfg (woken k) (s\<lparr>kf := k\<rparr>)) (\<lambda>s1. Ok (r, s1)))"

definition fs_do ::
  "sched_policy \<Rightarrow> nat \<Rightarrow> (kfs \<Rightarrow> kfs res) \<Rightarrow> 'a kern_scheme \<Rightarrow> 'a kern_scheme res" where
  "fs_do cfg cur f s =
     bindR (fs_op cfg cur (\<lambda>k. bindR (f k) (\<lambda>k1. Ok ((), k1))) s) (\<lambda>(_, s1). Ok s1)"

definition upd_file :: "nat \<Rightarrow> (file_t \<Rightarrow> file_t) \<Rightarrow> 'a kern_scheme \<Rightarrow> 'a kern_scheme" where
  "upd_file f g s = s\<lparr>ftable := (ftable s)[f := g (ftable s ! f)]\<rparr>"

definition upd_pipe :: "uint \<Rightarrow> (pipe \<Rightarrow> pipe) \<Rightarrow> 'a kern_scheme \<Rightarrow> 'a kern_scheme" where
  "upd_pipe p g s = s\<lparr>pipes := (pipes s)(p := map_option g (pipes s p))\<rparr>"

section \<open>Pipes\<close>

definition pipeclose ::
  "sched_policy \<Rightarrow> ksym \<Rightarrow> uint \<Rightarrow> bool \<Rightarrow> 'a kern_scheme \<Rightarrow> 'a kern_scheme res" where
  "pipeclose cfg K p writable s =
     bindR (derefR (pipes s p)) (\<lambda>_.
     bindR (if writable
            then wakeup cfg (PipeNread p) (upd_pipe p (\<lambda>x. x\<lparr>pi_writeopen := False\<rparr>) s)
            else wakeup cfg (PipeNwrite p) (upd_pipe p (\<lambda>x. x\<lparr>pi_readopen := False\<rparr>) s)) (\<lambda>s1.
     bindR (derefR (pipes s1 p)) (\<lambda>x.
     if \<not> pi_readopen x \<and> \<not> pi_writeopen x
     then bindR (kfree (k_end K) p s1) (\<lambda>s2. Ok (s2\<lparr>pipes := (pipes s2)(p := None)\<rparr>))
     else Ok s1)))"

definition pipe_full :: "pipe \<Rightarrow> bool" where
  "pipe_full x \<longleftrightarrow> pi_nwrite x = pi_nread x + of_nat PIPESIZE"

definition pipe_put :: "uchar \<Rightarrow> pipe \<Rightarrow> pipe" where
  "pipe_put c x = x\<lparr>pi_data := (pi_data x)[unat (pi_nwrite x) mod PIPESIZE := c],
                    pi_nwrite := pi_nwrite x + 1\<rparr>"

text \<open>
  The loop of \<^verbatim>\<open>pipewrite\<close> with \<open>i\<close> bytes written and \<open>cs\<close> still to write;
  \<open>FDone (-1)\<close> when the pipe is full and nobody can read it any more.
\<close>

fun pipewrite_loop ::
  "sched_policy \<Rightarrow> nat \<Rightarrow> uint \<Rightarrow> nat \<Rightarrow> uchar list \<Rightarrow> 'a kern_scheme \<Rightarrow> (int fout \<times> 'a kern_scheme) res" where
  "pipewrite_loop cfg cur p i [] s =
     bindR (wakeup cfg (PipeNread p) s) (\<lambda>s1. Ok (FDone (int i), s1))"
| "pipewrite_loop cfg cur p i (c # cs) s =
     bindR (derefR (pipes s p)) (\<lambda>x.
     if pipe_full x
     then (if \<not> pi_readopen x \<or> p_killed (ptable s ! cur) then Ok (FDone (-1), s)
           else bindR (wakeup cfg (PipeNread p) s) (\<lambda>s1.
                Ok (FSleep i, sleep_enter (PipeNwrite p) cur s1)))
     else pipewrite_loop cfg cur p (Suc i) cs (upd_pipe p (pipe_put c) s))"

definition pipewrite ::
  "sched_policy \<Rightarrow> nat \<Rightarrow> uint \<Rightarrow> uchar list \<Rightarrow> 'a kern_scheme \<Rightarrow> (int fout \<times> 'a kern_scheme) res" where
  "pipewrite cfg cur p bs s = pipewrite_loop cfg cur p 0 bs s"

text \<open>The process wakes up and goes on after the \<open>i\<close> bytes it has written.\<close>

definition pipewrite_resume ::
  "sched_policy \<Rightarrow> nat \<Rightarrow> uint \<Rightarrow> nat \<Rightarrow> uchar list \<Rightarrow> 'a kern_scheme \<Rightarrow> (int fout \<times> 'a kern_scheme) res" where
  "pipewrite_resume cfg cur p i bs s = pipewrite_loop cfg cur p i (drop i bs) (sleep_exit cur s)"

text \<open>The copying loop of \<^verbatim>\<open>piperead\<close>.\<close>

fun pipe_take :: "nat \<Rightarrow> pipe \<Rightarrow> uchar list \<times> pipe" where
  "pipe_take 0 x = ([], x)"
| "pipe_take (Suc n) x =
     (if pi_nread x = pi_nwrite x then ([], x)
      else let c = pi_data x ! (unat (pi_nread x) mod PIPESIZE);
               (cs, x1) = pipe_take n (x\<lparr>pi_nread := pi_nread x + 1\<rparr>)
           in (c # cs, x1))"

definition piperead ::
  "sched_policy \<Rightarrow> nat \<Rightarrow> uint \<Rightarrow> nat \<Rightarrow> 'a kern_scheme \<Rightarrow> (uchar list option fout \<times> 'a kern_scheme) res" where
  "piperead cfg cur p n s =
     bindR (derefR (pipes s p)) (\<lambda>x.
     if pi_nread x = pi_nwrite x \<and> pi_writeopen x
     then (if p_killed (ptable s ! cur) then Ok (FDone None, s)
           else Ok (FSleep 0, sleep_enter (PipeNread p) cur s))
     else let (bs, x1) = pipe_take n x in
          bindR (wakeup cfg (PipeNwrite p) (upd_pipe p (\<lambda>_. x1) s)) (\<lambda>s1.
          Ok (FDone (Some bs), s1)))"

definition piperead_resume ::
  "sched_policy \<Rightarrow> nat \<Rightarrow> uint \<Rightarrow> nat \<Rightarrow> 'a kern_scheme \<Rightarrow> (uchar list option fout \<times> 'a kern_scheme) res" where
  "piperead_resume cfg cur p n s = piperead cfg cur p n (sleep_exit cur s)"

section \<open>The table of open files\<close>

definition filealloc :: "'a kern_scheme \<Rightarrow> nat option \<times> 'a kern_scheme" where
  "filealloc s =
     (case find_index (\<lambda>f. f_ref f = 0) (ftable s) of
        Some f \<Rightarrow> (Some f, upd_file f (\<lambda>x. x\<lparr>f_ref := 1\<rparr>) s)
      | None \<Rightarrow> (None, s))"

definition filedup :: "nat \<Rightarrow> 'a kern_scheme \<Rightarrow> 'a kern_scheme res" where
  "filedup f s =
     bindR (guardR (\<not> f_ref (ftable s ! f) < 1) ''filedup'') (\<lambda>_.
     Ok (upd_file f (\<lambda>x. x\<lparr>f_ref := f_ref x + 1\<rparr>) s))"

text \<open>Storage code inside one transaction.\<close>

definition iput_op :: "nat \<Rightarrow> kfs \<Rightarrow> kfs res" where
  "iput_op ip k = bindR (begin_op k) (\<lambda>k1. bindR (iput ip k1) end_op)"

definition fileclose ::
  "sched_policy \<Rightarrow> ksym \<Rightarrow> nat \<Rightarrow> nat \<Rightarrow> 'a kern_scheme \<Rightarrow> 'a kern_scheme res" where
  "fileclose cfg K cur f s =
     bindR (guardR (\<not> f_ref (ftable s ! f) < 1) ''fileclose'') (\<lambda>_.
     let s1 = upd_file f (\<lambda>x. x\<lparr>f_ref := f_ref x - 1\<rparr>) s in
     if f_ref (ftable s1 ! f) > 0 then Ok s1
     else let ff = ftable s1 ! f;
              s2 = upd_file f (\<lambda>x. x\<lparr>f_ref := 0, f_type := FD_NONE\<rparr>) s1
          in case f_type ff of
               FD_PIPE \<Rightarrow> pipeclose cfg K (f_pipe ff) (f_writable ff) s2
             | FD_INODE \<Rightarrow> fs_do cfg cur (iput_op (f_ip ff)) s2
             | FD_NONE \<Rightarrow> Ok s2)"

text \<open>
  \<^verbatim>\<open>pipealloc\<close> with its label \<^verbatim>\<open>bad\<close>. A page from \<^verbatim>\<open>kalloc\<close> holds old bytes in
  \<^verbatim>\<open>data\<close>.
\<close>

definition close_opt ::
  "sched_policy \<Rightarrow> ksym \<Rightarrow> nat \<Rightarrow> nat option \<Rightarrow> 'a kern_scheme \<Rightarrow> 'a kern_scheme res" where
  "close_opt cfg K cur f s = (case f of None \<Rightarrow> Ok s | Some f \<Rightarrow> fileclose cfg K cur f s)"

definition new_pipe :: "memory \<Rightarrow> uint \<Rightarrow> pipe" where
  "new_pipe m p = \<lparr>pi_data = get_bytes m (p + 52) PIPESIZE, pi_nread = 0, pi_nwrite = 0,
     pi_readopen = True, pi_writeopen = True\<rparr>"

definition pipe_end :: "bool \<Rightarrow> uint \<Rightarrow> file_t \<Rightarrow> file_t" where
  "pipe_end writer p f = f\<lparr>f_type := FD_PIPE, f_readable := \<not> writer, f_writable := writer, f_pipe := p\<rparr>"

definition pipealloc ::
  "sched_policy \<Rightarrow> ksym \<Rightarrow> nat \<Rightarrow> 'a kern_scheme \<Rightarrow> ((nat \<times> nat) option \<times> 'a kern_scheme) res" where
  "pipealloc cfg K cur s =
     (let (f0, s1) = filealloc s;
          (f1, s2) = (if f0 = None then (None, s1) else filealloc s1);
          bad = (\<lambda>s. bindR (close_opt cfg K cur f0 s) (\<lambda>t.
                     bindR (close_opt cfg K cur f1 t) (\<lambda>u. Ok (None, u))))
      in case (f0, f1) of
           (Some r, Some w) \<Rightarrow>
             let (p, s3) = kalloc s2 in
             if p = 0 then bad s3
             else Ok (Some (r, w),
                      upd_file w (pipe_end True p) (upd_file r (pipe_end False p)
                        (s3\<lparr>pipes := (pipes s3)(p \<mapsto> new_pipe (mem s3) p)\<rparr>)))
         | _ \<Rightarrow> bad s2)"

section \<open>Reading and writing\<close>

definition filestat ::
  "sched_policy \<Rightarrow> nat \<Rightarrow> nat \<Rightarrow> 'a kern_scheme \<Rightarrow> (stat option \<times> 'a kern_scheme) res" where
  "filestat cfg cur f s =
     (let x = ftable s ! f in
      if f_type x = FD_INODE
      then fs_op cfg cur (\<lambda>k. bindR (ilock (f_ip x) k) (\<lambda>k1.
                              bindR (iunlock (f_ip x) k1) (\<lambda>k2.
                              Ok (Some (stati (f_ip x) k1), k2)))) s
      else Ok (None, s))"

text \<open>
  \<^verbatim>\<open>fileread\<close>: \<open>None\<close> is the result -1. After a device has delivered \<open>r\<close> bytes,
  \<open>fileread_end\<close> is what remains.
\<close>

definition file_advance :: "nat \<Rightarrow> int \<Rightarrow> 'a kern_scheme \<Rightarrow> 'a kern_scheme" where
  "file_advance f r s =
     (if r > 0 then upd_file f (\<lambda>x. x\<lparr>f_off := f_off x + word_of_int r\<rparr>) s else s)"

definition fileread_end ::
  "sched_policy \<Rightarrow> nat \<Rightarrow> nat \<Rightarrow> int \<Rightarrow> 'a kern_scheme \<Rightarrow> 'a kern_scheme res" where
  "fileread_end cfg cur f r s =
     (let s1 = file_advance f r s in fs_do cfg cur (iunlock (f_ip (ftable s1 ! f))) s1)"

definition fileread ::
  "sched_policy \<Rightarrow> nat \<Rightarrow> nat \<Rightarrow> nat \<Rightarrow> 'a kern_scheme \<Rightarrow> (uchar list option fout \<times> 'a kern_scheme) res" where
  "fileread cfg cur f n s =
     (let x = ftable s ! f in
      if \<not> f_readable x then Ok (FDone None, s)
      else case f_type x of
        FD_PIPE \<Rightarrow> piperead cfg cur (f_pipe x) n s
      | FD_INODE \<Rightarrow>
          bindR (fs_op cfg cur (\<lambda>k. bindR (ilock (f_ip x) k) (readi (f_ip x) (f_off x) (of_nat n))) s)
            (\<lambda>(r, s1).
          case r of
            IoDev d \<Rightarrow> Ok (FDev d 0, s1)
          | IoFail \<Rightarrow> bindR (fileread_end cfg cur f (-1) s1) (\<lambda>s2. Ok (FDone None, s2))
          | IoDone bs \<Rightarrow> bindR (fileread_end cfg cur f (int (length bs)) s1) (\<lambda>s2.
                         Ok (FDone (Some bs), s2)))
      | FD_NONE \<Rightarrow> Panic ''fileread'')"

text \<open>
  \<^verbatim>\<open>filewrite\<close>: a transaction per piece of at most \<open>max\<close> bytes. \<open>FDev d i\<close> asks device
  \<open>d\<close> to write the piece that starts at \<open>i\<close>; \<open>filewrite_end\<close> is what remains of its turn.
\<close>

definition max_chunk :: nat where [param_defs]:
  "max_chunk = (MAXOPBLOCKS - 1 - 1 - 2) div 2 * 512"

definition filewrite_end ::
  "sched_policy \<Rightarrow> nat \<Rightarrow> nat \<Rightarrow> int \<Rightarrow> 'a kern_scheme \<Rightarrow> 'a kern_scheme res" where
  "filewrite_end cfg cur f r s =
     (let s1 = file_advance f r s in
      fs_do cfg cur (\<lambda>k. bindR (iunlock (f_ip (ftable s1 ! f)) k) end_op) s1)"

definition filewrite_begin ::
  "sched_policy \<Rightarrow> nat \<Rightarrow> nat \<Rightarrow> uchar list \<Rightarrow> 'a kern_scheme \<Rightarrow> (nat io \<times> 'a kern_scheme) res" where
  "filewrite_begin cfg cur f bs s =
     (let x = ftable s ! f in
      fs_op cfg cur (\<lambda>k. bindR (begin_op k) (\<lambda>k1.
                         bindR (ilock (f_ip x) k1) (writei (f_ip x) bs (f_off x)))) s)"

function filewrite_loop ::
  "sched_policy \<Rightarrow> nat \<Rightarrow> nat \<Rightarrow> nat \<Rightarrow> uchar list \<Rightarrow> 'a kern_scheme \<Rightarrow> (int fout \<times> 'a kern_scheme) res" where
  "filewrite_loop cfg cur f i bs s =
     (if i < length bs
      then let n1 = min (length bs - i) max_chunk in
           bindR (filewrite_begin cfg cur f (take n1 (drop i bs)) s) (\<lambda>(r, s1).
           case r of
             IoDev d \<Rightarrow> Ok (FDev d i, s1)
           | IoFail \<Rightarrow> bindR (filewrite_end cfg cur f (-1) s1) (\<lambda>s2. Ok (FDone (-1), s2))
           | IoDone r \<Rightarrow>
               bindR (filewrite_end cfg cur f (int r) s1) (\<lambda>s2.
               if r \<noteq> n1 then Panic ''short filewrite''
               else filewrite_loop cfg cur f (i + r) bs s2))
      else Ok (FDone (if i = length bs then int (length bs) else -1), s))"
  by pat_completeness auto
termination
  by (relation "measure (\<lambda>(cfg, cur, f, i, bs, s). length bs - i)") (auto simp: param_defs)

declare filewrite_loop.simps [simp del]

definition filewrite ::
  "sched_policy \<Rightarrow> nat \<Rightarrow> nat \<Rightarrow> uchar list \<Rightarrow> 'a kern_scheme \<Rightarrow> (int fout \<times> 'a kern_scheme) res" where
  "filewrite cfg cur f bs s =
     (let x = ftable s ! f in
      if \<not> f_writable x then Ok (FDone (-1), s)
      else case f_type x of
        FD_PIPE \<Rightarrow> pipewrite cfg cur (f_pipe x) bs s
      | FD_INODE \<Rightarrow> filewrite_loop cfg cur f 0 bs s
      | FD_NONE \<Rightarrow> Panic ''filewrite'')"

text \<open>The device is done with its piece: the result \<open>r\<close> of its write function.\<close>

definition filewrite_dev_done ::
  "sched_policy \<Rightarrow> nat \<Rightarrow> nat \<Rightarrow> nat \<Rightarrow> uchar list \<Rightarrow> int \<Rightarrow> 'a kern_scheme \<Rightarrow> (int fout \<times> 'a kern_scheme) res" where
  "filewrite_dev_done cfg cur f i bs r s =
     bindR (filewrite_end cfg cur f r s) (\<lambda>s1.
     if r < 0 then Ok (FDone (-1), s1)
     else if r \<noteq> int (min (length bs - i) max_chunk) then Panic ''short filewrite''
     else filewrite_loop cfg cur f (i + nat r) bs s1)"

end
