(* ===== verification/Kern_Frame.thy ===== *)
theory Kern_Frame
  imports File Mlfq_Inv
begin

text \<open>
  What the process-table operations leave alone when they run on the state of the whole
  kernel: \<^verbatim>\<open>wakeup\<close> and queue insertion touch the table and the run queues only, so
  memory, files, pipes and the file system stay as they are.
\<close>

definition only_table :: "'a kproc_scheme \<Rightarrow> 'a kproc_scheme \<Rightarrow> bool" where
  "only_table s s' \<longleftrightarrow> s' = s\<lparr>qu := qu s', q_index := q_index s', ptable := ptable s'\<rparr>"

lemma only_table_iff: "only_table s s' \<longleftrightarrow> (\<exists>a b c. s' = s\<lparr>qu := a, q_index := b, ptable := c\<rparr>)"
  unfolding only_table_def by auto

lemma only_table_refl [simp]: "only_table s s"
  by (simp add: only_table_def)

lemma only_table_trans [trans]: "only_table s t \<Longrightarrow> only_table t u \<Longrightarrow> only_table s u"
proof -
  assume "only_table s t" "only_table t u"
  then obtain a b c d e f where "t = s\<lparr>qu := a, q_index := b, ptable := c\<rparr>"
    "u = t\<lparr>qu := d, q_index := e, ptable := f\<rparr>" unfolding only_table_iff by blast
  then have "u = s\<lparr>qu := d, q_index := e, ptable := f\<rparr>" by simp
  then show ?thesis unfolding only_table_iff by blast
qed

lemma only_table_upd_proc [simp]: "only_table s (upd_proc p f s)"
  by (simp add: only_table_def upd_proc_def)

lemma only_table_enqueue: "enqueue c p s = Ok (b, s') \<Longrightarrow> only_table s s'"
  by (auto simp: enqueue_def bindR_eq_Ok_iff q_append_def only_table_def split: option.splits if_splits)

lemma only_table_enqueue_timed: "enqueue_timed p s = Ok s' \<Longrightarrow> only_table s s'"
  by (auto simp: enqueue_timed_def bindR_eq_Ok_iff set_qtime_def
      intro: only_table_enqueue only_table_trans [OF only_table_enqueue only_table_upd_proc])

lemma only_table_wake_one: "wake_one cfg i s = Ok s' \<Longrightarrow> only_table s s'"
  by (auto simp: wake_one_def Let_def bindR_eq_Ok_iff set_qtime_def split: if_splits
      intro: only_table_trans [OF only_table_upd_proc only_table_trans [OF only_table_enqueue_timed only_table_upd_proc]])

lemma only_table_wakeup1_loop: "wakeup1_loop cfg ch ks s = Ok s' \<Longrightarrow> only_table s s'"
  by (induction ks arbitrary: s)
    (auto simp: bindR_eq_Ok_iff split: if_splits intro: only_table_trans [OF only_table_wake_one])

lemma only_table_wakeup: "wakeup cfg ch s = Ok s' \<Longrightarrow> only_table s s'"
  by (simp add: wakeup_def wakeup1_def only_table_wakeup1_loop)

lemma only_table_wakeups: "wakeups cfg chs s = Ok s' \<Longrightarrow> only_table s s'"
  by (induction chs arbitrary: s)
    (auto simp: bindR_eq_Ok_iff intro: only_table_trans [OF only_table_wakeup])

lemma only_tableD:
  fixes s s' :: "'a kproc_scheme"
  assumes "only_table s s'"
  shows "mem s' = mem s" "freelist s' = freelist s" "use_lock s' = use_lock s"
    "initproc s' = initproc s" "nextpid s' = nextpid s" "ticks s' = ticks s" "c_proc s' = c_proc s"
    "cr3 s' = cr3 s" "kpgdir s' = kpgdir s" "kproc.more s' = kproc.more s"
  using assms unfolding only_table_iff by auto

lemma only_table_kern:
  fixes s s' :: "'a kern_scheme"
  assumes "only_table s s'"
  shows "kf s' = kf s" "ftable s' = ftable s" "pipes s' = pipes s" "kern.more s' = kern.more s"
  using assms unfolding only_table_iff by auto

lemma wakeup_ok:
  assumes "table_ok cfg s"
  obtains s' where "wakeup cfg ch s = Ok s'" "table_ok cfg s'" "only_table s s'"
    "ptable s' = map (roused cfg ch (ticks s)) (ptable s)"
  using wakeup1_ok [OF assms, of ch] only_table_wakeup [of cfg ch s] by (auto simp: wakeup_def)

lemma table_ok_cong:
  fixes s s' :: "'a kproc_scheme"
  assumes "ptable s' = ptable s" "nextpid s' = nextpid s" "qu s' = qu s" "q_index s' = q_index s"
  shows "table_ok cfg s' = table_ok cfg s"
  using queues_cong [OF assms(3,4)] assms(1,2) by (simp add: table_ok_def mlfq_inv_def)

lemma asleep_roused [simp]:
  "asleep_on ch (roused cfg ch now x) \<longleftrightarrow> False"
  "ch \<noteq> ch' \<Longrightarrow> asleep_on ch' (roused cfg ch now x) \<longleftrightarrow> asleep_on ch' x"
  by (auto simp: roused_def asleep_on_def)

lemma asleep_enter:
  "asleep_on ch (x\<lparr>p_chan := ch', p_state := SLEEPING\<rparr>) \<longleftrightarrow> ch = ch'"
  by (auto simp: asleep_on_def)

lemma table_ok_sleep_enter:
  assumes "table_ok cfg s" "cur < NPROC" "p_state (ptable s ! cur) = RUNNING"
  shows "table_ok cfg (sleep_enter ch cur s)"
  using assms sleep_enter_inv [of s cur ch] by (auto simp: table_ok_def sleep_enter_def)

end
