(* ===== verification/Ring.thy ===== *)
theory Ring
  imports Xv6_Prelude
begin

text \<open>
  Ring buffers with free-running 32-bit indices, as pipes and the console use them: the bytes
  between two indices as a list, and what storing and taking a byte does to it. The size of a
  ring divides \<open>2 ^ 32\<close>, so positions stay right when an index wraps around.
\<close>

definition ring :: "'a list \<Rightarrow> uint \<Rightarrow> uint \<Rightarrow> 'a list" where
  "ring d a b = map (\<lambda>k. d ! ((unat a + k) mod length d)) [0..<unat (b - a)]"

lemma length_ring [simp]: "length (ring d a b) = unat (b - a)"
  by (simp add: ring_def)

lemma nth_ring: "k < unat (b - a) \<Longrightarrow> ring d a b ! k = d ! ((unat a + k) mod length d)"
  by (simp add: ring_def)

lemma ring_empty_iff: "ring d a b = [] \<longleftrightarrow> a = b"
proof -
  have "ring d a b = [] \<longleftrightarrow> b - a = 0"
    unfolding length_0_conv [symmetric] length_ring by (simp add: unat_eq_zero)
  then show ?thesis by auto
qed

lemma unat_mod_ring:
  assumes "n dvd 2 ^ 32"
  shows "unat (a + b :: uint) mod n = (unat a + unat b) mod n"
  using assms unfolding unat_word_ariths by (simp add: mod_mod_cancel)

lemma unat_Suc_diff:
  assumes "unat (w - r :: uint) < 2 ^ 31"
  shows "unat (w + 1 - r) = Suc (unat (w - r))"
proof -
  have "w + 1 - r = (w - r) + 1" by simp
  then have "unat (w + 1 - r) = (unat (w - r) + 1) mod 2 ^ 32" by (simp only: unat_word_ariths) simp
  then show ?thesis using assms by simp
qed

lemma unat_diff_Suc:
  assumes "(r :: uint) \<noteq> w"
  shows "unat (w - r) = Suc (unat (w - (r + 1)))" "unat (w - r) = Suc (unat (w - 1 - r))"
proof -
  have "w - r \<noteq> 0" using assms by simp
  then have "unat (w - r) \<noteq> 0" by (simp add: unat_eq_zero)
  moreover have "unat (w - r - 1) = unat (w - r) - 1"
    using \<open>w - r \<noteq> 0\<close> by (simp add: unat_minus_one)
  ultimately show "unat (w - r) = Suc (unat (w - (r + 1)))" by (simp add: diff_diff_eq [symmetric])
  then show "unat (w - r) = Suc (unat (w - 1 - r))" by (simp add: diff_diff_eq add.commute)
qed

text \<open>A byte stored at the end.\<close>

lemma ring_snoc:
  assumes "length d dvd 2 ^ 32" "length d \<le> 2 ^ 31" "unat (b - a) < length d"
  shows "ring (d[unat b mod length d := c]) a (b + 1) = ring d a b @ [c]"
proof -
  let ?L = "length d" and ?n = "unat (b - a)"
  let ?d = "d[(unat a + ?n) mod ?L := c]"
  have pos: "unat b mod ?L = (unat a + ?n) mod ?L"
    using unat_mod_ring [OF assms(1), of a "b - a"] by simp
  have ne: "(unat a + k) mod ?L \<noteq> (unat a + ?n) mod ?L" if "k < ?n" for k
  proof
    assume "(unat a + k) mod ?L = (unat a + ?n) mod ?L"
    then have "?L dvd (unat a + ?n) - (unat a + k)" using that by (intro mod_eq_dvd_iff_nat [THEN iffD1]) auto
    then show False using that assms(3) by (auto dest!: dvd_imp_le)
  qed
  have old: "?d ! ((unat a + k) mod ?L) = d ! ((unat a + k) mod ?L)" if "k < ?n" for k
    using ne [OF that] by (intro nth_list_update_neq) simp
  have new: "?d ! ((unat a + ?n) mod ?L) = c" using assms(3) by (intro nth_list_update_eq mod_less_divisor) linarith
  have "unat (b + 1 - a) = Suc ?n" using assms(2,3) by (intro unat_Suc_diff) simp
  then show ?thesis using old new by (simp add: ring_def pos)
qed

text \<open>The byte at the front.\<close>

lemma ring_Cons:
  assumes "length d dvd 2 ^ 32" "a \<noteq> b"
  shows "ring d a b = d ! (unat a mod length d) # ring d (a + 1) b"
proof -
  have "(unat (a + 1) + k) mod length d = (unat a + Suc k) mod length d" for k
  proof -
    have "unat (a + 1) mod length d = (unat a + 1) mod length d" using unat_mod_ring [OF assms(1), of a 1] by simp
    from mod_add_cong [OF this refl, of k] show ?thesis by simp
  qed
  then show ?thesis unfolding ring_def unat_diff_Suc(1) [OF assms(2)]
    by (simp add: upt_conv_Cons map_Suc_upt [symmetric] del: upt_Suc)
qed

text \<open>The byte at the end taken back.\<close>

lemma ring_butlast:
  assumes "a \<noteq> b"
  shows "ring d a (b - 1) = butlast (ring d a b)"
proof (rule nth_equalityI)
  have S: "unat (b - a) = Suc (unat (b - 1 - a))" by (rule unat_diff_Suc(2) [OF assms])
  then show "length (ring d a (b - 1)) = length (butlast (ring d a b))" by simp
  show "ring d a (b - 1) ! k = butlast (ring d a b) ! k" if "k < length (ring d a (b - 1))" for k
    using that S by (simp add: nth_butlast nth_ring)
qed

lemma last_ring:
  assumes "length d dvd 2 ^ 32" "a \<noteq> b"
  shows "last (ring d a b) = d ! (unat (b - 1) mod length d)"
proof -
  have S: "unat (b - a) = Suc (unat (b - 1 - a))" by (rule unat_diff_Suc(2) [OF assms(2)])
  have ne: "ring d a b \<noteq> []" using assms(2) by (simp add: ring_empty_iff)
  have "last (ring d a b) = d ! ((unat a + unat (b - 1 - a)) mod length d)"
    unfolding last_conv_nth [OF ne] using S by (simp add: nth_ring)
  then show ?thesis using unat_mod_ring [OF assms(1), of a "b - 1 - a"] by simp
qed

text \<open>Two stretches, one behind the other.\<close>

lemma unat_diff_split:
  assumes "unat (b - a :: uint) \<le> unat (c - a)"
  shows "unat (c - a) = unat (b - a) + unat (c - b)"
proof -
  have "b - a \<le> c - a" using assms by (simp add: word_le_nat_alt)
  then have "unat ((c - a) - (b - a)) = unat (c - a) - unat (b - a)" by (rule unat_sub)
  then show ?thesis using assms by simp
qed

lemma ring_append:
  assumes "length d dvd 2 ^ 32" "unat (b - a) \<le> unat (c - a)"
  shows "ring d a c = ring d a b @ ring d b c"
proof (rule nth_equalityI)
  note S = unat_diff_split [OF assms(2)]
  show "length (ring d a c) = length (ring d a b @ ring d b c)" using S by simp
  show "ring d a c ! k = (ring d a b @ ring d b c) ! k" if "k < length (ring d a c)" for k
  proof (cases "k < unat (b - a)")
    case True
    then show ?thesis using that by (simp add: nth_append nth_ring)
  next
    case False
    have "unat b mod length d = (unat a + unat (b - a)) mod length d"
      using unat_mod_ring [OF assms(1), of a "b - a"] by simp
    from mod_add_cong [OF this refl, of "k - unat (b - a)"]
    have "(unat b + (k - unat (b - a))) mod length d = (unat a + k) mod length d" using False by simp
    then show ?thesis using that False S by (simp add: nth_append nth_ring)
  qed
qed

end
