(* ===== verification/Pipe_Props.thy ===== *)
theory Pipe_Props
  imports Kern_Frame Ring
begin

text \<open>
  Pipes are bounded byte queues: the ring buffer with its wrapping counters is a list of at most
  512 bytes, on which \<^verbatim>\<open>pipewrite\<close> and \<^verbatim>\<open>piperead\<close> append and take; over runs of
  such operations the bytes arrive in order and no sleeper misses its wakeup.
\<close>

section \<open>The ring as a queue\<close>

definition pipe_wf :: "pipe \<Rightarrow> bool" where
  "pipe_wf x \<longleftrightarrow> length (pi_data x) = PIPESIZE \<and> unat (pi_nwrite x - pi_nread x) \<le> PIPESIZE"

definition pipe_q :: "pipe \<Rightarrow> uchar list" where
  "pipe_q x = ring (pi_data x) (pi_nread x) (pi_nwrite x)"

lemma length_pipe_q: "length (pipe_q x) = unat (pi_nwrite x - pi_nread x)"
  by (simp add: pipe_q_def)

lemma pipe_dvd: "pipe_wf x \<Longrightarrow> length (pi_data x) dvd 2 ^ 32"
  by (simp add: pipe_wf_def PIPESIZE_def)

lemma pipe_full_iff:
  assumes "pipe_wf x"
  shows "pipe_full x \<longleftrightarrow> length (pipe_q x) = PIPESIZE"
proof -
  have "pipe_full x \<longleftrightarrow> pi_nwrite x - pi_nread x = 512" unfolding pipe_full_def PIPESIZE_def by (simp add: diff_eq_eq add.commute)
  also have "\<dots> \<longleftrightarrow> unat (pi_nwrite x - pi_nread x) = unat (512 :: uint)" by (simp only: word_unat_eq_iff)
  finally show ?thesis by (simp add: length_pipe_q PIPESIZE_def)
qed

lemma pipe_empty_iff: "pi_nread x = pi_nwrite x \<longleftrightarrow> pipe_q x = []"
  by (simp add: pipe_q_def ring_empty_iff)

lemma pipe_put_q:
  assumes "pipe_wf x" "\<not> pipe_full x"
  shows "pipe_q (pipe_put c x) = pipe_q x @ [c]" "pipe_wf (pipe_put c x)"
proof -
  have n: "unat (pi_nwrite x - pi_nread x) < 512" and len: "length (pi_data x) = 512"
    using assms pipe_full_iff [OF assms(1)] by (simp_all add: pipe_wf_def length_pipe_q PIPESIZE_def)
  show "pipe_q (pipe_put c x) = pipe_q x @ [c]"
    using ring_snoc [OF pipe_dvd [OF assms(1)], of "pi_nwrite x" "pi_nread x" c] n len
    by (simp add: pipe_q_def pipe_put_def PIPESIZE_def)
  show "pipe_wf (pipe_put c x)"
    using n len unat_Suc_diff [of "pi_nwrite x" "pi_nread x"] by (simp add: pipe_wf_def pipe_put_def PIPESIZE_def)
qed

lemma pipe_take_q:
  assumes "pipe_wf x"
  shows "fst (pipe_take n x) = take n (pipe_q x) \<and> pipe_q (snd (pipe_take n x)) = drop n (pipe_q x) \<and>
    pipe_wf (snd (pipe_take n x)) \<and>
    pi_readopen (snd (pipe_take n x)) = pi_readopen x \<and> pi_writeopen (snd (pipe_take n x)) = pi_writeopen x"
  using assms
proof (induction n arbitrary: x)
  case 0
  then show ?case by simp
next
  case (Suc n)
  show ?case
  proof (cases "pi_nread x = pi_nwrite x")
    case True
    then show ?thesis using Suc.prems by (simp add: pipe_empty_iff)
  next
    case False
    let ?y = "x\<lparr>pi_nread := pi_nread x + 1\<rparr>"
    have wf: "pipe_wf ?y" using Suc.prems unat_diff_Suc(1) [OF False] by (simp add: pipe_wf_def)
    have q: "pipe_q x = pi_data x ! (unat (pi_nread x) mod 512) # pipe_q ?y"
      using ring_Cons [OF pipe_dvd [OF Suc.prems] False] Suc.prems
      by (simp add: pipe_q_def pipe_wf_def PIPESIZE_def)
    show ?thesis using Suc.IH [OF wf] False q by (simp add: case_prod_beta Let_def PIPESIZE_def)
  qed
qed
section \<open>The operations on the queue\<close>

lemma upd_pipe_simps [simp]:
  "ptable (upd_pipe p f s) = ptable s" "ticks (upd_pipe p f s) = ticks s"
  "kf (upd_pipe p f s) = kf s" "ftable (upd_pipe p f s) = ftable s"
  "pipes (upd_pipe p f s) = (pipes s)(p := map_option f (pipes s p))"
  by (simp_all add: upd_pipe_def)

lemma table_ok_upd_pipe [simp]: "table_ok cfg (upd_pipe p f s) = table_ok cfg s"
  by (rule table_ok_cong) (simp_all add: upd_pipe_def)

definition room :: "pipe \<Rightarrow> nat" where
  "room x = PIPESIZE - length (pipe_q x)"

lemma room_pos_iff: "pipe_wf x \<Longrightarrow> 0 < room x \<longleftrightarrow> \<not> pipe_full x"
  using pipe_full_iff [of x] by (auto simp: room_def pipe_wf_def length_pipe_q)

text \<open>What a call of \<^verbatim>\<open>pipewrite\<close> leaves behind: the pipe \<open>y\<close>, the table and the result.\<close>

definition pipewrite_result ::
  "sched_policy \<Rightarrow> nat \<Rightarrow> uint \<Rightarrow> nat \<Rightarrow> uchar list \<Rightarrow> pipe \<Rightarrow> uint \<Rightarrow> proc list \<Rightarrow> int fout \<Rightarrow> proc list \<Rightarrow> bool" where
  "pipewrite_result cfg cur p i bs x now pt r pt' \<longleftrightarrow>
     (let woke = map (roused cfg (PipeNread p) now) pt in
      if length bs \<le> room x then r = FDone (int (i + length bs)) \<and> pt' = woke
      else if \<not> pi_readopen x \<or> p_killed (pt ! cur) then r = FDone (-1) \<and> pt' = pt
      else r = FSleep (i + room x) \<and>
           pt' = woke[cur := (woke ! cur)\<lparr>p_chan := PipeNwrite p, p_state := SLEEPING\<rparr>])"

lemma pipewrite_loop_ok:
  assumes "table_ok cfg s" "cur < NPROC" "p_state (ptable s ! cur) = RUNNING"
    and "pipes s p = Some x" "pipe_wf x"
  shows "\<exists>r s' y. pipewrite_loop cfg cur p i bs s = Ok (r, s') \<and> table_ok cfg s' \<and>
    pipes s' = (pipes s)(p \<mapsto> y) \<and> pipe_wf y \<and> pipe_q y = pipe_q x @ take (room x) bs \<and>
    pi_readopen y = pi_readopen x \<and> pi_writeopen y = pi_writeopen x \<and>
    kf s' = kf s \<and> ftable s' = ftable s \<and> mem s' = mem s \<and>
    pipewrite_result cfg cur p i bs x (ticks s) (ptable s) r (ptable s')"
  using assms
proof (induction bs arbitrary: i s x)
  case Nil
  obtain s' where "wakeup cfg (PipeNread p) s = Ok s'" "table_ok cfg s'" "only_table s s'"
    "ptable s' = map (roused cfg (PipeNread p) (ticks s)) (ptable s)" by (rule wakeup_ok [OF Nil.prems(1)])
  then show ?case using Nil.prems only_table_kern [of s s'] only_tableD(1) [of s s']
    by (intro exI [of _ "FDone (int i)"] exI [of _ s'] exI [of _ x])
      (simp add: pipewrite_result_def Let_def fun_upd_idem)
next
  case (Cons c cs)
  show ?case
  proof (cases "pipe_full x")
    case True
    then have rm: "room x = 0" using room_pos_iff [OF Cons.prems(5)] by simp
    show ?thesis
    proof (cases "\<not> pi_readopen x \<or> p_killed (ptable s ! cur)")
      case gone: True
      then show ?thesis using Cons.prems True rm
        by (intro exI [of _ "FDone (-1)"] exI [of _ s] exI [of _ x])
          (simp add: pipewrite_result_def fun_upd_idem)
    next
      case False
      obtain s' where s': "wakeup cfg (PipeNread p) s = Ok s'" "table_ok cfg s'" "only_table s s'"
        "ptable s' = map (roused cfg (PipeNread p) (ticks s)) (ptable s)" by (rule wakeup_ok [OF Cons.prems(1)])
      have len: "length (ptable s) = NPROC" using Cons.prems(1) by (simp add: table_ok_def)
      have "p_state (ptable s' ! cur) = RUNNING" using s'(4) len Cons.prems(2,3) by simp
      then have "table_ok cfg (sleep_enter (PipeNwrite p) cur s')"
        by (rule table_ok_sleep_enter [OF s'(2) Cons.prems(2)])
      then show ?thesis using Cons.prems True False rm s' only_table_kern [OF s'(3)] only_tableD(1) [OF s'(3)]
        by (intro exI [of _ "FSleep i"] exI [of _ "sleep_enter (PipeNwrite p) cur s'"] exI [of _ x])
          (simp add: pipewrite_result_def fun_upd_idem sleep_enter_def upd_proc_def)
    qed
  next
    case False
    let ?s = "upd_pipe p (pipe_put c) s"
    note put = pipe_put_q [OF Cons.prems(5) False]
    have rm: "room x = Suc (room (pipe_put c x))"
      using room_pos_iff [OF Cons.prems(5)] False put(1) by (simp add: room_def)
    have op: "pi_readopen (pipe_put c x) = pi_readopen x" "pi_writeopen (pipe_put c x) = pi_writeopen x"
      by (simp_all add: pipe_put_def)
    have "table_ok cfg ?s" "p_state (ptable ?s ! cur) = RUNNING" "pipes ?s p = Some (pipe_put c x)"
      using Cons.prems by simp_all
    from Cons.IH [OF this(1) Cons.prems(2) this(2,3) put(2), of "Suc i"] obtain r s' y where
      "pipewrite_loop cfg cur p (Suc i) cs ?s = Ok (r, s')" "table_ok cfg s'"
      "pipes s' = (pipes ?s)(p \<mapsto> y)" "pipe_wf y" "pipe_q y = pipe_q (pipe_put c x) @ take (room (pipe_put c x)) cs"
      "pi_readopen y = pi_readopen x" "pi_writeopen y = pi_writeopen x"
      "kf s' = kf ?s" "ftable s' = ftable ?s" "mem s' = mem ?s"
      "pipewrite_result cfg cur p (Suc i) cs (pipe_put c x) (ticks ?s) (ptable ?s) r (ptable s')"
      unfolding op by blast
    then show ?thesis using Cons.prems(4) False put(1) rm op
      by (intro exI [of _ r] exI [of _ s'] exI [of _ y]) (simp add: pipewrite_result_def Let_def upd_pipe_def)
  qed
qed
lemma wakeup_pipe_ok:
  assumes "table_ok cfg s"
  obtains s' where "wakeup cfg ch (upd_pipe p f s) = Ok s'" "table_ok cfg s'"
    "ptable s' = map (roused cfg ch (ticks s)) (ptable s)"
    "pipes s' = (pipes s)(p := map_option f (pipes s p))" "kf s' = kf s" "ftable s' = ftable s" "mem s' = mem s"
proof -
  have "table_ok cfg (upd_pipe p f s)" using assms by simp
  then obtain s' where s': "wakeup cfg ch (upd_pipe p f s) = Ok s'" "table_ok cfg s'"
    "only_table (upd_pipe p f s) s'"
    "ptable s' = map (roused cfg ch (ticks (upd_pipe p f s))) (ptable (upd_pipe p f s))" by (rule wakeup_ok)
  show thesis
    by (rule that [OF s'(1,2)]) (use s'(4) only_table_kern [OF s'(3)] only_tableD(1) [OF s'(3)]
      in \<open>simp_all add: upd_pipe_def\<close>)
qed

lemma piperead_ok:
  assumes "table_ok cfg s" "cur < NPROC" "p_state (ptable s ! cur) = RUNNING"
    and "pipes s p = Some x" "pipe_wf x"
  shows "\<exists>r s' y. piperead cfg cur p n s = Ok (r, s') \<and> table_ok cfg s' \<and>
    pipes s' = (pipes s)(p \<mapsto> y) \<and> pipe_wf y \<and>
    pi_readopen y = pi_readopen x \<and> pi_writeopen y = pi_writeopen x \<and>
    kf s' = kf s \<and> ftable s' = ftable s \<and> mem s' = mem s \<and>
    (if pipe_q x = [] \<and> pi_writeopen x
     then y = x \<and> (if p_killed (ptable s ! cur) then r = FDone None \<and> ptable s' = ptable s
                    else r = FSleep 0 \<and> ptable s' = (ptable s)
                           [cur := (ptable s ! cur)\<lparr>p_chan := PipeNread p, p_state := SLEEPING\<rparr>])
     else r = FDone (Some (take n (pipe_q x))) \<and> pipe_q y = drop n (pipe_q x) \<and>
          ptable s' = map (roused cfg (PipeNwrite p) (ticks s)) (ptable s))"
proof (cases "pipe_q x = [] \<and> pi_writeopen x")
  case True
  show ?thesis
  proof (cases "p_killed (ptable s ! cur)")
    case k: True
    then show ?thesis using assms True
      by (intro exI [of _ "FDone None"] exI [of _ s] exI [of _ x]) (simp add: piperead_def pipe_empty_iff fun_upd_idem)
  next
    case False
    then show ?thesis using assms True table_ok_sleep_enter [OF assms(1-3), of "PipeNread p"]
      by (intro exI [of _ "FSleep 0"] exI [of _ "sleep_enter (PipeNread p) cur s"] exI [of _ x])
        (simp add: piperead_def pipe_empty_iff fun_upd_idem sleep_enter_def upd_proc_def)
  qed
next
  case False
  obtain bs y where t: "pipe_take n x = (bs, y)" by fastforce
  note q = pipe_take_q [OF assms(5), of n, unfolded t fst_conv snd_conv]
  obtain s' where s': "wakeup cfg (PipeNwrite p) (upd_pipe p (\<lambda>_. y) s) = Ok s'" "table_ok cfg s'"
    "ptable s' = map (roused cfg (PipeNwrite p) (ticks s)) (ptable s)"
    "pipes s' = (pipes s)(p := map_option (\<lambda>_. y) (pipes s p))" "kf s' = kf s" "ftable s' = ftable s" "mem s' = mem s"
    by (rule wakeup_pipe_ok [OF assms(1)])
  then show ?thesis using False assms(4) s' q t
    by (intro exI [of _ "FDone (Some bs)"] exI [of _ s'] exI [of _ y])
      (auto simp: piperead_def pipe_empty_iff Let_def)
qed

lemma pipeclose_ok:
  assumes "pipeclose cfg K p w s = Ok s'" "table_ok cfg s"
  obtains x y where "pipes s p = Some x" "table_ok cfg s'"
    "y = (if w then x\<lparr>pi_writeopen := False\<rparr> else x\<lparr>pi_readopen := False\<rparr>)"
    "pipes s' = (pipes s)(p := if \<not> pi_readopen y \<and> \<not> pi_writeopen y then None else Some y)"
    "ptable s' = map (roused cfg (if w then PipeNread p else PipeNwrite p) (ticks s)) (ptable s)"
    "kf s' = kf s" "ftable s' = ftable s"
proof -
  from assms(1) obtain x where x: "pipes s p = Some x" by (auto simp: pipeclose_def bindR_eq_Ok_iff)
  define ch where "ch = (if w then PipeNread p else PipeNwrite p)"
  define f :: "pipe \<Rightarrow> pipe" where
    "f = (if w then pi_writeopen_update (\<lambda>_. False) else pi_readopen_update (\<lambda>_. False))"
  obtain s1 where s1: "wakeup cfg ch (upd_pipe p f s) = Ok s1" "table_ok cfg s1"
    "ptable s1 = map (roused cfg ch (ticks s)) (ptable s)"
    "pipes s1 = (pipes s)(p := map_option f (pipes s p))" "kf s1 = kf s" "ftable s1 = ftable s" "mem s1 = mem s"
    by (rule wakeup_pipe_ok [OF assms(2)])
  have eq: "pipeclose cfg K p w s = (if \<not> pi_readopen (f x) \<and> \<not> pi_writeopen (f x)
      then bindR (kfree (k_end K) p s1) (\<lambda>s2. Ok (s2\<lparr>pipes := (pipes s2)(p := None)\<rparr>)) else Ok s1)"
    using x s1(1,4) by (auto simp: pipeclose_def f_def ch_def)
  show thesis
  proof (cases "\<not> pi_readopen (f x) \<and> \<not> pi_writeopen (f x)")
    case True
    then obtain s2 where s2: "kfree (k_end K) p s1 = Ok s2" "s' = s2\<lparr>pipes := (pipes s2)(p := None)\<rparr>"
      using assms(1) by (auto simp: eq bindR_eq_Ok_iff)
    then obtain m fl where m: "s2 = s1\<lparr>mem := m, freelist := fl\<rparr>"
      using only_mem_kfree [OF s2(1)] unfolding only_mem_iff by blast
    have "table_ok cfg s'" using s1(2) table_ok_cong [of s' s1 cfg] by (simp add: s2(2) m)
    then show thesis
      by (rule that [OF x _ refl]) (use True s1 x in \<open>auto simp: s2(2) m f_def ch_def\<close>)
  next
    case False
    then have "s' = s1" using assms(1) by (auto simp: eq split: if_splits)
    show thesis
      by (rule that [OF x _ refl]) (use False s1 x in \<open>auto simp: \<open>s' = s1\<close> f_def ch_def\<close>)
  qed
qed
section \<open>Runs of a pipe\<close>

text \<open>
  One step that concerns the pipe at \<open>p\<close>, with the bytes it puts in and the bytes it hands
  out: any running process writes (a call or its resumption) or reads, an end is closed, or
  something else happens that leaves the pipe alone and puts nobody to sleep on it. A writer that has
  been killed takes part as long as the pipe does not fill up on it: all its bytes fit, or the pipe
  is full before its first byte. A reader holds a descriptor, so the read end is open while
  it reads and is not closed while it sleeps.
\<close>

inductive pipe_step ::
  "sched_policy \<Rightarrow> ksym \<Rightarrow> uint \<Rightarrow> kern \<Rightarrow> uchar list \<Rightarrow> uchar list \<Rightarrow> kern \<Rightarrow> bool"
  for cfg K p where
  pwrite: "cur < NPROC \<Longrightarrow> p_state (ptable s ! cur) = RUNNING \<Longrightarrow> pipes s p = Some x \<Longrightarrow>
    \<not> p_killed (ptable s ! cur) \<or> length bs \<le> room x \<or> room x = 0 \<Longrightarrow> pipewrite_loop cfg cur p i bs s = Ok (r, s') \<Longrightarrow>
    pipe_step cfg K p s (take (room x) bs) [] s'"
| pread: "cur < NPROC \<Longrightarrow> p_state (ptable s ! cur) = RUNNING \<Longrightarrow> \<forall>x. pipes s p = Some x \<longrightarrow> pi_readopen x \<Longrightarrow>
    piperead cfg cur p n s = Ok (FDone (Some bs), s') \<Longrightarrow> pipe_step cfg K p s [] bs s'"
| pread_wait: "cur < NPROC \<Longrightarrow> p_state (ptable s ! cur) = RUNNING \<Longrightarrow> \<forall>x. pipes s p = Some x \<longrightarrow> pi_readopen x \<Longrightarrow>
    piperead cfg cur p n s = Ok (r, s') \<Longrightarrow> (\<forall>bs. r \<noteq> FDone (Some bs)) \<Longrightarrow> pipe_step cfg K p s [] [] s'"
| close_write: "pipeclose cfg K p True s = Ok s' \<Longrightarrow> pipe_step cfg K p s [] [] s'"
| close_read: "pipeclose cfg K p False s = Ok s' \<Longrightarrow>
    \<forall>i < NPROC. \<not> asleep_on (PipeNread p) (ptable s ! i) \<Longrightarrow> pipe_step cfg K p s [] [] s'"
| elsewhere: "table_ok cfg s' \<Longrightarrow> pipes s' p = pipes s p \<Longrightarrow>
    \<forall>i < NPROC. \<forall>ch \<in> {PipeNread p, PipeNwrite p}.
      asleep_on ch (ptable s' ! i) \<longrightarrow> asleep_on ch (ptable s ! i) \<Longrightarrow> pipe_step cfg K p s [] [] s'"

inductive pipe_run ::
  "sched_policy \<Rightarrow> ksym \<Rightarrow> uint \<Rightarrow> kern \<Rightarrow> uchar list \<Rightarrow> uchar list \<Rightarrow> kern \<Rightarrow> bool"
  for cfg K p where
  start: "pipe_run cfg K p s [] [] s"
| step: "pipe_run cfg K p s ws rs s1 \<Longrightarrow> pipe_step cfg K p s1 ws1 rs1 s2 \<Longrightarrow>
    pipe_run cfg K p s (ws @ ws1) (rs @ rs1) s2"

text \<open>
  The invariant: a process sleeps in a read of the pipe only while the pipe is empty and can
  still be written, in a write only while it is full and can still be read.
\<close>

definition pipe_inv :: "sched_policy \<Rightarrow> uint \<Rightarrow> kern \<Rightarrow> bool" where
  "pipe_inv cfg p s \<longleftrightarrow> table_ok cfg s \<and> (\<forall>x. pipes s p = Some x \<longrightarrow> pipe_wf x) \<and>
     (\<forall>i < NPROC.
       (asleep_on (PipeNread p) (ptable s ! i) \<longrightarrow>
          (\<exists>x. pipes s p = Some x \<and> pipe_q x = [] \<and> pi_writeopen x \<and> pi_readopen x)) \<and>
       (asleep_on (PipeNwrite p) (ptable s ! i) \<longrightarrow>
          (\<exists>x. pipes s p = Some x \<and> length (pipe_q x) = PIPESIZE \<and> pi_readopen x)))"

lemma pipe_inv_write:
  assumes inv: "pipe_inv cfg p s" and cur: "cur < NPROC" "p_state (ptable s ! cur) = RUNNING"
    and x: "pipes s p = Some x" and alive: "\<not> p_killed (ptable s ! cur) \<or> length bs \<le> room x \<or> room x = 0"
    and w: "pipewrite_loop cfg cur p i bs s = Ok (r, s')"
  shows "pipe_inv cfg p s' \<and> (\<exists>y. pipes s' p = Some y \<and> pipe_q y = pipe_q x @ take (room x) bs)"
proof -
  have ok: "table_ok cfg s" "pipe_wf x" using inv x by (auto simp: pipe_inv_def)
  then have len: "length (ptable s) = NPROC" by (simp add: table_ok_def)
  obtain y where y: "table_ok cfg s'" "pipes s' p = Some y" "pipe_wf y" "pipe_q y = pipe_q x @ take (room x) bs"
    "pi_readopen y = pi_readopen x" "pi_writeopen y = pi_writeopen x"
    "pipewrite_result cfg cur p i bs x (ticks s) (ptable s) r (ptable s')"
    using pipewrite_loop_ok [OF ok(1) cur x ok(2), of i bs] w by auto
  have rd: "pi_readopen x" "room x \<noteq> 0" if "asleep_on (PipeNread p) (ptable s ! k)" "k < NPROC" for k
    using inv that x by (auto simp: pipe_inv_def room_def PIPESIZE_def)
  have wr: "length (pipe_q x) = PIPESIZE" "pi_readopen x" if "asleep_on (PipeNwrite p) (ptable s ! k)" "k < NPROC" for k
    using inv that x by (auto simp: pipe_inv_def)
  have full: "length (pipe_q y) = PIPESIZE" if "\<not> length bs \<le> room x"
    using that y(4) ok(2) by (simp add: room_def pipe_wf_def length_pipe_q)
  have q: "pipe_q y = pipe_q x" if "length (pipe_q x) = PIPESIZE" using that y(4) by (simp add: room_def)
  have nochange: "\<not> asleep_on (PipeNread p) (ptable s' ! k)"
      "asleep_on (PipeNwrite p) (ptable s' ! k) \<Longrightarrow> length (pipe_q y) = PIPESIZE \<and> pi_readopen x" if "k < NPROC" for k
    using y(7) that cur(1) len alive rd [OF _ that] wr [OF _ that] full q
    by (auto simp: pipewrite_result_def Let_def nth_list_update asleep_enter split: if_splits)
  then show ?thesis using y by (auto simp: pipe_inv_def)
qed
lemma pipe_inv_read:
  assumes inv: "pipe_inv cfg p s" and cur: "cur < NPROC" "p_state (ptable s ! cur) = RUNNING"
    and rd: "piperead cfg cur p n s = Ok (r, s')"
    and noread: "\<forall>x. pipes s p = Some x \<longrightarrow> pi_readopen x"
  shows "pipe_inv cfg p s' \<and> (\<exists>x y bs. pipes s p = Some x \<and> pipes s' p = Some y \<and> pipe_q x = bs @ pipe_q y \<and>
    bs = (case r of FDone (Some b) \<Rightarrow> b | _ \<Rightarrow> []))"
proof -
  from rd obtain x where x: "pipes s p = Some x" by (auto simp: piperead_def bindR_eq_Ok_iff)
  have ok: "table_ok cfg s" "pipe_wf x" using inv x by (auto simp: pipe_inv_def)
  then have len: "length (ptable s) = NPROC" by (simp add: table_ok_def)
  from piperead_ok [OF ok(1) cur x ok(2), of n] rd obtain y where y: "table_ok cfg s'" "pipes s' p = Some y"
    "pipe_wf y" "pi_readopen y = pi_readopen x" "pi_writeopen y = pi_writeopen x" and
    c: "if pipe_q x = [] \<and> pi_writeopen x
     then y = x \<and> (if p_killed (ptable s ! cur) then r = FDone None \<and> ptable s' = ptable s
                    else r = FSleep 0 \<and> ptable s' = (ptable s)
                           [cur := (ptable s ! cur)\<lparr>p_chan := PipeNread p, p_state := SLEEPING\<rparr>])
     else r = FDone (Some (take n (pipe_q x))) \<and> pipe_q y = drop n (pipe_q x) \<and>
          ptable s' = map (roused cfg (PipeNwrite p) (ticks s)) (ptable s)"
    by auto
  have sl: "asleep_on (PipeNread p) (ptable s ! k) \<Longrightarrow> pipe_q x = [] \<and> pi_writeopen x \<and> pi_readopen x"
    "asleep_on (PipeNwrite p) (ptable s ! k) \<Longrightarrow> length (pipe_q x) = PIPESIZE" if "k < NPROC" for k
    using inv that x by (auto simp: pipe_inv_def)
  have "pipe_q x = [] \<and> pi_writeopen x \<and> y = x" if "asleep_on (PipeNread p) (ptable s' ! k)" "k < NPROC" for k
    using c that len cur(1) sl [OF that(2)] by (auto simp: nth_list_update asleep_enter split: if_splits)
  moreover have "\<not> asleep_on (PipeNwrite p) (ptable s' ! k)" if "k < NPROC" for k
    using c that len cur(1) sl [OF that] by (auto simp: nth_list_update asleep_enter PIPESIZE_def split: if_splits)
  ultimately have "pipe_inv cfg p s'" using y noread x by (auto simp: pipe_inv_def)
  then show ?thesis using x y c by (auto split: if_splits)
qed

lemma pipe_inv_close:
  assumes inv: "pipe_inv cfg p s" and cl: "pipeclose cfg K p w s = Ok s'"
    and "w \<or> (\<forall>i < NPROC. \<not> asleep_on (PipeNread p) (ptable s ! i))"
  shows "pipe_inv cfg p s' \<and> (\<exists>x. pipes s p = Some x \<and> (\<forall>y. pipes s' p = Some y \<longrightarrow> pipe_q y = pipe_q x))"
proof -
  have ok: "table_ok cfg s" using inv by (simp add: pipe_inv_def)
  then have len: "length (ptable s) = NPROC" by (simp add: table_ok_def)
  obtain x y where x: "pipes s p = Some x" "table_ok cfg s'"
    "y = (if w then x\<lparr>pi_writeopen := False\<rparr> else x\<lparr>pi_readopen := False\<rparr>)"
    "pipes s' = (pipes s)(p := if \<not> pi_readopen y \<and> \<not> pi_writeopen y then None else Some y)"
    "ptable s' = map (roused cfg (if w then PipeNread p else PipeNwrite p) (ticks s)) (ptable s)"
    by (rule pipeclose_ok [OF cl ok])
  have y: "pipe_q y = pipe_q x" "pipe_wf y = pipe_wf x"
    using x(3) by (simp_all add: pipe_q_def pipe_wf_def)
  have "\<not> asleep_on (PipeNread p) (ptable s' ! k)" if "k < NPROC" for k
    using that assms(3) x(5) len by (cases w) auto
  moreover have "pipes s' p = Some y \<and> pi_readopen y \<and> length (pipe_q y) = PIPESIZE"
    if "asleep_on (PipeNwrite p) (ptable s' ! k)" "k < NPROC" for k
  proof -
    have w: "w" using that x(5) len by (cases w) auto
    then have "asleep_on (PipeNwrite p) (ptable s ! k)" using that x(5) len by auto
    then show ?thesis using inv that(2) x w y(1) by (auto simp: pipe_inv_def)
  qed
  moreover have "pipe_wf z" if "pipes s' p = Some z" for z
    using that x(1,4) y(2) inv by (auto simp: pipe_inv_def split: if_splits)
  ultimately show ?thesis using x(1,2,4) y by (auto simp: pipe_inv_def split: if_splits)
qed
lemma pipe_inv_step:
  assumes "pipe_step cfg K p s ws rs s'" "pipe_inv cfg p s"
  shows "pipe_inv cfg p s' \<and> (pipes s p = None \<longrightarrow> pipes s' p = None \<and> ws = [] \<and> rs = []) \<and>
    (\<forall>x. pipes s p = Some x \<longrightarrow> (\<exists>q. pipe_q x @ ws = rs @ q \<and> (\<forall>y. pipes s' p = Some y \<longrightarrow> pipe_q y = q)))"
  using assms
proof (induction rule: pipe_step.induct)
  case (pwrite cur s x i bs r s')
  then show ?case using pipe_inv_write by fastforce
next
  case (pread cur s n bs s')
  then show ?case using pipe_inv_read [OF pread(5,1,2,4,3)] by auto
next
  case (pread_wait cur s n r s')
  have "(case r of FDone (Some b) \<Rightarrow> b | _ \<Rightarrow> []) = ([] :: uchar list)"
    using pread_wait(5) by (auto split: fout.splits option.splits)
  then show ?case using pipe_inv_read [OF pread_wait(6,1,2,4,3)] by auto
next
  case (close_write s s')
  then show ?case using pipe_inv_close [of cfg p s K True s'] by auto
next
  case (close_read s s')
  then show ?case using pipe_inv_close [of cfg p s K False s'] by auto
next
  case (elsewhere s' s)
  then have "pipe_inv cfg p s'" unfolding pipe_inv_def by auto
  then show ?case using elsewhere(2) by auto
qed

lemma pipe_run_inv:
  assumes "pipe_run cfg K p s ws rs s'" "pipe_inv cfg p s" "pipes s p = Some x"
  shows "pipe_inv cfg p s' \<and> (\<exists>q. pipe_q x @ ws = rs @ q \<and> (\<forall>y. pipes s' p = Some y \<longrightarrow> pipe_q y = q))"
  using assms
proof (induction rule: pipe_run.induct)
  case (start s)
  then show ?case by auto
next
  case (step s ws rs s1 ws1 rs1 s2)
  from step.IH [OF step.prems] obtain q where q: "pipe_inv cfg p s1" "pipe_q x @ ws = rs @ q"
    "\<forall>y. pipes s1 p = Some y \<longrightarrow> pipe_q y = q" by blast
  note S = pipe_inv_step [OF step.hyps(2) q(1)]
  show ?case
  proof (cases "pipes s1 p")
    case None
    then show ?thesis using S q by auto
  next
    case (Some y)
    then obtain q2 where "pipe_q y @ ws1 = rs1 @ q2" "\<forall>z. pipes s2 p = Some z \<longrightarrow> pipe_q z = q2" using S by blast
    moreover have "pipe_q x @ ws @ ws1 = rs @ q @ ws1" using q(2) by (metis append.assoc)
    ultimately show ?thesis using S q(3) Some by auto
  qed
qed

section \<open>Properties\<close>

text \<open>
  C24: \<^verbatim>\<open>pipewrite\<close> refines appending to a bounded queue. It always returns or goes to sleep; it
  appends the bytes that fit, in order, also when the 32-bit counters wrap around. If all of them
  fit it returns their number and every sleeping reader is runnable. If not, it returns -1 when
  the read end is closed or the process has been killed, and otherwise sleeps on the pipe with
  the number of bytes written so far, the readers woken.
\<close>

theorem pipewrite_refines_queue:
  assumes "table_ok cfg s" "cur < NPROC" "p_state (ptable s ! cur) = RUNNING"
    and "pipes s p = Some x" "pipe_wf x"
  shows "\<exists>r s' y. pipewrite cfg cur p bs s = Ok (r, s') \<and> table_ok cfg s' \<and>
    pipes s' = (pipes s)(p \<mapsto> y) \<and> pipe_wf y \<and> pipe_q y = pipe_q x @ take (PIPESIZE - length (pipe_q x)) bs \<and>
    (if length (pipe_q x @ bs) \<le> PIPESIZE
     then r = FDone (int (length bs)) \<and> ptable s' = map (roused cfg (PipeNread p) (ticks s)) (ptable s)
     else if \<not> pi_readopen x \<or> p_killed (ptable s ! cur) then r = FDone (-1) \<and> ptable s' = ptable s
     else r = FSleep (PIPESIZE - length (pipe_q x)) \<and> asleep_on (PipeNwrite p) (ptable s' ! cur) \<and>
          (\<forall>i < NPROC. i \<noteq> cur \<longrightarrow> ptable s' ! i = roused cfg (PipeNread p) (ticks s) (ptable s ! i)))"
proof -
  have le: "length (pipe_q x) \<le> PIPESIZE" "length (ptable s) = NPROC"
    using assms by (auto simp: pipe_wf_def length_pipe_q table_ok_def)
  obtain r s' y where "pipewrite_loop cfg cur p 0 bs s = Ok (r, s')" "table_ok cfg s'"
    "pipes s' = (pipes s)(p \<mapsto> y)" "pipe_wf y" "pipe_q y = pipe_q x @ take (room x) bs"
    "pipewrite_result cfg cur p 0 bs x (ticks s) (ptable s) r (ptable s')"
    using pipewrite_loop_ok [OF assms, of 0 bs] by blast
  then show ?thesis using le assms(2)
    by (intro exI [of _ r] exI [of _ s'] exI [of _ y])
      (auto simp: pipewrite_def pipewrite_result_def Let_def room_def asleep_on_def split: if_splits)
qed

text \<open>
  C22: The bytes read from a pipe are the bytes written to it, in order, none lost, doubled or
  changed: over any run of writes (sleeping and resumed), reads, closes and other activity, by any
  processes (the runs leave out only a killed writer on whom the pipe fills up), the bytes handed out are a
  prefix of the pipe's first contents followed by the bytes accepted, and the rest is what the pipe
  still holds.
\<close>

theorem pipe_stream:
  assumes "pipe_run cfg K p s ws rs s'" "pipe_inv cfg p s" "pipes s p = Some x"
  shows "\<exists>q. pipe_q x @ ws = rs @ q \<and> (\<forall>y. pipes s' p = Some y \<longrightarrow> pipe_q y = q)"
  using pipe_run_inv [OF assms] by blast

text \<open>
  C23: No wakeup is lost on a pipe, except through a writer that has been killed and on whom the
  pipe fills up, and as long as nobody closes the read end under a sleeping reader, who holds a
  descriptor of it: over any run without these two, no process sleeps in a read while the pipe
  holds a byte or its write end is closed, and none sleeps in a write while there is room or
  the read end is closed. The first exception is real and is
  shown below to leave a reader asleep.
\<close>

theorem pipe_no_lost_wakeup:
  assumes "pipe_run cfg K p s ws rs s'" "pipe_inv cfg p s" "pipes s p = Some x" "i < NPROC"
  shows "(asleep_on (PipeNread p) (ptable s' ! i) \<longrightarrow>
       (\<exists>y. pipes s' p = Some y \<and> pipe_q y = [] \<and> pi_writeopen y)) \<and>
    (asleep_on (PipeNwrite p) (ptable s' ! i) \<longrightarrow>
       (\<exists>y. pipes s' p = Some y \<and> pipe_full y \<and> pi_readopen y))"
proof -
  have inv: "pipe_inv cfg p s'" using pipe_run_inv [OF assms(1-3)] by blast
  then have "pipe_full y \<longleftrightarrow> length (pipe_q y) = PIPESIZE" if "pipes s' p = Some y" for y
    using that by (intro pipe_full_iff) (simp add: pipe_inv_def)
  then show ?thesis using inv assms(4) unfolding pipe_inv_def by blast
qed

text \<open>
  C32: A writer that has been killed can leave a reader asleep beside a full pipe. It returns -1
  from the full pipe without the \<^verbatim>\<open>wakeup(&p->nread)\<close> that the other exits of
  \<^verbatim>\<open>pipewrite\<close> make, so a reader that slept on the empty pipe is still asleep while the
  pipe holds 512 bytes.
\<close>

theorem pipewrite_killed_leaves_reader_asleep:
  assumes "table_ok cfg s" "cur < NPROC" "p_state (ptable s ! cur) = RUNNING" "p_killed (ptable s ! cur)"
    and "pipes s p = Some x" "pipe_wf x" "pipe_q x = []" "PIPESIZE < length bs"
    and "asleep_on (PipeNread p) (ptable s ! i)"
  shows "\<exists>s' y. pipewrite cfg cur p bs s = Ok (FDone (-1), s') \<and> asleep_on (PipeNread p) (ptable s' ! i) \<and>
    pipes s' p = Some y \<and> pipe_q y = take PIPESIZE bs"
proof -
  obtain r s' y where "pipewrite_loop cfg cur p 0 bs s = Ok (r, s')" "pipes s' = (pipes s)(p \<mapsto> y)"
    "pipe_q y = pipe_q x @ take (room x) bs"
    "pipewrite_result cfg cur p 0 bs x (ticks s) (ptable s) r (ptable s')"
    using pipewrite_loop_ok [OF assms(1-3,5,6), of 0 bs] by blast
  then show ?thesis using assms(4,7,8,9)
    by (intro exI [of _ s'] exI [of _ y]) (simp add: pipewrite_def pipewrite_result_def Let_def room_def)
qed

section \<open>Witnesses\<close>

text \<open>
  A pipe whose counters are about to wrap around; process 0 runs, process 1 sleeps in a read.
\<close>

definition demo_pipe :: pipe where
  "demo_pipe = \<lparr>pi_data = replicate PIPESIZE 0, pi_nread = 0xffffffff, pi_nwrite = 0xffffffff,
     pi_readopen = True, pi_writeopen = True\<rparr>"

definition demo_pipe_kern :: "bool \<Rightarrow> kern" where
  "demo_pipe_kern killed = (boot_kern [])\<lparr>
     ptable := (replicate NPROC zero_proc)
       [0 := zero_proc\<lparr>p_state := RUNNING, p_killed := killed\<rparr>,
        1 := zero_proc\<lparr>p_state := SLEEPING, p_chan := PipeNread 0x8000000\<rparr>],
     pipes := [0x8000000 \<mapsto> demo_pipe]\<rparr>"

definition demo_ksym :: ksym where
  "demo_ksym = \<lparr>k_end = 0x80118000, k_data = 0x80108000, k_forkret = 0x80103a20, k_trapret = 0x80105b1a\<rparr>"

lemma demo_pipe_simps:
  "pipe_wf demo_pipe" "pipe_q demo_pipe = []" "pi_readopen demo_pipe" "pi_writeopen demo_pipe"
  by (simp_all add: demo_pipe_def pipe_wf_def pipe_q_def ring_def)

lemma demo_pipe_kern_simps:
  "table_ok RR (demo_pipe_kern k)" "pipes (demo_pipe_kern k) = [0x8000000 \<mapsto> demo_pipe]"
  "p_state (ptable (demo_pipe_kern k) ! 0) = RUNNING" "p_killed (ptable (demo_pipe_kern k) ! 0) = k"
  "asleep_on (PipeNread 0x8000000) (ptable (demo_pipe_kern k) ! 1)"
  "i < NPROC \<Longrightarrow> \<not> asleep_on (PipeNwrite 0x8000000) (ptable (demo_pipe_kern k) ! i)"
  by (simp_all add: demo_pipe_kern_def table_ok_def asleep_on_def nth_list_update zero_proc_def NPROC_def)

lemma demo_pipe_inv: "pipe_inv RR 0x8000000 (demo_pipe_kern k)"
  using demo_pipe_kern_simps demo_pipe_simps by (auto simp: pipe_inv_def)

theorem pipewrite_refines_queue_witness:
  "\<exists>s' y. pipewrite RR 0 0x8000000 [1, 2, 3] (demo_pipe_kern False) = Ok (FDone 3, s') \<and>
     pipes s' 0x8000000 = Some y \<and> pipe_q y = [1, 2, 3] \<and> p_state (ptable s' ! 1) = RUNNABLE"
proof -
  note D = demo_pipe_kern_simps [where k = False]
  have "roused RR (PipeNread 0x8000000) now (ptable (demo_pipe_kern False) ! 1) =
      (ptable (demo_pipe_kern False) ! 1)\<lparr>p_state := RUNNABLE\<rparr>" for now using D(5) by (simp add: roused_def)
  moreover have "length (ptable (demo_pipe_kern False)) = NPROC" using D(1) by (simp add: table_ok_def)
  ultimately show ?thesis
    using pipewrite_refines_queue [OF D(1) _ D(3), of "0x8000000" demo_pipe "[1, 2, 3]"] D(2) demo_pipe_simps
    by (auto simp: NPROC_def PIPESIZE_def)
qed

lemma demo_pipe_write:
  obtains s' y where "pipe_run RR demo_ksym 0x8000000 (demo_pipe_kern False) (take 512 bs) [] s'"
    "pipes s' 0x8000000 = Some y" "pipe_q y = take 512 bs" "pipe_inv RR 0x8000000 s'" "pi_readopen y"
    "length bs \<le> 512 \<Longrightarrow> p_state (ptable s' ! 0) = RUNNING"
    "512 < length bs \<Longrightarrow> asleep_on (PipeNwrite 0x8000000) (ptable s' ! 0)"
    "\<not> asleep_on (PipeNread 0x8000000) (ptable s' ! 1)"
proof -
  note D = demo_pipe_kern_simps [where k = False]
  have room: "room demo_pipe = 512" using demo_pipe_simps(2) by (simp add: room_def PIPESIZE_def)
  have p: "pipes (demo_pipe_kern False) 0x8000000 = Some demo_pipe" using D(2) by simp
  obtain r s' y where w: "pipewrite_loop RR 0 0x8000000 0 bs (demo_pipe_kern False) = Ok (r, s')"
    "pipes s' = (pipes (demo_pipe_kern False))(0x8000000 \<mapsto> y)" "pi_readopen y"
    "pipewrite_result RR 0 0x8000000 0 bs demo_pipe (ticks (demo_pipe_kern False)) (ptable (demo_pipe_kern False)) r (ptable s')"
    using pipewrite_loop_ok [OF D(1) _ D(3) p demo_pipe_simps(1), of 0 bs] demo_pipe_simps(3) by (auto simp: NPROC_def)
  have "pipe_step RR demo_ksym 0x8000000 (demo_pipe_kern False) (take (room demo_pipe) bs) [] s'"
    by (rule pipe_step.pwrite [OF _ D(3) p _ w(1)]) (simp_all add: D(4) NPROC_def)
  then have run: "pipe_run RR demo_ksym 0x8000000 (demo_pipe_kern False) (take 512 bs) [] s'"
    using pipe_run.step [OF pipe_run.start] by (fastforce simp: room)
  have inv: "pipe_inv RR 0x8000000 s'" "pipe_q y = take 512 bs"
    using pipe_run_inv [OF run demo_pipe_inv p] w(2) demo_pipe_simps(2) by auto
  have len: "length (ptable (demo_pipe_kern False)) = NPROC" using D(1) by (simp add: table_ok_def)
  have "roused RR (PipeNread 0x8000000) now (ptable (demo_pipe_kern False) ! 0) = ptable (demo_pipe_kern False) ! 0" for now
    using D(3) by (simp add: roused_def asleep_on_def)
  then have tab: "length bs \<le> 512 \<Longrightarrow> p_state (ptable s' ! 0) = RUNNING"
    "512 < length bs \<Longrightarrow> asleep_on (PipeNwrite 0x8000000) (ptable s' ! 0)"
    using w(4) len D(3,4) demo_pipe_simps(3)
    by (auto simp: pipewrite_result_def room NPROC_def Let_def nth_list_update asleep_on_def split: if_splits)
  have "\<not> asleep_on (PipeNread 0x8000000) (ptable s' ! 1)"
    using w(4) len D(4) demo_pipe_simps(3) by (auto simp: pipewrite_result_def room NPROC_def Let_def split: if_splits)
  with tab show thesis by (intro that [OF run _ inv(2,1) w(3)]) (use w(2) in simp_all)
qed

theorem pipe_stream_witness:
  "\<exists>s' y. pipe_run RR demo_ksym 0x8000000 (demo_pipe_kern False) [7, 8, 9] [7, 8] s' \<and>
     pipes s' 0x8000000 = Some y \<and> pipe_q y = [9]"
proof -
  obtain s1 x where s1: "pipe_run RR demo_ksym 0x8000000 (demo_pipe_kern False) [7, 8, 9] [] s1"
    "pipes s1 0x8000000 = Some x" "pipe_q x = [7, 8, 9]" "pipe_inv RR 0x8000000 s1" "pi_readopen x" "p_state (ptable s1 ! 0) = RUNNING"
    by (rule demo_pipe_write [of "[7, 8, 9]"]) simp
  have ok: "table_ok RR s1" "pipe_wf x" using s1(2,4) by (simp_all add: pipe_inv_def)
  obtain s' y where r: "piperead RR 0 0x8000000 2 s1 = Ok (FDone (Some [7, 8]), s')" "pipes s' 0x8000000 = Some y"
    using piperead_ok [OF ok(1) _ s1(6,2) ok(2), of 2] s1(3) by (auto simp: NPROC_def)
  have "pipe_step RR demo_ksym 0x8000000 s1 [] [7, 8] s'"
    by (rule pipe_step.pread [OF _ s1(6) _ r(1)]) (use s1(2,5) in \<open>simp_all add: NPROC_def\<close>)
  then have run: "pipe_run RR demo_ksym 0x8000000 (demo_pipe_kern False) [7, 8, 9] [7, 8] s'"
    using pipe_run.step [OF s1(1)] by fastforce
  have "pipes (demo_pipe_kern False) 0x8000000 = Some demo_pipe" using demo_pipe_kern_simps(2) by simp
  from pipe_stream [OF run demo_pipe_inv this] demo_pipe_simps(2) r(2) have "pipe_q y = [9]" by auto
  then show ?thesis using run r(2) by blast
qed

theorem pipe_no_lost_wakeup_witness:
  "\<exists>s' y. pipe_run RR demo_ksym 0x8000000 (demo_pipe_kern False) (replicate 512 65) [] s' \<and>
     asleep_on (PipeNwrite 0x8000000) (ptable s' ! 0) \<and> \<not> asleep_on (PipeNread 0x8000000) (ptable s' ! 1) \<and>
     pipes s' 0x8000000 = Some y \<and> pipe_full y \<and> pi_readopen y"
proof -
  obtain s' where s': "pipe_run RR demo_ksym 0x8000000 (demo_pipe_kern False) (replicate 512 65) [] s'"
    "asleep_on (PipeNwrite 0x8000000) (ptable s' ! 0)" "\<not> asleep_on (PipeNread 0x8000000) (ptable s' ! 1)"
    by (rule demo_pipe_write [of "replicate 600 65"]) simp
  have "pipes (demo_pipe_kern False) 0x8000000 = Some demo_pipe" using demo_pipe_kern_simps(2) by simp
  from pipe_no_lost_wakeup [OF s'(1) demo_pipe_inv this, of 0] s' show ?thesis by (auto simp: NPROC_def)
qed

theorem pipewrite_killed_leaves_reader_asleep_witness:
  "\<exists>s' y. pipewrite RR 0 0x8000000 (replicate 600 65) (demo_pipe_kern True) = Ok (FDone (-1), s') \<and>
     asleep_on (PipeNread 0x8000000) (ptable s' ! 1) \<and> pipes s' 0x8000000 = Some y \<and>
     pipe_q y = replicate 512 65"
  using pipewrite_killed_leaves_reader_asleep [OF demo_pipe_kern_simps(1) _ demo_pipe_kern_simps(3),
      of True "0x8000000" demo_pipe "replicate 600 65" 1] demo_pipe_kern_simps [where k = True] demo_pipe_simps
  by (simp add: NPROC_def PIPESIZE_def)

end
