(* ===== verification/Console.thy ===== *)
theory Console
  imports File
begin

text \<open>
  The console (\<^verbatim>\<open>console.c\<close>), the serial output (\<^verbatim>\<open>uart.c\<close>) and the process listings that it
  prints (\<^verbatim>\<open>getps\<close> and \<^verbatim>\<open>procdump\<close> of \<^verbatim>\<open>proc.c\<close>).

  The state adds the input buffer, the screen memory with the cursor register of the CGA
  controller, whether there is a serial port, and the bytes sent to it. The waiting loop of \<^verbatim>\<open>uartputc\<close> and
  the spin lock of the console have no part in it. \<^verbatim>\<open>panic\<close> ends a computation of the
  model, so the flag \<^verbatim>\<open>panicked\<close> that freezes the other processors is not a field.
\<close>

section \<open>Data\<close>

definition BACKSPACE :: int where [param_defs]: "BACKSPACE = 0x100"
definition INPUT_BUF :: nat where [param_defs]: "INPUT_BUF = 128"
definition CONSOLE :: nat where [param_defs]: "CONSOLE = 1"

record kcon = kern +
  in_buf :: "uchar list"
  in_r :: uint            \<comment> \<open>Read index\<close>
  in_w :: uint            \<comment> \<open>Write index\<close>
  in_e :: uint            \<comment> \<open>Edit index\<close>
  crt :: "ushort list"    \<comment> \<open>CGA memory, 25 lines of 80\<close>
  crt_pos :: nat          \<comment> \<open>cursor registers 14 and 15\<close>
  uart :: bool            \<comment> \<open>is there a uart?\<close>
  uart_out :: "uchar list"

definition boot_kcon :: "block list \<Rightarrow> kcon" where
  "boot_kcon d = kern.extend (boot_kern d)
     (kcon.fields (replicate INPUT_BUF 0) 0 0 0 (replicate (25 * 80) 0) 0 False [])"

text \<open>Control-x: \<^verbatim>\<open>C(x)\<close>.\<close>

definition ctl :: "char \<Rightarrow> int" where
  "ctl x = of_char x - of_char (CHR ''@'')"

definition newline :: int where "newline = 10"
definition blank :: ushort where "blank = 0x20 OR 0x0700"

section \<open>Output\<close>

text \<open>The digits of \<open>x\<close>, last first, as the \<^verbatim>\<open>do\<close> loop of \<^verbatim>\<open>printint\<close> stores them.\<close>

definition digit :: "nat \<Rightarrow> int" where
  "digit d = of_char (''0123456789abcdef'' ! d)"

function digits_rev :: "nat \<Rightarrow> nat \<Rightarrow> int list" where
  "digits_rev base x =
     digit (x mod base) # (if base < 2 \<or> x div base = 0 then [] else digits_rev base (x div base))"
  by pat_completeness auto
termination
  by (relation "measure (\<lambda>(base, x). x)") (auto simp: not_less intro!: div_less_dividend gr0I)

declare digits_rev.simps [simp del]

definition printint :: "uint \<Rightarrow> nat \<Rightarrow> bool \<Rightarrow> int list" where
  "printint xx base sign =
     (let neg = (sign \<and> sint xx < 0); x = (if neg then - xx else xx) in
      rev (digits_rev base (unat x) @ (if neg then [of_char (CHR ''-'')] else [])))"

text \<open>
  \<^verbatim>\<open>cprintf\<close>: the characters it passes to \<^verbatim>\<open>consputc\<close>. An argument is a word or a string,
  \<open>AStr None\<close> the null pointer; a format that asks for an argument that is not there reads
  whatever is on the stack.
\<close>

datatype carg = ANum uint | AStr "uchar list option"

definition chars :: "string \<Rightarrow> int list" where
  "chars s = map of_char s"

definition bchars :: "uchar list \<Rightarrow> int list" where
  "bchars s = map sint (cstr s)"

fun cprintf_chars :: "string \<Rightarrow> carg list \<Rightarrow> int list res" where
  "cprintf_chars [] args = Ok []"
| "cprintf_chars (c # fmt) args =
     (if c \<noteq> CHR ''%'' then bindR (cprintf_chars fmt args) (\<lambda>out. Ok (of_char c # out))
      else case fmt of
        [] \<Rightarrow> Ok []
      | d # fmt1 \<Rightarrow>
          if d \<in> {CHR ''d'', CHR ''x'', CHR ''p''}
          then (case args of
                  ANum v # args1 \<Rightarrow>
                    bindR (cprintf_chars fmt1 args1) (\<lambda>out.
                    Ok (printint v (if d = CHR ''d'' then 10 else 16) (d = CHR ''d'') @ out))
                | _ \<Rightarrow> Undef)
          else if d = CHR ''s''
          then (case args of
                  AStr s # args1 \<Rightarrow>
                    bindR (cprintf_chars fmt1 args1) (\<lambda>out.
                    Ok ((case s of None \<Rightarrow> chars ''(null)'' | Some s \<Rightarrow> bchars s) @ out))
                | _ \<Rightarrow> Undef)
          else bindR (cprintf_chars fmt1 args) (\<lambda>out.
               Ok (if d = CHR ''%'' then of_char d # out else of_char (CHR ''%'') # of_char d # out)))"

text \<open>\<^verbatim>\<open>cgaputc\<close>; the index \<open>pos\<close> is checked where C would write outside the screen.\<close>

definition crt_set :: "nat \<Rightarrow> ushort \<Rightarrow> 'a kcon_scheme \<Rightarrow> 'a kcon_scheme res" where
  "crt_set i v s = (if i < length (crt s) then Ok (s\<lparr>crt := (crt s)[i := v]\<rparr>) else Undef)"

definition crt_scroll :: "nat \<Rightarrow> ushort list \<Rightarrow> ushort list" where
  "crt_scroll pos c =
     (let c1 = take (23 * 80) (drop 80 c) @ drop (23 * 80) c
      in take pos c1 @ replicate (24 * 80 - pos) 0 @ drop (24 * 80) c1)"

definition cgaputc :: "int \<Rightarrow> 'a kcon_scheme \<Rightarrow> 'a kcon_scheme res" where
  "cgaputc c s =
     (let pos = crt_pos s in
      bindR (if c = newline then Ok (pos + (80 - pos mod 80), s)
             else if c = BACKSPACE then Ok (pos - 1, s)
             else bindR (crt_set pos ((word_of_int c AND 0xff) OR 0x0700) s) (\<lambda>s1. Ok (Suc pos, s1)))
        (\<lambda>(pos, s1).
      bindR (guardR (\<not> pos > 25 * 80) ''pos under/overflow'') (\<lambda>_.
      let (pos, s2) =
            (if pos div 80 \<ge> 24
             then (pos - 80, s1\<lparr>crt := crt_scroll (pos - 80) (crt s1)\<rparr>)
             else (pos, s1))
      in crt_set pos blank (s2\<lparr>crt_pos := pos mod 2 ^ 16\<rparr>))))"

definition uartputc :: "int \<Rightarrow> 'a kcon_scheme \<Rightarrow> 'a kcon_scheme" where
  "uartputc c s = (if \<not> uart s then s else s\<lparr>uart_out := uart_out s @ [word_of_int c]\<rparr>)"

text \<open>
  \<^verbatim>\<open>uartinit\<close>; \<open>port\<close> says whether the status register answers, that is, there is a serial
  port. The writes to its control registers are left out.
\<close>

definition uartinit :: "bool \<Rightarrow> 'a kcon_scheme \<Rightarrow> 'a kcon_scheme" where
  "uartinit port s =
     (if \<not> port then s else fold uartputc (chars (''xv6...'' @ [CHR 10])) (s\<lparr>uart := True\<rparr>))"

definition consputc :: "int \<Rightarrow> 'a kcon_scheme \<Rightarrow> 'a kcon_scheme res" where
  "consputc c s =
     cgaputc c (if c = BACKSPACE then uartputc 8 (uartputc 32 (uartputc 8 s)) else uartputc c s)"

fun consputs :: "int list \<Rightarrow> 'a kcon_scheme \<Rightarrow> 'a kcon_scheme res" where
  "consputs [] s = Ok s"
| "consputs (c # cs) s = bindR (consputc c s) (consputs cs)"

definition cprintf :: "string \<Rightarrow> carg list \<Rightarrow> 'a kcon_scheme \<Rightarrow> 'a kcon_scheme res" where
  "cprintf fmt args s = bindR (cprintf_chars fmt args) (\<lambda>out. consputs out s)"

section \<open>Process listings\<close>

definition num :: "int \<Rightarrow> carg" where "num i = ANum (word_of_int i)"

definition getps_state :: "sched_policy \<Rightarrow> procstate \<Rightarrow> string" where
  "getps_state cfg st =
     (case st of SLEEPING \<Rightarrow> ''SLEEPING'' @ [CHR 9] | RUNNING \<Rightarrow> ''RUNNING '' @ [CHR 9]
      | RUNNABLE \<Rightarrow> ''RUNNABLE'' @ [CHR 9]
      | ZOMBIE \<Rightarrow> (if cfg = MLFQ then ''ZOMBIE  '' else ''ZOMBIE '') @ [CHR 9] | _ \<Rightarrow> '''')"

definition tabs :: "string list \<Rightarrow> string" where
  "tabs cols = concat (map (\<lambda>c. c @ [CHR 9, CHR 9]) cols)"

definition getps_head :: "sched_policy \<Rightarrow> string" where
  "getps_head cfg =
     ''PID'' @ [CHR 9, CHR 9] @ ''Priority'' @ [CHR 9] @
     (if cfg \<noteq> MLFQ
      then tabs [''State'', ''c_time'', ''r_time'', ''w_time'', ''n_run''] @ ''Name''
      else tabs [''State'', ''c_time'', ''r_time'', ''w_time'', ''n_run''] @ ''cur_q'' @ [CHR 9] @
           ''q0'' @ [CHR 9] @ ''q1'' @ [CHR 9] @ ''q2'' @ [CHR 9] @ ''q3'' @ [CHR 9] @ ''q04'' @ [CHR 9] @ ''Name'')
     @ [CHR 10]"

text \<open>The calls of \<^verbatim>\<open>cprintf\<close> for one process, joined into one format.\<close>

definition getps_row :: "sched_policy \<Rightarrow> uint \<Rightarrow> proc \<Rightarrow> string \<times> carg list" where
  "getps_row cfg now p =
     (let w = (if cfg \<noteq> MLFQ
               then now - word_of_int (p_ctime p) - word_of_int (p_rtime p) - word_of_int (p_iotime p)
               else now - word_of_int (p_qtime p))
      in (tabs [''%d'', ''%d''] @ getps_state cfg (p_state p) @ tabs [''%d'', ''%d'', ''%d'', ''%d''] @
          (if cfg \<noteq> MLFQ then ''''
           else ''%d'' @ [CHR 9] @ concat (map (\<lambda>_. ''%d'' @ [CHR 9]) [0..<5])) @ ''%s'' @ [CHR 10],
          [num (p_pid p), num (p_priority p), num (p_ctime p), num (p_rtime p), ANum w, num (p_n_run p)] @
          (if cfg \<noteq> MLFQ then [] else num (p_cur_q p) # map (\<lambda>i. num (p_q p ! i)) [0..<5]) @
          [AStr (Some (p_name p))]))"

fun getps_loop :: "sched_policy \<Rightarrow> proc list \<Rightarrow> 'a kcon_scheme \<Rightarrow> 'a kcon_scheme res" where
  "getps_loop cfg [] s = Ok s"
| "getps_loop cfg (p # ps) s =
     (if p_state p \<in> {SLEEPING, RUNNING, RUNNABLE, ZOMBIE}
      then let (fmt, args) = getps_row cfg (ticks s) p in bindR (cprintf fmt args s) (getps_loop cfg ps)
      else getps_loop cfg ps s)"

definition getps :: "sched_policy \<Rightarrow> 'a kcon_scheme \<Rightarrow> (int \<times> 'a kcon_scheme) res" where
  "getps cfg s =
     bindR (cprintf (getps_head cfg) [] s) (\<lambda>s1.
     bindR (getps_loop cfg (ptable s1) s1) (\<lambda>s2. Ok (0, s2)))"

definition procdump_state :: "procstate \<Rightarrow> string" where
  "procdump_state st =
     (case st of UNUSED \<Rightarrow> ''unused'' | EMBRYO \<Rightarrow> ''embryo'' | SLEEPING \<Rightarrow> ''sleep ''
      | RUNNABLE \<Rightarrow> ''runble'' | RUNNING \<Rightarrow> ''run   '' | ZOMBIE \<Rightarrow> ''zombie'')"

fun cprintf_pcs :: "uint list \<Rightarrow> 'a kcon_scheme \<Rightarrow> 'a kcon_scheme res" where
  "cprintf_pcs [] s = Ok s"
| "cprintf_pcs (pc # pcs) s =
     (if pc = 0 then Ok s else bindR (cprintf '' %p'' [ANum pc] s) (cprintf_pcs pcs))"

fun procdump_loop :: "proc list \<Rightarrow> 'a kcon_scheme \<Rightarrow> 'a kcon_scheme res" where
  "procdump_loop [] s = Ok s"
| "procdump_loop (p # ps) s =
     (if p_state p = UNUSED then procdump_loop ps s
      else bindR (cprintf ''%d %s %s''
                    [num (p_pid p), AStr (Some (map of_char (procdump_state (p_state p)))),
                     AStr (Some (p_name p))] s) (\<lambda>s1.
           bindR (if p_state p = SLEEPING
                  then cprintf_pcs (getcallerpcs (load32 (mem s1)) (cx_ebp (p_context p) + 8)) s1
                  else Ok s1) (\<lambda>s2.
           bindR (cprintf [CHR 10] [] s2) (procdump_loop ps))))"

definition procdump :: "'a kcon_scheme \<Rightarrow> 'a kcon_scheme res" where
  "procdump s = procdump_loop (ptable s) s"

section \<open>Input\<close>

definition in_at :: "'a kcon_scheme \<Rightarrow> uint \<Rightarrow> uchar" where
  "in_at s i = in_buf s ! (unat i mod INPUT_BUF)"

definition in_erase :: "'a kcon_scheme \<Rightarrow> 'a kcon_scheme res" where
  "in_erase s = consputc BACKSPACE (s\<lparr>in_e := in_e s - 1\<rparr>)"

text \<open>Kill line: at most as many steps as there are characters after \<open>w\<close>.\<close>

fun kill_line :: "nat \<Rightarrow> 'a kcon_scheme \<Rightarrow> 'a kcon_scheme res" where
  "kill_line n s =
     (if in_e s \<noteq> in_w s \<and> in_at s (in_e s - 1) \<noteq> word_of_int newline
      then (case n of 0 \<Rightarrow> Undef | Suc n \<Rightarrow> bindR (in_erase s) (kill_line n))
      else Ok s)"

declare kill_line.simps [simp del]

definition consoleintr_default ::
  "sched_policy \<Rightarrow> int \<Rightarrow> 'a kcon_scheme \<Rightarrow> 'a kcon_scheme res" where
  "consoleintr_default cfg c s =
     (if c \<noteq> 0 \<and> in_e s - in_r s < of_nat INPUT_BUF
      then let c = (if c = 13 then newline else c);
               s1 = s\<lparr>in_buf := (in_buf s)[unat (in_e s) mod INPUT_BUF := word_of_int c],
                      in_e := in_e s + 1\<rparr>
           in bindR (consputc c s1) (\<lambda>s2.
              if c = newline \<or> c = ctl (CHR ''D'') \<or> in_e s2 = in_r s2 + of_nat INPUT_BUF
              then wakeup cfg InputChan (s2\<lparr>in_w := in_e s2\<rparr>)
              else Ok s2)
      else Ok s)"

definition consoleintr_char ::
  "sched_policy \<Rightarrow> int \<Rightarrow> 'a kcon_scheme \<Rightarrow> 'a kcon_scheme res" where
  "consoleintr_char cfg c s =
     (if c = ctl (CHR ''P'') then Ok s
      else if c = ctl (CHR ''U'') then kill_line (unat (in_e s - in_w s)) s
      else if c = ctl (CHR ''H'') \<or> c = 0x7f then (if in_e s \<noteq> in_w s then in_erase s else Ok s)
      else consoleintr_default cfg c s)"

text \<open>\<open>cs\<close> are the characters that \<^verbatim>\<open>getc\<close> returns before it returns -1.\<close>

fun consoleintr_loop ::
  "sched_policy \<Rightarrow> int list \<Rightarrow> 'a kcon_scheme \<Rightarrow> 'a kcon_scheme res" where
  "consoleintr_loop cfg [] s = Ok s"
| "consoleintr_loop cfg (c # cs) s = bindR (consoleintr_char cfg c s) (consoleintr_loop cfg cs)"

definition consoleintr ::
  "sched_policy \<Rightarrow> int list \<Rightarrow> 'a kcon_scheme \<Rightarrow> 'a kcon_scheme res" where
  "consoleintr cfg cs s =
     bindR (consoleintr_loop cfg cs s) (\<lambda>s1.
     if ctl (CHR ''P'') \<in> set cs then procdump s1 else Ok s1)"

text \<open>
  \<^verbatim>\<open>consoleread\<close> between its \<^verbatim>\<open>iunlock\<close> and \<^verbatim>\<open>ilock\<close>: \<open>acc\<close> has been read, \<open>n\<close>
  bytes are wanted still. \<open>None\<close> is the result -1 of a killed process.
\<close>

datatype cread = CDone "uchar list option" | CSleep "uchar list"

fun consoleread_loop ::
  "nat \<Rightarrow> nat \<Rightarrow> uchar list \<Rightarrow> 'a kcon_scheme \<Rightarrow> cread \<times> 'a kcon_scheme" where
  "consoleread_loop cur 0 acc s = (CDone (Some acc), s)"
| "consoleread_loop cur (Suc n) acc s =
     (if in_r s = in_w s
      then (if p_killed (ptable s ! cur) then (CDone None, s)
            else (CSleep acc, sleep_enter InputChan cur s))
      else let c = in_at s (in_r s); s1 = s\<lparr>in_r := in_r s + 1\<rparr> in
           if c = word_of_int (ctl (CHR ''D''))
           then (CDone (Some acc), if acc \<noteq> [] then s1\<lparr>in_r := in_r s1 - 1\<rparr> else s1)
           else if c = word_of_int newline then (CDone (Some (acc @ [c])), s1)
           else consoleread_loop cur n (acc @ [c]) s1)"

definition consoleread ::
  "sched_policy \<Rightarrow> nat \<Rightarrow> nat \<Rightarrow> nat \<Rightarrow> 'a kcon_scheme \<Rightarrow> (cread \<times> 'a kcon_scheme) res" where
  "consoleread cfg cur ip n s =
     bindR (fs_do cfg cur (iunlock ip) s) (\<lambda>s1.
     case consoleread_loop cur n [] s1 of
       (CDone r, s2) \<Rightarrow> bindR (fs_do cfg cur (ilock ip) s2) (\<lambda>s3. Ok (CDone r, s3))
     | (CSleep acc, s2) \<Rightarrow> Ok (CSleep acc, s2))"

definition consoleread_resume ::
  "sched_policy \<Rightarrow> nat \<Rightarrow> nat \<Rightarrow> nat \<Rightarrow> uchar list \<Rightarrow> 'a kcon_scheme \<Rightarrow> (cread \<times> 'a kcon_scheme) res" where
  "consoleread_resume cfg cur ip n acc s =
     (case consoleread_loop cur (n - length acc) acc (sleep_exit cur s) of
        (CDone r, s2) \<Rightarrow> bindR (fs_do cfg cur (ilock ip) s2) (\<lambda>s3. Ok (CDone r, s3))
      | (CSleep acc, s2) \<Rightarrow> Ok (CSleep acc, s2))"

definition consolewrite ::
  "sched_policy \<Rightarrow> nat \<Rightarrow> nat \<Rightarrow> uchar list \<Rightarrow> 'a kcon_scheme \<Rightarrow> (int \<times> 'a kcon_scheme) res" where
  "consolewrite cfg cur ip bs s =
     bindR (fs_do cfg cur (iunlock ip) s) (\<lambda>s1.
     bindR (consputs (map uint bs) s1) (\<lambda>s2.
     bindR (fs_do cfg cur (ilock ip) s2) (\<lambda>s3. Ok (int (length bs), s3))))"

definition consoleinit :: "'a kcon_scheme \<Rightarrow> 'a kcon_scheme" where
  "consoleinit s = s\<lparr>kf := (kf s)\<lparr>devsw := (devsw (kf s))[CONSOLE := True]\<rparr>\<rparr>"

end
