(* ===== verification/Console_Props.thy ===== *)
theory Console_Props
  imports Console Kern_Frame Ring
begin

text \<open>
  The console never writes outside its screen or its input ring, the input side refines a line
  editor on lists, and what is typed is what is read.
\<close>

section \<open>Output\<close>

text \<open>The screen: 25 lines of 80, the cursor above the last line.\<close>

definition crt_ok :: "'a kcon_scheme \<Rightarrow> bool" where
  "crt_ok s \<longleftrightarrow> length (crt s) = 25 * 80 \<and> crt_pos s < 24 * 80"

definition uart_bytes :: "int \<Rightarrow> uchar list" where
  "uart_bytes c = (if c = BACKSPACE then [8, 32, 8] else [word_of_int c])"

text \<open>What the serial port sends for the characters \<open>cs\<close>, if there is one.\<close>

definition uart_sent :: "bool \<Rightarrow> int list \<Rightarrow> uchar list" where
  "uart_sent port cs = (if port then concat (map uart_bytes cs) else [])"

text \<open>What output changes: screen, cursor and serial line.\<close>

definition only_output :: "'a kcon_scheme \<Rightarrow> 'a kcon_scheme \<Rightarrow> bool" where
  "only_output s s' \<longleftrightarrow> s' = s\<lparr>crt := crt s', crt_pos := crt_pos s', uart_out := uart_out s'\<rparr>"

lemma only_output_iff:
  "only_output s s' \<longleftrightarrow> (\<exists>a b c. s' = s\<lparr>crt := a, crt_pos := b, uart_out := c\<rparr>)"
  unfolding only_output_def by auto

lemma only_output_refl [simp]: "only_output s s"
  by (simp add: only_output_def)

lemma only_output_trans [trans]:
  assumes "only_output s t" "only_output t u"
  shows "only_output s u"
proof -
  obtain a b c d e f where "t = s\<lparr>crt := a, crt_pos := b, uart_out := c\<rparr>"
    "u = t\<lparr>crt := d, crt_pos := e, uart_out := f\<rparr>" using assms unfolding only_output_iff by blast
  then have "u = s\<lparr>crt := d, crt_pos := e, uart_out := f\<rparr>" by simp
  then show ?thesis unfolding only_output_iff by blast
qed

lemma only_outputD:
  assumes "only_output s s'"
  shows "ptable s' = ptable s" "ticks s' = ticks s" "in_buf s' = in_buf s" "in_r s' = in_r s"
    "in_w s' = in_w s" "in_e s' = in_e s" "kf s' = kf s" "ftable s' = ftable s" "pipes s' = pipes s"
    "mem s' = mem s" "qu s' = qu s" "q_index s' = q_index s" "nextpid s' = nextpid s"
  using assms unfolding only_output_iff by auto

lemma length_crt_scroll: "length c = 2000 \<Longrightarrow> pos \<le> 1920 \<Longrightarrow> length (crt_scroll pos c) = 2000"
  by (simp add: crt_scroll_def Let_def)

lemma cgaputc_ok:
  assumes "crt_ok s"
  shows "\<exists>a b. cgaputc c s = Ok (s\<lparr>crt := a, crt_pos := b\<rparr>) \<and> length a = 25 * 80 \<and> b < 24 * 80"
proof -
  have l: "length (crt s) = 2000" "crt_pos s < 1920" using assms by (simp_all add: crt_ok_def)
  define pos where "pos = (if c = newline then crt_pos s + (80 - crt_pos s mod 80)
    else if c = BACKSPACE then crt_pos s - 1 else Suc (crt_pos s))"
  define d where "d = (if c = newline \<or> c = BACKSPACE then crt s
    else (crt s)[crt_pos s := (word_of_int c AND 0xff) OR 0x0700])"
  have d: "length d = 2000" using l by (simp add: d_def)
  have div: "crt_pos s div 80 < 24" using l(2) by (simp add: less_mult_imp_div_less)
  have "crt_pos s + (80 - crt_pos s mod 80) = 80 * (crt_pos s div 80) + 80"
    using mult_div_mod_eq [of 80 "crt_pos s"] mod_less_divisor [of 80 "crt_pos s"] by linarith
  then have pos: "pos \<le> 1920" using l(2) div by (auto simp: pos_def)
  have e: "(if c = newline then Ok (crt_pos s + (80 - crt_pos s mod 80), s)
      else if c = BACKSPACE then Ok (crt_pos s - 1, s)
      else bindR (crt_set (crt_pos s) ((word_of_int c AND 0xff) OR 0x0700) s) (\<lambda>s1. Ok (Suc (crt_pos s), s1)))
    = Ok (pos, s\<lparr>crt := d\<rparr>)"
    using l by (simp add: pos_def d_def crt_set_def)
  define q where "q = (if pos div 80 \<ge> 24 then pos - 80 else pos)"
  define d1 where "d1 = (if pos div 80 \<ge> 24 then crt_scroll (pos - 80) d else d)"
  have q: "q < 1920" using pos by (auto simp: q_def not_le)
  have d1: "length d1 = 2000" using pos d by (simp add: d1_def length_crt_scroll)
  have "cgaputc c s = crt_set q blank (s\<lparr>crt := d1, crt_pos := q mod 2 ^ 16\<rparr>)"
    unfolding cgaputc_def Let_def e bindR.simps case_prod_conv using pos by (simp add: q_def d1_def)
  then show ?thesis using q d1
    by (intro exI [of _ "d1[q := blank]"] exI [of _ "q mod 2 ^ 16"]) (simp add: crt_set_def)
qed

lemma consputc_ok:
  assumes "crt_ok s"
  obtains s' where "consputc c s = Ok s'" "crt_ok s'" "only_output s s'" "uart_out s' = uart_out s @ uart_sent (uart s) [c]"
proof -
  define t where "t = (if c = BACKSPACE then uartputc 8 (uartputc 32 (uartputc 8 s)) else uartputc c s)"
  have t: "t = s\<lparr>uart_out := uart_out s @ uart_sent (uart s) [c]\<rparr>"
    by (simp add: t_def uartputc_def uart_bytes_def uart_sent_def)
  then have "crt_ok t" using assms by (simp add: crt_ok_def)
  from cgaputc_ok [OF this, of c] obtain a b where a: "cgaputc c t = Ok (t\<lparr>crt := a, crt_pos := b\<rparr>)"
    "length a = 25 * 80" "b < 24 * 80" by blast
  show thesis
  proof (rule that)
    show "consputc c s = Ok (t\<lparr>crt := a, crt_pos := b\<rparr>)" using a(1) by (simp add: consputc_def t_def)
  qed (use a(2,3) t in \<open>simp_all add: crt_ok_def only_output_def\<close>)
qed

lemma consputs_ok:
  assumes "crt_ok s"
  obtains s' where "consputs cs s = Ok s'" "crt_ok s'" "only_output s s'"
    "uart_out s' = uart_out s @ uart_sent (uart s) cs"
  using assms
proof (induction cs arbitrary: s thesis)
  case Nil
  then show ?case by (simp add: uart_sent_def)
next
  case (Cons c cs)
  obtain s1 where s1: "consputc c s = Ok s1" "crt_ok s1" "only_output s s1"
    "uart_out s1 = uart_out s @ uart_sent (uart s) [c]"
    by (rule consputc_ok [OF Cons.prems(2)])
  obtain s2 where s2: "consputs cs s1 = Ok s2" "crt_ok s2" "only_output s1 s2"
    "uart_out s2 = uart_out s1 @ uart_sent (uart s1) cs" by (rule Cons.IH [OF _ s1(2)])
  have "uart s1 = uart s" using s1(3) unfolding only_output_iff by auto
  then show ?case
    by (intro Cons.prems(1) [OF _ s2(2) only_output_trans [OF s1(3) s2(3)]])
      (use s1(1,4) s2(1,4) in \<open>simp_all add: uart_sent_def\<close>)
qed

section \<open>The line editor\<close>

definition in_ok :: "'a kcon_scheme \<Rightarrow> bool" where
  "in_ok s \<longleftrightarrow> length (in_buf s) = INPUT_BUF \<and> unat (in_w s - in_r s) \<le> unat (in_e s - in_r s) \<and>
     unat (in_e s - in_r s) \<le> INPUT_BUF"

text \<open>The bytes that \<^verbatim>\<open>read\<close> may take, and the line that is still being edited.\<close>

definition committed :: "'a kcon_scheme \<Rightarrow> uchar list" where
  "committed s = ring (in_buf s) (in_r s) (in_w s)"

definition pending :: "'a kcon_scheme \<Rightarrow> uchar list" where
  "pending s = ring (in_buf s) (in_w s) (in_e s)"

text \<open>The editor as a function on these two lists.\<close>

definition edit_step :: "int \<Rightarrow> uchar list \<times> uchar list \<Rightarrow> uchar list \<times> uchar list" where
  "edit_step c ql =
     (case ql of (q, l) \<Rightarrow>
        if c = ctl (CHR ''P'') then (q, l)
        else if c = ctl (CHR ''U'') then (q, [])
        else if c = ctl (CHR ''H'') \<or> c = 0x7f then (q, butlast l)
        else if c \<noteq> 0 \<and> length q + length l < INPUT_BUF
        then let c = (if c = 13 then newline else c); l = l @ [word_of_int c] in
             if c = newline \<or> c = ctl (CHR ''D'') \<or> length q + length l = INPUT_BUF then (q @ l, [])
             else (q, l)
        else (q, l))"

text \<open>
  The invariant: the line has no newline in it, and no process sleeps in a read while there is
  something to read.
\<close>

definition con_inv :: "sched_policy \<Rightarrow> 'a kcon_scheme \<Rightarrow> bool" where
  "con_inv cfg s \<longleftrightarrow> table_ok cfg s \<and> crt_ok s \<and> in_ok s \<and> word_of_int newline \<notin> set (pending s) \<and>
     (\<forall>i < NPROC. asleep_on InputChan (ptable s ! i) \<longrightarrow> committed s = [])"

lemma in_dvd: "in_ok s \<Longrightarrow> length (in_buf s) dvd 2 ^ 32"
  by (simp add: in_ok_def INPUT_BUF_def)

lemma in_lengths:
  assumes "in_ok s"
  shows "length (committed s) + length (pending s) = unat (in_e s - in_r s)"
    "length (committed s) = unat (in_w s - in_r s)" "length (pending s) = unat (in_e s - in_w s)"
  using assms unat_diff_split [of "in_w s" "in_r s" "in_e s"]
  by (simp_all add: committed_def pending_def in_ok_def)

lemma ring_put_before:
  assumes "length d dvd 2 ^ 32" "length d \<le> 2 ^ 31" "unat (b - a) < length d" "unat (w - a) \<le> unat (b - a)"
  shows "ring (d[unat b mod length d := c]) a w = ring d a w"
proof -
  let ?d = "d[unat b mod length d := c]"
  have n: "unat (b + 1 - a) = Suc (unat (b - a))" using assms(2,3) by (intro unat_Suc_diff) simp
  have "ring ?d a w @ ring ?d w (b + 1) = ring ?d a (b + 1)"
    by (rule ring_append [symmetric]) (use assms n in simp_all)
  also have "\<dots> = ring d a b @ [c]" by (rule ring_snoc [OF assms(1-3)])
  also have "ring d a b = ring d a w @ ring d w b" by (rule ring_append [OF assms(1,4)])
  finally show ?thesis by (simp add: append_eq_append_conv)
qed

lemma output_cong:
  assumes "only_output s s'"
  shows "in_ok s' = in_ok s" "committed s' = committed s" "pending s' = pending s" "table_ok cfg s' = table_ok cfg s"
  using only_outputD [OF assms] table_ok_cong [of s' s cfg]
  by (simp_all add: in_ok_def committed_def pending_def)

text \<open>One character erased.\<close>

lemma in_erase_ok:
  assumes "con_inv cfg s" "in_e s \<noteq> in_w s"
  obtains s' where "in_erase s = Ok s'" "con_inv cfg s'" "committed s' = committed s"
    "pending s' = butlast (pending s)" "in_w s' = in_w s" "in_e s' = in_e s - 1" "in_r s' = in_r s"
    "ptable s' = ptable s"
proof -
  let ?s = "s\<lparr>in_e := in_e s - 1\<rparr>"
  have ok: "in_ok s" "crt_ok s" "table_ok cfg s" "word_of_int newline \<notin> set (pending s)"
    using assms(1) by (simp_all add: con_inv_def)
  have "in_r s \<noteq> in_e s"
  proof
    assume "in_r s = in_e s"
    then have "in_w s = in_r s" using ok(1) by (simp add: in_ok_def unat_eq_zero)
    then show False using assms(2) \<open>in_r s = in_e s\<close> by simp
  qed
  note S = unat_diff_Suc(2) [OF this] and S2 = unat_diff_Suc(2) [OF assms(2) [symmetric]]
  have "unat (in_e s - in_r s) = unat (in_w s - in_r s) + unat (in_e s - in_w s)"
    by (rule unat_diff_split) (use ok(1) in \<open>simp add: in_ok_def\<close>)
  then have i: "in_ok ?s" using ok(1) S S2 by (simp add: in_ok_def)
  have p: "pending ?s = butlast (pending s)" "committed ?s = committed s"
    using ring_butlast [OF assms(2) [symmetric]] by (simp_all add: pending_def committed_def)
  have t: "table_ok cfg ?s" using ok(3) by (subst table_ok_cong [of ?s s]) simp_all
  have "crt_ok ?s" using ok(2) by (simp add: crt_ok_def)
  then obtain s' where s': "consputc BACKSPACE ?s = Ok s'" "crt_ok s'" "only_output ?s s'" by (rule consputc_ok)
  show thesis
  proof (rule that)
    show "in_erase s = Ok s'" using s'(1) by (simp add: in_erase_def)
    show "con_inv cfg s'"
      using assms(1) s'(2) i t p output_cong [OF s'(3)] only_outputD(1) [OF s'(3)]
      by (auto simp: con_inv_def dest: in_set_butlastD)
  qed (use p output_cong [OF s'(3)] only_outputD [OF s'(3)] in simp_all)
qed

lemma kill_line_ok:
  assumes "con_inv cfg s"
  obtains s' where "kill_line (unat (in_e s - in_w s)) s = Ok s'" "con_inv cfg s'" "committed s' = committed s"
    "pending s' = []" "in_r s' = in_r s" "ptable s' = ptable s"
  using assms
proof (induction "unat (in_e s - in_w s)" arbitrary: s thesis)
  case 0
  then have "in_e s = in_w s" by (simp add: unat_eq_zero)
  then show ?case using 0 by (simp add: kill_line.simps pending_def ring_empty_iff)
next
  case (Suc n)
  then have ne: "in_e s \<noteq> in_w s" by auto
  have ok: "in_ok s" "word_of_int newline \<notin> set (pending s)" using Suc.prems(2) by (simp_all add: con_inv_def)
  have "pending s \<noteq> []" using ne by (simp add: pending_def ring_empty_iff)
  moreover have "in_at s (in_e s - 1) = last (pending s)"
    using last_ring [OF in_dvd [OF ok(1)] ne [symmetric]] ok(1) by (simp add: in_at_def pending_def in_ok_def)
  ultimately have nl: "in_at s (in_e s - 1) \<noteq> word_of_int newline" using ok(2) by (metis last_in_set)
  obtain s1 where s1: "in_erase s = Ok s1" "con_inv cfg s1" "committed s1 = committed s"
    "in_w s1 = in_w s" "in_e s1 = in_e s - 1" "in_r s1 = in_r s" "ptable s1 = ptable s"
    using in_erase_ok [OF Suc.prems(2) ne] by metis
  have n: "n = unat (in_e s1 - in_w s1)"
    using Suc.hyps(2) s1(4,5) unat_diff_Suc(2) [OF ne [symmetric]] by (simp add: diff_diff_eq add.commute)
  obtain s2 where s2: "kill_line n s1 = Ok s2" "con_inv cfg s2" "committed s2 = committed s1" "pending s2 = []"
    "in_r s2 = in_r s1" "ptable s2 = ptable s1" using Suc.hyps(1) [OF n _ s1(2)] n by metis
  show ?case
  proof (rule Suc.prems(1) [OF _ s2(2)])
    show "kill_line (unat (in_e s - in_w s)) s = Ok s2"
      using Suc.hyps(2) ne nl s1(1) s2(1) by (subst kill_line.simps) (simp flip: Suc.hyps(2))
  qed (use s1 s2 in simp_all)
qed

lemma consoleintr_default_ok:
  assumes "con_inv cfg s" "0 \<le> c" "c < 256"
    and "c \<notin> {ctl (CHR ''P''), ctl (CHR ''U''), ctl (CHR ''H''), 0x7f}"
  obtains s' where "consoleintr_default cfg c s = Ok s'" "con_inv cfg s'" "in_r s' = in_r s"
    "(committed s', pending s') = edit_step c (committed s, pending s)"
proof -
  have ok: "in_ok s" "crt_ok s" "table_ok cfg s" "word_of_int newline \<notin> set (pending s)"
    using assms(1) by (simp_all add: con_inv_def)
  have len: "length (ptable s) = NPROC" using ok(3) by (simp add: table_ok_def)
  note L = in_lengths [OF ok(1)]
  have room: "in_e s - in_r s < of_nat INPUT_BUF \<longleftrightarrow> length (committed s) + length (pending s) < INPUT_BUF"
    by (simp add: L(1) word_less_nat_alt INPUT_BUF_def)
  show thesis
  proof (cases "c \<noteq> 0 \<and> in_e s - in_r s < of_nat INPUT_BUF")
    case False
    then show thesis using assms room
      by (intro that [of s]) (auto simp: consoleintr_default_def edit_step_def)
  next
    case True
    define c1 where "c1 = (if c = 13 then newline else c)"
    define t where "t = s\<lparr>in_buf := (in_buf s)[unat (in_e s) mod INPUT_BUF := word_of_int c1], in_e := in_e s + 1\<rparr>"
    have bl: "length (in_buf s) = 128" using ok(1) by (simp add: in_ok_def INPUT_BUF_def)
    have lt: "unat (in_e s - in_r s) < 128" "unat (in_e s - in_w s) < 128"
      using True room L by (auto simp: INPUT_BUF_def)
    have le: "unat (in_w s - in_r s) \<le> unat (in_e s - in_r s)" using ok(1) by (simp add: in_ok_def)
    have S: "unat (in_e s + 1 - in_r s) = Suc (unat (in_e s - in_r s))" using lt by (intro unat_Suc_diff) simp
    have t: "in_ok t" "committed t = committed s" "pending t = pending s @ [word_of_int c1]"
      using ring_snoc [OF in_dvd [OF ok(1)], of "in_e s" "in_w s"]
        ring_put_before [OF in_dvd [OF ok(1)], of "in_e s" "in_r s" "in_w s"] lt le bl S
      by (simp_all add: t_def in_ok_def committed_def pending_def INPUT_BUF_def)
    have tt: "table_ok cfg t" using ok(3) by (subst table_ok_cong [of t s]) (simp_all add: t_def)
    have "crt_ok t" using ok(2) by (simp add: crt_ok_def t_def)
    then obtain u where u: "consputc c1 t = Ok u" "crt_ok u" "only_output t u" by (rule consputc_ok)
    note U = output_cong [OF u(3)] only_outputD [OF u(3)]
    define go where "go \<longleftrightarrow> c1 = newline \<or> c1 = ctl (CHR ''D'') \<or> in_e u = in_r u + of_nat INPUT_BUF"
    have full: "in_e u = in_r u + of_nat INPUT_BUF \<longleftrightarrow> length (committed s) + Suc (length (pending s)) = INPUT_BUF"
    proof -
      have "in_e u = in_r u + of_nat INPUT_BUF \<longleftrightarrow> in_e s + 1 - in_r s = 128"
        using U by (simp add: t_def INPUT_BUF_def diff_eq_eq add.commute)
      also have "\<dots> \<longleftrightarrow> unat (in_e s + 1 - in_r s) = unat (128 :: uint)" by (simp only: word_unat_eq_iff)
      finally show ?thesis using S L(1) by (simp add: INPUT_BUF_def)
    qed
    have run: "consoleintr_default cfg c s = (if go then wakeup cfg InputChan (u\<lparr>in_w := in_e u\<rparr>) else Ok u)"
      using True u(1) by (simp add: consoleintr_default_def Let_def go_def t_def c1_def)
    have spec: "edit_step c (committed s, pending s) =
        (if go then (committed s @ pending s @ [word_of_int c1], []) else (committed s, pending s @ [word_of_int c1]))"
      using True room assms(4) full by (simp add: edit_step_def Let_def go_def c1_def)
    show thesis
    proof (cases go)
      case False
      have c1: "0 \<le> c1" "c1 < 256" "c1 \<noteq> newline" using False assms(2,3) by (auto simp: go_def c1_def newline_def)
      have "uint (word_of_int c1 :: uchar) = c1" using c1 by (simp add: uint_word_of_int)
      moreover have "uint (word_of_int newline :: uchar) = newline" by (simp add: newline_def)
      ultimately have "word_of_int c1 \<noteq> (word_of_int newline :: uchar)" using c1(3) by metis
      then show thesis using assms(1) False run spec u(2) t tt U
        by (intro that [of u]) (auto simp: con_inv_def t_def)
    next
      case True
      let ?v = "u\<lparr>in_w := in_e u\<rparr>"
      have vt: "table_ok cfg ?v" using tt U(4) by (subst table_ok_cong [of ?v u]) simp_all
      then obtain s' where s': "wakeup cfg InputChan ?v = Ok s'" "table_ok cfg s'" "only_table ?v s'"
        "ptable s' = map (roused cfg InputChan (ticks ?v)) (ptable ?v)" by (rule wakeup_ok)
      obtain a b d where s'_eq: "s' = ?v\<lparr>qu := a, q_index := b, ptable := d\<rparr>"
        using s'(3) unfolding only_table_iff by blast
      have v: "in_ok s'" "pending s' = []" "crt_ok s'" "committed s' = committed u @ pending u" "in_r s' = in_r s"
        using t(1) U u(2) ring_append [OF in_dvd [OF t(1)], of "in_w t" "in_r t" "in_e t"]
        by (simp_all add: s'_eq in_ok_def pending_def committed_def ring_empty_iff crt_ok_def t_def)
      show thesis
        by (rule that [of s']) (use True run spec s'(1,2,4) v t U len in \<open>simp_all add: con_inv_def t_def\<close>)
    qed
  qed
qed

lemma consoleintr_char_ok:
  assumes "con_inv cfg s" "0 \<le> c" "c < 256"
  obtains s' where "consoleintr_char cfg c s = Ok s'" "con_inv cfg s'" "in_r s' = in_r s"
    "(committed s', pending s') = edit_step c (committed s, pending s)"
proof -
  consider "c = ctl (CHR ''P'')" | "c = ctl (CHR ''U'')" "c \<noteq> ctl (CHR ''P'')"
    | "c = ctl (CHR ''H'') \<or> c = 0x7f" "c \<noteq> ctl (CHR ''P'')" "c \<noteq> ctl (CHR ''U'')"
    | "c \<notin> {ctl (CHR ''P''), ctl (CHR ''U''), ctl (CHR ''H''), 0x7f}" by auto
  then show thesis
  proof cases
    case 1
    then show thesis using assms(1) by (intro that [of s]) (simp_all add: consoleintr_char_def edit_step_def)
  next
    case 2
    obtain s' where "kill_line (unat (in_e s - in_w s)) s = Ok s'" "con_inv cfg s'" "committed s' = committed s"
      "pending s' = []" "in_r s' = in_r s" by (rule kill_line_ok [OF assms(1)])
    then show thesis using 2 by (intro that [of s']) (simp_all add: consoleintr_char_def edit_step_def)
  next
    case 3
    show thesis
    proof (cases "in_e s = in_w s")
      case True
      then have "pending s = []" by (simp add: pending_def ring_empty_iff)
      then show thesis using 3 True assms(1)
        by (intro that [of s]) (auto simp: consoleintr_char_def edit_step_def)
    next
      case False
      obtain s' where "in_erase s = Ok s'" "con_inv cfg s'" "committed s' = committed s"
        "pending s' = butlast (pending s)" "in_r s' = in_r s" by (rule in_erase_ok [OF assms(1) False])
      then show thesis using 3 False by (intro that [of s']) (auto simp: consoleintr_char_def edit_step_def)
    qed
  next
    case 4
    obtain s' where "consoleintr_default cfg c s = Ok s'" "con_inv cfg s'" "in_r s' = in_r s"
      "(committed s', pending s') = edit_step c (committed s, pending s)"
      by (rule consoleintr_default_ok [OF assms 4])
    then show thesis using 4 by (intro that [of s']) (simp_all add: consoleintr_char_def)
  qed
qed

lemma consoleintr_loop_ok:
  assumes "con_inv cfg s" "\<forall>c \<in> set cs. 0 \<le> c \<and> c < 256"
  obtains s' where "consoleintr_loop cfg cs s = Ok s'" "con_inv cfg s'" "in_r s' = in_r s"
    "(committed s', pending s') = fold edit_step cs (committed s, pending s)"
  using assms
proof (induction cs arbitrary: s thesis)
  case Nil
  then show ?case by simp
next
  case (Cons c cs)
  then have c: "0 \<le> c" "c < 256" and cs: "\<forall>c \<in> set cs. 0 \<le> c \<and> c < 256" by simp_all
  obtain s1 where s1: "consoleintr_char cfg c s = Ok s1" "con_inv cfg s1" "in_r s1 = in_r s"
    "(committed s1, pending s1) = edit_step c (committed s, pending s)"
    by (rule consoleintr_char_ok [OF Cons.prems(2) c])
  obtain s2 where s2: "consoleintr_loop cfg cs s1 = Ok s2" "con_inv cfg s2" "in_r s2 = in_r s1"
    "(committed s2, pending s2) = fold edit_step cs (committed s1, pending s1)"
    by (rule Cons.IH [OF _ s1(2) cs])
  show ?case by (rule Cons.prems(1) [OF _ s2(2)]) (use s1 s2 in simp_all)
qed

text \<open>The listing of \<^verbatim>\<open>^P\<close> is output only.\<close>

lemma cprintf_ok:
  assumes "cprintf_chars fmt args = Ok out" "crt_ok s"
  obtains s' where "cprintf fmt args s = Ok s'" "crt_ok s'" "only_output s s'"
    "uart_out s' = uart_out s @ uart_sent (uart s) out"
  using consputs_ok [OF assms(2), of out] assms(1) by (auto simp: cprintf_def)

lemma cprintf_pcs_ok:
  assumes "crt_ok s"
  obtains s' where "cprintf_pcs pcs s = Ok s'" "crt_ok s'" "only_output s s'"
  using assms
proof (induction pcs arbitrary: s thesis)
  case Nil
  then show ?case by simp
next
  case (Cons pc pcs)
  obtain s1 where s1: "cprintf '' %p'' [ANum pc] s = Ok s1" "crt_ok s1" "only_output s s1"
    by (rule cprintf_ok [OF _ Cons.prems(2), where fmt = "'' %p''" and args = "[ANum pc]"]) simp
  obtain s2 where s2: "cprintf_pcs pcs s1 = Ok s2" "crt_ok s2" "only_output s1 s2" by (rule Cons.IH [OF _ s1(2)])
  show ?case
  proof (cases "pc = 0")
    case True
    then show ?thesis using Cons.prems by simp
  next
    case False
    then show ?thesis using s1(1) s2 only_output_trans [OF s1(3) s2(3)] by (intro Cons.prems(1)) simp_all
  qed
qed

lemma procdump_loop_ok:
  assumes "crt_ok s"
  obtains s' where "procdump_loop ps s = Ok s'" "crt_ok s'" "only_output s s'"
  using assms
proof (induction ps arbitrary: s thesis)
  case Nil
  then show ?case by simp
next
  case (Cons x ps)
  let ?args = "[num (p_pid x), AStr (Some (map of_char (procdump_state (p_state x)))), AStr (Some (p_name x))]"
  obtain s1 where s1: "cprintf ''%d %s %s'' ?args s = Ok s1" "crt_ok s1" "only_output s s1"
    by (rule cprintf_ok [OF _ Cons.prems(2), where fmt = "''%d %s %s''" and args = ?args]) (simp add: num_def)
  let ?pcs = "getcallerpcs (load32 (mem s1)) (cx_ebp (p_context x) + 8)"
  obtain s2 where s2: "(if p_state x = SLEEPING then cprintf_pcs ?pcs s1 else Ok s1) = Ok s2" "crt_ok s2"
    "only_output s1 s2"
  proof (cases "p_state x = SLEEPING")
    case True
    then show thesis using cprintf_pcs_ok [OF s1(2), of ?pcs] that by metis
  next
    case False
    then show thesis using s1(2) that by simp
  qed
  obtain s3 where s3: "cprintf [CHR 10] [] s2 = Ok s3" "crt_ok s3" "only_output s2 s3"
    by (rule cprintf_ok [OF _ s2(2), where fmt = "[CHR 10]" and args = "[]"]) simp
  show ?case
  proof (cases "p_state x = UNUSED")
    case True
    then show ?thesis using Cons.IH [OF _ Cons.prems(2)] Cons.prems(1) by (metis procdump_loop.simps(2))
  next
    case False
    have run: "procdump_loop (x # ps) s = procdump_loop ps s3"
      unfolding procdump_loop.simps using False by (simp only: if_False s1(1) s2(1) s3(1) bindR.simps)
    obtain s4 where "procdump_loop ps s3 = Ok s4" "crt_ok s4" "only_output s3 s4" by (rule Cons.IH [OF _ s3(2)])
    then show ?thesis
      by (intro Cons.prems(1) [of s4] only_output_trans [OF s1(3)] only_output_trans [OF s2(3)]
            only_output_trans [OF s3(3)]) (simp_all only: run)
  qed
qed

section \<open>Reading a line\<close>

text \<open>
  What \<^verbatim>\<open>consoleread\<close> takes from the committed bytes: at most \<open>n\<close>, up to and with a
  newline, and up to an end-of-file mark, which stays for the next read unless it is the
  first byte.
\<close>

fun line_read :: "nat \<Rightarrow> uchar list \<Rightarrow> uchar list \<Rightarrow> (uchar list \<times> uchar list) option" where
  "line_read 0 acc q = Some (acc, q)"
| "line_read (Suc n) acc [] = None"
| "line_read (Suc n) acc (c # q) =
     (if c = 4 then Some (acc, if acc = [] then q else c # q)
      else if c = 10 then Some (acc @ [c], q)
      else line_read n (acc @ [c]) q)"

lemma committed_Cons:
  assumes "in_ok s" "in_r s \<noteq> in_w s"
  shows "committed s = in_at s (in_r s) # committed (s\<lparr>in_r := in_r s + 1\<rparr>)"
    "in_ok (s\<lparr>in_r := in_r s + 1\<rparr>)" "pending (s\<lparr>in_r := in_r s + 1\<rparr>) = pending s"
proof -
  have len: "length (in_buf s) = INPUT_BUF" using assms(1) by (simp add: in_ok_def)
  show "committed s = in_at s (in_r s) # committed (s\<lparr>in_r := in_r s + 1\<rparr>)"
    using ring_Cons [OF in_dvd [OF assms(1)] assms(2)] len by (simp add: committed_def in_at_def)
  have "in_r s \<noteq> in_e s"
    using assms by (metis in_ok_def le_zero_eq right_minus_eq unat_eq_zero)
  then show "in_ok (s\<lparr>in_r := in_r s + 1\<rparr>)"
    using assms unat_diff_Suc(1) [OF assms(2)] unat_diff_Suc(1) [of "in_r s" "in_e s"] by (simp add: in_ok_def)
qed (simp add: pending_def)

lemma consoleread_loop_ok:
  assumes "in_ok s" "line_read n acc (committed s) = Some (bs, q)"
  shows "\<exists>s'. consoleread_loop cur n acc s = (CDone (Some bs), s') \<and> in_ok s' \<and>
    committed s' = q \<and> pending s' = pending s \<and> ptable s' = ptable s"
  using assms
proof (induction n arbitrary: acc s)
  case 0
  then show ?case by simp
next
  case (Suc n)
  have ne: "in_r s \<noteq> in_w s"
  proof
    assume "in_r s = in_w s"
    then have "committed s = []" by (simp add: committed_def ring_empty_iff)
    then show False using Suc.prems(2) by simp
  qed
  let ?s = "s\<lparr>in_r := in_r s + 1\<rparr>" and ?c = "in_at s (in_r s)"
  note C = committed_Cons [OF Suc.prems(1) ne]
  have ctl: "word_of_int (ctl (CHR ''D'')) = (4 :: uchar)" "word_of_int newline = (10 :: uchar)"
    by (simp_all add: ctl_def newline_def)
  have "?s\<lparr>in_r := in_r ?s - 1\<rparr> = s" by simp
  then show ?case
    using Suc.prems Suc.IH [OF C(2), of "acc @ [?c]"] C ne
    by (auto simp: ctl C(1) Let_def split: if_splits)
qed

section \<open>Properties\<close>

text \<open>
  C29: Output to the console never fails: whatever characters are printed (newlines, backspaces, any
  byte), \<^verbatim>\<open>cgaputc\<close> writes inside the screen, does not panic and leaves the cursor above the
  last line, and the serial port, if \<^verbatim>\<open>uartinit\<close> has found one, is sent the characters in order, a
  backspace as three bytes; without a port nothing is sent. Nothing but screen, cursor and serial line changes.
\<close>

theorem console_output_in_bounds:
  assumes "crt_ok s"
  shows "\<exists>s'. consputs cs s = Ok s' \<and> crt_ok s' \<and> only_output s s' \<and>
    uart_out s' = uart_out s @ (if uart s then concat (map uart_bytes cs) else [])"
  using consputs_ok [OF assms, of cs] unfolding uart_sent_def by blast

text \<open>
  C25: \<^verbatim>\<open>consoleintr\<close> refines a line editor on two lists, the bytes ready to be read and the line
  being typed: erase, kill line, end of line and end of file, and a full buffer that ends the line
  by itself. It returns for every input, never writes outside the ring buffer, also when the
  indices wrap around, and never leaves a reader asleep when there is something to read.
\<close>

theorem consoleintr_refines_editor:
  assumes "con_inv cfg s" "\<forall>c \<in> set cs. 0 \<le> c \<and> c < 256"
  shows "\<exists>s'. consoleintr cfg cs s = Ok s' \<and> con_inv cfg s' \<and>
    (committed s', pending s') = fold edit_step cs (committed s, pending s)"
proof -
  obtain s1 where s1: "consoleintr_loop cfg cs s = Ok s1" "con_inv cfg s1"
    "(committed s1, pending s1) = fold edit_step cs (committed s, pending s)"
    by (rule consoleintr_loop_ok [OF assms])
  have "crt_ok s1" using s1(2) by (simp add: con_inv_def)
  then obtain s2 where s2: "procdump_loop (ptable s1) s1 = Ok s2" "crt_ok s2" "only_output s1 s2"
    by (rule procdump_loop_ok)
  have "con_inv cfg s2" using s1(2) s2(2) output_cong [OF s2(3)] only_outputD(1) [OF s2(3)]
    by (simp add: con_inv_def)
  then show ?thesis using s1 s2(1) output_cong [OF s2(3)] by (auto simp: consoleintr_def procdump_def)
qed

definition plain :: "int \<Rightarrow> bool" where
  "plain c \<longleftrightarrow> 0 < c \<and> c < 256 \<and>
     c \<notin> {ctl (CHR ''P''), ctl (CHR ''U''), ctl (CHR ''H''), ctl (CHR ''D''), 0x7f, newline, 13}"

lemma plain_range: "plain c \<Longrightarrow> 0 \<le> c \<and> c < 256"
  by (simp add: plain_def)

lemma edit_plain:
  assumes "\<forall>c \<in> set cs. plain c" "length q + length l + length cs < INPUT_BUF"
  shows "fold edit_step cs (q, l) = (q, l @ map word_of_int cs)"
  using assms
proof (induction cs arbitrary: l)
  case Nil
  then show ?case by simp
next
  case (Cons c cs)
  have "edit_step c (q, l) = (q, l @ [word_of_int c])"
    using Cons.prems by (simp add: edit_step_def plain_def Let_def)
  then show ?case using Cons by simp
qed

lemma plain_byte:
  assumes "plain c"
  shows "word_of_int c \<noteq> (4 :: uchar)" "word_of_int c \<noteq> (10 :: uchar)"
proof -
  have "uint (word_of_int c :: uchar) = c" using assms by (simp add: plain_def uint_word_of_int)
  moreover have "c \<noteq> 4" "c \<noteq> 10" using assms by (auto simp: plain_def ctl_def newline_def)
  ultimately show "word_of_int c \<noteq> (4 :: uchar)" "word_of_int c \<noteq> (10 :: uchar)" by auto
qed

lemma line_read_plain:
  "\<forall>c \<in> set cs. plain c \<Longrightarrow> length cs < n \<Longrightarrow>
     line_read n acc (map word_of_int cs @ [10]) = Some (acc @ map word_of_int cs @ [10], [])"
proof (induction cs arbitrary: n acc)
  case Nil
  then show ?case by (cases n) auto
next
  case (Cons c cs)
  then obtain m where "n = Suc m" by (cases n) auto
  then show ?case using Cons plain_byte [of c] by simp
qed

text \<open>
  C30: A line typed is the line read: when nothing is buffered, a line of up to 126 ordinary
  characters ended by the return key reaches the next read of the console unchanged, with a
  newline at its end, and the buffer is empty again.
\<close>

theorem console_line_roundtrip:
  assumes "con_inv cfg s" "committed s = []" "pending s = []"
    and "\<forall>c \<in> set cs. plain c" "length cs < 127" "length cs < n"
  shows "\<exists>s1 s2. consoleintr_loop cfg (cs @ [13]) s = Ok s1 \<and>
    consoleread_loop cur n [] s1 = (CDone (Some (map word_of_int cs @ [10])), s2) \<and>
    committed s2 = [] \<and> pending s2 = []"
proof -
  have "\<forall>c \<in> set (cs @ [13]). 0 \<le> c \<and> c < 256" using assms(4) plain_range by simp
  from consoleintr_loop_ok [OF assms(1) this] obtain s1 where s1: "consoleintr_loop cfg (cs @ [13]) s = Ok s1"
    "con_inv cfg s1" "(committed s1, pending s1) = fold edit_step (cs @ [13]) (committed s, pending s)" by blast
  have "fold edit_step cs ([], []) = ([], map word_of_int cs)"
    using edit_plain [OF assms(4), of "[]" "[]"] assms(5) by (simp add: INPUT_BUF_def)
  then have c: "committed s1 = map word_of_int cs @ [10]" "pending s1 = []"
    using s1(3) assms(2,3,5) by (simp_all add: edit_step_def ctl_def newline_def INPUT_BUF_def Let_def)
  have lr: "line_read n [] (committed s1) = Some (map word_of_int cs @ [10], [])"
    unfolding c(1) using line_read_plain [OF assms(4,6), of "[]"] by simp
  have ok: "in_ok s1" using s1(2) by (simp add: con_inv_def)
  obtain s2 where s2: "consoleread_loop cur n [] s1 = (CDone (Some (map word_of_int cs @ [10])), s2)"
    "committed s2 = []" "pending s2 = pending s1" using consoleread_loop_ok [OF ok lr, of cur] by blast
  show ?thesis by (intro exI conjI) (rule s1(1), rule s2(1), rule s2(2), simp only: s2(3) c(2))
qed

section \<open>Witnesses\<close>

lemma boot_kcon_inv:
  "con_inv RR (boot_kcon [])" "committed (boot_kcon []) = []" "pending (boot_kcon []) = []" "crt_ok (boot_kcon [])"
proof -
  have b: "ptable (boot_kcon []) = replicate NPROC zero_proc" "in_buf (boot_kcon []) = replicate INPUT_BUF 0"
    "in_r (boot_kcon []) = 0" "in_w (boot_kcon []) = 0" "in_e (boot_kcon []) = 0"
    "crt (boot_kcon []) = replicate (25 * 80) 0" "crt_pos (boot_kcon []) = 0"
    by (simp_all add: boot_kcon_def kern.extend_def kcon.fields_def boot_kern_def kproc.extend_def
        kern.fields_def boot_kproc_def)
  show c: "committed (boot_kcon []) = []" "pending (boot_kcon []) = []" and "crt_ok (boot_kcon [])"
    by (simp_all add: committed_def pending_def crt_ok_def b ring_empty_iff)
  have "\<not> asleep_on InputChan (ptable (boot_kcon []) ! i)" if "i < NPROC" for i
    using that by (simp add: b asleep_on_def zero_proc_def)
  then show "con_inv RR (boot_kcon [])"
    using c by (simp add: con_inv_def table_ok_def in_ok_def crt_ok_def b)
qed

theorem console_output_in_bounds_witness:
  "\<exists>s0 s1. consputs [104, 105, BACKSPACE, 10] (boot_kcon []) = Ok s0 \<and> uart_out s0 = [] \<and>
     consputs [104, 105, BACKSPACE, 10] (uartinit True (boot_kcon [])) = Ok s1 \<and> crt_ok s1 \<and>
     uart_out s1 = [120, 118, 54, 46, 46, 46, 10, 104, 105, 8, 32, 8, 10]"
proof -
  have b: "uart_out (boot_kcon []) = []" "\<not> uart (boot_kcon [])"
    by (simp_all add: boot_kcon_def kern.extend_def kcon.fields_def)
  have u: "uart (uartinit True (boot_kcon []))" "uart_out (uartinit True (boot_kcon [])) = [120, 118, 54, 46, 46, 46, 10]"
    by (simp_all add: uartinit_def uartputc_def chars_def b)
  have ok: "crt_ok (uartinit True (boot_kcon []))"
    using boot_kcon_inv(4) by (simp add: uartinit_def uartputc_def chars_def crt_ok_def)
  show ?thesis
    using console_output_in_bounds [OF boot_kcon_inv(4), of "[104, 105, BACKSPACE, 10]"] b
      console_output_in_bounds [OF ok, of "[104, 105, BACKSPACE, 10]"] u
    by (auto simp: uart_bytes_def BACKSPACE_def)
qed

theorem consoleintr_refines_editor_witness:
  "\<exists>s'. consoleintr RR [108, 120, 8, 115, 10] (boot_kcon []) = Ok s' \<and> committed s' = [108, 115, 10] \<and> pending s' = []"
  using consoleintr_refines_editor [OF boot_kcon_inv(1), of "[108, 120, 8, 115, 10]"] boot_kcon_inv(2,3)
  by (auto simp: edit_step_def ctl_def newline_def INPUT_BUF_def Let_def)

theorem console_line_roundtrip_witness:
  "\<exists>s1 s2. consoleintr_loop RR [108, 115, 13] (boot_kcon []) = Ok s1 \<and>
     consoleread_loop 0 100 [] s1 = (CDone (Some [108, 115, 10]), s2) \<and> committed s2 = [] \<and> pending s2 = []"
  using console_line_roundtrip [OF boot_kcon_inv(1-3), of "[108, 115]" 100 0]
  by (simp add: plain_def ctl_def newline_def)

end
