(* ===== verification/Path_Props.thy ===== *)
theory Path_Props
  imports Fs
begin

text \<open>
  Path names: \<^verbatim>\<open>skipelem\<close> against a reference that cuts a path at its slashes.
\<close>

section \<open>Paths\<close>

text \<open>
  The names that repeated calls of \<^verbatim>\<open>skipelem\<close> on the same buffer deliver, each as the
  string in the buffer of \<^verbatim>\<open>DIRSIZ\<close> bytes.
\<close>

function path_names :: "uchar list \<Rightarrow> uchar list \<Rightarrow> uchar list list" where
  "path_names path name =
     (case skipelem path name of
        None \<Rightarrow> []
      | Some (path1, name1) \<Rightarrow> cstr (take DIRSIZ name1) # path_names path1 name1)"
  by pat_completeness auto
termination
  by (relation "measure (\<lambda>(path, name). length path)") (auto simp: skipelem_shorter)

declare path_names.simps [simp del]

text \<open>The reference: cut the path at its slashes.\<close>

fun split_at :: "'a \<Rightarrow> 'a list \<Rightarrow> 'a list list" where
  "split_at c [] = [[]]"
| "split_at c (x # xs) =
     (if x = c then [] # split_at c xs
      else case split_at c xs of [] \<Rightarrow> [[x]] | e # es \<Rightarrow> (x # e) # es)"

lemma split_at_ne [simp]: "split_at c xs \<noteq> []"
  by (cases xs) (auto split: list.splits)

lemma split_at_first:
  "split_at c xs = takeWhile (\<lambda>x. x \<noteq> c) xs #
     (case dropWhile (\<lambda>x. x \<noteq> c) xs of [] \<Rightarrow> [] | _ # ys \<Rightarrow> split_at c ys)"
  by (induction xs) (auto split: list.splits)

lemma split_at_drop_seps:
  "filter (\<lambda>e. e \<noteq> []) (split_at c (dropWhile (\<lambda>x. x = c) xs)) = filter (\<lambda>e. e \<noteq> []) (split_at c xs)"
  by (induction xs) auto

lemma cstr_no_nul: "0 \<notin> set s \<Longrightarrow> cstr s = s"
  by (auto simp: cstr_def takeWhile_eq_all_conv)

lemma skipelem_None:
  assumes "skipelem path name = None"
  shows "filter (\<lambda>e. e \<noteq> []) (split_at slash path) = []"
proof -
  have "dropWhile (\<lambda>c. c = slash) path = []" using assms by (simp add: skipelem_def Let_def split: if_splits)
  then have "filter (\<lambda>e. e \<noteq> []) (split_at slash (dropWhile (\<lambda>c. c = slash) path)) = []" by (simp only:) simp
  then show ?thesis by (simp only: split_at_drop_seps)
qed

lemma skipelem_Some:
  assumes "skipelem path name = Some (p, nm)" "0 \<notin> set path" "length name = DIRSIZ"
  obtains e where "filter (\<lambda>e. e \<noteq> []) (split_at slash path) = e # filter (\<lambda>e. e \<noteq> []) (split_at slash p)"
    "cstr (take DIRSIZ nm) = take DIRSIZ e" "length nm = DIRSIZ" "0 \<notin> set p"
proof -
  define q where "q = dropWhile (\<lambda>c. c = slash) path"
  define e where "e = takeWhile (\<lambda>c. c \<noteq> slash) q"
  define r where "r = dropWhile (\<lambda>c. c \<noteq> slash) q"
  have s: "q \<noteq> []" "p = dropWhile (\<lambda>c. c = slash) r"
    "nm = (if length e \<ge> DIRSIZ then take DIRSIZ e else e @ 0 # drop (Suc (length e)) name)"
    using assms(1) by (auto simp: skipelem_def Let_def q_def e_def r_def split: if_splits)
  have "hd q \<noteq> slash" unfolding q_def by (rule hd_dropWhile) (use s(1) q_def in simp)
  then have e: "e \<noteq> []" using s(1) by (cases q) (auto simp: e_def)
  have q0: "0 \<notin> set q" using assms(2) set_dropWhileD by (fastforce simp: q_def)
  then have e0: "0 \<notin> set e" and r0: "0 \<notin> set r"
    by (auto simp: e_def r_def dest: set_takeWhileD set_dropWhileD)
  show thesis
  proof (rule that)
    have "filter (\<lambda>e. e \<noteq> []) (split_at slash path) = filter (\<lambda>e. e \<noteq> []) (split_at slash q)"
      unfolding q_def by (rule split_at_drop_seps [symmetric])
    also have "\<dots> = e # filter (\<lambda>e. e \<noteq> []) (case r of [] \<Rightarrow> [] | _ # ys \<Rightarrow> split_at slash ys)"
      using e by (subst split_at_first) (simp add: e_def r_def)
    also have "filter (\<lambda>e. e \<noteq> []) (case r of [] \<Rightarrow> [] | _ # ys \<Rightarrow> split_at slash ys) =
        filter (\<lambda>e. e \<noteq> []) (split_at slash r)"
    proof (cases r)
      case (Cons x ys)
      then have "x = slash" using hd_dropWhile [of "\<lambda>c. c \<noteq> slash" q] by (auto simp: r_def)
      then show ?thesis using Cons by simp
    qed simp
    also have "\<dots> = filter (\<lambda>e. e \<noteq> []) (split_at slash p)" unfolding s(2) by (rule split_at_drop_seps [symmetric])
    finally show "filter (\<lambda>e. e \<noteq> []) (split_at slash path) = e # filter (\<lambda>e. e \<noteq> []) (split_at slash p)" .
    show "length nm = DIRSIZ" using s(3) assms(3) by simp
    have "cstr (take DIRSIZ (e @ 0 # x)) = e" if "length e < DIRSIZ" for x
      using that e0 by (simp add: cstr_def takeWhile_append take_Cons')
    moreover have "cstr (take DIRSIZ e) = take DIRSIZ e" using e0 by (intro cstr_no_nul) (meson in_set_takeD)
    ultimately show "cstr (take DIRSIZ nm) = take DIRSIZ e" using s(3) by (simp add: not_le)
    show "0 \<notin> set p" using r0 set_dropWhileD unfolding s(2) by fast
  qed
qed

text \<open>
  C28: Path name parsing is right: the names that successive calls of \<^verbatim>\<open>skipelem\<close> deliver are
  exactly the non-empty pieces between the slashes of the path, in order, each cut to
  \<^verbatim>\<open>DIRSIZ\<close> bytes; leading, trailing and doubled slashes do not matter. The calls come to
  an end.
\<close>

theorem skipelem_splits_path:
  assumes "0 \<notin> set path" "length name = DIRSIZ"
  shows "path_names path name = map (take DIRSIZ) (filter (\<lambda>e. e \<noteq> []) (split_at slash path))"
  using assms
proof (induction path name rule: path_names.induct)
  case (1 path name)
  show ?case
  proof (cases "skipelem path name")
    case None
    then show ?thesis using skipelem_None [OF None] by (simp add: path_names.simps [of path])
  next
    case (Some pn)
    obtain p nm where pn: "pn = (p, nm)" by (cases pn)
    from Some [unfolded pn] 1(2,3) obtain e where
      e: "filter (\<lambda>e. e \<noteq> []) (split_at slash path) = e # filter (\<lambda>e. e \<noteq> []) (split_at slash p)"
      "cstr (take DIRSIZ nm) = take DIRSIZ e" "length nm = DIRSIZ" "0 \<notin> set p" by (rule skipelem_Some)
    then show ?thesis using Some 1(1) [OF Some pn [symmetric] e(4,3)] unfolding pn by (simp add: path_names.simps [of path])
  qed
qed

theorem skipelem_splits_path_witness:
  "path_names [0x2f, 0x2f, 97, 0x2f, 98, 99, 0x2f] (replicate 14 0) = [[97], [98, 99]]"
  using skipelem_splits_path [of "[0x2f, 0x2f, 97, 0x2f, 98, 99, 0x2f]" "replicate 14 0"]
  by (simp add: slash_def DIRSIZ_def)

end
