(* ===== verification/Syscall_Args.thy ===== *)
theory Syscall_Args
  imports File
begin

text \<open>
  How the kernel reaches the memory of the process that made a system call: the address
  translation of the processor, and the argument fetching of \<^verbatim>\<open>syscall.c\<close>.

  Kernel code dereferences a user address as it is. The processor translates it with the
  page table in \<^verbatim>\<open>cr3\<close>; a page that is not present (or, for a write, not writable: the
  boot code sets \<^verbatim>\<open>CR0_WP\<close>) raises a page fault in kernel mode, for which \<^verbatim>\<open>trap()\<close>
  panics. The functions return \<open>None\<close> where the code returns -1.
\<close>

section \<open>User memory\<close>

definition user_pte :: "uint \<Rightarrow> 'a kproc_scheme \<Rightarrow> uint option" where
  "user_pte va s =
     (let e = load32 (mem s) (P2V (cr3 s) + 4 * PDX va) in
      if e AND PTE_P = 0 then None
      else let t = load32 (mem s) (P2V (PTE_ADDR e) + 4 * PTX va) in
           if t AND PTE_P = 0 then None else Some t)"

definition user_addr :: "bool \<Rightarrow> uint \<Rightarrow> 'a kproc_scheme \<Rightarrow> uint res" where
  "user_addr wr va s =
     (case user_pte va s of
        None \<Rightarrow> Panic ''trap''
      | Some t \<Rightarrow>
          if wr \<and> t AND PTE_W = 0 then Panic ''trap''
          else Ok (P2V (PTE_ADDR t) + (va - PGROUNDDOWN va)))"

fun uload :: "uint \<Rightarrow> nat \<Rightarrow> 'a kproc_scheme \<Rightarrow> uchar list res" where
  "uload va 0 s = Ok []"
| "uload va (Suc n) s =
     bindR (user_addr False va s) (\<lambda>a.
     bindR (uload (va + 1) n s) (\<lambda>bs. Ok (mem s a # bs)))"

fun ustore :: "uint \<Rightarrow> uchar list \<Rightarrow> 'a kproc_scheme \<Rightarrow> 'a kproc_scheme res" where
  "ustore va [] s = Ok s"
| "ustore va (b # bs) s =
     bindR (user_addr True va s) (\<lambda>a. ustore (va + 1) bs (s\<lparr>mem := (mem s)(a := b)\<rparr>))"

section \<open>Arguments\<close>

definition fetchint :: "nat \<Rightarrow> uint \<Rightarrow> 'a kproc_scheme \<Rightarrow> uint option res" where
  "fetchint cur addr s =
     (let sz = p_sz (ptable s ! cur) in
      if addr \<ge> sz \<or> addr + 4 > sz then Ok None
      else bindR (uload addr 4 s) (\<lambda>bs. Ok (Some (word32 bs))))"

text \<open>
  The loop of \<^verbatim>\<open>fetchstr\<close> from \<open>va\<close> to \<open>ep\<close>; the result is the string without
  its NUL.
\<close>

fun fetchstr_loop :: "uint \<Rightarrow> nat \<Rightarrow> 'a kproc_scheme \<Rightarrow> uchar list option res" where
  "fetchstr_loop va 0 s = Ok None"
| "fetchstr_loop va (Suc n) s =
     bindR (user_addr False va s) (\<lambda>a.
     if mem s a = 0 then Ok (Some [])
     else bindR (fetchstr_loop (va + 1) n s) (\<lambda>r. Ok (map_option ((#) (mem s a)) r)))"

definition fetchstr :: "nat \<Rightarrow> uint \<Rightarrow> 'a kproc_scheme \<Rightarrow> uchar list option res" where
  "fetchstr cur addr s =
     (let ep = p_sz (ptable s ! cur) in
      if addr \<ge> ep then Ok None else fetchstr_loop addr (unat (ep - addr)) s)"

definition argint :: "nat \<Rightarrow> nat \<Rightarrow> 'a kproc_scheme \<Rightarrow> uint option res" where
  "argint cur n s = fetchint cur (tf_esp (p_tf (ptable s ! cur)) + 4 + 4 * of_nat n) s"

definition argptr :: "nat \<Rightarrow> nat \<Rightarrow> int \<Rightarrow> 'a kproc_scheme \<Rightarrow> uint option res" where
  "argptr cur n sz s =
     bindR (argint cur n s) (\<lambda>r.
     case r of
       None \<Rightarrow> Ok None
     | Some i \<Rightarrow>
         let psz = p_sz (ptable s ! cur) in
         if sz < 0 \<or> i \<ge> psz \<or> i + word_of_int sz > psz then Ok None else Ok (Some i))"

definition argstr :: "nat \<Rightarrow> nat \<Rightarrow> 'a kproc_scheme \<Rightarrow> uchar list option res" where
  "argstr cur n s =
     bindR (argint cur n s) (\<lambda>r. case r of None \<Rightarrow> Ok None | Some addr \<Rightarrow> fetchstr cur addr s)"

text \<open>
  Code that goes on only when an argument could be fetched, and returns -1 otherwise.
\<close>

definition with_arg ::
  "'x option res \<Rightarrow> ('r \<times> 's) \<Rightarrow> ('x \<Rightarrow> ('r \<times> 's) res) \<Rightarrow> ('r \<times> 's) res" where
  "with_arg m bad f = bindR m (\<lambda>r. case r of None \<Rightarrow> Ok bad | Some x \<Rightarrow> f x)"

end
