(* ===== verification/Exec.thy ===== *)
theory Exec
  imports Syscall_Args
begin

text \<open>
  Loading a program: \<^verbatim>\<open>exec\<close> of \<^verbatim>\<open>exec.c\<close> with the ELF headers of \<^verbatim>\<open>elf.h\<close>. The
  path and the argument strings are given by their bytes, which \<^verbatim>\<open>sys_exec\<close> has fetched
  from the old address space; nothing writes there until \<^verbatim>\<open>exec\<close> has copied them.
\<close>

section \<open>ELF headers\<close>

definition ELF_MAGIC :: uint where "ELF_MAGIC = 0x464C457F"
definition ELF_PROG_LOAD :: uint where "ELF_PROG_LOAD = 1"

record elfhdr =
  e_magic :: uint
  e_entry :: uint
  e_phoff :: uint
  e_phnum :: ushort

definition elfhdr_of :: "uchar list \<Rightarrow> elfhdr" where
  "elfhdr_of d = \<lparr>e_magic = get32 d 0, e_entry = get32 d 24, e_phoff = get32 d 28, e_phnum = get16 d 44\<rparr>"

record proghdr =
  ph_type :: uint
  ph_off :: uint
  ph_vaddr :: uint
  ph_paddr :: uint
  ph_filesz :: uint
  ph_memsz :: uint
  ph_flags :: uint
  ph_align :: uint

definition proghdr_of :: "uchar list \<Rightarrow> proghdr" where
  "proghdr_of d = \<lparr>ph_type = get32 d 0, ph_off = get32 d 4, ph_vaddr = get32 d 8, ph_paddr = get32 d 12,
     ph_filesz = get32 d 16, ph_memsz = get32 d 20, ph_flags = get32 d 24, ph_align = get32 d 28\<rparr>"

section \<open>Reading the program\<close>

text \<open>
  \<^verbatim>\<open>readi(ip, dst, off, n)\<close> into kernel memory: the result, and the bytes in place. A
  device file is given to the device, which would write whatever it has; the model stops
  there.
\<close>

definition readi_bytes ::
  "sched_policy \<Rightarrow> nat \<Rightarrow> nat \<Rightarrow> uint \<Rightarrow> uint \<Rightarrow> 'a kern_scheme \<Rightarrow> (uchar list option \<times> 'a kern_scheme) res" where
  "readi_bytes cfg cur ip off n s =
     bindR (fs_op cfg cur (readi ip off n) s) (\<lambda>(r, s1).
     case r of IoDone bs \<Rightarrow> Ok (Some bs, s1) | IoFail \<Rightarrow> Ok (None, s1) | IoDev d \<Rightarrow> Undef)"

definition readi_to ::
  "sched_policy \<Rightarrow> nat \<Rightarrow> nat \<Rightarrow> uint \<Rightarrow> uint \<Rightarrow> uint \<Rightarrow> 'a kern_scheme \<Rightarrow> (int \<times> 'a kern_scheme) res" where
  "readi_to cfg cur ip dst off n s =
     bindR (readi_bytes cfg cur ip off n s) (\<lambda>(r, s1).
     case r of
       None \<Rightarrow> Ok (-1, s1)
     | Some bs \<Rightarrow> Ok (int (length bs), s1\<lparr>mem := put_bytes (mem s1) dst bs\<rparr>))"

text \<open>
  The loop over the program headers: \<open>n\<close> headers from offset \<open>off\<close> on, \<open>sz\<close> the size
  so far; \<open>None\<close> is \<^verbatim>\<open>goto bad\<close>.
\<close>

fun load_segments ::
  "sched_policy \<Rightarrow> ksym \<Rightarrow> nat \<Rightarrow> nat \<Rightarrow> uint \<Rightarrow> nat \<Rightarrow> uint \<Rightarrow> uint \<Rightarrow> 'a kern_scheme \<Rightarrow>
   (uint option \<times> 'a kern_scheme) res" where
  "load_segments cfg K cur ip pgdir 0 off sz s = Ok (Some sz, s)"
| "load_segments cfg K cur ip pgdir (Suc n) off sz s =
     bindR (readi_bytes cfg cur ip off 32 s) (\<lambda>(r, s1).
     case r of
       None \<Rightarrow> Ok (None, s1)
     | Some d \<Rightarrow>
         let ph = proghdr_of d in
         if length d \<noteq> 32 then Ok (None, s1)
         else if ph_type ph \<noteq> ELF_PROG_LOAD
         then load_segments cfg K cur ip pgdir n (off + 32) sz s1
         else if ph_memsz ph < ph_filesz ph then Ok (None, s1)
         else if ph_vaddr ph + ph_memsz ph < ph_vaddr ph then Ok (None, s1)
         else bindR (allocuvm (k_end K) pgdir sz (ph_vaddr ph + ph_memsz ph) s1) (\<lambda>(sz1, s2).
              if sz1 = 0 then Ok (None, s2)
              else if ph_vaddr ph mod PGSIZE \<noteq> 0 then Ok (None, s2)
              else bindR (loaduvm (readi_to cfg cur ip) pgdir (ph_vaddr ph) (ph_off ph) (ph_filesz ph) s2)
                     (\<lambda>(r, s3).
                   if r < 0 then Ok (None, s3)
                   else load_segments cfg K cur ip pgdir n (off + 32) sz1 s3)))"

section \<open>The initial stack\<close>

text \<open>
  Push the argument strings, \<open>argc\<close> of them done; \<open>sps\<close> are their addresses, the
  entries \<open>ustack[3..]\<close>.
\<close>

fun push_args ::
  "uint \<Rightarrow> uchar list list \<Rightarrow> nat \<Rightarrow> uint \<Rightarrow> uint list \<Rightarrow> 'a kern_scheme \<Rightarrow>
   ((uint \<times> uint list) option \<times> 'a kern_scheme) res" where
  "push_args pgdir [] argc sp sps s = Ok (Some (sp, sps), s)"
| "push_args pgdir (a # argv) argc sp sps s =
     (if argc \<ge> MAXARG then Ok (None, s)
      else let sp1 = (sp - of_nat (strlen a + 1)) AND NOT 3 in
           bindR (copyout pgdir sp1 (take (strlen a) a @ [0]) s) (\<lambda>(r, s1).
           if r < 0 then Ok (None, s1)
           else push_args pgdir argv (Suc argc) sp1 (sps @ [sp1]) s1))"

definition ustack_words :: "uint \<Rightarrow> uint list \<Rightarrow> uint list" where
  "ustack_words sp sps =
     (let argc = of_nat (length sps) in
      [0xffffffff, argc, sp - (argc + 1) * 4] @ sps @ [0])"

text \<open>Two pages at the next page boundary: a guard page and the user stack.\<close>

definition exec_stack ::
  "ksym \<Rightarrow> uint \<Rightarrow> uint \<Rightarrow> uchar list list \<Rightarrow> 'a kern_scheme \<Rightarrow> ((uint \<times> uint) option \<times> 'a kern_scheme) res" where
  "exec_stack K pgdir sz0 argv s =
     (let sz1 = PGROUNDUP sz0 in
      bindR (allocuvm (k_end K) pgdir sz1 (sz1 + 2 * PGSIZE) s) (\<lambda>(sz, s1).
      if sz = 0 then Ok (None, s1)
      else bindR (clearpteu pgdir (sz - 2 * PGSIZE) s1) (\<lambda>s2.
           bindR (push_args pgdir argv 0 sz [] s2) (\<lambda>(r, s3).
           case r of
             None \<Rightarrow> Ok (None, s3)
           | Some (sp, sps) \<Rightarrow>
               let ws = ustack_words sp sps; sp1 = sp - of_nat (length ws) * 4 in
               bindR (copyout pgdir sp1 (concat (map bytes32 ws)) s3) (\<lambda>(r, s4).
               if r < 0 then Ok (None, s4) else Ok (Some (sz, sp1), s4))))))"

section \<open>exec\<close>

text \<open>The part of the path behind the last slash.\<close>

fun last_elem :: "uchar list \<Rightarrow> uchar list \<Rightarrow> uchar list" where
  "last_elem [] acc = acc"
| "last_elem (c # cs) acc = last_elem cs (if c = slash then cs else acc)"

text \<open>The two halves of the label \<^verbatim>\<open>bad\<close>.\<close>

definition exec_bad ::
  "sched_policy \<Rightarrow> ksym \<Rightarrow> nat \<Rightarrow> uint \<Rightarrow> nat option \<Rightarrow> 'a kern_scheme \<Rightarrow> (int \<times> 'a kern_scheme) res" where
  "exec_bad cfg K cur pgdir ip s =
     bindR (if pgdir \<noteq> 0 then freevm (k_end K) pgdir s else Ok s) (\<lambda>s1.
     bindR (case ip of
              None \<Rightarrow> Ok s1
            | Some ip \<Rightarrow> fs_do cfg cur (\<lambda>k. bindR (iunlockput ip k) end_op) s1) (\<lambda>s2.
     Ok (-1, s2)))"

definition exec_commit ::
  "ksym \<Rightarrow> nat \<Rightarrow> uchar list \<Rightarrow> uint \<Rightarrow> uint \<Rightarrow> uint \<Rightarrow> uint \<Rightarrow> 'a kern_scheme \<Rightarrow> (int \<times> 'a kern_scheme) res" where
  "exec_commit K cur path pgdir sz entry sp s =
     bindR (safestrcpy (p_name (ptable s ! cur)) (last_elem path path) 16) (\<lambda>nm.
     let oldpgdir = p_pgdir (ptable s ! cur);
         s1 = upd_proc cur (\<lambda>x. x\<lparr>p_name := nm, p_pgdir := pgdir, p_sz := sz,
                p_tf := (p_tf x)\<lparr>tf_eip := entry, tf_esp := sp\<rparr>\<rparr>) s
     in bindR (switchuvm cur s1) (\<lambda>s2.
        bindR (freevm (k_end K) oldpgdir s2) (\<lambda>s3. Ok (0, s3))))"

definition exec_open ::
  "sched_policy \<Rightarrow> nat \<Rightarrow> uchar list \<Rightarrow> 'a kern_scheme \<Rightarrow> (nat option \<times> 'a kern_scheme) res" where
  "exec_open cfg cur path s =
     bindR (derefR (p_cwd (ptable s ! cur))) (\<lambda>cwd.
     fs_op cfg cur (\<lambda>k.
       bindR (begin_op k) (\<lambda>k1.
       bindR (namei cwd path k1) (\<lambda>(r, k2).
       case r of
         None \<Rightarrow> bindR (end_op k2) (\<lambda>k3. Ok (None, k3))
       | Some ip \<Rightarrow> bindR (ilock ip k2) (\<lambda>k3. Ok (Some ip, k3))))) s)"

definition exec ::
  "sched_policy \<Rightarrow> ksym \<Rightarrow> nat \<Rightarrow> uchar list \<Rightarrow> uchar list list \<Rightarrow> 'a kern_scheme \<Rightarrow> (int \<times> 'a kern_scheme) res" where
  "exec cfg K cur path argv s =
     bindR (exec_open cfg cur path s) (\<lambda>(ip, s1).
     case ip of
       None \<Rightarrow> Ok (-1, s1)
     | Some ip \<Rightarrow>
         bindR (readi_bytes cfg cur ip 0 52 s1) (\<lambda>(r, s2).
         let elf = elfhdr_of (case r of None \<Rightarrow> [] | Some d \<Rightarrow> d) in
         if (case r of None \<Rightarrow> True | Some d \<Rightarrow> length d \<noteq> 52) then exec_bad cfg K cur 0 (Some ip) s2
         else if e_magic elf \<noteq> ELF_MAGIC then exec_bad cfg K cur 0 (Some ip) s2
         else bindR (setupkvm (k_end K) (k_data K) s2) (\<lambda>(pgdir, s3).
              if pgdir = 0 then exec_bad cfg K cur 0 (Some ip) s3
              else bindR (load_segments cfg K cur ip pgdir (unat (e_phnum elf)) (e_phoff elf) 0 s3)
                     (\<lambda>(r, s4).
                   case r of
                     None \<Rightarrow> exec_bad cfg K cur pgdir (Some ip) s4
                   | Some sz \<Rightarrow>
                       bindR (fs_do cfg cur (\<lambda>k. bindR (iunlockput ip k) end_op) s4) (\<lambda>s5.
                       bindR (exec_stack K pgdir sz argv s5) (\<lambda>(r, s6).
                       case r of
                         None \<Rightarrow> exec_bad cfg K cur pgdir None s6
                       | Some (sz, sp) \<Rightarrow> exec_commit K cur path pgdir sz (e_entry elf) sp s6))))))"

end
