(* ===== verification/Sysfile.thy ===== *)
theory Sysfile
  imports Exec
begin

text \<open>
  The file-system calls of \<^verbatim>\<open>sysfile.c\<close>. What a call does to the file system alone, once
  its arguments are known, is a function on the storage side (suffix \<open>_op\<close>); the call itself
  fetches the arguments and runs it for process \<open>cur\<close>. The array \<^verbatim>\<open>name[DIRSIZ]\<close> is on
  the stack and not initialised; here it starts as zeroes, and only its part up to the NUL
  that \<^verbatim>\<open>skipelem\<close> writes is ever read.
\<close>

section \<open>Descriptors\<close>

definition argfd :: "nat \<Rightarrow> nat \<Rightarrow> 'a kern_scheme \<Rightarrow> (nat \<times> nat) option res" where
  "argfd cur n s =
     bindR (argint cur n s) (\<lambda>r.
     case r of
       None \<Rightarrow> Ok None
     | Some v \<Rightarrow>
         let fd = sint v in
         if fd < 0 \<or> fd \<ge> int NOFILE then Ok None
         else bindR (nthR (p_ofile (ptable s ! cur)) (nat fd)) (\<lambda>f.
              Ok (map_option (Pair (nat fd)) f)))"

definition fdalloc :: "nat \<Rightarrow> nat \<Rightarrow> 'a kern_scheme \<Rightarrow> nat option \<times> 'a kern_scheme" where
  "fdalloc cur f s =
     (case find_index (\<lambda>x. x = None) (p_ofile (ptable s ! cur)) of
        Some fd \<Rightarrow> (Some fd, upd_proc cur (\<lambda>x. x\<lparr>p_ofile := (p_ofile x)[fd := Some f]\<rparr>) s)
      | None \<Rightarrow> (None, s))"

definition sys_dup :: "nat \<Rightarrow> 'a kern_scheme \<Rightarrow> (int \<times> 'a kern_scheme) res" where
  "sys_dup cur s =
     with_arg (argfd cur 0 s) (-1, s) (\<lambda>(_, f).
     case fdalloc cur f s of
       (None, s1) \<Rightarrow> Ok (-1, s1)
     | (Some fd, s1) \<Rightarrow> bindR (filedup f s1) (\<lambda>s2. Ok (int fd, s2)))"

text \<open>
  \<^verbatim>\<open>read\<close> and \<^verbatim>\<open>write\<close>: \<open>FSleep\<close> and \<open>FDev\<close> are passed on, and the call ends with
  \<open>read_done\<close> when the bytes are there.
\<close>

definition read_done :: "uint \<Rightarrow> uchar list option \<Rightarrow> 'a kern_scheme \<Rightarrow> (int \<times> 'a kern_scheme) res" where
  "read_done p r s =
     (case r of
        None \<Rightarrow> Ok (-1, s)
      | Some bs \<Rightarrow> bindR (ustore p bs s) (\<lambda>s1. Ok (int (length bs), s1)))"

definition sys_read ::
  "sched_policy \<Rightarrow> nat \<Rightarrow> 'a kern_scheme \<Rightarrow> (int fout \<times> 'a kern_scheme) res" where
  "sys_read cfg cur s =
     with_arg (argfd cur 0 s) (FDone (-1), s) (\<lambda>(_, f).
     with_arg (argint cur 2 s) (FDone (-1), s) (\<lambda>n.
     with_arg (argptr cur 1 (sint n) s) (FDone (-1), s) (\<lambda>p.
     bindR (fileread cfg cur f (nat (sint n)) s) (\<lambda>(r, s1).
     case r of
       FDone bs \<Rightarrow> bindR (read_done p bs s1) (\<lambda>(r, s2). Ok (FDone r, s2))
     | FSleep i \<Rightarrow> Ok (FSleep i, s1)
     | FDev d i \<Rightarrow> Ok (FDev d i, s1)))))"

definition sys_write ::
  "sched_policy \<Rightarrow> nat \<Rightarrow> 'a kern_scheme \<Rightarrow> (int fout \<times> 'a kern_scheme) res" where
  "sys_write cfg cur s =
     with_arg (argfd cur 0 s) (FDone (-1), s) (\<lambda>(_, f).
     with_arg (argint cur 2 s) (FDone (-1), s) (\<lambda>n.
     with_arg (argptr cur 1 (sint n) s) (FDone (-1), s) (\<lambda>p.
     bindR (uload p (nat (sint n)) s) (\<lambda>bs.
     filewrite cfg cur f bs s))))"

definition sys_close ::
  "sched_policy \<Rightarrow> ksym \<Rightarrow> nat \<Rightarrow> 'a kern_scheme \<Rightarrow> (int \<times> 'a kern_scheme) res" where
  "sys_close cfg K cur s =
     with_arg (argfd cur 0 s) (-1, s) (\<lambda>(fd, f).
     bindR (fileclose cfg K cur f (upd_proc cur (\<lambda>x. x\<lparr>p_ofile := (p_ofile x)[fd := None]\<rparr>) s))
       (\<lambda>s1. Ok (0, s1)))"

text \<open>
  \<^verbatim>\<open>struct stat\<close> as \<^verbatim>\<open>stati\<close> fills it field by field at the user's address: two bytes of
  padding follow \<open>type\<close> and \<open>nlink\<close>, which are not written.
\<close>

definition put_stat :: "uint \<Rightarrow> stat \<Rightarrow> 'a kproc_scheme \<Rightarrow> 'a kproc_scheme res" where
  "put_stat p st s =
     bindR (ustore p (bytes16 (st_type st)) s) (\<lambda>s1.
     bindR (ustore (p + 4) (bytes32 (st_dev st)) s1) (\<lambda>s2.
     bindR (ustore (p + 8) (bytes32 (st_ino st)) s2) (\<lambda>s3.
     bindR (ustore (p + 12) (bytes16 (st_nlink st)) s3) (\<lambda>s4.
     ustore (p + 16) (bytes32 (st_size st)) s4))))"

definition sys_fstat ::
  "sched_policy \<Rightarrow> nat \<Rightarrow> 'a kern_scheme \<Rightarrow> (int \<times> 'a kern_scheme) res" where
  "sys_fstat cfg cur s =
     with_arg (argfd cur 0 s) (-1, s) (\<lambda>(_, f).
     with_arg (argptr cur 1 20 s) (-1, s) (\<lambda>p.
     bindR (filestat cfg cur f s) (\<lambda>(r, s1).
     case r of
       None \<Rightarrow> Ok (-1, s1)
     | Some st \<Rightarrow> bindR (put_stat p st s1) (\<lambda>s2. Ok (0, s2)))))"

section \<open>Links\<close>

text \<open>The exits of the calls: give up the inodes that are still held, end the transaction.\<close>

definition fail_op :: "kfs \<Rightarrow> ('r option \<times> kfs) res" where
  "fail_op k = bindR (end_op k) (\<lambda>k1. Ok (None, k1))"

definition fail_put :: "nat \<Rightarrow> kfs \<Rightarrow> ('r option \<times> kfs) res" where
  "fail_put ip k = bindR (iunlockput ip k) fail_op"

definition add_nlink :: "ushort \<Rightarrow> nat \<Rightarrow> kfs \<Rightarrow> kfs res" where
  "add_nlink d ip k = iupdate ip (upd_inode ip (\<lambda>x. x\<lparr>i_nlink := i_nlink x + d\<rparr>) k)"

text \<open>The label \<^verbatim>\<open>bad\<close> of \<^verbatim>\<open>sys_link\<close>.\<close>

definition link_bad :: "nat \<Rightarrow> kfs \<Rightarrow> (unit option \<times> kfs) res" where
  "link_bad ip k =
     bindR (ilock ip k) (\<lambda>k1.
     bindR (add_nlink (-1) ip k1) (\<lambda>k2. fail_put ip k2))"

definition link_enter :: "nat \<Rightarrow> nat \<Rightarrow> uchar list \<Rightarrow> kfs \<Rightarrow> (unit option \<times> kfs) res" where
  "link_enter cwd ip new k =
     bindR (nameiparent cwd new k) (\<lambda>(r, k1).
     case r of
       None \<Rightarrow> link_bad ip k1
     | Some (dp, name) \<Rightarrow>
         bindR (ilock dp k1) (\<lambda>k2.
         bindR (if i_dev (icache k2 ! dp) \<noteq> i_dev (icache k2 ! ip) then Ok (-1, k2)
                else dirlink dp name (i_inum (icache k2 ! ip)) k2) (\<lambda>(r, k3).
         bindR (iunlockput dp k3) (\<lambda>k4.
         if r < 0 then link_bad ip k4
         else bindR (iput ip k4) (\<lambda>k5. bindR (end_op k5) (\<lambda>k6. Ok (Some (), k6)))))))"

definition link_op :: "nat \<Rightarrow> uchar list \<Rightarrow> uchar list \<Rightarrow> kfs \<Rightarrow> (unit option \<times> kfs) res" where
  "link_op cwd old new k =
     bindR (begin_op k) (\<lambda>k1.
     bindR (namei cwd old k1) (\<lambda>(r, k2).
     case r of
       None \<Rightarrow> fail_op k2
     | Some ip \<Rightarrow>
         bindR (ilock ip k2) (\<lambda>k3.
         if i_type (icache k3 ! ip) = T_DIR then fail_put ip k3
         else bindR (add_nlink 1 ip k3) (\<lambda>k4.
              bindR (iunlock ip k4) (link_enter cwd ip new)))))"

text \<open>The result of a call that returns 0 on success.\<close>

definition fs_call ::
  "sched_policy \<Rightarrow> nat \<Rightarrow> (nat \<Rightarrow> kfs \<Rightarrow> (unit option \<times> kfs) res) \<Rightarrow> 'a kern_scheme \<Rightarrow>
   (int \<times> 'a kern_scheme) res" where
  "fs_call cfg cur f s =
     bindR (derefR (p_cwd (ptable s ! cur))) (\<lambda>cwd.
     bindR (fs_op cfg cur (f cwd) s) (\<lambda>(r, s1). Ok (if r = None then -1 else 0, s1)))"

definition sys_link ::
  "sched_policy \<Rightarrow> nat \<Rightarrow> 'a kern_scheme \<Rightarrow> (int \<times> 'a kern_scheme) res" where
  "sys_link cfg cur s =
     with_arg (argstr cur 0 s) (-1, s) (\<lambda>old.
     with_arg (argstr cur 1 s) (-1, s) (\<lambda>new.
     fs_call cfg cur (\<lambda>cwd. link_op cwd old new) s))"

text \<open>The loop of \<^verbatim>\<open>isdirempty\<close>; \<open>sz\<close> is \<^verbatim>\<open>dp->size\<close>.\<close>

function isdirempty_from :: "nat \<Rightarrow> nat \<Rightarrow> nat \<Rightarrow> kfs \<Rightarrow> (bool \<times> kfs) res" where
  "isdirempty_from dp sz off k =
     (if off < sz
      then bindR (readi dp (of_nat off) 16 k) (\<lambda>(r, k1).
           case r of
             IoDone d \<Rightarrow>
               if length d \<noteq> 16 then Panic ''isdirempty: readi''
               else if de_inum (dirent_of d) \<noteq> 0 then Ok (False, k1)
               else if off + 16 < 2 ^ 31 then isdirempty_from dp sz (off + 16) k1
               else Undef
           | _ \<Rightarrow> Panic ''isdirempty: readi'')
      else Ok (True, k))"
  by pat_completeness auto
termination
  by (relation "measure (\<lambda>(dp, sz, off, k). sz - off)") auto

declare isdirempty_from.simps [simp del]

definition isdirempty :: "nat \<Rightarrow> kfs \<Rightarrow> (bool \<times> kfs) res" where
  "isdirempty dp k = isdirempty_from dp (unat (i_size (icache k ! dp))) 32 k"

definition dot :: "uchar list" where "dot = [0x2e]"
definition dotdot :: "uchar list" where "dotdot = [0x2e, 0x2e]"

text \<open>\<^verbatim>\<open>sys_unlink\<close> once the entry and its inode are found and locked.\<close>

definition unlink_entry :: "nat \<Rightarrow> nat \<Rightarrow> uint \<Rightarrow> kfs \<Rightarrow> (unit option \<times> kfs) res" where
  "unlink_entry dp ip off k =
     bindR (writei dp (replicate 16 0) off k) (\<lambda>(r, k1).
     bindR (guardR (r = IoDone 16) ''unlink: writei'') (\<lambda>_.
     bindR (if i_type (icache k1 ! ip) = T_DIR then add_nlink (-1) dp k1 else Ok k1) (\<lambda>k2.
     bindR (iunlockput dp k2) (\<lambda>k3.
     bindR (add_nlink (-1) ip k3) (\<lambda>k4.
     bindR (iunlockput ip k4) (\<lambda>k5.
     bindR (end_op k5) (\<lambda>k6. Ok (Some (), k6))))))))"

definition unlink_op :: "nat \<Rightarrow> uchar list \<Rightarrow> kfs \<Rightarrow> (unit option \<times> kfs) res" where
  "unlink_op cwd path k =
     bindR (begin_op k) (\<lambda>k1.
     bindR (nameiparent cwd path k1) (\<lambda>(r, k2).
     case r of
       None \<Rightarrow> fail_op k2
     | Some (dp, name) \<Rightarrow>
         bindR (ilock dp k2) (\<lambda>k3.
         if namecmp name dot = 0 \<or> namecmp name dotdot = 0 then fail_put dp k3
         else bindR (dirlookup dp name k3) (\<lambda>(found, k4).
              case found of
                None \<Rightarrow> fail_put dp k4
              | Some (ip, off) \<Rightarrow>
                  bindR (ilock ip k4) (\<lambda>k5.
                  bindR (guardR (\<not> sint (i_nlink (icache k5 ! ip)) < 1) ''unlink: nlink < 1'') (\<lambda>_.
                  bindR (if i_type (icache k5 ! ip) = T_DIR then isdirempty ip k5 else Ok (True, k5))
                    (\<lambda>(empty, k6).
                  if \<not> empty then bindR (iunlockput ip k6) (fail_put dp)
                  else unlink_entry dp ip off k6)))))))"

definition sys_unlink ::
  "sched_policy \<Rightarrow> nat \<Rightarrow> 'a kern_scheme \<Rightarrow> (int \<times> 'a kern_scheme) res" where
  "sys_unlink cfg cur s =
     with_arg (argstr cur 0 s) (-1, s) (\<lambda>path. fs_call cfg cur (\<lambda>cwd. unlink_op cwd path) s)"

section \<open>Creating\<close>

definition create_dots :: "nat \<Rightarrow> nat \<Rightarrow> kfs \<Rightarrow> kfs res" where
  "create_dots dp ip k =
     bindR (add_nlink 1 dp k) (\<lambda>k1.
     bindR (dirlink ip dot (i_inum (icache k1 ! ip)) k1) (\<lambda>(r, k2).
     bindR (guardR (\<not> r < 0) ''create dots'') (\<lambda>_.
     bindR (dirlink ip dotdot (i_inum (icache k2 ! dp)) k2) (\<lambda>(r, k3).
     bindR (guardR (\<not> r < 0) ''create dots'') (\<lambda>_. Ok k3)))))"

definition create ::
  "nat \<Rightarrow> uchar list \<Rightarrow> ushort \<Rightarrow> ushort \<Rightarrow> ushort \<Rightarrow> kfs \<Rightarrow> (nat option \<times> kfs) res" where
  "create cwd path type major minor k =
     bindR (nameiparent cwd path k) (\<lambda>(r, k1).
     case r of
       None \<Rightarrow> Ok (None, k1)
     | Some (dp, name) \<Rightarrow>
         bindR (ilock dp k1) (\<lambda>k2.
         bindR (dirlookup dp name k2) (\<lambda>(found, k3).
         case found of
           Some (ip, _) \<Rightarrow>
             bindR (iunlockput dp k3) (\<lambda>k4.
             bindR (ilock ip k4) (\<lambda>k5.
             if type = T_FILE \<and> i_type (icache k5 ! ip) = T_FILE then Ok (Some ip, k5)
             else bindR (iunlockput ip k5) (\<lambda>k6. Ok (None, k6))))
         | None \<Rightarrow>
             bindR (ialloc (i_dev (icache k3 ! dp)) type k3) (\<lambda>(ip, k4).
             bindR (ilock ip k4) (\<lambda>k5.
             bindR (iupdate ip (upd_inode ip
                      (\<lambda>x. x\<lparr>i_major := major, i_minor := minor, i_nlink := 1\<rparr>) k5)) (\<lambda>k6.
             bindR (if type = T_DIR then create_dots dp ip k6 else Ok k6) (\<lambda>k7.
             bindR (dirlink dp name (i_inum (icache k7 ! ip)) k7) (\<lambda>(r, k8).
             bindR (guardR (\<not> r < 0) ''create: dirlink'') (\<lambda>_.
             bindR (iunlockput dp k8) (\<lambda>k9. Ok (Some ip, k9)))))))))))"

definition O_RDONLY :: uint where [param_defs]: "O_RDONLY = 0x000"
definition O_WRONLY :: uint where [param_defs]: "O_WRONLY = 0x001"
definition O_RDWR :: uint where [param_defs]: "O_RDWR = 0x002"
definition O_CREATE :: uint where [param_defs]: "O_CREATE = 0x200"

text \<open>\<^verbatim>\<open>sys_open\<close> up to the inode, which it leaves locked inside the transaction.\<close>

definition open_op :: "nat \<Rightarrow> uchar list \<Rightarrow> uint \<Rightarrow> kfs \<Rightarrow> (nat option \<times> kfs) res" where
  "open_op cwd path omode k =
     bindR (begin_op k) (\<lambda>k1.
     if omode AND O_CREATE \<noteq> 0
     then bindR (create cwd path T_FILE 0 0 k1) (\<lambda>(r, k2).
          case r of None \<Rightarrow> fail_op k2 | Some ip \<Rightarrow> Ok (Some ip, k2))
     else bindR (namei cwd path k1) (\<lambda>(r, k2).
          case r of
            None \<Rightarrow> fail_op k2
          | Some ip \<Rightarrow>
              bindR (ilock ip k2) (\<lambda>k3.
              if i_type (icache k3 ! ip) = T_DIR \<and> omode \<noteq> O_RDONLY then fail_put ip k3
              else Ok (Some ip, k3))))"

definition open_file :: "nat \<Rightarrow> uint \<Rightarrow> file_t \<Rightarrow> file_t" where
  "open_file ip omode x = x\<lparr>f_type := FD_INODE, f_ip := ip, f_off := 0,
     f_readable := omode AND O_WRONLY = 0,
     f_writable := omode AND O_WRONLY \<noteq> 0 \<or> omode AND O_RDWR \<noteq> 0\<rparr>"

text \<open>
  The second half of \<^verbatim>\<open>sys_open\<close>. Where no descriptor is free, the new entry of the file
  table is closed again inside the transaction.
\<close>

definition open_fd ::
  "sched_policy \<Rightarrow> ksym \<Rightarrow> nat \<Rightarrow> nat \<Rightarrow> uint \<Rightarrow> 'a kern_scheme \<Rightarrow> (int \<times> 'a kern_scheme) res" where
  "open_fd cfg K cur ip omode s =
     (let (f, s1) = filealloc s;
          (fd, s2) = (case f of None \<Rightarrow> (None, s1) | Some f \<Rightarrow> fdalloc cur f s1)
      in case (f, fd) of
           (Some f, Some fd) \<Rightarrow>
             bindR (fs_do cfg cur (\<lambda>k. bindR (iunlock ip k) end_op) s2) (\<lambda>s3.
             Ok (int fd, upd_file f (open_file ip omode) s3))
         | _ \<Rightarrow>
             bindR (close_opt cfg K cur f s2) (\<lambda>s3.
             bindR (fs_do cfg cur (\<lambda>k. bindR (iunlockput ip k) end_op) s3) (\<lambda>s4. Ok (-1, s4))))"

definition sys_open ::
  "sched_policy \<Rightarrow> ksym \<Rightarrow> nat \<Rightarrow> 'a kern_scheme \<Rightarrow> (int \<times> 'a kern_scheme) res" where
  "sys_open cfg K cur s =
     with_arg (argstr cur 0 s) (-1, s) (\<lambda>path.
     with_arg (argint cur 1 s) (-1, s) (\<lambda>omode.
     bindR (derefR (p_cwd (ptable s ! cur))) (\<lambda>cwd.
     bindR (fs_op cfg cur (open_op cwd path omode) s) (\<lambda>(r, s1).
     case r of None \<Rightarrow> Ok (-1, s1) | Some ip \<Rightarrow> open_fd cfg K cur ip omode s1))))"

text \<open>\<^verbatim>\<open>mkdir\<close> and \<^verbatim>\<open>mknod\<close> fetch their arguments inside the transaction.\<close>

definition make_op ::
  "nat \<Rightarrow> (uchar list \<times> ushort \<times> ushort \<times> ushort) option \<Rightarrow> kfs \<Rightarrow> (unit option \<times> kfs) res" where
  "make_op cwd arg k =
     bindR (begin_op k) (\<lambda>k1.
     case arg of
       None \<Rightarrow> fail_op k1
     | Some (path, type, major, minor) \<Rightarrow>
         bindR (create cwd path type major minor k1) (\<lambda>(r, k2).
         case r of
           None \<Rightarrow> fail_op k2
         | Some ip \<Rightarrow>
             bindR (iunlockput ip k2) (\<lambda>k3. bindR (end_op k3) (\<lambda>k4. Ok (Some (), k4)))))"

definition sys_mkdir ::
  "sched_policy \<Rightarrow> nat \<Rightarrow> 'a kern_scheme \<Rightarrow> (int \<times> 'a kern_scheme) res" where
  "sys_mkdir cfg cur s =
     bindR (argstr cur 0 s) (\<lambda>path.
     fs_call cfg cur (\<lambda>cwd. make_op cwd (map_option (\<lambda>p. (p, T_DIR, 0, 0)) path)) s)"

definition mknod_args ::
  "nat \<Rightarrow> 'a kern_scheme \<Rightarrow> (uchar list \<times> ushort \<times> ushort \<times> ushort) option res" where
  "mknod_args cur s =
     bindR (argstr cur 0 s) (\<lambda>path. case path of None \<Rightarrow> Ok None | Some path \<Rightarrow>
     bindR (argint cur 1 s) (\<lambda>major. case major of None \<Rightarrow> Ok None | Some major \<Rightarrow>
     bindR (argint cur 2 s) (\<lambda>minor. case minor of None \<Rightarrow> Ok None | Some minor \<Rightarrow>
     Ok (Some (path, T_DEV, ucast major, ucast minor)))))"

definition sys_mknod ::
  "sched_policy \<Rightarrow> nat \<Rightarrow> 'a kern_scheme \<Rightarrow> (int \<times> 'a kern_scheme) res" where
  "sys_mknod cfg cur s =
     bindR (mknod_args cur s) (\<lambda>arg. fs_call cfg cur (\<lambda>cwd. make_op cwd arg) s)"

section \<open>chdir, exec, pipe\<close>

definition chdir_op :: "nat \<Rightarrow> uchar list option \<Rightarrow> kfs \<Rightarrow> (nat option \<times> kfs) res" where
  "chdir_op cwd path k =
     bindR (begin_op k) (\<lambda>k1.
     bindR (case path of None \<Rightarrow> Ok (None, k1) | Some path \<Rightarrow> namei cwd path k1) (\<lambda>(r, k2).
     case r of
       None \<Rightarrow> fail_op k2
     | Some ip \<Rightarrow>
         bindR (ilock ip k2) (\<lambda>k3.
         if i_type (icache k3 ! ip) \<noteq> T_DIR then fail_put ip k3
         else bindR (iunlock ip k3) (\<lambda>k4.
              bindR (iput cwd k4) (\<lambda>k5.
              bindR (end_op k5) (\<lambda>k6. Ok (Some ip, k6)))))))"

definition sys_chdir ::
  "sched_policy \<Rightarrow> nat \<Rightarrow> 'a kern_scheme \<Rightarrow> (int \<times> 'a kern_scheme) res" where
  "sys_chdir cfg cur s =
     bindR (argstr cur 0 s) (\<lambda>path.
     bindR (derefR (p_cwd (ptable s ! cur))) (\<lambda>cwd.
     bindR (fs_op cfg cur (chdir_op cwd path) s) (\<lambda>(r, s1).
     case r of
       None \<Rightarrow> Ok (-1, s1)
     | Some ip \<Rightarrow> Ok (0, upd_proc cur (\<lambda>x. x\<lparr>p_cwd := Some ip\<rparr>) s1))))"

text \<open>The loop of \<^verbatim>\<open>sys_exec\<close>: entry \<open>i\<close>, with \<open>n\<close> entries of \<open>argv\<close> left.\<close>

fun exec_argv :: "nat \<Rightarrow> uint \<Rightarrow> nat \<Rightarrow> nat \<Rightarrow> 'a kern_scheme \<Rightarrow> uchar list list option res" where
  "exec_argv cur uargv i 0 s = Ok None"
| "exec_argv cur uargv i (Suc n) s =
     bindR (fetchint cur (uargv + 4 * of_nat i) s) (\<lambda>uarg.
     case uarg of
       None \<Rightarrow> Ok None
     | Some uarg \<Rightarrow>
         if uarg = 0 then Ok (Some [])
         else bindR (fetchstr cur uarg s) (\<lambda>a.
              case a of
                None \<Rightarrow> Ok None
              | Some a \<Rightarrow>
                  bindR (exec_argv cur uargv (Suc i) n s) (\<lambda>r. Ok (map_option ((#) a) r))))"

definition sys_exec ::
  "sched_policy \<Rightarrow> ksym \<Rightarrow> nat \<Rightarrow> 'a kern_scheme \<Rightarrow> (int \<times> 'a kern_scheme) res" where
  "sys_exec cfg K cur s =
     with_arg (argstr cur 0 s) (-1, s) (\<lambda>path.
     with_arg (argint cur 1 s) (-1, s) (\<lambda>uargv.
     with_arg (exec_argv cur uargv 0 MAXARG s) (-1, s) (\<lambda>argv.
     exec cfg K cur path argv s)))"

definition sys_pipe ::
  "sched_policy \<Rightarrow> ksym \<Rightarrow> nat \<Rightarrow> 'a kern_scheme \<Rightarrow> (int \<times> 'a kern_scheme) res" where
  "sys_pipe cfg K cur s =
     with_arg (argptr cur 0 8 s) (-1, s) (\<lambda>fd.
     bindR (pipealloc cfg K cur s) (\<lambda>(r, s1).
     case r of
       None \<Rightarrow> Ok (-1, s1)
     | Some (rf, wfl) \<Rightarrow>
         let (fd0, s2) = fdalloc cur rf s1;
             (fd1, s3) = (if fd0 = None then (None, s2) else fdalloc cur wfl s2)
         in case (fd0, fd1) of
              (Some a, Some b) \<Rightarrow>
                bindR (ustore fd (bytes32 (of_nat a)) s3) (\<lambda>s4.
                bindR (ustore (fd + 4) (bytes32 (of_nat b)) s4) (\<lambda>s5. Ok (0, s5)))
            | _ \<Rightarrow>
                let s4 = (case fd0 of
                            None \<Rightarrow> s3
                          | Some a \<Rightarrow> upd_proc cur (\<lambda>x. x\<lparr>p_ofile := (p_ofile x)[a := None]\<rparr>) s3)
                in bindR (fileclose cfg K cur rf s4) (\<lambda>s5.
                   bindR (fileclose cfg K cur wfl s5) (\<lambda>s6. Ok (-1, s6)))))"

end
