(* ===== verification/Proc_Life.thy ===== *)
theory Proc_Life
  imports Sysfile
begin

text \<open>
  The life of a process (\<^verbatim>\<open>proc.c\<close>): the first process, \<^verbatim>\<open>fork\<close>, \<^verbatim>\<open>exit\<close>,
  \<^verbatim>\<open>growproc\<close> and \<^verbatim>\<open>forkret\<close>, composed from the process table, virtual memory, the
  open files and the file system.
\<close>

section \<open>The first process\<close>

definition kvmalloc :: "ksym \<Rightarrow> 'a kproc_scheme \<Rightarrow> 'a kproc_scheme res" where
  "kvmalloc K s =
     bindR (setupkvm (k_end K) (k_data K) s) (\<lambda>(pgdir, s1). Ok (switchkvm (s1\<lparr>kpgdir := pgdir\<rparr>)))"

definition FL_IF :: uint where [param_defs]: "FL_IF = 0x200"
definition DPL_USER :: ushort where [param_defs]: "DPL_USER = 3"
definition SEG_UCODE :: ushort where [param_defs]: "SEG_UCODE = 3"
definition SEG_UDATA :: ushort where [param_defs]: "SEG_UDATA = 4"

definition user_tf :: trapframe where
  "user_tf = zero_trapframe\<lparr>tf_cs := push_bit 3 SEG_UCODE OR DPL_USER,
     tf_ds := push_bit 3 SEG_UDATA OR DPL_USER, tf_es := push_bit 3 SEG_UDATA OR DPL_USER,
     tf_ss := push_bit 3 SEG_UDATA OR DPL_USER, tf_eflags := FL_IF, tf_esp := PGSIZE, tf_eip := 0\<rparr>"

text \<open>
  \<open>start\<close> and \<open>sz\<close> are the address and the size of \<^verbatim>\<open>initcode\<close> in the kernel image.
  \<^verbatim>\<open>userinit\<close> runs before there is a process, so the pid that \<^verbatim>\<open>namei\<close> could use is 0;
  the path \<^verbatim>\<open>"/"\<close> does not use the current directory.
\<close>

definition initcode_name :: "uchar list" where "initcode_name = map of_char ''initcode''"

definition userinit ::
  "sched_policy \<Rightarrow> ksym \<Rightarrow> uint \<Rightarrow> uint \<Rightarrow> 'a kern_scheme \<Rightarrow> 'a kern_scheme res" where
  "userinit cfg K start sz s =
     (let (p, s1) = allocproc cfg K s; s2 = s1\<lparr>initproc := p\<rparr> in
      bindR (derefR p) (\<lambda>p.
      bindR (setupkvm (k_end K) (k_data K) s2) (\<lambda>(pgdir, s3).
      let s4 = upd_proc p (\<lambda>x. x\<lparr>p_pgdir := pgdir\<rparr>) s3 in
      bindR (guardR (pgdir \<noteq> 0) ''userinit: out of memory?'') (\<lambda>_.
      bindR (inituvm pgdir start sz s4) (\<lambda>s5.
      let s6 = upd_proc p (\<lambda>x. x\<lparr>p_sz := PGSIZE, p_tf := user_tf\<rparr>) s5 in
      bindR (safestrcpy (p_name (ptable s6 ! p)) initcode_name 16) (\<lambda>nm.
      let s7 = upd_proc p (\<lambda>x. x\<lparr>p_name := nm\<rparr>) s6 in
      bindR (namei 0 [slash] ((kf s7)\<lparr>mypid := 0, woken := []\<rparr>)) (\<lambda>(ip, k).
      bindR (wakeups cfg (woken k) (s7\<lparr>kf := k\<rparr>)) (\<lambda>s8.
      userinit_ready cfg p (upd_proc p (\<lambda>x. x\<lparr>p_cwd := ip\<rparr>) s8)))))))))"

text \<open>
  \<^verbatim>\<open>forkret\<close>; \<open>first\<close> is its static variable. A new process starts here.
\<close>

definition forkret ::
  "sched_policy \<Rightarrow> nat \<Rightarrow> bool \<Rightarrow> 'a kern_scheme \<Rightarrow> (bool \<times> 'a kern_scheme) res" where
  "forkret cfg cur first s =
     (if first
      then bindR (fs_do cfg cur (\<lambda>k. bindR (iinit ROOTDEV k) (initlog ROOTDEV)) s) (\<lambda>s1.
           Ok (False, s1))
      else Ok (False, s))"

section \<open>Memory size\<close>

definition growproc ::
  "ksym \<Rightarrow> nat \<Rightarrow> int \<Rightarrow> 'a kproc_scheme \<Rightarrow> (int \<times> 'a kproc_scheme) res" where
  "growproc K cur n s =
     (let x = ptable s ! cur; sz = p_sz x in
      bindR (if n > 0 then allocuvm (k_end K) (p_pgdir x) sz (sz + word_of_int n) s
             else if n < 0 then deallocuvm (k_end K) (p_pgdir x) sz (sz + word_of_int n) s
             else Ok (sz, s)) (\<lambda>(sz1, s1).
      if n \<noteq> 0 \<and> sz1 = 0 then Ok (-1, s1)
      else bindR (switchuvm cur (upd_proc cur (\<lambda>x. x\<lparr>p_sz := sz1\<rparr>) s1)) (\<lambda>s2. Ok (0, s2))))"

section \<open>fork\<close>

fun fork_files :: "nat \<Rightarrow> nat \<Rightarrow> nat list \<Rightarrow> 'a kern_scheme \<Rightarrow> 'a kern_scheme res" where
  "fork_files cur np [] s = Ok s"
| "fork_files cur np (i # js) s =
     (case p_ofile (ptable s ! cur) ! i of
        None \<Rightarrow> fork_files cur np js s
      | Some f \<Rightarrow>
          bindR (filedup f s) (\<lambda>s1.
          fork_files cur np js (upd_proc np (\<lambda>x. x\<lparr>p_ofile := (p_ofile x)[i := Some f]\<rparr>) s1)))"

text \<open>What the child takes over from the parent before the files.\<close>

definition fork_copy :: "nat \<Rightarrow> proc \<Rightarrow> proc \<Rightarrow> proc" where
  "fork_copy cur x y = y\<lparr>p_sz := p_sz x, p_parent := Some cur, p_tf := (p_tf x)\<lparr>tf_eax := 0\<rparr>\<rparr>"

definition fork ::
  "sched_policy \<Rightarrow> ksym \<Rightarrow> nat \<Rightarrow> 'a kern_scheme \<Rightarrow> (int \<times> 'a kern_scheme) res" where
  "fork cfg K cur s =
     (case allocproc cfg K s of
        (None, s1) \<Rightarrow> Ok (-1, s1)
      | (Some np, s1) \<Rightarrow>
          let x = ptable s1 ! cur in
          bindR (copyuvm (k_end K) (k_data K) (p_pgdir x) (p_sz x) s1) (\<lambda>(d, s2).
          let s3 = upd_proc np (\<lambda>y. y\<lparr>p_pgdir := d\<rparr>) s2 in
          if d = 0
          then bindR (kfree (k_end K) (p_kstack (ptable s3 ! np)) s3) (\<lambda>s4.
               Ok (-1, upd_proc np (\<lambda>y. y\<lparr>p_kstack := 0, p_state := UNUSED\<rparr>) s4))
          else let s4 = upd_proc np (fork_copy cur (ptable s3 ! cur)) s3 in
               bindR (fork_files cur np [0..<NOFILE] s4) (\<lambda>s5.
               bindR (derefR (p_cwd (ptable s5 ! cur))) (\<lambda>cwd.
               let s6 = upd_proc np (\<lambda>y. y\<lparr>p_cwd := Some cwd\<rparr>) (s5\<lparr>kf := idup cwd (kf s5)\<rparr>) in
               bindR (safestrcpy (p_name (ptable s6 ! np)) (p_name (ptable s6 ! cur)) 16) (\<lambda>nm.
               let s7 = upd_proc np (\<lambda>y. y\<lparr>p_name := nm\<rparr>) s6 in
               bindR (fork_ready cfg np s7) (\<lambda>s8. Ok (p_pid (ptable s7 ! np), s8)))))))"

section \<open>exit\<close>

fun exit_files ::
  "sched_policy \<Rightarrow> ksym \<Rightarrow> nat \<Rightarrow> nat list \<Rightarrow> 'a kern_scheme \<Rightarrow> 'a kern_scheme res" where
  "exit_files cfg K cur [] s = Ok s"
| "exit_files cfg K cur (fd # fds) s =
     (case p_ofile (ptable s ! cur) ! fd of
        None \<Rightarrow> exit_files cfg K cur fds s
      | Some f \<Rightarrow>
          bindR (fileclose cfg K cur f s) (\<lambda>s1.
          exit_files cfg K cur fds (upd_proc cur (\<lambda>x. x\<lparr>p_ofile := (p_ofile x)[fd := None]\<rparr>) s1)))"

text \<open>\<^verbatim>\<open>exit\<close> up to the jump into the scheduler.\<close>

definition exit ::
  "sched_policy \<Rightarrow> ksym \<Rightarrow> nat \<Rightarrow> 'a kern_scheme \<Rightarrow> 'a kern_scheme res" where
  "exit cfg K cur s =
     bindR (guardR (initproc s \<noteq> Some cur) ''init exiting'') (\<lambda>_.
     bindR (exit_files cfg K cur [0..<NOFILE] s) (\<lambda>s1.
     bindR (derefR (p_cwd (ptable s1 ! cur))) (\<lambda>cwd.
     bindR (fs_do cfg cur (iput_op cwd) s1) (\<lambda>s2.
     exit_table cfg cur (upd_proc cur (\<lambda>x. x\<lparr>p_cwd := None\<rparr>) s2)))))"

end
