(* ===== verification/Syscall.thy ===== *)
theory Syscall
  imports Proc_Life Console
begin

text \<open>
  The system calls on processes (\<^verbatim>\<open>sysproc.c\<close>) and the system call table
  (\<^verbatim>\<open>syscall.c\<close>), on the state of the whole kernel.

  A call that puts its process to sleep leaves the outcome \<open>SysSleep\<close>: \<^verbatim>\<open>eax\<close> is set
  when the process has run again and the call is done. \<open>SysYield\<close> is the call of
  \<^verbatim>\<open>yield()\<close> in \<^verbatim>\<open>set_priority\<close> on the way to its result.
\<close>

section \<open>Processes\<close>

datatype sysout = SysRet int | SysSleep | SysYield int | SysExit

definition sys_fork ::
  "sched_policy \<Rightarrow> ksym \<Rightarrow> nat \<Rightarrow> 'a kern_scheme \<Rightarrow> (int \<times> 'a kern_scheme) res" where
  "sys_fork cfg K cur s = fork cfg K cur s"

definition sys_wait ::
  "sched_policy \<Rightarrow> ksym \<Rightarrow> nat \<Rightarrow> 'a kproc_scheme \<Rightarrow> (sysout \<times> 'a kproc_scheme) res" where
  "sys_wait cfg K cur s =
     bindR (wait_round cfg K cur s) (\<lambda>(r, s1).
     Ok (case r of Reaped pid \<Rightarrow> SysRet pid | NoChildren \<Rightarrow> SysRet (-1) | WaitSleep \<Rightarrow> SysSleep, s1))"

definition sys_kill ::
  "sched_policy \<Rightarrow> nat \<Rightarrow> 'a kproc_scheme \<Rightarrow> (int \<times> 'a kproc_scheme) res" where
  "sys_kill cfg cur s = with_arg (argint cur 0 s) (-1, s) (\<lambda>pid. kill cfg (sint pid) s)"

definition sys_getpid :: "nat \<Rightarrow> 'a kproc_scheme \<Rightarrow> int" where
  "sys_getpid cur s = p_pid (ptable s ! cur)"

definition sys_sbrk :: "ksym \<Rightarrow> nat \<Rightarrow> 'a kproc_scheme \<Rightarrow> (int \<times> 'a kproc_scheme) res" where
  "sys_sbrk K cur s =
     with_arg (argint cur 0 s) (-1, s) (\<lambda>n.
     let addr = sint (p_sz (ptable s ! cur)) in
     bindR (growproc K cur (sint n) s) (\<lambda>(r, s1). Ok (if r < 0 then -1 else addr, s1)))"

text \<open>
  The loop of \<^verbatim>\<open>sys_sleep\<close>, entered with \<open>ticks0\<close>; the comparison is of unsigned numbers.
\<close>

definition sleep_test ::
  "nat \<Rightarrow> uint \<Rightarrow> uint \<Rightarrow> 'a kproc_scheme \<Rightarrow> sysout \<times> 'a kproc_scheme" where
  "sleep_test cur ticks0 n s =
     (if ticks s - ticks0 < n
      then (if p_killed (ptable s ! cur) then (SysRet (-1), s)
            else (SysSleep, sleep_enter TicksChan cur s))
      else (SysRet 0, s))"

definition sys_sleep :: "nat \<Rightarrow> 'a kproc_scheme \<Rightarrow> (sysout \<times> 'a kproc_scheme) res" where
  "sys_sleep cur s =
     with_arg (argint cur 0 s) (SysRet (-1), s) (\<lambda>n. Ok (sleep_test cur (ticks s) n s))"

definition sleep_resume ::
  "nat \<Rightarrow> uint \<Rightarrow> uint \<Rightarrow> 'a kproc_scheme \<Rightarrow> sysout \<times> 'a kproc_scheme" where
  "sleep_resume cur ticks0 n s = sleep_test cur ticks0 n (sleep_exit cur s)"

definition sys_uptime :: "'a kproc_scheme \<Rightarrow> int" where
  "sys_uptime s = sint (ticks s)"

text \<open>
  \<^verbatim>\<open>waitx\<close> stores the times of the reaped slot after it has released the lock; here
  no other processor does anything in between.
\<close>

definition put_int :: "uint \<Rightarrow> int \<Rightarrow> 'a kproc_scheme \<Rightarrow> 'a kproc_scheme res" where
  "put_int p v s = ustore p (bytes32 (word_of_int v)) s"

definition sys_waitx ::
  "sched_policy \<Rightarrow> ksym \<Rightarrow> nat \<Rightarrow> 'a kproc_scheme \<Rightarrow> (sysout \<times> 'a kproc_scheme) res" where
  "sys_waitx cfg K cur s =
     with_arg (argptr cur 0 4 s) (SysRet (-1), s) (\<lambda>wtime.
     with_arg (argptr cur 1 4 s) (SysRet (-1), s) (\<lambda>rtime.
     bindR (waitx cfg K (\<lambda>s. s) cur s) (\<lambda>(r, s1).
     case r of
       Reaped (pid, rt, wt) \<Rightarrow>
         bindR (put_int rtime rt s1) (\<lambda>s2.
         bindR (put_int wtime wt s2) (\<lambda>s3. Ok (SysRet pid, s3)))
     | NoChildren \<Rightarrow> Ok (SysRet (-1), s1)
     | WaitSleep \<Rightarrow> Ok (SysSleep, s1))))"

definition sys_set_priority ::
  "sched_policy \<Rightarrow> nat \<Rightarrow> 'a kproc_scheme \<Rightarrow> (sysout \<times> 'a kproc_scheme) res" where
  "sys_set_priority cfg cur s =
     with_arg (argint cur 0 s) (SysRet (-1), s) (\<lambda>new_priority.
     with_arg (argint cur 1 s) (SysRet (-1), s) (\<lambda>pid.
     case set_priority cfg (sint new_priority) (sint pid) s of
       (r, preempt, s1) \<Rightarrow>
         Ok (if preempt then (SysYield r, yield cur s1) else (SysRet r, s1))))"

section \<open>Device files\<close>

text \<open>
  The rest of \<^verbatim>\<open>read\<close> and \<^verbatim>\<open>write\<close> on a device: the console is the only one.
\<close>

definition read_dev ::
  "sched_policy \<Rightarrow> nat \<Rightarrow> nat \<Rightarrow> 'a kcon_scheme \<Rightarrow> (sysout \<times> 'a kcon_scheme) res" where
  "read_dev cfg cur d s =
     with_arg (argfd cur 0 s) (SysRet (-1), s) (\<lambda>(_, f).
     with_arg (argint cur 2 s) (SysRet (-1), s) (\<lambda>n.
     with_arg (argint cur 1 s) (SysRet (-1), s) (\<lambda>p.
     if d \<noteq> CONSOLE then Undef
     else bindR (consoleread cfg cur (f_ip (ftable s ! f)) (nat (sint n)) s) (\<lambda>(r, s1).
          case r of
            CSleep acc \<Rightarrow> Ok (SysSleep, s1)
          | CDone bs \<Rightarrow>
              bindR (read_done p bs s1) (\<lambda>(r, s2).
              bindR (fileread_end cfg cur f r s2) (\<lambda>s3. Ok (SysRet r, s3)))))))"

definition write_dev ::
  "sched_policy \<Rightarrow> nat \<Rightarrow> nat \<Rightarrow> nat \<Rightarrow> 'a kcon_scheme \<Rightarrow> (int fout \<times> 'a kcon_scheme) res" where
  "write_dev cfg cur d i s =
     with_arg (argfd cur 0 s) (FDone (-1), s) (\<lambda>(_, f).
     with_arg (argint cur 2 s) (FDone (-1), s) (\<lambda>n.
     with_arg (argint cur 1 s) (FDone (-1), s) (\<lambda>p.
     bindR (uload p (nat (sint n)) s) (\<lambda>bs.
     if d \<noteq> CONSOLE then Undef
     else bindR (consolewrite cfg cur (f_ip (ftable s ! f)) (take max_chunk (drop i bs)) s) (\<lambda>(r, s1).
          filewrite_dev_done cfg cur f i bs r s1)))))"

text \<open>A long write to the console is a loop over pieces, at most one per byte.\<close>

fun write_run ::
  "nat \<Rightarrow> sched_policy \<Rightarrow> nat \<Rightarrow> int fout \<Rightarrow> 'a kcon_scheme \<Rightarrow> (sysout \<times> 'a kcon_scheme) res" where
  "write_run fuel cfg cur (FDone r) s = Ok (SysRet r, s)"
| "write_run fuel cfg cur (FSleep i) s = Ok (SysSleep, s)"
| "write_run 0 cfg cur (FDev d i) s = Undef"
| "write_run (Suc fuel) cfg cur (FDev d i) s =
     bindR (write_dev cfg cur d i s) (\<lambda>(r, s1). write_run fuel cfg cur r s1)"

definition read_call ::
  "sched_policy \<Rightarrow> nat \<Rightarrow> 'a kcon_scheme \<Rightarrow> (sysout \<times> 'a kcon_scheme) res" where
  "read_call cfg cur s =
     bindR (sys_read cfg cur s) (\<lambda>(r, s1).
     case r of FDone v \<Rightarrow> Ok (SysRet v, s1) | FSleep _ \<Rightarrow> Ok (SysSleep, s1) | FDev d _ \<Rightarrow> read_dev cfg cur d s1)"

definition write_fuel :: "nat \<Rightarrow> 'a kproc_scheme \<Rightarrow> nat" where
  "write_fuel cur s = (case argint cur 2 s of Ok (Some n) \<Rightarrow> Suc (nat (sint n)) | _ \<Rightarrow> 0)"

definition write_call ::
  "sched_policy \<Rightarrow> nat \<Rightarrow> 'a kcon_scheme \<Rightarrow> (sysout \<times> 'a kcon_scheme) res" where
  "write_call cfg cur s =
     bindR (sys_write cfg cur s) (\<lambda>(r, s1). write_run (write_fuel cur s) cfg cur r s1)"

section \<open>The table\<close>

definition ret :: "(int \<times> 's) res \<Rightarrow> (sysout \<times> 's) res" where
  "ret m = bindR m (\<lambda>(r, s). Ok (SysRet r, s))"

definition syscalls ::
  "sched_policy \<Rightarrow> ksym \<Rightarrow> nat \<Rightarrow> int \<Rightarrow> 'a kcon_scheme \<Rightarrow> (sysout \<times> 'a kcon_scheme) res option" where
  "syscalls cfg K cur n s =
     (if n = 1 then Some (ret (sys_fork cfg K cur s))
      else if n = 2 then Some (bindR (exit cfg K cur s) (\<lambda>s1. Ok (SysExit, s1)))
      else if n = 3 then Some (sys_wait cfg K cur s)
      else if n = 4 then Some (ret (sys_pipe cfg K cur s))
      else if n = 5 then Some (read_call cfg cur s)
      else if n = 6 then Some (ret (sys_kill cfg cur s))
      else if n = 7 then Some (ret (sys_exec cfg K cur s))
      else if n = 8 then Some (ret (sys_fstat cfg cur s))
      else if n = 9 then Some (ret (sys_chdir cfg cur s))
      else if n = 10 then Some (ret (sys_dup cur s))
      else if n = 11 then Some (Ok (SysRet (sys_getpid cur s), s))
      else if n = 12 then Some (ret (sys_sbrk K cur s))
      else if n = 13 then Some (sys_sleep cur s)
      else if n = 14 then Some (Ok (SysRet (sys_uptime s), s))
      else if n = 15 then Some (ret (sys_open cfg K cur s))
      else if n = 16 then Some (write_call cfg cur s)
      else if n = 17 then Some (ret (sys_mknod cfg cur s))
      else if n = 18 then Some (ret (sys_unlink cfg cur s))
      else if n = 19 then Some (ret (sys_link cfg cur s))
      else if n = 20 then Some (ret (sys_mkdir cfg cur s))
      else if n = 21 then Some (ret (sys_close cfg K cur s))
      else if n = 22 then Some (sys_waitx cfg K cur s)
      else if n = 23 then Some (ret (getps cfg s))
      else if n = 24 then Some (sys_set_priority cfg cur s)
      else None)"

definition set_eax :: "nat \<Rightarrow> int \<Rightarrow> 'a kproc_scheme \<Rightarrow> 'a kproc_scheme" where
  "set_eax cur v s = upd_proc cur (\<lambda>x. x\<lparr>p_tf := (p_tf x)\<lparr>tf_eax := word_of_int v\<rparr>\<rparr>) s"

text \<open>The fallback prints \<^verbatim>\<open>unknown sys call\<close>.\<close>

definition syscall ::
  "sched_policy \<Rightarrow> ksym \<Rightarrow> nat \<Rightarrow> 'a kcon_scheme \<Rightarrow> (sysout \<times> 'a kcon_scheme) res" where
  "syscall cfg K cur s =
     (let x = ptable s ! cur; n = sint (tf_eax (p_tf x)) in
      case syscalls cfg K cur n s of
        None \<Rightarrow>
          bindR (cprintf (''%d %s: unknown sys call %d'' @ [CHR 10])
                   [num (p_pid x), AStr (Some (p_name x)), num n] s) (\<lambda>s1.
          Ok (SysRet (-1), set_eax cur (-1) s1))
      | Some m \<Rightarrow>
          bindR m (\<lambda>(r, s1).
          Ok (r, case r of SysRet v \<Rightarrow> set_eax cur v s1 | SysYield v \<Rightarrow> set_eax cur v s1 | _ \<Rightarrow> s1)))"

end
