(* ===== verification/Kbd.thy ===== *)
theory Kbd
  imports Console
begin

text \<open>
  The keyboard driver (\<^verbatim>\<open>kbd.c\<close>, \<^verbatim>\<open>kbd.h\<close>): from the scan codes of the controller to
  characters. The tables are functions that are zero where the C initialisers say nothing;
  \<open>shift\<close> is the static variable of \<^verbatim>\<open>kbdgetc\<close>.
\<close>

section \<open>Tables\<close>

definition SHIFT :: uint where [param_defs]: "SHIFT = 1"
definition CTL :: uint where [param_defs]: "CTL = 2"
definition ALT :: uint where [param_defs]: "ALT = 4"
definition CAPSLOCK :: uint where [param_defs]: "CAPSLOCK = 8"
definition NUMLOCK :: uint where [param_defs]: "NUMLOCK = 16"
definition SCROLLLOCK :: uint where [param_defs]: "SCROLLLOCK = 32"
definition E0ESC :: uint where [param_defs]: "E0ESC = 64"

definition tab :: "(nat \<times> uint) list \<Rightarrow> uint \<Rightarrow> uint" where
  "tab xs i = (case map_of xs (unat i) of None \<Rightarrow> 0 | Some v \<Rightarrow> v)"

definition shiftcode :: "uint \<Rightarrow> uint" where
  "shiftcode = tab [(0x1D, CTL), (0x2A, SHIFT), (0x36, SHIFT), (0x38, ALT), (0x9D, CTL), (0xB8, ALT)]"

definition togglecode :: "uint \<Rightarrow> uint" where
  "togglecode = tab [(0x3A, CAPSLOCK), (0x45, NUMLOCK), (0x46, SCROLLLOCK)]"

definition keys :: "nat \<Rightarrow> string \<Rightarrow> (nat \<times> uint) list" where
  "keys start cs = zip [start..<start + length cs] (map of_char cs)"

text \<open>The keys of the extended block, the same in the three maps.\<close>

definition extended_keys :: "(nat \<times> uint) list" where
  "extended_keys =
     [(0xC8, 0xE2), (0xD0, 0xE3), (0xC9, 0xE6), (0xD1, 0xE7), (0xCB, 0xE4), (0xCD, 0xE5),
      (0x97, 0xE0), (0xCF, 0xE1), (0xD2, 0xE8), (0xD3, 0xE9)]"

definition normalmap :: "uint \<Rightarrow> uint" where
  "normalmap = tab (keys 0x01 [CHR 0x1B] @ keys 0x02 ''1234567890-='' @ keys 0x0E [CHR 8, CHR 9] @
     keys 0x10 ''qwertyuiop[]'' @ keys 0x1C [CHR 10] @ keys 0x1E ''asdfghjkl;'' @
     keys 0x28 [CHR 39] @ keys 0x29 [CHR 96] @ keys 0x2B [CHR 92] @ keys 0x2C ''zxcvbnm,./'' @
     keys 0x37 ''*'' @ keys 0x39 '' '' @ keys 0x47 ''789-456+1230.'' @
     keys 0x9C [CHR 10] @ keys 0xB5 ''/'' @ extended_keys)"

definition shiftmap :: "uint \<Rightarrow> uint" where
  "shiftmap = tab (keys 0x01 [CHR 0x1B] @ keys 0x02 ''!@#$%^&*()_+'' @ keys 0x0E [CHR 8, CHR 9] @
     keys 0x10 ''QWERTYUIOP{}'' @ keys 0x1C [CHR 10] @ keys 0x1E ''ASDFGHJKL:'' @
     keys 0x28 [CHR 34] @ keys 0x29 ''~'' @ keys 0x2B ''|'' @ keys 0x2C ''ZXCVBNM<>?'' @
     keys 0x37 ''*'' @ keys 0x39 '' '' @ keys 0x47 ''789-456+1230.'' @
     keys 0x9C [CHR 10] @ keys 0xB5 ''/'' @ extended_keys)"

text \<open>\<open>C(x)\<close> is computed in \<^verbatim>\<open>int\<close> and stored in an unsigned character.\<close>

definition ctls :: "nat \<Rightarrow> string \<Rightarrow> (nat \<times> uint) list" where
  "ctls start cs = zip [start..<start + length cs] (map (\<lambda>c. of_char c - 0x40 AND 0xff) cs)"

definition ctlmap :: "uint \<Rightarrow> uint" where
  "ctlmap = tab (ctls 0x10 ''QWERTYUIOP'' @ keys 0x1C [CHR 13] @ ctls 0x1E ''ASDFGHJKL'' @
     ctls 0x2B [CHR 92] @ ctls 0x2C ''ZXCVBNM'' @ ctls 0x35 ''/'' @
     keys 0x9C [CHR 13] @ ctls 0xB5 ''/'' @ extended_keys)"

definition charcode :: "uint \<Rightarrow> uint \<Rightarrow> uint" where
  "charcode i = (if i = 0 then normalmap else if i = 1 then shiftmap else ctlmap)"

section \<open>kbdgetc\<close>

text \<open>
  \<open>data\<close> is what the controller holds: \<open>None\<close> when its status says that there is none.
\<close>

definition kbdgetc :: "uchar option \<Rightarrow> uint \<Rightarrow> int \<times> uint" where
  "kbdgetc dat shift =
     (case dat of
        None \<Rightarrow> (-1, shift)
      | Some d \<Rightarrow>
          let data = ucast d in
          if data = 0xE0 then (0, shift OR E0ESC)
          else if data AND 0x80 \<noteq> 0
          then let data = (if shift AND E0ESC \<noteq> 0 then data else data AND 0x7F)
               in (0, shift AND NOT (shiftcode data OR E0ESC))
          else let (data, shift) = (if shift AND E0ESC \<noteq> 0 then (data OR 0x80, shift AND NOT E0ESC)
                                    else (data, shift));
                   shift = (shift OR shiftcode data) XOR togglecode data;
                   c = charcode (shift AND (CTL OR SHIFT)) data;
                   c = (if shift AND CAPSLOCK \<noteq> 0
                        then (if 0x61 \<le> c \<and> c \<le> 0x7a then c + 0x41 - 0x61
                              else if 0x41 \<le> c \<and> c \<le> 0x5a then c + 0x61 - 0x41 else c)
                        else c)
               in (sint c, shift))"

text \<open>The scan codes in the controller until it is empty, as \<^verbatim>\<open>consoleintr\<close> asks for them.\<close>

fun kbd_chars :: "uchar list \<Rightarrow> uint \<Rightarrow> int list \<times> uint" where
  "kbd_chars [] shift = ([], shift)"
| "kbd_chars (d # ds) shift =
     (let (c, shift1) = kbdgetc (Some d) shift; (cs, shift2) = kbd_chars ds shift1
      in (c # cs, shift2))"

definition kbdintr ::
  "sched_policy \<Rightarrow> uchar list \<Rightarrow> uint \<Rightarrow> 'a kcon_scheme \<Rightarrow> (uint \<times> 'a kcon_scheme) res" where
  "kbdintr cfg ds shift s =
     (let (cs, shift1) = kbd_chars ds shift in bindR (consoleintr cfg cs s) (\<lambda>s1. Ok (shift1, s1)))"

end
