(* ===== verification/Trap.thy ===== *)
theory Trap
  imports Syscall Kbd
begin

text \<open>
  The trap handler (\<^verbatim>\<open>trap.c\<close>) on one processor: \<open>cpu\<close> is \<^verbatim>\<open>cpuid()\<close>, \<open>tf\<close> the trap
  frame, and \<open>dv\<close> what the devices hold at this moment. The current process is
  \<^verbatim>\<open>mycpu()->proc\<close>. With the in-memory disk \<^verbatim>\<open>ideintr\<close> does nothing; the acknowledgement
  of an interrupt (\<^verbatim>\<open>lapiceoi\<close>) is left out.

  The handler ends by returning (\<open>TrapRet\<close>) or by the exit of the process. In between it may
  give up the processor. \<open>swt\<close> stands for the switch away from the process in \<^verbatim>\<open>yield\<close>: it
  takes the state at the switch to the state in which the process runs again. \<open>rest\<close> stands for
  a system call from the moment its process goes to sleep to its end: it gives the result of
  the call and the state at that moment. Both are arguments; anything may happen during them.
\<close>

section \<open>Vectors\<close>

definition T_SYSCALL :: uint where [param_defs]: "T_SYSCALL = 64"
definition T_IRQ0 :: uint where [param_defs]: "T_IRQ0 = 32"
definition IRQ_TIMER :: uint where [param_defs]: "IRQ_TIMER = 0"
definition IRQ_KBD :: uint where [param_defs]: "IRQ_KBD = 1"
definition IRQ_COM1 :: uint where [param_defs]: "IRQ_COM1 = 4"
definition IRQ_IDE :: uint where [param_defs]: "IRQ_IDE = 14"
definition IRQ_SPURIOUS :: uint where [param_defs]: "IRQ_SPURIOUS = 31"

record devices =
  dv_kbd :: "uchar list"    \<comment> \<open>scan codes in the keyboard controller\<close>
  dv_shift :: uint          \<comment> \<open>the static \<open>shift\<close> of \<open>kbdgetc\<close>\<close>
  dv_uart :: "uchar list"   \<comment> \<open>bytes received by the serial port\<close>
  dv_cr2 :: uint            \<comment> \<open>the address of the last page fault\<close>

datatype trapout = TrapRet | TrapExit

section \<open>trap\<close>

definition trap_exit ::
  "sched_policy \<Rightarrow> ksym \<Rightarrow> nat \<Rightarrow> 'a kern_scheme \<Rightarrow> (trapout \<times> 'a kern_scheme) res" where
  "trap_exit cfg K p s = bindR (exit cfg K p s) (\<lambda>s1. Ok (TrapExit, s1))"

text \<open>A system call, with the test for a killed process before it and after it.\<close>

definition trap_syscall ::
  "sched_policy \<Rightarrow> ksym \<Rightarrow> ('a kcon_scheme \<Rightarrow> 'a kcon_scheme res) \<Rightarrow>
   ('a kcon_scheme \<Rightarrow> (int \<times> 'a kcon_scheme) res) \<Rightarrow> trapframe \<Rightarrow> 'a kcon_scheme \<Rightarrow>
   (trapout \<times> 'a kcon_scheme) res" where
  "trap_syscall cfg K swt rest tf s =
     bindR (derefR (c_proc s)) (\<lambda>p.
     if p_killed (ptable s ! p) then trap_exit cfg K p s
     else bindR (syscall cfg K p (upd_proc p (\<lambda>x. x\<lparr>p_tf := tf\<rparr>) s)) (\<lambda>(r, s1).
          if r = SysExit then Ok (TrapExit, s1)
          else bindR (case r of
                        SysSleep \<Rightarrow> bindR (rest s1) (\<lambda>(v, s2). Ok (set_eax p v s2))
                      | SysYield _ \<Rightarrow> swt s1
                      | _ \<Rightarrow> Ok s1) (\<lambda>s2.
               if p_killed (ptable s2 ! p) then trap_exit cfg K p s2 else Ok (TrapRet, s2))))"

text \<open>The \<^verbatim>\<open>default\<close> branch of the switch.\<close>

definition trap_default ::
  "nat \<Rightarrow> devices \<Rightarrow> trapframe \<Rightarrow> 'a kcon_scheme \<Rightarrow> 'a kcon_scheme res" where
  "trap_default cpu dv tf s =
     (case c_proc s of
        None \<Rightarrow> Panic ''trap''
      | Some p \<Rightarrow>
          if tf_cs tf AND 3 = 0 then Panic ''trap''
          else let x = ptable s ! p in
               bindR (cprintf (''pid %d %s: trap %d err %d on cpu %d eip 0x%x addr 0x%x--kill proc'' @ [CHR 10])
                        [num (p_pid x), AStr (Some (p_name x)), ANum (tf_trapno tf), ANum (tf_err tf),
                         num (int cpu), ANum (tf_eip tf), ANum (dv_cr2 dv)] s) (\<lambda>s1.
               Ok (upd_proc p (\<lambda>y. y\<lparr>p_killed := True\<rparr>) s1)))"

text \<open>The serial port delivers the bytes \<open>rx\<close> one by one, if there is one.\<close>

definition uartintr :: "sched_policy \<Rightarrow> uchar list \<Rightarrow> 'a kcon_scheme \<Rightarrow> 'a kcon_scheme res" where
  "uartintr cfg rx s = consoleintr cfg (if uart s then map uint rx else []) s"

definition trap_switch ::
  "sched_policy \<Rightarrow> nat \<Rightarrow> devices \<Rightarrow> trapframe \<Rightarrow> 'a kcon_scheme \<Rightarrow> (devices \<times> 'a kcon_scheme) res" where
  "trap_switch cfg cpu dv tf s =
     (let n = tf_trapno tf in
      if n = T_IRQ0 + IRQ_TIMER
      then bindR (if cpu = 0 then timer_tick cfg s else Ok s) (\<lambda>s1. Ok (dv, s1))
      else if n = T_IRQ0 + IRQ_IDE \<or> n = T_IRQ0 + IRQ_IDE + 1 then Ok (dv, s)
      else if n = T_IRQ0 + IRQ_KBD
      then bindR (kbdintr cfg (dv_kbd dv) (dv_shift dv) s) (\<lambda>(sh, s1).
           Ok (dv\<lparr>dv_kbd := [], dv_shift := sh\<rparr>, s1))
      else if n = T_IRQ0 + IRQ_COM1
      then bindR (uartintr cfg (dv_uart dv) s) (\<lambda>s1. Ok (dv\<lparr>dv_uart := []\<rparr>, s1))
      else if n = T_IRQ0 + 7 \<or> n = T_IRQ0 + IRQ_SPURIOUS
      then bindR (cprintf (''cpu%d: spurious interrupt at %x:%x'' @ [CHR 10])
                    [num (int cpu), ANum (ucast (tf_cs tf)), ANum (tf_eip tf)] s) (\<lambda>s1. Ok (dv, s1))
      else bindR (trap_default cpu dv tf s) (\<lambda>s1. Ok (dv, s1)))"

text \<open>The two identical tests, before and after the preemption, for a process that has been killed and was in user space.\<close>

definition killed_in_user :: "trapframe \<Rightarrow> 'a kproc_scheme \<Rightarrow> nat option" where
  "killed_in_user tf s =
     (case c_proc s of
        None \<Rightarrow> None
      | Some p \<Rightarrow> if p_killed (ptable s ! p) \<and> tf_cs tf AND 3 = DPL_USER then Some p else None)"

definition trap_end ::
  "sched_policy \<Rightarrow> ksym \<Rightarrow> trapframe \<Rightarrow> 'a kern_scheme \<Rightarrow> (trapout \<times> 'a kern_scheme) res" where
  "trap_end cfg K tf s =
     (case killed_in_user tf s of Some p \<Rightarrow> trap_exit cfg K p s | None \<Rightarrow> Ok (TrapRet, s))"

definition trap_preempt ::
  "sched_policy \<Rightarrow> trapframe \<Rightarrow> 'a kproc_scheme \<Rightarrow> (bool \<times> 'a kproc_scheme) res" where
  "trap_preempt cfg tf s =
     (case c_proc s of
        Some p \<Rightarrow> if tf_trapno tf = T_IRQ0 + IRQ_TIMER then timer_preempt cfg p s else Ok (False, s)
      | None \<Rightarrow> Ok (False, s))"

definition trap ::
  "sched_policy \<Rightarrow> ksym \<Rightarrow> ('a kcon_scheme \<Rightarrow> 'a kcon_scheme res) \<Rightarrow>
   ('a kcon_scheme \<Rightarrow> (int \<times> 'a kcon_scheme) res) \<Rightarrow> nat \<Rightarrow> devices \<Rightarrow> trapframe \<Rightarrow> 'a kcon_scheme \<Rightarrow>
   (trapout \<times> devices \<times> 'a kcon_scheme) res" where
  "trap cfg K swt rest cpu dv tf s =
     (if tf_trapno tf = T_SYSCALL
      then bindR (trap_syscall cfg K swt rest tf s) (\<lambda>(r, s1). Ok (r, dv, s1))
      else bindR (trap_switch cfg cpu dv tf s) (\<lambda>(dv1, s1).
           case killed_in_user tf s1 of
             Some p \<Rightarrow> bindR (trap_exit cfg K p s1) (\<lambda>(r, s2). Ok (r, dv1, s2))
           | None \<Rightarrow>
               bindR (trap_preempt cfg tf s1) (\<lambda>(yields, s2).
               bindR (if yields then swt s2 else Ok s2) (\<lambda>s3.
               bindR (trap_end cfg K tf s3) (\<lambda>(r, s4). Ok (r, dv1, s4))))))"

end
