(* ===== verification/Syscall_Props.thy ===== *)
theory Syscall_Props
  imports Trap Kern_Frame Vm_Props
begin

text \<open>
  The kernel at its boundary to user code: pointers passed to system calls, the size of a process,
  and what the trap handler does with a process that has been killed.
\<close>

section \<open>Arguments of system calls\<close>

lemma below_size:
  fixes p sz :: uint
  assumes "sz \<le> KERNBASE" "p < sz" "k < 2 ^ 31"
  shows "p + of_nat k \<le> sz \<longleftrightarrow> unat p + k \<le> unat sz"
proof -
  have sz: "unat sz \<le> 2147483648" using assms(1) by (simp add: word_le_nat_alt KERNBASE_def)
  have "unat p < unat sz" using assms(2) by (simp add: word_less_nat_alt)
  then have "unat (p + of_nat k) = unat p + k" using sz assms(3) by (simp add: unat_word_ariths unat_of_nat)
  then show ?thesis by (simp add: word_le_nat_alt)
qed

lemma fetchint_in_bounds:
  assumes "p_sz (ptable s ! cur) \<le> KERNBASE" "fetchint cur a s = Ok (Some v)"
  shows "unat a + 4 \<le> unat (p_sz (ptable s ! cur)) \<and> (\<exists>bs. uload a 4 s = Ok bs \<and> v = word32 bs)"
proof -
  have "a < p_sz (ptable s ! cur)" "a + 4 \<le> p_sz (ptable s ! cur)" "\<exists>bs. uload a 4 s = Ok bs \<and> v = word32 bs"
    using assms(2) by (auto simp: fetchint_def Let_def bindR_eq_Ok_iff not_le not_less split: if_splits)
  then show ?thesis using below_size [OF assms(1), of a 4] by simp
qed

lemma argptr_iff:
  assumes "p_sz (ptable s ! cur) \<le> KERNBASE" "sz < 2 ^ 31"
  shows "argptr cur n sz s = Ok (Some p) \<longleftrightarrow>
    argint cur n s = Ok (Some p) \<and> 0 \<le> sz \<and> p < p_sz (ptable s ! cur) \<and> unat p + nat sz \<le> unat (p_sz (ptable s ! cur))"
proof -
  let ?psz = "p_sz (ptable s ! cur)"
  have "argptr cur n sz s = Ok (Some p) \<longleftrightarrow>
      argint cur n s = Ok (Some p) \<and> \<not> (sz < 0 \<or> p \<ge> ?psz \<or> p + word_of_int sz > ?psz)"
    unfolding argptr_def bindR_eq_Ok_iff Let_def
    by (rule iffI) (force split: option.splits if_splits, fastforce)
  moreover have "p + word_of_int sz \<le> ?psz \<longleftrightarrow> unat p + nat sz \<le> unat ?psz" if "0 \<le> sz" "p < ?psz"
    using below_size [OF assms(1) that(2), of "nat sz"] assms(2) that(1) by simp
  ultimately show ?thesis by (simp add: not_le not_less) blast
qed

lemma fetchstr_loop_string:
  "fetchstr_loop a n s = Ok (Some str) \<Longrightarrow> length str < n \<and> 0 \<notin> set str \<and> uload a (Suc (length str)) s = Ok (str @ [0])"
proof (induction n arbitrary: a str)
  case (Suc n)
  obtain b where b: "user_addr False a s = Ok b"
    and r: "(if mem s b = 0 then Ok (Some [])
      else bindR (fetchstr_loop (a + 1) n s) (\<lambda>r. Ok (map_option ((#) (mem s b)) r))) = Ok (Some str)"
    using Suc.prems unfolding fetchstr_loop.simps bindR_eq_Ok_iff by blast
  show ?case
  proof (cases "mem s b = 0")
    case True
    then show ?thesis using r b by simp
  next
    case False
    then obtain t where t: "fetchstr_loop (a + 1) n s = Ok (Some t)" "str = mem s b # t"
      using r by (auto simp: bindR_eq_Ok_iff)
    have IH: "length t < n" "0 \<notin> set t" "uload (a + 1) (Suc (length t)) s = Ok (t @ [0])" using Suc.IH [OF t(1)] by blast+
    show ?thesis unfolding t(2) list.size uload.simps(2) [of a] b bindR.simps using IH False by simp
  qed
qed simp

lemma fetchstr_in_bounds:
  assumes "fetchstr cur a s = Ok (Some str)"
  shows "unat a + length str < unat (p_sz (ptable s ! cur)) \<and> 0 \<notin> set str \<and> uload a (Suc (length str)) s = Ok (str @ [0])"
proof -
  let ?sz = "p_sz (ptable s ! cur)"
  have a: "a < ?sz" "fetchstr_loop a (unat (?sz - a)) s = Ok (Some str)"
    using assms by (auto simp: fetchstr_def Let_def not_le split: if_splits)
  have "unat (?sz - a) = unat ?sz - unat a" using a(1) by (intro unat_sub) simp
  moreover note f = fetchstr_loop_string [OF a(2)]
  ultimately have "unat a + length str < unat ?sz" by linarith
  then show ?thesis using f by blast
qed

text \<open>
  C27: The kernel trusts no pointer of a user. For a process whose memory ends below the kernel, an
  argument word is taken only from the memory of the process; a block of \<open>sz\<close> bytes is accepted
  exactly if it starts and ends within that memory, wrap-around of 32-bit addresses included; and an accepted
  string ends with a NUL inside the memory and is what the memory holds up to there.
\<close>

theorem arguments_in_bounds:
  assumes "p_sz (ptable s ! cur) \<le> KERNBASE" "sz < 2 ^ 31"
  shows "(\<forall>v. argint cur n s = Ok (Some v) \<longrightarrow>
      unat (tf_esp (p_tf (ptable s ! cur)) + 4 + 4 * of_nat n) + 4 \<le> unat (p_sz (ptable s ! cur))) \<and>
    (\<forall>p. argptr cur n sz s = Ok (Some p) \<longleftrightarrow> argint cur n s = Ok (Some p) \<and> 0 \<le> sz \<and>
      unat p < unat (p_sz (ptable s ! cur)) \<and> unat p + nat sz \<le> unat (p_sz (ptable s ! cur))) \<and>
    (\<forall>str. argstr cur n s = Ok (Some str) \<longrightarrow> 0 \<notin> set str \<and> (\<exists>p. argint cur n s = Ok (Some p) \<and>
      unat p + length str < unat (p_sz (ptable s ! cur)) \<and> uload p (Suc (length str)) s = Ok (str @ [0])))"
proof (intro conjI allI)
  show "argint cur n s = Ok (Some v) \<longrightarrow>
      unat (tf_esp (p_tf (ptable s ! cur)) + 4 + 4 * of_nat n) + 4 \<le> unat (p_sz (ptable s ! cur))" for v
    using fetchint_in_bounds [OF assms(1)] unfolding argint_def by blast
  show "argptr cur n sz s = Ok (Some p) \<longleftrightarrow> argint cur n s = Ok (Some p) \<and> 0 \<le> sz \<and>
      unat p < unat (p_sz (ptable s ! cur)) \<and> unat p + nat sz \<le> unat (p_sz (ptable s ! cur))" for p
    using argptr_iff [OF assms] by (simp add: word_less_nat_alt)
  show "argstr cur n s = Ok (Some str) \<longrightarrow> 0 \<notin> set str \<and> (\<exists>p. argint cur n s = Ok (Some p) \<and>
      unat p + length str < unat (p_sz (ptable s ! cur)) \<and> uload p (Suc (length str)) s = Ok (str @ [0]))" for str
    using fetchstr_in_bounds [of cur _ s str] by (auto simp: argstr_def bindR_eq_Ok_iff split: option.splits)
qed

section \<open>The size of a process\<close>

text \<open>
  C31: \<^verbatim>\<open>sbrk\<close> of minus the whole size takes the memory of the process away and reports failure.
  In an address space whose pages below the size are mapped to frames of their own, all these
  frames go back to the free list and no address below the size is mapped any more; but \<^verbatim>\<open>growproc\<close>
  takes the new size 0 for an error of \<^verbatim>\<open>deallocuvm\<close>, so it returns -1 with the recorded size
  unchanged and the page table register not reloaded.
\<close>

theorem growproc_shrink_to_zero:
  assumes "aspace (k_end K) (p_pgdir (ptable s ! cur)) (D \<union> set fs) ps s" "KERNBASE < k_end K"
    and "sz = p_sz (ptable s ! cur)" "0 < sz" "sz < KERNBASE"
    and "length fs = pages_upto sz" "distinct fs" "D \<inter> set fs = {}" "\<forall>f \<in> set fs. page_ok (k_end K) f"
    and "frames (mem s) (p_pgdir (ptable s ! cur)) 0 fs"
  shows "\<exists>s1. growproc K cur (- uint sz) s = Ok (-1, s1) \<and> p_sz (ptable s1 ! cur) = sz \<and> cr3 s1 = cr3 s \<and>
    aspace (k_end K) (p_pgdir (ptable s ! cur)) D (rev fs @ ps) s1 \<and>
    (\<forall>v < sz. pte_of (mem s1) (p_pgdir (ptable s ! cur)) v = None)"
proof -
  let ?pg = "p_pgdir (ptable s ! cur)"
  have z: "pages_upto 0 = 0" "PGROUNDUP 0 = 0" "sz + word_of_int (- uint sz) = 0" by (simp_all add: pages_upto_def PGROUNDUP_def PGSIZE_def)
  have "length fs = pages_upto sz - pages_upto 0" "frames (mem s) ?pg (PGROUNDUP 0) fs" using assms(6,10) z by simp_all
  then obtain s1 where s1: "deallocuvm (k_end K) ?pg sz 0 s = Ok (0, s1)" "aspace (k_end K) ?pg D (rev fs @ ps) s1"
    "\<And>v. pte_of (mem s1) ?pg v = (if pages_upto 0 * 4096 \<le> unat v \<and> unat v < pages_upto sz * 4096 then None else pte_of (mem s) ?pg v)"
    using deallocuvm_frees [OF assms(1,2,4,5) _ assms(7-9)] by metis
  obtain m f where "s1 = s\<lparr>mem := m, freelist := f\<rparr>"
    using only_mem_deallocuvm [OF s1(1)] unfolding only_mem_iff by blast
  then have same: "ptable s1 = ptable s" "cr3 s1 = cr3 s" by simp_all
  have neg: "- uint sz < 0" using assms(4) by (simp add: word_less_def)
  have "growproc K cur (- uint sz) s = Ok (-1, s1)"
    unfolding growproc_def Let_def assms(3) [symmetric] z using neg s1(1) by simp
  moreover have "pte_of (mem s1) ?pg v = None" if "v < sz" for v
  proof -
    have "unat v < pages_upto sz * 4096"
      using that round_up_bounds(1) [of "unat sz"] by (simp add: word_less_nat_alt pages_upto_def)
    then show ?thesis using s1(3) z(1) by simp
  qed
  ultimately show ?thesis using same assms(3) s1(2) by auto
qed

section \<open>Killed processes\<close>

text \<open>The handlers of interrupts leave the current process of the processor alone.\<close>

lemma c_proc_wakeup: "wakeup cfg ch s = Ok s' \<Longrightarrow> c_proc s' = c_proc s"
  using only_tableD(7) [OF only_table_wakeup] .

lemma c_proc_cgaputc: "cgaputc c s = Ok s' \<Longrightarrow> c_proc s' = c_proc s"
  by (auto simp: cgaputc_def crt_set_def Let_def bindR_eq_Ok_iff split: if_splits)

lemma c_proc_consputc: "consputc c s = Ok s' \<Longrightarrow> c_proc s' = c_proc s"
  by (auto simp: consputc_def uartputc_def dest!: c_proc_cgaputc)

lemma c_proc_consputs: "consputs cs s = Ok s' \<Longrightarrow> c_proc s' = c_proc s"
  by (induction cs arbitrary: s) (auto simp: bindR_eq_Ok_iff dest: c_proc_consputc)

lemma c_proc_cprintf: "cprintf fmt args s = Ok s' \<Longrightarrow> c_proc s' = c_proc s"
  by (auto simp: cprintf_def bindR_eq_Ok_iff dest: c_proc_consputs)

lemma c_proc_cprintf_pcs: "cprintf_pcs pcs s = Ok s' \<Longrightarrow> c_proc s' = c_proc s"
  by (induction pcs arbitrary: s) (auto simp: bindR_eq_Ok_iff split: if_splits dest: c_proc_cprintf)

lemma c_proc_procdump_loop: "procdump_loop ps s = Ok s' \<Longrightarrow> c_proc s' = c_proc s"
proof (induction ps arbitrary: s)
  case (Cons x ps)
  then show ?case
    by (auto simp: bindR_eq_Ok_iff simp del: cprintf_chars.simps split: if_splits
        dest!: c_proc_cprintf c_proc_cprintf_pcs)
qed simp

lemma c_proc_in_erase: "in_erase s = Ok s' \<Longrightarrow> c_proc s' = c_proc s"
  by (auto simp: in_erase_def dest: c_proc_consputc)

lemma c_proc_kill_line: "kill_line n s = Ok s' \<Longrightarrow> c_proc s' = c_proc s"
proof (induction n arbitrary: s)
  case 0
  then show ?case using kill_line.simps [of 0 s] by (simp split: if_splits)
next
  case (Suc n)
  show ?case
  proof (cases "in_e s \<noteq> in_w s \<and> in_at s (in_e s - 1) \<noteq> word_of_int newline")
    case True
    then have "bindR (in_erase s) (kill_line n) = Ok s'" using Suc.prems kill_line.simps [of "Suc n" s] by simp
    then obtain s1 where "in_erase s = Ok s1" "kill_line n s1 = Ok s'" by (rule bindR_OkE)
    then show ?thesis using Suc.IH [of s1] c_proc_in_erase [of s s1] by simp
  next
    case False
    then show ?thesis using Suc.prems kill_line.simps [of "Suc n" s] by (simp split: if_splits)
  qed
qed

lemma c_proc_consoleintr_char: "consoleintr_char cfg c s = Ok s' \<Longrightarrow> c_proc s' = c_proc s"
  by (auto simp: consoleintr_char_def consoleintr_default_def Let_def bindR_eq_Ok_iff split: if_splits
      dest!: c_proc_kill_line c_proc_in_erase c_proc_consputc c_proc_wakeup)

lemma c_proc_consoleintr_loop: "consoleintr_loop cfg cs s = Ok s' \<Longrightarrow> c_proc s' = c_proc s"
  by (induction cs arbitrary: s) (auto simp: bindR_eq_Ok_iff dest: c_proc_consoleintr_char)

lemma c_proc_consoleintr: "consoleintr cfg cs s = Ok s' \<Longrightarrow> c_proc s' = c_proc s"
  by (auto simp: consoleintr_def procdump_def bindR_eq_Ok_iff split: if_splits
      dest!: c_proc_consoleintr_loop c_proc_procdump_loop)

lemma c_proc_uartintr: "uartintr cfg rx s = Ok s' \<Longrightarrow> c_proc s' = c_proc s"
  unfolding uartintr_def by (rule c_proc_consoleintr)

lemma c_proc_timer_tick: "timer_tick cfg s = Ok s' \<Longrightarrow> c_proc s' = c_proc s"
  by (auto simp: timer_tick_def timer_account_def dest!: c_proc_wakeup)

lemma c_proc_trap_switch: "trap_switch cfg cpu dv tf s = Ok (dv', s') \<Longrightarrow> c_proc s' = c_proc s"
  by (auto simp: trap_switch_def trap_default_def kbdintr_def Let_def bindR_eq_Ok_iff upd_proc_def
      simp del: cprintf_chars.simps split: if_splits prod.splits option.splits
      dest!: c_proc_timer_tick c_proc_consoleintr c_proc_uartintr c_proc_cprintf)

lemma c_proc_trap_preempt: "trap_preempt cfg tf s = Ok (b, s') \<Longrightarrow> c_proc s' = c_proc s"
  by (auto simp: trap_preempt_def timer_preempt_def yield_def upd_proc_def bindR_eq_Ok_iff
      split: option.splits if_splits sched_policy.splits)

lemma trap_syscall_unkilled:
  assumes "trap_syscall cfg K swt rest tf s = Ok (TrapRet, s')" "c_proc s = Some p"
  shows "\<not> p_killed (ptable s' ! p)"
proof -
  have no_exit: "trap_exit cfg K p t \<noteq> Ok (TrapRet, s')" for t by (auto simp: trap_exit_def bindR_eq_Ok_iff)
  then show ?thesis using assms unfolding trap_syscall_def
    by (auto simp: bindR_eq_Ok_iff simp del: sysout.case split: if_splits)
qed

lemma trap_end_unkilled:
  assumes "trap_end cfg K tf s = Ok (TrapRet, s')" "c_proc s = Some p" "tf_cs tf AND 3 = DPL_USER"
  shows "\<not> p_killed (ptable s' ! p)"
  using assms by (auto simp: trap_end_def trap_exit_def killed_in_user_def bindR_eq_Ok_iff split: option.splits if_splits)

text \<open>
  C26: A killed process does not go back to user space. Whatever happens while the process sleeps in
  a system call or waits for its next turn after a timer interrupt, and whoever kills it then:
  when the trap handler returns to a trap frame of user mode, from a system call, an interrupt or a
  fault, the process is not marked as killed. The one thing asked of the switch away and back is
  that it is again this process that the processor runs.
\<close>

theorem trap_returns_only_unkilled:
  assumes "trap cfg K swt rest cpu dv tf s = Ok (TrapRet, dv', s')" "c_proc s = Some p" "tf_cs tf AND 3 = DPL_USER"
    and "\<And>t t'. swt t = Ok t' \<Longrightarrow> c_proc t' = c_proc t"
  shows "\<not> p_killed (ptable s' ! p)"
proof (cases "tf_trapno tf = T_SYSCALL")
  case True
  then have "trap_syscall cfg K swt rest tf s = Ok (TrapRet, s')" using assms(1) by (auto simp: trap_def bindR_eq_Ok_iff)
  then show ?thesis using assms(2) by (rule trap_syscall_unkilled)
next
  case False
  with assms(1) obtain dv1 s1 where sw: "trap_switch cfg cpu dv tf s = Ok (dv1, s1)"
    and rest: "(case killed_in_user tf s1 of
             Some p \<Rightarrow> bindR (trap_exit cfg K p s1) (\<lambda>(r, s2). Ok (r, dv1, s2))
           | None \<Rightarrow> bindR (trap_preempt cfg tf s1) (\<lambda>(yields, s2).
               bindR (if yields then swt s2 else Ok s2) (\<lambda>s3.
               bindR (trap_end cfg K tf s3) (\<lambda>(r, s4). Ok (r, dv1, s4))))) = Ok (TrapRet, dv', s')"
    by (auto simp: trap_def bindR_eq_Ok_iff)
  then obtain y s2 s3 where s2: "trap_preempt cfg tf s1 = Ok (y, s2)" "(if y then swt s2 else Ok s2) = Ok s3"
    "trap_end cfg K tf s3 = Ok (TrapRet, s')"
    by (auto simp: bindR_eq_Ok_iff trap_exit_def split: option.splits)
  have "c_proc s3 = c_proc s2" using s2(2) assms(4) by (auto split: if_splits)
  then have "c_proc s3 = Some p" using c_proc_trap_preempt [OF s2(1)] c_proc_trap_switch [OF sw] assms(2) by simp
  then show ?thesis using trap_end_unkilled [OF s2(3) _ assms(3)] by blast
qed

section \<open>Witnesses\<close>

text \<open>A process with one page of memory: its page directory, page table and page in frames 1, 2 and 3.\<close>

definition demo_mem :: memory where
  "demo_mem = store32 (store32 (\<lambda>_. 0) 0x80001000 0x2007) 0x80002000 0x3007"

definition demo_user :: kproc where
  "demo_user = boot_kproc\<lparr>mem := demo_mem, cr3 := 0x1000,
     ptable := (replicate NPROC zero_proc)[0 := zero_proc\<lparr>p_sz := 4096, p_pgdir := 0x80001000\<rparr>]\<rparr>"

definition demo_K :: ksym where
  "demo_K = \<lparr>k_end = 0x80001000, k_data = 0, k_forkret = 0, k_trapret = 0\<rparr>"

lemma demo_user_simps:
  "ptable demo_user ! 0 = zero_proc\<lparr>p_sz := 4096, p_pgdir := 0x80001000\<rparr>" "mem demo_user = demo_mem"
  "cr3 demo_user = 0x1000" "freelist demo_user = 0"
  by (simp_all add: demo_user_def boot_kproc_def NPROC_def)

lemma demo_load:
  assumes "q mod PGSIZE = 0" "w < 1024"
  shows "load32 demo_mem (slot q w) =
    (if q = 0x80001000 \<and> w = 0 then 0x2007 else if q = 0x80002000 \<and> w = 0 then 0x3007 else 0)"
  using load_store_slot [of "0x80002000" q 0 w "store32 (\<lambda>_. 0) 0x80001000 0x2007" "0x3007"]
    load_store_slot [of "0x80001000" q 0 w "\<lambda>_. 0" "0x2007"] assms
  by (auto simp: demo_mem_def slot_0 PGSIZE_def load32_def)

lemma page0:
  assumes "(va :: uint) < 4096"
  shows "PDX va = 0" "PTX va = 0"
proof -
  have "unat va < 4096" using assms by (simp add: word_less_nat_alt)
  then have "unat (drop_bit 22 va) = 0" "unat (drop_bit 12 va) = 0"
    by (simp_all only: unat_drop_bit_eq) (simp_all add: drop_bit_eq_div)
  then show "PDX va = 0" "PTX va = 0" by (simp_all add: PDX_def PTX_def unat_eq_zero)
qed

lemma demo_loads: "load32 demo_mem 0x80001000 = 0x2007" "load32 demo_mem 0x80002000 = 0x3007"
  using demo_load [of "0x80001000" 0] demo_load [of "0x80002000" 0] by (simp_all add: slot_0 PGSIZE_def)

lemma demo_argint: "argint 0 1 demo_user = Ok (Some 0)"
proof -
  have e: "user_addr False va demo_user = Ok (0x80003000 + (va - PGROUNDDOWN va))" if "va < 4096" for va
    unfolding user_addr_def user_pte_def demo_user_simps
    by (simp add: page0 [OF that] Let_def P2V_def KERNBASE_def demo_loads PTE_P_def PTE_ADDR_def)
  have g: "PGROUNDDOWN (8 :: uint) = 0" "PGROUNDDOWN (9 :: uint) = 0" "PGROUNDDOWN (10 :: uint) = 0" "PGROUNDDOWN (11 :: uint) = 0"
    by (simp_all add: word_unat_eq_iff unat_PGROUNDDOWN)
  have m: "demo_mem 0x80003008 = 0" "demo_mem 0x80003009 = 0" "demo_mem 0x8000300A = 0" "demo_mem 0x8000300B = 0"
    by (simp_all add: demo_mem_def store32_def)
  have "uload 8 (Suc (Suc (Suc (Suc 0)))) demo_user = Ok [0, 0, 0, 0]"
    by (simp add: e g m demo_user_simps(2))
  then have u: "uload 8 4 demo_user = Ok [0, 0, 0, 0]" by (simp only: numeral_eq_Suc pred_numeral_simps BitM.simps numeral_One)
  have esp: "tf_esp (p_tf (ptable demo_user ! 0)) = 0" "p_sz (ptable demo_user ! 0) = 4096"
    by (simp_all add: demo_user_simps(1) zero_proc_def zero_trapframe_def)
  show ?thesis unfolding argint_def esp fetchint_def Let_def by (simp add: u word32_def)
qed

theorem arguments_in_bounds_witness:
  "argptr 0 1 100 demo_user = Ok (Some 0) \<and> (\<forall>p. argptr 0 1 4097 demo_user \<noteq> Ok (Some p)) \<and>
   (\<forall>p. argptr 0 1 (- 1) demo_user \<noteq> Ok (Some p))"
proof -
  have sz: "p_sz (ptable demo_user ! 0) = 4096" "p_sz (ptable demo_user ! 0) \<le> KERNBASE"
    by (simp_all add: demo_user_simps KERNBASE_def)
  from arguments_in_bounds [OF sz(2), of 100 1] arguments_in_bounds [OF sz(2), of 4097 1]
    arguments_in_bounds [OF sz(2), of "- 1" 1] demo_argint sz(1)
  show ?thesis by simp
qed

lemma demo_aspace: "aspace 0x80001000 0x80001000 ({} \<union> set [0x80003000]) [] demo_user"
proof -
  have "pdir_ok demo_mem 0x80001000 {0x80003000}"
    by (auto simp: pdir_ok_def demo_load PGSIZE_def tab_of_def P2V_def KERNBASE_def PTE_ADDR_def PTE_P_def)
  then show ?thesis by (simp add: aspace_def kmem_rep_def demo_user_simps PGSIZE_def)
qed

theorem growproc_shrink_to_zero_witness:
  "\<exists>s1. growproc demo_K 0 (- 4096) demo_user = Ok (-1, s1) \<and> p_sz (ptable s1 ! 0) = 4096 \<and>
     kmem_rep 0x80001000 s1 [0x80003000] \<and> pte_of (mem demo_user) 0x80001000 0 = Some 0x3007 \<and>
     pte_of (mem s1) 0x80001000 0 = None"
proof -
  have pte: "pte_of demo_mem 0x80001000 v = Some 0x3007" if "v < 4096" for v
    by (simp add: pte_of_def Let_def page0 [OF that] slot_0 demo_loads tab_of_def P2V_def KERNBASE_def PTE_ADDR_def PTE_P_def)
  have e: "tab_of 0x3007 = 0x80003000" by (simp add: tab_of_def P2V_def KERNBASE_def PTE_ADDR_def)
  have fr: "frames demo_mem 0x80001000 0 [0x80003000]"
    unfolding frames_def
  proof (intro allI impI)
    fix v :: uint assume v: "unat (0 :: uint) \<le> unat v \<and> unat v < unat (0 :: uint) + length [0x80003000 :: uint] * 4096"
    then have "v < 4096" "unat v div 4096 = 0" by (simp_all add: word_less_nat_alt)
    then show "\<exists>e. pte_of demo_mem 0x80001000 v = Some e \<and> tab_of e = [0x80003000] ! ((unat v - unat (0 :: uint)) div 4096)"
      using pte e by simp
  qed
  have h: "KERNBASE < k_end demo_K" "4096 = p_sz (ptable demo_user ! 0)" "(4096 :: uint) < KERNBASE"
    "length [0x80003000 :: uint] = pages_upto 4096" "\<forall>f \<in> set [0x80003000]. page_ok (k_end demo_K) f"
    by (simp_all add: pages_upto_def page_ok_def addr_defs demo_K_def demo_user_simps)
  have as: "aspace (k_end demo_K) (p_pgdir (ptable demo_user ! 0)) ({} \<union> set [0x80003000]) [] demo_user"
    "frames (mem demo_user) (p_pgdir (ptable demo_user ! 0)) 0 [0x80003000]"
    using demo_aspace fr by (simp_all add: demo_K_def demo_user_simps)
  obtain s1 where "growproc demo_K 0 (- uint (4096 :: uint)) demo_user = Ok (-1, s1)" "p_sz (ptable s1 ! 0) = 4096"
    "aspace (k_end demo_K) (p_pgdir (ptable demo_user ! 0)) {} (rev [0x80003000] @ []) s1"
    "\<forall>v < 4096. pte_of (mem s1) (p_pgdir (ptable demo_user ! 0)) v = None"
    using growproc_shrink_to_zero [OF as(1) h(1,2) _ h(3,4) _ _ h(5) as(2)] by auto
  then show ?thesis using pte [of 0] by (intro exI [of _ s1]) (simp add: aspace_def demo_K_def demo_user_simps)
qed

text \<open>A timer interrupt on processor 1; the process is preempted and gets the processor back.\<close>

definition demo_trap :: trapframe where
  "demo_trap = zero_trapframe\<lparr>tf_trapno := T_IRQ0 + IRQ_TIMER, tf_cs := 0x1b\<rparr>"

definition demo_running :: kcon where
  "demo_running = (boot_kcon [])\<lparr>c_proc := Some 0, ptable := (replicate NPROC zero_proc)[0 := zero_proc\<lparr>p_state := RUNNING\<rparr>]\<rparr>"

definition demo_dv :: devices where
  "demo_dv = \<lparr>dv_kbd = [], dv_shift = 0, dv_uart = [], dv_cr2 = 0\<rparr>"

lemma demo_trap_runs:
  "trap RR demo_K (\<lambda>t. Ok (upd_proc 0 (\<lambda>x. x\<lparr>p_state := RUNNING\<rparr>) t)) rest 1 demo_dv demo_trap demo_running =
     Ok (TrapRet, demo_dv, upd_proc 0 (\<lambda>x. x\<lparr>p_state := RUNNING\<rparr>) (yield 0 demo_running))"
  by (simp add: trap_def demo_trap_def trap_switch_def trap_preempt_def timer_preempt_def trap_end_def killed_in_user_def
      demo_running_def zero_proc_def NPROC_def T_SYSCALL_def T_IRQ0_def IRQ_TIMER_def yield_def upd_proc_def)

theorem trap_returns_only_unkilled_witness:
  "\<exists>s'. trap RR demo_K (\<lambda>t. Ok (upd_proc 0 (\<lambda>x. x\<lparr>p_state := RUNNING\<rparr>) t)) (\<lambda>t. Undef) 1 demo_dv demo_trap demo_running =
       Ok (TrapRet, demo_dv, s') \<and> \<not> p_killed (ptable s' ! 0) \<and> p_state (ptable s' ! 0) = RUNNING"
proof -
  have c: "c_proc demo_running = Some 0" "tf_cs demo_trap AND 3 = DPL_USER"
    by (simp_all add: demo_running_def demo_trap_def DPL_USER_def)
  note r = demo_trap_runs [of "\<lambda>t. Undef"]
  have "\<not> p_killed (ptable (upd_proc 0 (\<lambda>x. x\<lparr>p_state := RUNNING\<rparr>) (yield 0 demo_running)) ! 0)"
    by (rule trap_returns_only_unkilled [OF r c]) (auto simp: upd_proc_def)
  then show ?thesis using r by (auto simp: upd_proc_def yield_def demo_running_def NPROC_def)
qed

end
