(* ===== verification/Fs_Blocks.thy ===== *)
theory Fs_Blocks
  imports Fs
begin

text \<open>
  Blocks of the file system inside a transaction: the buffer cache and the log, seen through
  the contents of blocks (\<^const>\<open>cblock\<close>), for the two ways in which \<^verbatim>\<open>fs.c\<close> uses a block, and on top
  of them the free map with \<^verbatim>\<open>balloc\<close> and \<^verbatim>\<open>bfree\<close>.
\<close>

section \<open>Blocks inside a transaction\<close>

text \<open>
  \<open>fsv k s\<close>: the buffer cache is in order, at most two buffers are held, the pinned blocks are
  those of the open transaction, and the log has room for \<open>k\<close> more blocks.
\<close>

definition fsv :: "nat \<Rightarrow> 'a klog_scheme \<Rightarrow> bool" where
  "fsv k s \<longleftrightarrow> binv s \<and> card (held s) \<le> 2 \<and> dirty s = set (logged s) \<and> 0 \<le> lh_n s \<and>
     length (lh_block s) = LOGSIZE \<and> lh_n s + int k + 3 \<le> int NBUF \<and> lh_n s + int k \<le> log_size s - 1 \<and>
     1 \<le> log_outstanding s"

text \<open>\<open>moved s s'\<close>: what a step leaves alone besides the contents of blocks.\<close>

definition moved :: "'a klog_scheme \<Rightarrow> 'a klog_scheme \<Rightarrow> bool" where
  "moved s s' \<longleftrightarrow> held s' = held s \<and> (\<forall>j c. mine s j c \<longrightarrow> mine s' j c) \<and>
     length (disk s') = length (disk s) \<and> klog.more s' = klog.more s"

lemma moved_refl: "moved s s"
  by (simp add: moved_def)

lemma moved_trans: "moved s s' \<Longrightarrow> moved s' s'' \<Longrightarrow> moved s s''"
  by (simp add: moved_def)

lemma fsv_mono: "fsv k s \<Longrightarrow> j \<le> k \<Longrightarrow> fsv j s"
  by (auto simp: fsv_def)

lemma logged_cong:
  assumes "kio.more s' = kio.more s"
  shows "logged s' = logged s"
  unfolding logged_def klog_more_cong [OF assms] ..

lemma fsv_room: "fsv (Suc k) s \<Longrightarrow> log_room s"
  by (simp add: fsv_def log_room_def NBUF_def LOGSIZE_def)

lemma fsv_card: "fsv k s \<Longrightarrow> card (held s \<union> dirty s) < NBUF"
proof -
  assume v: "fsv k s"
  then have h: "card (held s) \<le> 2" "dirty s = set (logged s)" "0 \<le> lh_n s" and n: "lh_n s + int k + 3 \<le> int NBUF"
    by (simp_all add: fsv_def)
  have "card (set (logged s)) \<le> nat (lh_n s)"
    using card_length [of "logged s"] by (simp add: logged_def)
  moreover have "nat (lh_n s) + 3 \<le> NBUF" using h(3) n by linarith
  moreover have "card (held s \<union> dirty s) \<le> card (held s) + card (dirty s)" by (rule card_Un_le)
  ultimately show ?thesis using h(1) unfolding h(2) by linarith
qed

text \<open>Opening a block that stays held, storing into it, giving it back.\<close>

lemma fs_open:
  assumes v: "fsv k s" and b: "unat b < length (disk s)" "b \<notin> held s" and h: "card (held s) \<le> 1"
  obtains i s1 where "bread 1 b s = Ok (i, s1)" "b_data (bufs s1 ! i) = cblock s b" "mine s1 i b"
    "held s1 = insert b (held s)" "fsv k s1" "cblock s1 = cblock s" "length (disk s1) = length (disk s)"
    "klog.more s1 = klog.more s" "b \<in> dirty s1 \<or> disk s1 ! unat b = cblock s b"
    "\<forall>j c. mine s j c \<longrightarrow> mine s1 j c"
proof -
  have inv: "binv s" using v by (simp add: fsv_def)
  have room: "b \<in> dirty s \<or> card (held s \<union> dirty s) < NBUF" using fsv_card [OF v] by simp
  obtain i s1 where r: "bread 1 b s = Ok (i, s1)" "mine s1 i b" "binv s1"
    "held s1 = insert b (held s)" "dirty s1 = dirty s" "cblock s1 = cblock s" "only_bufs s s1"
    "\<forall>j c. mine s j c \<longrightarrow> mine s1 j c" "b_data (bufs s1 ! i) = cblock s b"
    by (rule bread_ok [OF inv b room]) (rule that)
  note ob = only_bufsD [OF r(7)]
  have more: "kio.more s1 = kio.more s" using ob by simp
  have "card (held s1) \<le> 2" unfolding r(4) using h b(2) by simp
  then have "fsv k s1" using v r(3,5)
    unfolding fsv_def logged_cong [OF more] klog_more_cong [OF more] by simp
  moreover have "b \<in> dirty s1 \<or> disk s1 ! unat b = cblock s b"
    using cblock_clean [OF inv b(2)] ob(1) r(5) by (cases "b \<in> dirty s") simp_all
  moreover have "length (disk s1) = length (disk s)" using ob(1) by simp
  ultimately show thesis using that r klog_more_cong(8) [OF more] by simp
qed

lemma fs_store:
  assumes v: "fsv (Suc k) s" and m: "mine s i b"
  obtains s' where "log_write i (set_data i d s) = Ok s'" "fsv k s'" "moved s s'"
    "cblock s' = (cblock s)(b := d)" "b \<in> dirty s'" "mine s' = mine s"
proof -
  have inv: "binv s" using v by (simp add: fsv_def)
  note st = store_ok [OF inv m, of d, folded set_data_def]
  note ob = only_bufsD [OF st(6)]
  have more: "kio.more (set_data i d s) = kio.more s" using ob by simp
  have v1: "fsv (Suc k) (set_data i d s)" using v st(1,3,4)
    unfolding fsv_def logged_cong [OF more] klog_more_cong [OF more] by simp
  have m1: "mine (set_data i d s) i b" using st(2) m by simp
  obtain s' where w: "log_write i (set_data i d s) = Ok s'" "binv s'" "mine s' = mine (set_data i d s)"
    "held s' = held (set_data i d s)" "dirty s' = insert b (dirty (set_data i d s))"
    "cblock s' = cblock (set_data i d s)" "disk s' = disk (set_data i d s)"
    "klog.more s' = klog.more (set_data i d s)"
    "logged s' = (if b \<in> set (logged (set_data i d s)) then logged (set_data i d s) else logged (set_data i d s) @ [b])"
    "lh_n s' = (if b \<in> set (logged (set_data i d s)) then lh_n (set_data i d s) else lh_n (set_data i d s) + 1)"
    "log_size s' = log_size (set_data i d s)" "log_outstanding s' = log_outstanding (set_data i d s)"
    "length (lh_block s') = LOGSIZE"
    by (rule log_write_ok [OF st(1) m1 fsv_room [OF v1]]) (rule that)
  have d: "dirty s' = set (logged s')" using w(5,9) v1 by (auto simp: fsv_def)
  have "fsv k s'" using v1 w(2,4,10-13) d by (auto simp: fsv_def)
  moreover have "moved s s'"
    using w(3,4,7,8) st(2,3) ob klog_more_cong(8) [OF more] by (simp add: moved_def)
  ultimately show thesis using that w(1,3,5,6) st(2,5) by simp
qed

lemma fs_close:
  assumes v: "fsv k s" and m: "mine s i b" and d: "b \<in> dirty s \<or> disk s ! unat b = cblock s b"
  obtains s' where "brelse i s = Ok s'" "fsv k s'" "held s' = held s - {b}" "cblock s' = cblock s"
    "length (disk s') = length (disk s)" "klog.more s' = klog.more s"
    "\<forall>j c. mine s j c \<and> c \<noteq> b \<longrightarrow> mine s' j c"
proof -
  have inv: "binv s" using v by (simp add: fsv_def)
  have d': "b \<in> dirty s \<or> cblock s b = disk s ! unat b" using d by auto
  obtain s2 where e: "brelse i s = Ok s2" "binv s2"
    "mine s2 = (\<lambda>j c. mine s j c \<and> c \<noteq> b)" "held s2 = held s - {b}" "dirty s2 = dirty s"
    "cblock s2 = cblock s" "disk s2 = disk s" "dtrace s2 = dtrace s" "mypid s2 = mypid s"
    "kio.more s2 = kio.more s" by (rule brelse_ok [OF inv m d']) (rule that)
  have "card (held s2) \<le> card (held s)" unfolding e(4) by (rule card_mono [OF finite_held Diff_subset])
  then have "fsv k s2" using v e(2,5)
    unfolding fsv_def logged_cong [OF e(10)] klog_more_cong [OF e(10)] by simp
  then show thesis using that e(1,3,4,6,7) klog_more_cong(8) [OF e(10)] by simp
qed

text \<open>The two ways in which the file system uses a block: look and give back, or change and log.\<close>

lemma fs_read:
  assumes v: "fsv k s" and b: "unat b < length (disk s)" "b \<notin> held s" "card (held s) \<le> 1"
  obtains i s1 s2 where "bread 1 b s = Ok (i, s1)" "b_data (bufs s1 ! i) = cblock s b" "klog.more s1 = klog.more s"
    "brelse i s1 = Ok s2" "fsv k s2" "moved s s2" "cblock s2 = cblock s"
proof -
  obtain i s1 where r: "bread 1 b s = Ok (i, s1)" "b_data (bufs s1 ! i) = cblock s b" "mine s1 i b"
    "held s1 = insert b (held s)" "fsv k s1" "cblock s1 = cblock s" "length (disk s1) = length (disk s)"
    "klog.more s1 = klog.more s" "b \<in> dirty s1 \<or> disk s1 ! unat b = cblock s b"
    "\<forall>j c. mine s j c \<longrightarrow> mine s1 j c"
    by (rule fs_open [OF v b]) (rule that)
  have d: "b \<in> dirty s1 \<or> disk s1 ! unat b = cblock s1 b" using r(6,9) by simp
  obtain s2 where e: "brelse i s1 = Ok s2" "fsv k s2" "held s2 = held s1 - {b}" "cblock s2 = cblock s1"
    "length (disk s2) = length (disk s1)" "klog.more s2 = klog.more s1"
    "\<forall>j c. mine s1 j c \<and> c \<noteq> b \<longrightarrow> mine s2 j c"
    by (rule fs_close [OF r(5,3) d]) (rule that)
  have "mine s2 j c" if "mine s j c" for j c using that r(10) e(7) mine_held [OF that] b(2) by blast
  moreover have "held s2 = held s" using e(3) r(4) b(2) by auto
  ultimately have "moved s s2" using e(5,6) r(7,8) by (simp add: moved_def)
  then show thesis using that r(1,2,6,8) e(1,2,4) by simp
qed

lemma fs_modify:
  assumes v: "fsv (Suc k) s" and b: "unat b < length (disk s)" "b \<notin> held s" "card (held s) \<le> 1"
  obtains i s1 where "bread 1 b s = Ok (i, s1)" "b_data (bufs s1 ! i) = cblock s b" "klog.more s1 = klog.more s"
    "\<And>d. \<exists>s2 s3. log_write i (set_data i d s1) = Ok s2 \<and> brelse i s2 = Ok s3 \<and> fsv k s3 \<and> moved s s3 \<and>
       cblock s3 = (cblock s)(b := d)"
proof -
  obtain i s1 where r: "bread 1 b s = Ok (i, s1)" "b_data (bufs s1 ! i) = cblock s b" "mine s1 i b"
    "held s1 = insert b (held s)" "fsv (Suc k) s1" "cblock s1 = cblock s" "length (disk s1) = length (disk s)"
    "klog.more s1 = klog.more s" "b \<in> dirty s1 \<or> disk s1 ! unat b = cblock s b"
    "\<forall>j c. mine s j c \<longrightarrow> mine s1 j c"
    by (rule fs_open [OF v b]) (rule that)
  have "\<exists>s2 s3. log_write i (set_data i d s1) = Ok s2 \<and> brelse i s2 = Ok s3 \<and> fsv k s3 \<and> moved s s3 \<and>
       cblock s3 = (cblock s)(b := d)" for d
  proof -
    obtain s2 where w: "log_write i (set_data i d s1) = Ok s2" "fsv k s2" "moved s1 s2"
      "cblock s2 = (cblock s1)(b := d)" "b \<in> dirty s2" "mine s2 = mine s1"
      by (rule fs_store [OF r(5,3)]) (rule that)
    have m: "mine s2 i b" using w(6) r(3) by simp
    obtain s3 where e: "brelse i s2 = Ok s3" "fsv k s3" "held s3 = held s2 - {b}" "cblock s3 = cblock s2"
      "length (disk s3) = length (disk s2)" "klog.more s3 = klog.more s2"
      "\<forall>j c. mine s2 j c \<and> c \<noteq> b \<longrightarrow> mine s3 j c"
      by (rule fs_close [OF w(2) m disjI1 [OF w(5)]]) (rule that)
    have "mine s3 j c" if "mine s j c" for j c using that r(10) w(6) e(7) mine_held [OF that] b(2) by metis
    moreover have "held s3 = held s" using e(3) w(3) r(4) b(2) by (auto simp: moved_def)
    ultimately have "moved s s3" using e(5,6) w(3) r(7,8) by (simp add: moved_def)
    then show ?thesis using w(1,4) e(1,2,4) r(6) by auto
  qed
  then show thesis using that r(1,2,8) by blast
qed

section \<open>The free map\<close>

lemma kfs_more_cong:
  assumes "klog.more s' = klog.more s"
  shows "sb s' = sb s" "icache s' = icache s" "devsw s' = devsw s"
  using assms by (cases s; cases s'; simp)+

definition fssize :: "'a kfs_scheme \<Rightarrow> nat" where
  "fssize s = unat (sb_size (sb s))"

definition is_free :: "'a kfs_scheme \<Rightarrow> uint \<Rightarrow> bool" where
  "is_free s b \<longleftrightarrow> bit_free (cblock s (BBLOCK b (sb s))) (unat b mod BPB)"

text \<open>
  The map is on the disk, every block has its size, block 0 and the blocks of the map itself
  are in use.
\<close>

definition fmap_ok :: "'a kfs_scheme \<Rightarrow> bool" where
  "fmap_ok s \<longleftrightarrow> fssize s \<le> length (disk s) \<and>
     unat (sb_bmapstart (sb s)) + fssize s div BPB < 2 ^ 32 \<and>
     (\<forall>b. unat b < length (disk s) \<longrightarrow> length (cblock s b) = BSIZE) \<and> \<not> is_free s 0 \<and>
     (\<forall>b. unat b < fssize s \<longrightarrow> unat (BBLOCK b (sb s)) < fssize s \<and> \<not> is_free s (BBLOCK b (sb s)))"

text \<open>Held blocks are neither free nor part of the map.\<close>

definition held_ok :: "'a kfs_scheme \<Rightarrow> bool" where
  "held_ok s \<longleftrightarrow> card (held s) \<le> 1 \<and>
     (\<forall>c \<in> held s. unat c < fssize s \<and> \<not> is_free s c \<and> (\<forall>b. unat b < fssize s \<longrightarrow> BBLOCK b (sb s) \<noteq> c))"

lemma moved_kfs:
  assumes "moved s s'"
  shows "sb s' = sb s" "icache s' = icache s" "devsw s' = devsw s" "fssize s' = fssize s"
    "length (disk s') = length (disk s)" "held s' = held s"
  using assms kfs_more_cong [of s' s] by (simp_all add: moved_def fssize_def)

lemma fmap_cong:
  assumes "moved s s'" "cblock s' = cblock s"
  shows "is_free s' b = is_free s b" "fmap_ok s' = fmap_ok s" "held_ok s' = held_ok s"
  using moved_kfs [OF assms(1)] assms(2) by (simp_all add: is_free_def fmap_ok_def held_ok_def)

lemma unat_BBLOCK:
  assumes "fmap_ok s" "unat b < fssize s"
  shows "unat (BBLOCK b (sb s)) = unat b div BPB + unat (sb_bmapstart (sb s))"
proof -
  have "unat b div BPB \<le> fssize s div BPB" using assms(2) by (intro div_le_mono) simp
  then have "unat b div BPB + unat (sb_bmapstart (sb s)) < 2 ^ 32" using assms(1) by (auto simp: fmap_ok_def)
  moreover have "unat (b div of_nat BPB) = unat b div BPB" by (simp add: unat_div BPB_def BSIZE_def)
  ultimately show ?thesis by (simp add: BBLOCK_def unat_word_ariths)
qed

lemma BBLOCK_eq_iff:
  assumes "fmap_ok s" "unat b < fssize s" "unat c < fssize s"
  shows "BBLOCK b (sb s) = BBLOCK c (sb s) \<longleftrightarrow> unat b div BPB = unat c div BPB"
  unfolding word_unat_eq_iff unat_BBLOCK [OF assms(1,2)] unat_BBLOCK [OF assms(1,3)] by simp

lemma bit_free_iff: "bit_free d i \<longleftrightarrow> \<not> bit (d ! (i div 8)) (i mod 8)"
proof -
  have "(w AND push_bit j 1 = 0) \<longleftrightarrow> \<not> bit w j" if "j < 8" for w :: uchar and j
  proof -
    have "w AND push_bit j 1 = (if bit w j then push_bit j 1 else 0)"
      by (rule bit_word_eqI) (auto simp: bit_simps)
    moreover have "(push_bit j 1 :: uchar) \<noteq> 0" using that by (auto simp: bit_eq_iff bit_simps)
    ultimately show ?thesis by simp
  qed
  then show ?thesis by (simp add: bit_free_def)
qed

lemma bit_free_mark:
  assumes "i < 8 * length d" "j < 8 * length d"
  shows "bit_free (bit_mark d i) j \<longleftrightarrow> bit_free d j \<and> j \<noteq> i"
proof (cases "j div 8 = i div 8")
  case True
  then have "j = i \<longleftrightarrow> j mod 8 = i mod 8" by (metis div_mult_mod_eq)
  then show ?thesis using True assms by (auto simp: bit_free_iff bit_mark_def bit_simps)
next
  case False
  then show ?thesis by (auto simp: bit_free_iff bit_mark_def)
qed

lemma bit_free_clear:
  assumes "i < 8 * length d" "j < 8 * length d"
  shows "bit_free (bit_clear d i) j \<longleftrightarrow> bit_free d j \<or> j = i"
proof (cases "j div 8 = i div 8")
  case True
  then have "j = i \<longleftrightarrow> j mod 8 = i mod 8" by (metis div_mult_mod_eq)
  then show ?thesis using True assms by (auto simp: bit_free_iff bit_clear_def bit_simps)
next
  case False
  then show ?thesis by (auto simp: bit_free_iff bit_clear_def)
qed

lemma length_bit_ops [simp]: "length (bit_mark d i) = length d" "length (bit_clear d i) = length d"
  by (simp_all add: bit_mark_def bit_clear_def)

lemma fmap_okD:
  assumes "fmap_ok s" "unat b < fssize s"
  shows "unat (BBLOCK b (sb s)) < fssize s" "\<not> is_free s (BBLOCK b (sb s))" "unat b < length (disk s)"
    "unat (BBLOCK b (sb s)) < length (disk s)" "length (cblock s (BBLOCK b (sb s))) = BSIZE"
proof -
  show *: "unat (BBLOCK b (sb s)) < fssize s" "\<not> is_free s (BBLOCK b (sb s))" using assms by (simp_all add: fmap_ok_def)
  have le: "fssize s \<le> length (disk s)" using assms(1) by (simp add: fmap_ok_def)
  then show "unat b < length (disk s)" "unat (BBLOCK b (sb s)) < length (disk s)" using assms(2) *(1) by simp_all
  then show "length (cblock s (BBLOCK b (sb s))) = BSIZE" using assms(1) by (simp add: fmap_ok_def)
qed

text \<open>A block of the map rewritten, and a block outside the map.\<close>

lemma is_free_update:
  assumes ok: "fmap_ok s" and mv: "moved s s'" and a: "unat a < fssize s" "unat c < fssize s"
    and cb: "cblock s' = (cblock s)(BBLOCK a (sb s) := d)" and d: "length d = BSIZE"
    "\<And>j. j < BPB \<Longrightarrow> bit_free d j \<longleftrightarrow> F (bit_free (cblock s (BBLOCK a (sb s))) j) (j = unat a mod BPB)"
  and F: "\<And>x. F x False = x"
  shows "is_free s' c \<longleftrightarrow> F (is_free s c) (c = a)"
proof (cases "unat c div BPB = unat a div BPB")
  case True
  have eq: "BBLOCK c (sb s) = BBLOCK a (sb s)" using BBLOCK_eq_iff [OF ok a(2,1)] True by simp
  have "unat c mod BPB < BPB" by (simp add: BPB_def BSIZE_def)
  moreover have "(unat c mod BPB = unat a mod BPB) = (c = a)"
    using True by (metis div_mult_mod_eq word_unat_eq_iff)
  ultimately show ?thesis using d(2) [of "unat c mod BPB"] eq cb moved_kfs(1) [OF mv] by (simp add: is_free_def)
next
  case False
  then have "BBLOCK c (sb s) \<noteq> BBLOCK a (sb s)" "c \<noteq> a" using BBLOCK_eq_iff [OF ok a(2,1)] by auto
  then show ?thesis using F cb moved_kfs(1) [OF mv] by (simp add: is_free_def)
qed

lemma is_free_outside:
  assumes mv: "moved s s'" and cb: "cblock s' = (cblock s)(x := d)"
    and x: "\<And>b. unat b < fssize s \<Longrightarrow> BBLOCK b (sb s) \<noteq> x" and c: "unat c < fssize s"
  shows "is_free s' c = is_free s c"
  using x [OF c] cb moved_kfs(1) [OF mv] by (simp add: is_free_def)

lemma fmap_ok_step:
  assumes ok: "fmap_ok s" and mv: "moved s s'"
    and len: "\<And>b. unat b < length (disk s) \<Longrightarrow> length (cblock s' b) = BSIZE"
    and nf: "\<And>b. unat b < fssize s \<Longrightarrow> \<not> is_free s' (BBLOCK b (sb s))" "\<not> is_free s' 0"
  shows "fmap_ok s'"
  using ok len nf moved_kfs [OF mv] by (simp add: fmap_ok_def)

text \<open>What \<^verbatim>\<open>balloc\<close> does: the block \<open>a\<close> is marked in the map and filled with zeros.\<close>

definition took :: "uint \<Rightarrow> 'a kfs_scheme \<Rightarrow> 'a kfs_scheme \<Rightarrow> bool" where
  "took a s s' \<longleftrightarrow> unat a < fssize s \<and> a \<noteq> 0 \<and> is_free s a \<and> moved s s' \<and> fmap_ok s' \<and>
     (\<forall>c. unat c < fssize s \<longrightarrow> (is_free s' c \<longleftrightarrow> is_free s c \<and> c \<noteq> a)) \<and>
     cblock s' a = replicate BSIZE 0 \<and>
     (\<forall>c. c \<noteq> a \<longrightarrow> (\<forall>b. unat b < fssize s \<longrightarrow> BBLOCK b (sb s) \<noteq> c) \<longrightarrow> cblock s' c = cblock s c)"

lemma tookI:
  assumes ok: "fmap_ok s" and a: "unat a < fssize s" "is_free s a"
    and s1: "moved s s1" "cblock s1 = (cblock s)(BBLOCK a (sb s) := bit_mark (cblock s (BBLOCK a (sb s))) (unat a mod BPB))"
    and s2: "moved s1 s2" "cblock s2 = (cblock s1)(a := replicate BSIZE 0)"
  shows "took a s s2"
proof -
  note aD = fmap_okD [OF ok a(1)]
  have map: "BBLOCK b (sb s) \<noteq> a" if "unat b < fssize s" for b using fmap_okD(2) [OF ok that] a(2) by auto
  have nz: "a \<noteq> 0" using ok a(2) by (auto simp: fmap_ok_def)
  have bits: "bit_free (bit_mark (cblock s (BBLOCK a (sb s))) (unat a mod BPB)) j \<longleftrightarrow>
      bit_free (cblock s (BBLOCK a (sb s))) j \<and> \<not> j = unat a mod BPB" if "j < BPB" for j
    using that aD(5) by (subst bit_free_mark) (auto simp: BPB_def BSIZE_def)
  have free1: "is_free s1 c \<longleftrightarrow> is_free s c \<and> \<not> c = a" if "unat c < fssize s" for c
    by (rule is_free_update [OF ok s1(1) a(1) that s1(2)]) (use aD(5) bits in simp_all)
  have sb1: "sb s1 = sb s" "fssize s1 = fssize s" using moved_kfs [OF s1(1)] by simp_all
  have free2: "is_free s2 c = is_free s1 c" if "unat c < fssize s" for c
    by (rule is_free_outside [OF s2]) (use map that in \<open>simp_all add: sb1\<close>)
  have free: "is_free s2 c \<longleftrightarrow> is_free s c \<and> c \<noteq> a" if "unat c < fssize s" for c
    using free1 [OF that] free2 [OF that] by simp
  have mv: "moved s s2" using s1(1) s2(1) by (rule moved_trans)
  have "length (cblock s2 b) = BSIZE" if "unat b < length (disk s)" for b
    using that ok aD(5) by (auto simp: s2(2) s1(2) fmap_ok_def)
  moreover have "\<not> is_free s2 (BBLOCK b (sb s))" if "unat b < fssize s" for b
    using free [OF fmap_okD(1) [OF ok that]] fmap_okD(2) [OF ok that] by simp
  moreover have "\<not> is_free s2 0" using free [of 0] a(1) ok by (simp add: fmap_ok_def)
  ultimately have "fmap_ok s2" by (intro fmap_ok_step [OF ok mv]) auto
  moreover have "cblock s2 c = cblock s c" if "c \<noteq> a" "\<forall>b. unat b < fssize s \<longrightarrow> BBLOCK b (sb s) \<noteq> c" for c
    using that(1) that(2) [rule_format, OF a(1)] by (simp add: s2(2) s1(2))
  ultimately show ?thesis using a nz mv free s2(2) by (simp add: took_def)
qed

lemma bzero_ok:
  assumes "fsv (Suc k) s" "unat b < length (disk s)" "b \<notin> held s" "card (held s) \<le> 1"
  obtains s' where "bzero 1 b s = Ok s'" "fsv k s'" "moved s s'" "cblock s' = (cblock s)(b := replicate BSIZE 0)"
proof -
  obtain i s1 where r: "bread 1 b s = Ok (i, s1)" "b_data (bufs s1 ! i) = cblock s b" "klog.more s1 = klog.more s"
    "\<And>d. \<exists>s2 s3. log_write i (set_data i d s1) = Ok s2 \<and> brelse i s2 = Ok s3 \<and> fsv k s3 \<and> moved s s3 \<and>
       cblock s3 = (cblock s)(b := d)"
    by (rule fs_modify [OF assms]) (rule that)
  from r(4) [of "replicate BSIZE 0"] obtain s2 s3 where w: "log_write i (set_data i (replicate BSIZE 0) s1) = Ok s2"
    "brelse i s2 = Ok s3" "fsv k s3" "moved s s3" "cblock s3 = (cblock s)(b := replicate BSIZE 0)" by blast
  have "bzero 1 b s = Ok s3" using r(1) w(1,2) by (simp add: bzero_def)
  then show thesis using that w(3-5) by blast
qed

text \<open>The search in one block of the map, and the whole search.\<close>

lemma map_block_search:
  assumes ok: "fmap_ok s" and b: "b mod BPB = 0" "b < fssize s"
  shows "find (bit_free (cblock s (BBLOCK (of_nat b) (sb s)))) [0..<min BPB (fssize s - b)] = Some bi \<Longrightarrow>
      unat (of_nat (b + bi) :: uint) = b + bi \<and> b + bi < fssize s \<and> bi = (b + bi) mod BPB \<and>
      BBLOCK (of_nat (b + bi)) (sb s) = BBLOCK (of_nat b) (sb s) \<and> is_free s (of_nat (b + bi))"
    and "find (bit_free (cblock s (BBLOCK (of_nat b) (sb s)))) [0..<min BPB (fssize s - b)] = None \<Longrightarrow>
      b \<le> unat c \<Longrightarrow> unat c < b + BPB \<Longrightarrow> unat c < fssize s \<Longrightarrow> \<not> is_free s c"
proof -
  have N: "fssize s < 2 ^ 32" using unat_uint_lt by (simp add: fssize_def)
  have u: "unat (of_nat x :: uint) = x" if "x < fssize s" for x using that N by (simp add: unat_of_nat)
  have same: "BBLOCK c (sb s) = BBLOCK (of_nat b) (sb s) \<and> unat c mod BPB = unat c - b"
    if "b \<le> unat c" "unat c < b + BPB" "unat c < fssize s" for c
  proof -
    obtain q where q: "b = BPB * q" using b(1) by (auto dest!: mod_0_imp_dvd elim!: dvdE)
    have r: "unat c = b + (unat c - b)" "unat c - b < BPB" using that by simp_all
    have "unat c div BPB = q" "unat c mod BPB = unat c - b" "b div BPB = q"
      by (subst r(1), use q r(2) in \<open>simp add: BPB_def BSIZE_def\<close>)+ (use q in \<open>simp add: BPB_def BSIZE_def\<close>)
    moreover have "unat (of_nat b :: uint) < fssize s" using u b(2) by simp
    ultimately show ?thesis using BBLOCK_eq_iff [OF ok that(3), of "of_nat b"] u [OF b(2)] by simp
  qed
  show "unat (of_nat (b + bi) :: uint) = b + bi \<and> b + bi < fssize s \<and> bi = (b + bi) mod BPB \<and>
      BBLOCK (of_nat (b + bi)) (sb s) = BBLOCK (of_nat b) (sb s) \<and> is_free s (of_nat (b + bi))"
    if "find (bit_free (cblock s (BBLOCK (of_nat b) (sb s)))) [0..<min BPB (fssize s - b)] = Some bi"
  proof -
    have f: "bit_free (cblock s (BBLOCK (of_nat b) (sb s))) bi" "bi < BPB" "b + bi < fssize s"
      using find_SomeD [OF that] by auto
    have "unat (of_nat (b + bi) :: uint) = b + bi" by (rule u [OF f(3)])
    then show ?thesis using same [of "of_nat (b + bi)"] f by (simp add: is_free_def del: of_nat_add)
  qed
  show "\<not> is_free s c" if "find (bit_free (cblock s (BBLOCK (of_nat b) (sb s)))) [0..<min BPB (fssize s - b)] = None"
    "b \<le> unat c" "unat c < b + BPB" "unat c < fssize s"
    using that(1) same [OF that(2-4)] that(2-4) by (auto simp: find_None_iff is_free_def)
qed

lemma balloc_from_ok:
  assumes "fsv (Suc (Suc k)) s" "fmap_ok s" "held_ok s" "b mod BPB = 0"
    "\<And>c. unat c < b \<Longrightarrow> unat c < fssize s \<Longrightarrow> \<not> is_free s c" "\<exists>c. unat c < fssize s \<and> is_free s c"
  shows "\<exists>a s'. balloc_from 1 (fssize s) b s = Ok (a, s') \<and> took a s s' \<and> fsv k s'"
  using assms
proof (induction "fssize s - b" arbitrary: b s rule: less_induct)
  case less
  note v = less.prems(1) and ok = less.prems(2) and ho = less.prems(3)
  have b: "b < fssize s" using less.prems(5,6) by (meson not_le order.strict_trans2)
  let ?m = "BBLOCK (of_nat b) (sb s)"
  have ub: "unat (of_nat b :: uint) < fssize s"
    using b unat_uint_lt [of "sb_size (sb s)"] by (simp add: fssize_def unat_of_nat)
  have m: "unat ?m < length (disk s)" "?m \<notin> held s" using fmap_okD(4) [OF ok ub] ho ub by (auto simp: held_ok_def)
  have h: "card (held s) \<le> 1" using ho by (simp add: held_ok_def)
  show ?case
  proof (cases "find (bit_free (cblock s ?m)) [0..<min BPB (fssize s - b)]")
    case None
    obtain i s1 s2 where r: "bread 1 ?m s = Ok (i, s1)" "b_data (bufs s1 ! i) = cblock s ?m" "klog.more s1 = klog.more s"
      "brelse i s1 = Ok s2" "fsv (Suc (Suc k)) s2" "moved s s2" "cblock s2 = cblock s"
      by (rule fs_read [OF v m h]) (rule that)
    note mv = moved_kfs [OF r(6)] and cg = fmap_cong [OF r(6,7)]
    have "balloc_from 1 (fssize s) b s = balloc_from 1 (fssize s2) (b + BPB) s2"
      by (subst balloc_from.simps) (simp add: b r None mv)
    moreover have "\<exists>a s'. balloc_from 1 (fssize s2) (b + BPB) s2 = Ok (a, s') \<and> took a s2 s' \<and> fsv k s'"
    proof (rule less.hyps [OF _ r(5)])
      show "fssize s2 - (b + BPB) < fssize s - b" using b by (simp add: mv BPB_def BSIZE_def)
      show "fmap_ok s2" "held_ok s2" using ok ho cg by simp_all
      show "(b + BPB) mod BPB = 0" using less.prems(4) by simp
      show "\<exists>c. unat c < fssize s2 \<and> is_free s2 c" using less.prems(6) cg mv by simp
      show "\<not> is_free s2 c" if "unat c < b + BPB" "unat c < fssize s2" for c
        using map_block_search(2) [OF ok less.prems(4) b None, of c] less.prems(5) [of c] that cg mv by (cases "b \<le> unat c") simp_all
    qed
    moreover have "took a s s'" if "took a s2 s'" for a s'
      using that cg mv r(6,7) moved_trans [OF r(6)] by (simp add: took_def)
    ultimately show ?thesis by metis
  next
    case (Some bi)
    note f = map_block_search(1) [OF ok less.prems(4) b Some]
    let ?a = "of_nat (b + bi) :: uint"
    let ?d = "bit_mark (cblock s ?m) bi"
    obtain i s1 where r: "bread 1 ?m s = Ok (i, s1)" "b_data (bufs s1 ! i) = cblock s ?m" "klog.more s1 = klog.more s"
      "\<And>d. \<exists>s2 s3. log_write i (set_data i d s1) = Ok s2 \<and> brelse i s2 = Ok s3 \<and> fsv (Suc k) s3 \<and> moved s s3 \<and>
         cblock s3 = (cblock s)(?m := d)"
      by (rule fs_modify [OF v m h]) (rule that)
    from r(4) [of ?d] obtain s2 s3 where w: "log_write i (set_data i ?d s1) = Ok s2" "brelse i s2 = Ok s3"
      "fsv (Suc k) s3" "moved s s3" "cblock s3 = (cblock s)(?m := ?d)" by blast
    have a: "unat ?a < fssize s" "is_free s ?a" using f by simp_all
    have z: "unat ?a < length (disk s3)" "?a \<notin> held s3" "card (held s3) \<le> 1"
      using fmap_okD(3) [OF ok a(1)] ho a moved_kfs [OF w(4)] by (auto simp: held_ok_def)
    obtain s4 where e: "bzero 1 ?a s3 = Ok s4" "fsv k s4" "moved s3 s4" "cblock s4 = (cblock s3)(?a := replicate BSIZE 0)"
      by (rule bzero_ok [OF w(3) z]) (rule that)
    have "took ?a s s4"
      by (rule tookI [OF ok a w(4) _ e(3,4)]) (use w(5) f in simp)
    moreover have "balloc_from 1 (fssize s) b s = Ok (?a, s4)"
      by (subst balloc_from.simps) (use b r(1,2) w(1,2) e(1) Some in simp)
    ultimately show ?thesis using e(2) by blast
  qed
qed

lemma balloc_ok:
  assumes "fsv (Suc (Suc k)) s" "fmap_ok s" "held_ok s" "\<exists>c. unat c < fssize s \<and> is_free s c"
  shows "\<exists>a s'. balloc 1 s = Ok (a, s') \<and> took a s s' \<and> fsv k s'"
  using balloc_from_ok [OF assms(1-3), of 0] assms(4) by (simp add: balloc_def fssize_def)

lemma bfree_ok:
  assumes v: "fsv (Suc k) s" and ok: "fmap_ok s" and ho: "held_ok s"
    and b: "unat b < fssize s" "\<not> is_free s b" "b \<noteq> 0" "\<And>c. unat c < fssize s \<Longrightarrow> BBLOCK c (sb s) \<noteq> b"
  shows "\<exists>s'. bfree 1 b s = Ok s' \<and> fsv k s' \<and> moved s s' \<and> fmap_ok s' \<and>
    (\<forall>c. unat c < fssize s \<longrightarrow> (is_free s' c \<longleftrightarrow> is_free s c \<or> c = b)) \<and>
    (\<forall>c. (\<forall>x. unat x < fssize s \<longrightarrow> BBLOCK x (sb s) \<noteq> c) \<longrightarrow> cblock s' c = cblock s c)"
proof -
  let ?m = "BBLOCK b (sb s)"
  note bD = fmap_okD [OF ok b(1)]
  have m: "?m \<notin> held s" "card (held s) \<le> 1" using ho b(1) by (auto simp: held_ok_def)
  obtain i s1 where r: "bread 1 ?m s = Ok (i, s1)" "b_data (bufs s1 ! i) = cblock s ?m" "klog.more s1 = klog.more s"
    "\<And>d. \<exists>s2 s3. log_write i (set_data i d s1) = Ok s2 \<and> brelse i s2 = Ok s3 \<and> fsv k s3 \<and> moved s s3 \<and>
       cblock s3 = (cblock s)(?m := d)"
    by (rule fs_modify [OF v bD(4) m]) (rule that)
  let ?d = "bit_clear (cblock s ?m) (unat b mod BPB)"
  from r(4) [of ?d] obtain s2 s3 where w: "log_write i (set_data i ?d s1) = Ok s2" "brelse i s2 = Ok s3"
    "fsv k s3" "moved s s3" "cblock s3 = (cblock s)(?m := ?d)" by blast
  have used: "\<not> bit_free (cblock s ?m) (unat b mod BPB)" using b(2) by (simp add: is_free_def)
  have run: "bfree 1 b s = Ok s3" using r(1,2) w(1,2) used by (simp add: bfree_def Let_def guardR_def)
  have bits: "bit_free ?d j \<longleftrightarrow> bit_free (cblock s ?m) j \<or> j = unat b mod BPB" if "j < BPB" for j
    using that bD(5) by (subst bit_free_clear) (auto simp: BPB_def BSIZE_def)
  have free: "is_free s3 c \<longleftrightarrow> is_free s c \<or> c = b" if "unat c < fssize s" for c
    by (rule is_free_update [OF ok w(4) b(1) that w(5)]) (use bD(5) bits in simp_all)
  have "length (cblock s3 c) = BSIZE" if "unat c < length (disk s)" for c
    using that ok bD(5) by (auto simp: w(5) fmap_ok_def)
  moreover have "\<not> is_free s3 (BBLOCK c (sb s))" if "unat c < fssize s" for c
    using free [OF fmap_okD(1) [OF ok that]] fmap_okD(2) [OF ok that] b(4) [OF that] by simp
  moreover have "\<not> is_free s3 0" using free [of 0] b(1,3) ok by (simp add: fmap_ok_def)
  ultimately have "fmap_ok s3" by (intro fmap_ok_step [OF ok w(4)]) auto
  then show ?thesis using run w(3,4,5) free b(1) by auto
qed

end
