(* ===== verification/Fs_Files.thy ===== *)
theory Fs_Files
  imports Fs_Blocks
begin

text \<open>
  The contents of files: which disk blocks a file owns, what \<^verbatim>\<open>bmap\<close> does to them, and
  \<^verbatim>\<open>readi\<close> and \<^verbatim>\<open>writei\<close> as access to an array of bytes.
\<close>

section \<open>The blocks of a file\<close>

text \<open>A block that a file may own: on the disk, in use, not part of the map.\<close>

definition good :: "'a kfs_scheme \<Rightarrow> uint \<Rightarrow> bool" where
  "good s a \<longleftrightarrow> unat a < fssize s \<and> \<not> is_free s a \<and> (\<forall>b. unat b < fssize s \<longrightarrow> BBLOCK b (sb s) \<noteq> a)"

text \<open>The blocks \<open>f\<close> of a file and its indirect block \<open>d\<close>: its own and all different, 0 for none.\<close>

definition blocks_ok :: "'a kfs_scheme \<Rightarrow> (nat \<Rightarrow> uint) \<Rightarrow> uint \<Rightarrow> bool" where
  "blocks_ok s f d \<longleftrightarrow> (\<forall>m < MAXFILE. f m \<noteq> 0 \<longrightarrow> good s (f m) \<and> f m \<noteq> d) \<and> (d \<noteq> 0 \<longrightarrow> good s d) \<and>
     (\<forall>m < MAXFILE. \<forall>m' < MAXFILE. f m \<noteq> 0 \<longrightarrow> f m = f m' \<longrightarrow> m = m')"

definition content :: "'a kfs_scheme \<Rightarrow> (nat \<Rightarrow> uint) \<Rightarrow> nat \<Rightarrow> block" where
  "content s f m = (if f m = 0 then replicate BSIZE 0 else cblock s (f m))"

lemma took_good:
  assumes t: "took a s s'" and ok: "fmap_ok s"
  shows "good s' a" "good s c \<Longrightarrow> good s' c \<and> c \<noteq> a \<and> cblock s' c = cblock s c"
proof -
  have mv: "moved s s'" using t by (simp add: took_def)
  have "BBLOCK b (sb s) \<noteq> a" if "unat b < fssize s" for b
    using fmap_okD(2) [OF ok that] t by (auto simp: took_def)
  then show "good s' a" using t moved_kfs [OF mv] by (simp add: good_def took_def)
  show "good s' c \<and> c \<noteq> a \<and> cblock s' c = cblock s c" if "good s c"
  proof -
    have "c \<noteq> a" using that t by (auto simp: good_def took_def)
    then show ?thesis using that t moved_kfs [OF mv] by (simp add: good_def took_def)
  qed
qed

lemma blocks_ok_new:
  assumes b: "blocks_ok s f d" and t: "took a s s'" and ok: "fmap_ok s" and m: "bn < MAXFILE"
  shows "blocks_ok s' (f(bn := a)) d"
proof -
  have far: "f m \<noteq> a" if "m < MAXFILE" for m
    using that b took_good [OF t ok] t by (metis blocks_ok_def took_def)
  have "d \<noteq> a" using b took_good [OF t ok] t by (metis blocks_ok_def took_def)
  then show ?thesis unfolding blocks_ok_def
  proof (intro conjI allI impI)
    fix m assume m: "m < MAXFILE" "(f(bn := a)) m \<noteq> 0"
    show "good s' ((f(bn := a)) m)" using m b took_good [OF t ok] by (cases "m = bn") (simp_all add: blocks_ok_def)
    show "(f(bn := a)) m \<noteq> d" using m b \<open>d \<noteq> a\<close> by (cases "m = bn") (simp_all add: blocks_ok_def)
    fix m' assume m': "m' < MAXFILE" "(f(bn := a)) m = (f(bn := a)) m'"
    show "m = m'"
    proof (cases "m = bn \<or> m' = bn")
      case True
      then show ?thesis using m'(2) far [OF m(1)] far [OF m'(1)] by (auto split: if_splits)
    next
      case False
      then show ?thesis using m m' b by (simp add: blocks_ok_def)
    qed
  next
    show "good s' d" if "d \<noteq> 0" using that b took_good(2) [OF t ok] by (simp add: blocks_ok_def)
  qed
qed

lemma blocks_ok_indirect:
  assumes b: "blocks_ok s f 0" and t: "took a s s'" and ok: "fmap_ok s"
  shows "blocks_ok s' f a"
proof -
  have "good s' (f m) \<and> f m \<noteq> a" if "m < MAXFILE" "f m \<noteq> 0" for m
    using that b took_good(2) [OF t ok, of "f m"] by (simp add: blocks_ok_def)
  then show ?thesis using b took_good(1) [OF t ok] by (simp add: blocks_ok_def)
qed

lemma content_new:
  assumes b: "blocks_ok s f d" and t: "took a s s'" and ok: "fmap_ok s" and z: "f bn = 0" and m: "m < MAXFILE"
  shows "content s' (f(bn := a)) m = content s f m"
proof (cases "m = bn")
  case True
  then show ?thesis using t z by (simp add: content_def took_def)
next
  case False
  have "cblock s' (f m) = cblock s (f m)" if "f m \<noteq> 0"
    using that b m took_good(2) [OF t ok, of "f m"] by (simp add: blocks_ok_def)
  then show ?thesis using False by (simp add: content_def)
qed

lemma content_old:
  assumes b: "blocks_ok s f d" and t: "took a s s'" and ok: "fmap_ok s" and m: "m < MAXFILE"
  shows "content s' f m = content s f m"
proof -
  have "cblock s' (f m) = cblock s (f m)" if "f m \<noteq> 0"
    using that b m took_good(2) [OF t ok, of "f m"] by (simp add: blocks_ok_def)
  then show ?thesis by (simp add: content_def)
qed

definition nfree :: "'a kfs_scheme \<Rightarrow> nat" where
  "nfree s = card {c. unat c < fssize s \<and> is_free s c}"

lemma nfree_took: "took a s s' \<Longrightarrow> nfree s = Suc (nfree s')"
proof -
  assume t: "took a s s'"
  have fs: "fssize s' = fssize s" using t moved_kfs(4) by (auto simp: took_def)
  have "{c. unat c < fssize s \<and> is_free s c} = insert a {c. unat c < fssize s' \<and> is_free s' c}"
    using t fs by (auto simp: took_def)
  moreover have "a \<notin> {c. unat c < fssize s' \<and> is_free s' c}" using t fs by (auto simp: took_def)
  ultimately show ?thesis unfolding nfree_def by simp
qed

lemma nfree_pos: "0 < nfree s \<longleftrightarrow> (\<exists>c. unat c < fssize s \<and> is_free s c)"
  by (auto simp: nfree_def card_gt_0_iff)

section \<open>Inodes\<close>

definition ind :: "inode \<Rightarrow> uint" where
  "ind x = i_addrs x ! NDIRECT"

definition baddr :: "'a kfs_scheme \<Rightarrow> inode \<Rightarrow> nat \<Rightarrow> uint" where
  "baddr s x bn = (if bn < NDIRECT then i_addrs x ! bn
     else if ind x = 0 then 0 else get32 (cblock s (ind x)) (4 * (bn - NDIRECT)))"

definition ino_ok :: "'a kfs_scheme \<Rightarrow> nat \<Rightarrow> bool" where
  "ino_ok s ip \<longleftrightarrow> ip < length (icache s) \<and> i_dev (icache s ! ip) = 1 \<and>
     length (i_addrs (icache s ! ip)) = Suc NDIRECT \<and>
     blocks_ok s (baddr s (icache s ! ip)) (ind (icache s ! ip))"

text \<open>The contents of a file, block by block; a block it does not have reads as zeros.\<close>

definition fdata :: "'a kfs_scheme \<Rightarrow> nat \<Rightarrow> nat \<Rightarrow> block" where
  "fdata s ip m = content s (baddr s (icache s ! ip)) m"

text \<open>A file system in which only the block addresses of inode \<open>ip\<close> may have changed.\<close>

definition grew :: "nat \<Rightarrow> 'a kfs_scheme \<Rightarrow> 'a kfs_scheme \<Rightarrow> bool" where
  "grew ip s s' \<longleftrightarrow> length (disk s') = length (disk s) \<and> sb s' = sb s \<and> devsw s' = devsw s \<and>
     (\<exists>as. icache s' = (icache s)[ip := (icache s ! ip)\<lparr>i_addrs := as\<rparr>])"

definition fs_good :: "nat \<Rightarrow> nat \<Rightarrow> 'a kfs_scheme \<Rightarrow> bool" where
  "fs_good k ip s \<longleftrightarrow> fsv k s \<and> fmap_ok s \<and> held s = {} \<and> ino_ok s ip"

lemma grew_refl: "grew ip s s"
  unfolding grew_def by (intro conjI exI [of _ "i_addrs (icache s ! ip)"]) simp_all

lemma grew_moved: "moved s s' \<Longrightarrow> grew ip s s'"
  using moved_kfs [of s s'] grew_refl [of ip s] by (simp add: grew_def)

lemma grew_trans:
  assumes "grew ip s s'" "grew ip s' s''"
  shows "grew ip s s''"
proof (cases "ip < length (icache s)")
  case True
  obtain as bs where "icache s' = (icache s)[ip := (icache s ! ip)\<lparr>i_addrs := as\<rparr>]"
    "icache s'' = (icache s')[ip := (icache s' ! ip)\<lparr>i_addrs := bs\<rparr>]" using assms by (auto simp: grew_def)
  then have "icache s'' = (icache s)[ip := (icache s ! ip)\<lparr>i_addrs := bs\<rparr>]" using True by simp
  then show ?thesis using assms unfolding grew_def by auto
next
  case False
  then show ?thesis using assms unfolding grew_def by (auto simp: not_less list_update_beyond)
qed

lemma grewD:
  assumes "grew ip s s'" "ip < length (icache s)"
  shows "i_size (icache s' ! ip) = i_size (icache s ! ip)" "i_type (icache s' ! ip) = i_type (icache s ! ip)"
    "i_dev (icache s' ! ip) = i_dev (icache s ! ip)" "i_major (icache s' ! ip) = i_major (icache s ! ip)"
    "i_inum (icache s' ! ip) = i_inum (icache s ! ip)"
    "length (icache s') = length (icache s)" "sb s' = sb s" "length (disk s') = length (disk s)"
  using assms by (auto simp: grew_def)

text \<open>A change of an inode in the cache is invisible to the blocks.\<close>

lemma upd_inode_view:
  shows "fsv k (upd_inode ip g s) = fsv k s" "held (upd_inode ip g s) = held s" "cblock (upd_inode ip g s) = cblock s"
    "fmap_ok (upd_inode ip g s) = fmap_ok s" "good (upd_inode ip g s) = good s"
    "blocks_ok (upd_inode ip g s) = blocks_ok s" "content (upd_inode ip g s) = content s"
    "nfree (upd_inode ip g s) = nfree s" "baddr (upd_inode ip g s) = baddr s"
    "is_free (upd_inode ip g s) = is_free s" "sb (upd_inode ip g s) = sb s" "length (disk (upd_inode ip g s)) = length (disk s)"
    "mine (upd_inode ip g s) = mine s"
proof -
  have same: "bufs (upd_inode ip g s) = bufs s" "disk (upd_inode ip g s) = disk s" "mypid (upd_inode ip g s) = mypid s"
    "lh_n (upd_inode ip g s) = lh_n s" "lh_block (upd_inode ip g s) = lh_block s" "log_size (upd_inode ip g s) = log_size s"
    "log_outstanding (upd_inode ip g s) = log_outstanding s" and sb: "sb (upd_inode ip g s) = sb s"
    by (simp_all add: upd_inode_def)
  note v = view_cong [OF same(1-3)]
  show "sb (upd_inode ip g s) = sb s" by (rule sb)
  show cb: "cblock (upd_inode ip g s) = cblock s" and "held (upd_inode ip g s) = held s" "mine (upd_inode ip g s) = mine s"
    using v by simp_all
  show "length (disk (upd_inode ip g s)) = length (disk s)" using same(2) by simp
  show "fsv k (upd_inode ip g s) = fsv k s" using v same by (simp add: fsv_def logged_def)
  show fr: "is_free (upd_inode ip g s) = is_free s" by (intro ext) (simp add: is_free_def cb sb)
  have fz: "fssize (upd_inode ip g s) = fssize s" by (simp add: fssize_def sb)
  show "fmap_ok (upd_inode ip g s) = fmap_ok s" by (simp add: fmap_ok_def fz fr sb cb same)
  show gd: "good (upd_inode ip g s) = good s" by (intro ext) (simp add: good_def fz fr sb)
  show "blocks_ok (upd_inode ip g s) = blocks_ok s" by (intro ext) (simp add: blocks_ok_def gd)
  show "content (upd_inode ip g s) = content s" by (intro ext) (simp add: content_def cb)
  show "nfree (upd_inode ip g s) = nfree s" by (simp add: nfree_def fz fr)
  show "baddr (upd_inode ip g s) = baddr s" by (intro ext) (simp add: baddr_def cb)
qed

lemma icache_upd_inode: "ip < length (icache s) \<Longrightarrow> icache (upd_inode ip g s) ! ip = g (icache s ! ip)"
  by (simp add: upd_inode_def)

lemma blocks_ok_cong:
  assumes "\<And>m. m < MAXFILE \<Longrightarrow> f m = g m"
  shows "blocks_ok s f d = blocks_ok s g d"
  using assms by (simp add: blocks_ok_def cong: conj_cong)

lemma held_ok_empty: "held s = {} \<Longrightarrow> held_ok s"
  by (simp add: held_ok_def)

lemma took_baddr:
  assumes ok: "ino_ok s ip" and t: "took a s s'" and f: "fmap_ok s"
  shows "baddr s' (icache s ! ip) m = baddr s (icache s ! ip) m"
  using ok took_good(2) [OF t f, of "ind (icache s ! ip)"] by (auto simp: baddr_def ino_ok_def blocks_ok_def)

lemma get32_zeros: "off + 4 \<le> n \<Longrightarrow> get32 (replicate n 0) off = 0"
  by (simp add: get32_def getn_def word32_def min_def)

text \<open>
  \<open>others ip s s'\<close>: the blocks in use that are not the file's stay so, with their contents.
\<close>

definition owns_block :: "'a kfs_scheme \<Rightarrow> nat \<Rightarrow> uint \<Rightarrow> bool" where
  "owns_block s ip c \<longleftrightarrow> c \<noteq> 0 \<and> (c = ind (icache s ! ip) \<or> (\<exists>m < MAXFILE. c = baddr s (icache s ! ip) m))"

definition others :: "nat \<Rightarrow> 'a kfs_scheme \<Rightarrow> 'a kfs_scheme \<Rightarrow> bool" where
  "others ip s s' \<longleftrightarrow> (\<forall>c. good s c \<longrightarrow> \<not> owns_block s ip c \<longrightarrow> good s' c \<and> \<not> owns_block s' ip c \<and> cblock s' c = cblock s c)"

lemma others_refl: "others ip s s"
  by (simp add: others_def)

lemma others_trans: "others ip s s' \<Longrightarrow> others ip s' s'' \<Longrightarrow> others ip s s''"
  by (simp add: others_def)

text \<open>
  \<open>mapped ip f n s s'\<close>: what \<^verbatim>\<open>bmap\<close> promises. The blocks of the file are now \<open>f\<close>, its
  contents are the same, so are all other blocks in use, and at most \<open>n\<close> free blocks were used.
\<close>

definition mapped :: "nat \<Rightarrow> (nat \<Rightarrow> uint) \<Rightarrow> nat \<Rightarrow> 'a kfs_scheme \<Rightarrow> 'a kfs_scheme \<Rightarrow> bool" where
  "mapped ip f n s s' \<longleftrightarrow> grew ip s s' \<and> others ip s s' \<and> (\<forall>m < MAXFILE. baddr s' (icache s' ! ip) m = f m) \<and>
     (\<forall>m < MAXFILE. fdata s' ip m = fdata s ip m) \<and> nfree s \<le> nfree s' + n"

lemma content_cong: "f m = g m \<Longrightarrow> content s f m = content s g m"
  by (simp add: content_def)

lemma enter_direct:
  assumes ok: "ino_ok s ip" "fmap_ok s" and t: "took a s s1" and k: "k < NDIRECT" "i_addrs (icache s ! ip) ! k = 0"
  defines "s2 \<equiv> upd_inode ip (\<lambda>x. x\<lparr>i_addrs := (i_addrs x)[k := a]\<rparr>) s1"
  shows "ino_ok s2 ip" "mapped ip ((baddr s (icache s ! ip))(k := a)) 1 s s2"
proof -
  let ?x = "icache s ! ip" and ?y = "icache s2 ! ip" and ?f = "baddr s (icache s ! ip)"
  have mv: "moved s s1" using t by (simp add: took_def)
  have ic: "icache s1 = icache s" using moved_kfs [OF mv] by simp
  have ip: "ip < length (icache s)" "length (i_addrs ?x) = Suc NDIRECT" "i_dev ?x = 1" "blocks_ok s ?f (ind ?x)"
    using ok(1) by (simp_all add: ino_ok_def)
  have y: "?y = ?x\<lparr>i_addrs := (i_addrs ?x)[k := a]\<rparr>" using ip(1) ic by (simp add: s2_def icache_upd_inode)
  have ind: "ind ?y = ind ?x" and adr: "i_addrs ?y = (i_addrs ?x)[k := a]" using k(1) by (simp_all add: y ind_def)
  note view = upd_inode_view [where ip = ip and g = "\<lambda>x. x\<lparr>i_addrs := (i_addrs x)[k := a]\<rparr>" and s = s1, folded s2_def]
  have f: "baddr s2 ?y = ?f(k := a)"
  proof
    fix m
    have "baddr s1 ?y m = (?f(k := a)) m"
      using took_baddr [OF ok(1) t ok(2), of m] k(1) ip(2) by (auto simp: baddr_def ind adr)
    then show "baddr s2 ?y m = (?f(k := a)) m" using view by simp
  qed
  have kM: "k < MAXFILE" using k(1) by (simp add: MAXFILE_def)
  have b: "blocks_ok s1 (?f(k := a)) (ind ?x)" by (rule blocks_ok_new [OF ip(4) t ok(2) kM])
  have len: "length (icache s2) = length (icache s)" using ic by (simp add: s2_def upd_inode_def)
  have "i_dev ?y = 1" "length (i_addrs ?y) = Suc NDIRECT" using ip(2,3) by (simp_all add: y)
  then show "ino_ok s2 ip" using ip(1) b view f ind len by (simp add: ino_ok_def)
  have "icache s2 = (icache s)[ip := ?x\<lparr>i_addrs := (i_addrs ?x)[k := a]\<rparr>]" using ic by (simp add: s2_def upd_inode_def)
  then have "grew ip s s2" using moved_kfs [OF mv] view unfolding grew_def by (auto simp: s2_def upd_inode_def)
  moreover have "fdata s2 ip m = fdata s ip m" if "m < MAXFILE" for m
    using content_new [OF ip(4) t ok(2) _ that, of k] k f view by (simp add: fdata_def baddr_def)
  moreover have "nfree s \<le> nfree s2 + 1" using nfree_took [OF t] view by simp
  moreover have "others ip s s2"
    unfolding others_def
  proof (intro allI impI)
    fix c assume c: "good s c" "\<not> owns_block s ip c"
    note tg = took_good(2) [OF t ok(2) c(1)]
    have "\<not> owns_block s2 ip c" using c(2) tg f ind by (auto simp: owns_block_def split: if_splits)
    then show "good s2 c \<and> \<not> owns_block s2 ip c \<and> cblock s2 c = cblock s c" using tg view by simp
  qed
  ultimately show "mapped ip (?f(k := a)) 1 s s2" using f by (simp add: mapped_def)
qed

lemma enter_indirect:
  assumes ok: "ino_ok s ip" "fmap_ok s" and t: "took a s s1" and z: "ind (icache s ! ip) = 0"
  defines "s2 \<equiv> upd_inode ip (\<lambda>x. x\<lparr>i_addrs := (i_addrs x)[NDIRECT := a]\<rparr>) s1"
  shows "ino_ok s2 ip" "mapped ip (baddr s (icache s ! ip)) 1 s s2" "ind (icache s2 ! ip) = a"
proof -
  let ?x = "icache s ! ip" and ?y = "icache s2 ! ip" and ?f = "baddr s (icache s ! ip)"
  have mv: "moved s s1" using t by (simp add: took_def)
  have ic: "icache s1 = icache s" using moved_kfs [OF mv] by simp
  have ip: "ip < length (icache s)" "length (i_addrs ?x) = Suc NDIRECT" "i_dev ?x = 1" "blocks_ok s ?f 0"
    using ok(1) z by (simp_all add: ino_ok_def)
  have y: "?y = ?x\<lparr>i_addrs := (i_addrs ?x)[NDIRECT := a]\<rparr>" using ip(1) ic by (simp add: s2_def icache_upd_inode)
  show ind: "ind ?y = a" using ip(2) by (simp add: y ind_def)
  have adr: "i_addrs ?y = (i_addrs ?x)[NDIRECT := a]" by (simp add: y)
  note view = upd_inode_view [where ip = ip and g = "\<lambda>x. x\<lparr>i_addrs := (i_addrs x)[NDIRECT := a]\<rparr>" and s = s1, folded s2_def]
  have zs: "cblock s1 a = replicate BSIZE 0" using t by (simp add: took_def)
  have f: "baddr s2 ?y m = ?f m" if "m < MAXFILE" for m
    using that zs z get32_zeros [of "4 * (m - NDIRECT)" BSIZE] ip(2) view ind
    by (auto simp: baddr_def adr param_defs)
  have b: "blocks_ok s1 (baddr s2 ?y) a"
    using blocks_ok_indirect [OF ip(4) t ok(2)] blocks_ok_cong [of "baddr s2 ?y" ?f s1 a] f by simp
  have len: "length (icache s2) = length (icache s)" using ic by (simp add: s2_def upd_inode_def)
  have "i_dev ?y = 1" "length (i_addrs ?y) = Suc NDIRECT" using ip(2,3) by (simp_all add: y)
  then show "ino_ok s2 ip" using ip(1) b view ind len by (simp add: ino_ok_def)
  have "icache s2 = (icache s)[ip := ?x\<lparr>i_addrs := (i_addrs ?x)[NDIRECT := a]\<rparr>]" using ic by (simp add: s2_def upd_inode_def)
  then have "grew ip s s2" using moved_kfs [OF mv] view unfolding grew_def by (auto simp: s2_def upd_inode_def)
  moreover have "fdata s2 ip m = fdata s ip m" if "m < MAXFILE" for m
    using content_old [OF ip(4) t ok(2) that] content_cong [of "baddr s2 ?y" m ?f s1] f [OF that] view by (simp add: fdata_def)
  moreover have "nfree s \<le> nfree s2 + 1" using nfree_took [OF t] view by simp
  moreover have "others ip s s2"
    unfolding others_def
  proof (intro allI impI)
    fix c assume c: "good s c" "\<not> owns_block s ip c"
    note tg = took_good(2) [OF t ok(2) c(1)]
    have "\<not> owns_block s2 ip c" using c(2) tg f ind by (auto simp: owns_block_def)
    then show "good s2 c \<and> \<not> owns_block s2 ip c \<and> cblock s2 c = cblock s c" using tg view by simp
  qed
  ultimately show "mapped ip ?f 1 s s2" using f by (simp add: mapped_def)
qed

lemma balloc_good:
  assumes g: "fs_good (Suc (Suc k)) ip s" and free: "0 < nfree s"
  obtains a s' where "balloc 1 s = Ok (a, s')" "took a s s'" "fsv k s'" "fmap_ok s'" "held s' = {}"
proof -
  have "\<exists>c. unat c < fssize s \<and> is_free s c" using free nfree_pos by blast
  then obtain a s' where r: "balloc 1 s = Ok (a, s')" "took a s s'" "fsv k s'"
    using balloc_ok [of k s] g held_ok_empty [of s] by (auto simp: fs_good_def)
  then show thesis using that g by (simp add: took_def moved_def fs_good_def)
qed

text \<open>Two states with the same blocks and the same inode cache.\<close>

lemma same_blocks:
  assumes "cblock s' = cblock s" "klog.more s' = klog.more s" "length (disk s') = length (disk s)"
  shows "is_free s' = is_free s" "fssize s' = fssize s" "good s' = good s" "blocks_ok s' = blocks_ok s"
    "content s' = content s" "nfree s' = nfree s" "fmap_ok s' = fmap_ok s" "baddr s' = baddr s" "fdata s' = fdata s"
    "ino_ok s' = ino_ok s" "sb s' = sb s" "icache s' = icache s" "grew ip s s'"
proof -
  note c = kfs_more_cong [OF assms(2)]
  show sb: "sb s' = sb s" and ic: "icache s' = icache s" by (fact c)+
  show fr: "is_free s' = is_free s" by (intro ext) (simp add: is_free_def c assms(1))
  show fz: "fssize s' = fssize s" by (simp add: fssize_def c)
  show gd: "good s' = good s" by (intro ext) (simp add: good_def fr fz c)
  show bo: "blocks_ok s' = blocks_ok s" by (intro ext) (simp add: blocks_ok_def gd)
  show ct: "content s' = content s" by (intro ext) (simp add: content_def assms(1))
  show "nfree s' = nfree s" by (simp add: nfree_def fr fz)
  show "fmap_ok s' = fmap_ok s" by (simp add: fmap_ok_def fr fz c assms)
  show ba: "baddr s' = baddr s" by (intro ext) (simp add: baddr_def assms(1))
  show "fdata s' = fdata s" by (intro ext) (simp add: fdata_def ct ba ic)
  show "ino_ok s' = ino_ok s" by (intro ext) (simp add: ino_ok_def ic ba bo)
  show "grew ip s s'" using grew_refl [of ip s] by (simp add: grew_def c assms(3))
qed

text \<open>A new version of a block that the file system owns_block and that is not part of the map.\<close>

lemma rewrite_block:
  assumes "cblock s' = (cblock s)(d := X)" "klog.more s' = klog.more s" "length (disk s') = length (disk s)"
    and d: "good s d" "length X = BSIZE" and ok: "fmap_ok s"
  shows "unat c < fssize s \<Longrightarrow> is_free s' c = is_free s c" "fssize s' = fssize s" "good s' = good s" "blocks_ok s' = blocks_ok s"
    "nfree s' = nfree s" "fmap_ok s'" "sb s' = sb s" "icache s' = icache s" "grew ip s s'"
proof -
  note c = kfs_more_cong [OF assms(2)]
  show sb: "sb s' = sb s" and ic: "icache s' = icache s" by (fact c)+
  have fr: "is_free s' c = is_free s c" if "unat c < fssize s" for c
    using that d(1) by (auto simp: is_free_def c assms(1) good_def)
  then show "unat c < fssize s \<Longrightarrow> is_free s' c = is_free s c" .
  show fz: "fssize s' = fssize s" by (simp add: fssize_def c)
  show gd: "good s' = good s" by (intro ext) (auto simp: good_def fr fz c)
  show bo: "blocks_ok s' = blocks_ok s" by (intro ext) (simp add: blocks_ok_def gd)
  show "nfree s' = nfree s" unfolding nfree_def fz by (metis (no_types, lifting) fr)
  have "0 < fssize s" using d(1) by (simp add: good_def)
  then have "is_free s' 0 = is_free s 0" by (intro fr) simp
  moreover have "is_free s' (BBLOCK b (sb s)) = is_free s (BBLOCK b (sb s))" if "unat b < fssize s" for b
    by (rule fr [OF fmap_okD(1) [OF ok that]])
  ultimately show "fmap_ok s'" using ok d(2) by (simp add: fmap_ok_def fz c assms(1,3))
  show "grew ip s s'" using grew_refl [of ip s] by (simp add: grew_def c assms(3))
qed

lemma enter_entry:
  assumes ok: "ino_ok s ip" "fmap_ok s" and t: "took a s s3" and bn: "NDIRECT \<le> bn" "bn < MAXFILE"
    and d: "ind (icache s ! ip) \<noteq> 0" and z: "baddr s (icache s ! ip) bn = 0"
    and s6: "cblock s6 = (cblock s3)(ind (icache s ! ip) := put32 (cblock s (ind (icache s ! ip))) (4 * (bn - NDIRECT)) a)"
      "klog.more s6 = klog.more s3" "length (disk s6) = length (disk s3)"
  shows "ino_ok s6 ip" "fmap_ok s6" "mapped ip ((baddr s (icache s ! ip))(bn := a)) 1 s s6"
proof -
  let ?x = "icache s ! ip" and ?f = "baddr s (icache s ! ip)"
  let ?d = "ind ?x" and ?X = "put32 (cblock s (ind ?x)) (4 * (bn - NDIRECT)) a"
  have mv: "moved s s3" and ok3: "fmap_ok s3" using t by (simp_all add: took_def)
  have ip: "ip < length (icache s)" "length (i_addrs ?x) = Suc NDIRECT" "i_dev ?x = 1" "blocks_ok s ?f ?d"
    using ok(1) by (simp_all add: ino_ok_def)
  have gd: "good s ?d" using ip(4) d by (simp add: blocks_ok_def)
  note tg = took_good(2) [OF t ok(2) gd]
  have len: "length (cblock s ?d) = BSIZE" using gd ok(2) by (simp add: good_def fmap_ok_def)
  have off: "4 * (m - NDIRECT) + 4 \<le> BSIZE" if "m < MAXFILE" "NDIRECT \<le> m" for m
    using that by (auto simp: param_defs)
  have X: "length ?X = BSIZE" using len off [OF bn(2,1)] by simp
  note rw = rewrite_block [OF s6 conjunct1 [OF tg] X ok3]
  have ic: "icache s6 = icache s" using rw(8) moved_kfs(2) [OF mv] by simp
  have f: "baddr s6 ?x m = (?f(bn := a)) m" if "m < MAXFILE" for m
  proof (cases "m < NDIRECT")
    case True
    then show ?thesis using bn(1) by (simp add: baddr_def)
  next
    case False
    then have "baddr s6 ?x m = get32 ?X (4 * (m - NDIRECT))" using d s6(1) by (simp add: baddr_def)
    moreover have "get32 ?X (4 * (m - NDIRECT)) = ?f m" if ne: "m \<noteq> bn"
    proof -
      have "4 * (m - NDIRECT) + 4 \<le> 4 * (bn - NDIRECT) \<or> 4 * (bn - NDIRECT) + 4 \<le> 4 * (m - NDIRECT)"
        using ne False bn(1) by linarith
      then show ?thesis
        using get32_put32_other [of "4 * (bn - NDIRECT)" "cblock s ?d" "4 * (m - NDIRECT)" a] off [OF bn(2,1)]
          off [OF \<open>m < MAXFILE\<close>] False d len by (simp add: baddr_def)
    qed
    ultimately show ?thesis using len off [OF bn(2,1)] by auto
  qed
  have b: "blocks_ok s3 (?f(bn := a)) ?d" by (rule blocks_ok_new [OF ip(4) t ok(2) bn(2)])
  then have b6: "blocks_ok s6 (baddr s6 ?x) ?d" using rw(4) blocks_ok_cong [of "baddr s6 ?x" "?f(bn := a)" s3 ?d] f by simp
  show "ino_ok s6 ip" using ip(1-3) b6 ic by (simp add: ino_ok_def)
  show "fmap_ok s6" by (rule rw(6))
  have "fdata s6 ip m = fdata s ip m" if m: "m < MAXFILE" for m
  proof -
    have "fdata s6 ip m = content s6 (?f(bn := a)) m" using content_cong f [OF m] ic by (metis fdata_def)
    also have "\<dots> = content s3 (?f(bn := a)) m"
      using b m s6(1) by (simp add: content_def blocks_ok_def)
    also have "\<dots> = content s ?f m" by (rule content_new [OF ip(4) t ok(2) z m])
    finally show ?thesis by (simp add: fdata_def)
  qed
  moreover have "others ip s s6"
    unfolding others_def
  proof (intro allI impI)
    fix c assume c: "good s c" "\<not> owns_block s ip c"
    note tc = took_good(2) [OF t ok(2) c(1)]
    have "c \<noteq> ?d" using c(2) d by (auto simp: owns_block_def)
    moreover have "\<not> owns_block s6 ip c" using c(2) tc f ic by (auto simp: owns_block_def split: if_splits)
    ultimately show "good s6 c \<and> \<not> owns_block s6 ip c \<and> cblock s6 c = cblock s c" using tc rw(3) s6(1) by simp
  qed
  moreover have "grew ip s s6" using grew_trans [OF grew_moved [OF mv] rw(9)] .
  moreover have "nfree s \<le> nfree s6 + 1" using nfree_took [OF t] rw(5) by simp
  ultimately show "mapped ip (?f(bn := a)) 1 s s6" using f ic by (simp add: mapped_def)
qed

lemma bmap_direct_known: "i_addrs (icache s ! ip) ! k \<noteq> 0 \<Longrightarrow> bmap_direct ip k s = Ok (i_addrs (icache s ! ip) ! k, s)"
  by (simp add: bmap_direct_def Let_def)

lemma mapped_same:
  assumes "moved s s'" "cblock s' = cblock s"
  shows "mapped ip (baddr s (icache s ! ip)) n s s'"
proof -
  have "klog.more s' = klog.more s" "length (disk s') = length (disk s)" using assms(1) by (simp_all add: moved_def)
  note sm = same_blocks [OF assms(2) this]
  have "others ip s s'" using sm assms(2) by (simp add: others_def owns_block_def)
  then show ?thesis using sm by (simp add: mapped_def)
qed

lemma fs_good_same:
  assumes "fs_good k ip s" "moved s s'" "cblock s' = cblock s" "fsv j s'"
  shows "fs_good j ip s'"
proof -
  have "klog.more s' = klog.more s" "length (disk s') = length (disk s)" "held s' = held s"
    using assms(2) by (simp_all add: moved_def)
  note sm = same_blocks [OF assms(3) this(1,2)]
  show ?thesis using sm assms(1,4) \<open>held s' = held s\<close> by (simp add: fs_good_def)
qed

text \<open>The part of \<^verbatim>\<open>bmap\<close> that goes through the indirect block, once there is one.\<close>

lemma bmap_indirect_old:
  assumes g: "fs_good k ip s" and bn: "NDIRECT \<le> bn" "bn < MAXFILE" and d: "ind (icache s ! ip) \<noteq> 0"
    and a: "baddr s (icache s ! ip) bn \<noteq> 0"
  shows "\<exists>s'. bmap ip bn s = Ok (baddr s (icache s ! ip) bn, s') \<and> fs_good k ip s' \<and> moved s s' \<and> cblock s' = cblock s"
proof -
  let ?d = "ind (icache s ! ip)"
  have v: "fsv k s" and h: "held s = {}" and dev: "i_dev (icache s ! ip) = 1" and gd: "good s ?d" and ok: "fmap_ok s"
    using g d by (auto simp: fs_good_def ino_ok_def blocks_ok_def)
  have dd: "unat ?d < length (disk s)" "?d \<notin> held s" "card (held s) \<le> 1"
    using gd ok h by (auto simp: good_def fmap_ok_def)
  obtain i s1 s2 where r: "bread 1 ?d s = Ok (i, s1)" "b_data (bufs s1 ! i) = cblock s ?d" "klog.more s1 = klog.more s"
    "brelse i s1 = Ok s2" "fsv k s2" "moved s s2" "cblock s2 = cblock s"
    by (rule fs_read [OF v dd]) (rule that)
  have "bmap_direct ip NDIRECT s = Ok (?d, s)" using bmap_direct_known [of s ip NDIRECT] d by (simp add: ind_def)
  moreover have "get32 (b_data (bufs s1 ! i)) (4 * (bn - NDIRECT)) = baddr s (icache s ! ip) bn"
    using r(2) bn(1) d by (simp add: baddr_def)
  moreover have "\<not> bn < NDIRECT" "bn - NDIRECT < NINDIRECT" using bn by (simp_all add: MAXFILE_def)
  ultimately have "bmap ip bn s = Ok (baddr s (icache s ! ip) bn, s2)"
    using r(1,4) a dev by (simp add: bmap_def Let_def)
  then show ?thesis using fs_good_same [OF g r(6,7,5)] r(6,7) by blast
qed

lemma bmap_indirect_new:
  assumes g: "fs_good (Suc (Suc (Suc k))) ip s" and bn: "NDIRECT \<le> bn" "bn < MAXFILE" and d: "ind (icache s ! ip) \<noteq> 0"
    and z: "baddr s (icache s ! ip) bn = 0" and free: "0 < nfree s"
  shows "\<exists>a s'. bmap ip bn s = Ok (a, s') \<and> a \<noteq> 0 \<and> fs_good k ip s' \<and> mapped ip ((baddr s (icache s ! ip))(bn := a)) 1 s s'"
proof -
  let ?d = "ind (icache s ! ip)"
  have v: "fsv (Suc (Suc (Suc k))) s" and h: "held s = {}" and dev: "i_dev (icache s ! ip) = 1" and gd: "good s ?d"
    and ok: "fmap_ok s" "ino_ok s ip"
    using g d by (auto simp: fs_good_def ino_ok_def blocks_ok_def)
  have dd: "unat ?d < length (disk s)" "?d \<notin> held s" "card (held s) \<le> 1"
    using gd ok(1) h by (auto simp: good_def fmap_ok_def)
  obtain i s2 where r: "bread 1 ?d s = Ok (i, s2)" "b_data (bufs s2 ! i) = cblock s ?d" "mine s2 i ?d"
    "held s2 = insert ?d (held s)" "fsv (Suc (Suc (Suc k))) s2" "cblock s2 = cblock s" "length (disk s2) = length (disk s)"
    "klog.more s2 = klog.more s" "?d \<in> dirty s2 \<or> disk s2 ! unat ?d = cblock s ?d"
    "\<forall>j c. mine s j c \<longrightarrow> mine s2 j c"
    by (rule fs_open [OF v dd]) (rule that)
  note sm = same_blocks [OF r(6,8,7)]
  have ho: "held_ok s2" using r(4) h gd sm by (simp add: held_ok_def good_def)
  have "\<exists>c. unat c < fssize s2 \<and> is_free s2 c" using free nfree_pos sm by metis
  from balloc_ok [OF r(5) _ ho this] ok sm
  obtain a s3 where b: "balloc 1 s2 = Ok (a, s3)" "took a s2 s3" "fsv (Suc k) s3" by auto
  have mv: "moved s2 s3" and nz: "a \<noteq> 0" using b(2) by (simp_all add: took_def)
  have m3: "mine s3 i ?d" "held s3 = {?d}" using mv r(3,4) h by (simp_all add: moved_def)
  have "good s2 ?d" using gd sm by simp
  then have c3: "cblock s3 ?d = cblock s ?d" using took_good(2) [OF b(2)] ok sm r(6) by simp
  have d3: "b_data (bufs s3 ! i) = cblock s ?d" using mine_data(1) [OF _ m3(1)] b(3) c3 by (simp add: fsv_def)
  let ?X = "put32 (cblock s ?d) (4 * (bn - NDIRECT)) a"
  obtain s4 where w: "log_write i (set_data i ?X s3) = Ok s4" "fsv k s4" "moved s3 s4"
    "cblock s4 = (cblock s3)(?d := ?X)" "?d \<in> dirty s4" "mine s4 = mine s3"
    by (rule fs_store [OF b(3) m3(1)]) (rule that)
  have m4: "mine s4 i ?d" using w(6) m3(1) by simp
  obtain s6 where e: "brelse i s4 = Ok s6" "fsv k s6" "held s6 = held s4 - {?d}" "cblock s6 = cblock s4"
    "length (disk s6) = length (disk s4)" "klog.more s6 = klog.more s4"
    by (rule fs_close [OF w(2) m4 disjI1 [OF w(5)]]) (rule that)
  have h6: "held s6 = {}" using e(3) w(3) m3(2) by (simp add: moved_def)
  have x6: "cblock s6 = (cblock s3)(?d := ?X)" "klog.more s6 = klog.more s3" "length (disk s6) = length (disk s3)"
    using e(4-6) w(3,4) by (simp_all add: moved_def)
  have en: "ino_ok s6 ip" "fmap_ok s6" "mapped ip ((baddr s (icache s ! ip))(bn := a)) 1 s2 s6"
    using enter_entry [OF _ _ b(2) bn, of ip s6] ok d z x6 sm(7,8,10,12) r(6) by simp_all
  have "owns_block s2 = owns_block s" by (intro ext) (simp add: owns_block_def sm)
  then have "others ip s2 s6 = others ip s s6" by (simp add: others_def sm r(6))
  then have mp: "mapped ip ((baddr s (icache s ! ip))(bn := a)) 1 s s6"
    using en(3) sm grew_trans [OF sm(13)] by (simp add: mapped_def)
  have "bmap_direct ip NDIRECT s = Ok (?d, s)" using bmap_direct_known [of s ip NDIRECT] d by (simp add: ind_def)
  moreover have "get32 (cblock s ?d) (4 * (bn - NDIRECT)) = 0" using z bn(1) d by (simp add: baddr_def)
  moreover have "\<not> bn < NDIRECT" "bn - NDIRECT < NINDIRECT" using bn by (simp_all add: MAXFILE_def)
  ultimately have "bmap ip bn s = Ok (a, s6)"
    using r(1,2) b(1) w(1) e(1) d3 dev sm(12) by (simp add: bmap_def Let_def)
  then show ?thesis using nz en(1,2) e(2) h6 mp by (auto simp: fs_good_def)
qed

text \<open>\<^verbatim>\<open>bmap\<close> as a whole.\<close>

lemma bmap_old:
  assumes g: "fs_good k ip s" and bn: "bn < MAXFILE" and a: "baddr s (icache s ! ip) bn \<noteq> 0"
  shows "\<exists>s'. bmap ip bn s = Ok (baddr s (icache s ! ip) bn, s') \<and> fs_good k ip s' \<and> moved s s' \<and> cblock s' = cblock s"
proof (cases "bn < NDIRECT")
  case True
  then have "bmap ip bn s = Ok (baddr s (icache s ! ip) bn, s)"
    using a bmap_direct_known [of s ip bn] by (simp add: bmap_def baddr_def)
  then show ?thesis using g moved_refl by blast
next
  case False
  then have "ind (icache s ! ip) \<noteq> 0" using a by (auto simp: baddr_def)
  then show ?thesis using bmap_indirect_old [OF g _ bn _ a] False by simp
qed

lemma bmap_direct_new:
  assumes g: "fs_good (Suc (Suc k)) ip s" and j: "j \<le> NDIRECT" "i_addrs (icache s ! ip) ! j = 0" and free: "0 < nfree s"
  obtains a s1 where "took a s s1" "fsv k s1" "fmap_ok s1" "held s1 = {}"
    "bmap_direct ip j s = Ok (a, upd_inode ip (\<lambda>x. x\<lparr>i_addrs := (i_addrs x)[j := a]\<rparr>) s1)"
proof -
  obtain a s1 where b: "balloc 1 s = Ok (a, s1)" "took a s s1" "fsv k s1" "fmap_ok s1" "held s1 = {}"
    by (rule balloc_good [OF g free]) (rule that)
  have "i_dev (icache s ! ip) = 1" using g by (simp add: fs_good_def ino_ok_def)
  then show thesis using that [OF b(2-5)] b(1) j(2) by (simp add: bmap_direct_def Let_def)
qed

lemma fs_good_mono: "fs_good k ip s \<Longrightarrow> j \<le> k \<Longrightarrow> fs_good j ip s"
  using fsv_mono by (auto simp: fs_good_def)

lemma mapped_mono: "mapped ip f n s s' \<Longrightarrow> n \<le> n' \<Longrightarrow> mapped ip f n' s s'"
  by (auto simp: mapped_def)

lemma bmap_after_indirect:
  assumes "bmap_direct ip NDIRECT s = Ok (a, s1)" "i_addrs (icache s1 ! ip) ! NDIRECT = a" "a \<noteq> 0" "\<not> bn < NDIRECT"
  shows "bmap ip bn s = bmap ip bn s1"
proof -
  have "bmap_direct ip NDIRECT s1 = Ok (a, s1)" using bmap_direct_known [of s1 ip NDIRECT] assms(2,3) by simp
  then show ?thesis using assms(1,4) unfolding bmap_def by simp
qed

lemma bmap_first_indirect:
  assumes g: "fs_good (k + 5) ip s" and bn: "NDIRECT \<le> bn" "bn < MAXFILE" and d: "ind (icache s ! ip) = 0"
    and free: "2 \<le> nfree s"
  shows "\<exists>a s'. bmap ip bn s = Ok (a, s') \<and> a \<noteq> 0 \<and> fs_good k ip s' \<and> mapped ip ((baddr s (icache s ! ip))(bn := a)) 2 s s'"
proof -
  let ?f = "baddr s (icache s ! ip)"
  have g5: "fs_good (Suc (Suc (k + 3))) ip s" using g by (simp add: numeral_eq_Suc)
  have io: "ino_ok s ip" "fmap_ok s" using g by (simp_all add: fs_good_def)
  obtain d' s1 where b: "took d' s s1" "fsv (k + 3) s1" "fmap_ok s1" "held s1 = {}"
    "bmap_direct ip NDIRECT s = Ok (d', upd_inode ip (\<lambda>x. x\<lparr>i_addrs := (i_addrs x)[NDIRECT := d']\<rparr>) s1)"
    by (rule bmap_direct_new [OF g5 order.refl]) (use d free in \<open>simp_all add: ind_def\<close>)
  define s2 where "s2 = upd_inode ip (\<lambda>x. x\<lparr>i_addrs := (i_addrs x)[NDIRECT := d']\<rparr>) s1"
  note en = enter_indirect [OF io b(1) d, folded s2_def]
  have d': "d' \<noteq> 0" using b(1) by (simp add: took_def)
  have g2: "fs_good (Suc (Suc (Suc k))) ip s2"
    using b(2-4) en(1) by (simp add: fs_good_def s2_def upd_inode_view numeral_eq_Suc)
  have f2: "baddr s2 (icache s2 ! ip) m = ?f m" if "m < MAXFILE" for m using en(2) that by (simp add: mapped_def)
  have z: "?f bn = 0" using bn(1) d by (simp add: baddr_def)
  have fr: "0 < nfree s2" "ind (icache s2 ! ip) \<noteq> 0" "baddr s2 (icache s2 ! ip) bn = 0"
    using en(2,3) free d' z f2 [OF bn(2)] by (simp_all add: mapped_def)
  obtain a s' where r: "bmap ip bn s2 = Ok (a, s')" "a \<noteq> 0" "fs_good k ip s'"
    "mapped ip ((baddr s2 (icache s2 ! ip))(bn := a)) 1 s2 s'"
    using bmap_indirect_new [OF g2 bn fr(2,3,1)] by blast
  have "bmap ip bn s = bmap ip bn s2"
    by (rule bmap_after_indirect [OF b(5) [folded s2_def] _ d']) (use en(3) bn(1) in \<open>simp_all add: ind_def\<close>)
  moreover have "mapped ip (?f(bn := a)) 2 s s'"
    using r(4) en(2) f2 grew_trans [of ip s s2 s'] others_trans [of ip s s2 s'] by (simp add: mapped_def)
  ultimately show ?thesis using r(1-3) by auto
qed

lemma bmap_ok:
  assumes g: "fs_good (k + 5) ip s" and bn: "bn < MAXFILE" and free: "2 \<le> nfree s \<or> baddr s (icache s ! ip) bn \<noteq> 0"
  shows "\<exists>a s'. bmap ip bn s = Ok (a, s') \<and> a \<noteq> 0 \<and> fs_good k ip s' \<and> mapped ip ((baddr s (icache s ! ip))(bn := a)) 2 s s'"
proof -
  let ?f = "baddr s (icache s ! ip)"
  have io: "ino_ok s ip" "fmap_ok s" using g by (simp_all add: fs_good_def)
  consider (old) "?f bn \<noteq> 0" | (direct) "?f bn = 0" "bn < NDIRECT"
    | (entry) "?f bn = 0" "\<not> bn < NDIRECT" "ind (icache s ! ip) \<noteq> 0"
    | (first) "?f bn = 0" "\<not> bn < NDIRECT" "ind (icache s ! ip) = 0" by blast
  then show ?thesis
  proof cases
    case old
    obtain s' where r: "bmap ip bn s = Ok (?f bn, s')" "fs_good (k + 5) ip s'" "moved s s'" "cblock s' = cblock s"
      using bmap_old [OF g bn old] by blast
    have "mapped ip (?f(bn := ?f bn)) 2 s s'" using mapped_same [OF r(3,4)] by simp
    then show ?thesis using r(1) old fs_good_mono [OF r(2), of k] by auto
  next
    case direct
    have g5: "fs_good (Suc (Suc (k + 3))) ip s" using g by (simp add: numeral_eq_Suc)
    obtain a s1 where b: "took a s s1" "fsv (k + 3) s1" "fmap_ok s1" "held s1 = {}"
      "bmap_direct ip bn s = Ok (a, upd_inode ip (\<lambda>x. x\<lparr>i_addrs := (i_addrs x)[bn := a]\<rparr>) s1)"
      by (rule bmap_direct_new [OF g5 less_imp_le [OF direct(2)]]) (use direct free in \<open>simp_all add: baddr_def\<close>)
    have z: "i_addrs (icache s ! ip) ! bn = 0" using direct by (simp add: baddr_def)
    note en = enter_direct [OF io b(1) direct(2) z]
    have "fs_good k ip (upd_inode ip (\<lambda>x. x\<lparr>i_addrs := (i_addrs x)[bn := a]\<rparr>) s1)"
      using b(3,4) en(1) fsv_mono [OF b(2), of k] by (simp add: fs_good_def upd_inode_view)
    moreover have "a \<noteq> 0" using b(1) by (simp add: took_def)
    moreover have "bmap ip bn s = bmap_direct ip bn s" using direct(2) by (simp add: bmap_def)
    ultimately show ?thesis using b(5) mapped_mono [OF en(2), of 2] by auto
  next
    case entry
    have g3: "fs_good (Suc (Suc (Suc (k + 2)))) ip s" using g by (simp add: numeral_eq_Suc)
    obtain a s' where r: "bmap ip bn s = Ok (a, s')" "a \<noteq> 0" "fs_good (k + 2) ip s'" "mapped ip (?f(bn := a)) 1 s s'"
      using bmap_indirect_new [OF g3 _ bn entry(3,1)] entry(1,2) free by auto
    then show ?thesis using fs_good_mono [OF r(3), of k] mapped_mono [OF r(4), of 2] by auto
  next
    case first
    then show ?thesis using bmap_first_indirect [OF g _ bn] free by auto
  qed
qed

section \<open>Reading and writing\<close>

definition fbyte :: "'a kfs_scheme \<Rightarrow> nat \<Rightarrow> nat \<Rightarrow> uchar" where
  "fbyte s ip k = fdata s ip (k div BSIZE) ! (k mod BSIZE)"

text \<open>The file has a block for every byte of the range.\<close>

definition backed :: "'a kfs_scheme \<Rightarrow> nat \<Rightarrow> nat \<Rightarrow> nat \<Rightarrow> bool" where
  "backed s ip off n \<longleftrightarrow> off + n \<le> MAXFILE * BSIZE \<and>
     (\<forall>k. off \<le> k \<longrightarrow> k < off + n \<longrightarrow> baddr s (icache s ! ip) (k div BSIZE) \<noteq> 0)"

lemma within_block:
  assumes "i < chunk off rest"
  shows "(off + i) div BSIZE = off div BSIZE" "(off + i) mod BSIZE = off mod BSIZE + i"
    "off mod BSIZE + chunk off rest \<le> BSIZE"
proof -
  have "i < BSIZE - off mod BSIZE" using assms by (simp add: chunk_def)
  then have i: "off mod BSIZE + i < BSIZE" by linarith
  have e: "off + i = (off mod BSIZE + i) + off div BSIZE * BSIZE" by simp
  have q: "(x + y * BSIZE) div BSIZE = y" "(x + y * BSIZE) mod BSIZE = x" if "x < BSIZE" for x y :: nat
    using that by simp_all
  show "(off + i) div BSIZE = off div BSIZE" unfolding e by (rule q(1) [OF i])
  show "(off + i) mod BSIZE = off mod BSIZE + i" unfolding e by (rule q(2) [OF i])
  have "off mod BSIZE < BSIZE" by (simp add: BSIZE_def)
  then show "off mod BSIZE + chunk off rest \<le> BSIZE" by (simp add: chunk_def)
qed

lemma length_fdata:
  assumes "fs_good k ip s" "m < MAXFILE"
  shows "length (fdata s ip m) = BSIZE"
  using assms by (auto simp: fs_good_def fmap_ok_def ino_ok_def blocks_ok_def good_def fdata_def content_def)

lemma good_disk: "fmap_ok s \<Longrightarrow> good s a \<Longrightarrow> unat a < length (disk s)"
  by (simp add: good_def fmap_ok_def)

lemma getn_fbyte:
  assumes g: "fs_good k ip s" and ob: "off div BSIZE < MAXFILE"
  shows "getn (fdata s ip (off div BSIZE)) (off mod BSIZE) (chunk off rest) = map (fbyte s ip) [off..<off + chunk off rest]"
proof (cases "chunk off rest = 0")
  case False
  then have le: "off mod BSIZE + chunk off rest \<le> BSIZE" using within_block(3) [of 0 off rest] by simp
  show ?thesis
  proof (rule nth_equalityI)
    show "length (getn (fdata s ip (off div BSIZE)) (off mod BSIZE) (chunk off rest)) = length (map (fbyte s ip) [off..<off + chunk off rest])"
      using le length_fdata [OF g ob] by simp
    fix i assume "i < length (getn (fdata s ip (off div BSIZE)) (off mod BSIZE) (chunk off rest))"
    then have i: "i < chunk off rest" using le length_fdata [OF g ob] by simp
    then show "getn (fdata s ip (off div BSIZE)) (off mod BSIZE) (chunk off rest) ! i = map (fbyte s ip) [off..<off + chunk off rest] ! i"
      using le length_fdata [OF g ob] within_block(1,2) [OF i] by (simp add: nth_getn fbyte_def)
  qed
qed (simp add: getn_def)

lemma off_block: "off < MAXFILE * BSIZE \<Longrightarrow> off div BSIZE < MAXFILE"
  by (simp add: less_mult_imp_div_less mult.commute)

text \<open>The block of a byte that is backed, fetched and given back.\<close>

lemma readi_block:
  assumes g: "fs_good k ip s" and m: "m < MAXFILE" and a: "baddr s (icache s ! ip) m \<noteq> 0"
  obtains b s1 i s2 s3 where "bmap ip m s = Ok (b, s1)" "icache s1 = icache s" "bread 1 b s1 = Ok (i, s2)"
    "b_data (bufs s2 ! i) = fdata s ip m" "brelse i s2 = Ok s3" "fs_good k ip s3" "moved s s3" "cblock s3 = cblock s"
proof -
  let ?a = "baddr s (icache s ! ip) m"
  obtain s1 where b: "bmap ip m s = Ok (?a, s1)" "fs_good k ip s1" "moved s s1" "cblock s1 = cblock s"
    using bmap_old [OF g m a] by blast
  have "good s ?a" using g m a by (simp add: fs_good_def ino_ok_def blocks_ok_def)
  then have "unat ?a < length (disk s1)" using good_disk [of s ?a] g b(3) by (simp add: fs_good_def moved_def)
  moreover have h: "held s1 = {}" "fsv k s1" using b(2) by (simp_all add: fs_good_def)
  ultimately obtain i s2 s3 where r: "bread 1 ?a s1 = Ok (i, s2)" "b_data (bufs s2 ! i) = cblock s1 ?a" "klog.more s2 = klog.more s1"
    "brelse i s2 = Ok s3" "fsv k s3" "moved s1 s3" "cblock s3 = cblock s1"
    using fs_read [OF h(2), of ?a] h(1) by (metis card.empty empty_iff zero_le)
  have mv: "moved s s3" using b(3) r(6) by (rule moved_trans)
  show thesis
  proof (rule that [OF b(1) moved_kfs(2) [OF b(3)] r(1) _ r(4) _ mv])
    show "b_data (bufs s2 ! i) = fdata s ip m" using r(2) b(4) a by (simp add: fdata_def content_def)
    show "fs_good k ip s3" by (rule fs_good_same [OF b(2) r(6,7,5)])
    show "cblock s3 = cblock s" using r(7) b(4) by simp
  qed
qed

lemma unchanged_file:
  assumes "moved s s'" "cblock s' = cblock s"
  shows "fdata s' = fdata s" "fbyte s' = fbyte s" "icache s' = icache s" "baddr s' = baddr s"
    "backed s' = backed s" "owns_block s' = owns_block s"
proof -
  have m: "klog.more s' = klog.more s" "length (disk s') = length (disk s)" using assms(1) by (simp_all add: moved_def)
  note sm = same_blocks [OF assms(2) m]
  show "fdata s' = fdata s" "icache s' = icache s" "baddr s' = baddr s" by (fact sm)+
  show "fbyte s' = fbyte s" by (intro ext) (simp add: fbyte_def sm)
  show "backed s' = backed s" by (intro ext) (simp add: backed_def sm)
  show "owns_block s' = owns_block s" by (intro ext) (simp add: owns_block_def sm)
qed

lemma readi_loop_ok:
  assumes "fs_good k ip s" "backed s ip off rest"
  shows "\<exists>s'. readi_loop ip off rest s = Ok (map (fbyte s ip) [off..<off + rest], s') \<and> fs_good k ip s' \<and>
    moved s s' \<and> cblock s' = cblock s"
  using assms
proof (induction rest arbitrary: off s rule: less_induct)
  case (less rest)
  show ?case
  proof (cases "rest = 0")
    case True
    then show ?thesis using less.prems(1) moved_refl [of s] by (simp add: readi_loop.simps)
  next
    case False
    let ?c = "chunk off rest"
    have c: "0 < ?c" "?c \<le> rest" using False by simp_all
    have m: "off div BSIZE < MAXFILE" "baddr s (icache s ! ip) (off div BSIZE) \<noteq> 0"
      using less.prems(2) False off_block [of off] by (simp_all add: backed_def)
    obtain b s1 i s2 s3 where r: "bmap ip (off div BSIZE) s = Ok (b, s1)" "icache s1 = icache s" "bread 1 b s1 = Ok (i, s2)"
      "b_data (bufs s2 ! i) = fdata s ip (off div BSIZE)" "brelse i s2 = Ok s3" "fs_good k ip s3" "moved s s3" "cblock s3 = cblock s"
      by (rule readi_block [OF less.prems(1) m]) (rule that)
    note un = unchanged_file [OF r(7,8)]
    have dev: "i_dev (icache s ! ip) = 1" using less.prems(1) by (simp add: fs_good_def ino_ok_def)
    have bk: "backed s3 ip (off + ?c) (rest - ?c)" using less.prems(2) c un by (simp add: backed_def)
    have "rest - ?c < rest" using c by linarith
    from less.IH [OF this r(6) bk] obtain s4 where e:
      "readi_loop ip (off + ?c) (rest - ?c) s3 = Ok (map (fbyte s3 ip) [off + ?c..<off + ?c + (rest - ?c)], s4)"
      "fs_good k ip s4" "moved s3 s4" "cblock s4 = cblock s3" by blast
    have "map (fbyte s ip) [off..<off + rest] = map (fbyte s ip) [off..<off + ?c] @ map (fbyte s ip) [off + ?c..<off + rest]"
      using c by (simp add: upt_add_eq_append [of off "off + ?c" "rest - ?c", simplified] flip: map_append)
    moreover have "readi_loop ip off rest s = Ok (getn (fdata s ip (off div BSIZE)) (off mod BSIZE) ?c @
        map (fbyte s3 ip) [off + ?c..<off + ?c + (rest - ?c)], s4)"
      by (subst readi_loop.simps) (simp add: False r(1-5) dev e(1) Let_def)
    ultimately have "readi_loop ip off rest s = Ok (map (fbyte s ip) [off..<off + rest], s4)"
      using getn_fbyte [OF less.prems(1) m(1)] un c by simp
    then show ?thesis using e(2,4) moved_trans [OF r(7) e(3)] r(8) by auto
  qed
qed

text \<open>One turn of \<^verbatim>\<open>writei\<close>'s loop: bytes stored into one block of the file.\<close>

definition wrote :: "nat \<Rightarrow> (nat \<Rightarrow> block) \<Rightarrow> nat \<Rightarrow> 'a kfs_scheme \<Rightarrow> 'a kfs_scheme \<Rightarrow> bool" where
  "wrote ip D n s s' \<longleftrightarrow> grew ip s s' \<and> others ip s s' \<and> (\<forall>m < MAXFILE. fdata s' ip m = D m) \<and>
     (\<forall>m < MAXFILE. baddr s (icache s ! ip) m \<noteq> 0 \<longrightarrow> baddr s' (icache s' ! ip) m \<noteq> 0) \<and> nfree s \<le> nfree s' + n"

lemma rewrite_data:
  assumes g: "fs_good k ip s" and bn: "bn < MAXFILE" and a: "baddr s (icache s ! ip) bn = a" "a \<noteq> 0"
    and s': "cblock s' = (cblock s)(a := X)" "moved s s'" "length X = BSIZE" "fsv j s'"
  shows "fs_good j ip s'" "wrote ip ((fdata s ip)(bn := X)) 0 s s'" "baddr s' (icache s' ! ip) bn = a"
proof -
  let ?x = "icache s ! ip"
  have ok: "fmap_ok s" "ino_ok s ip" "held s = {}" and bo: "blocks_ok s (baddr s ?x) (ind ?x)"
    using g by (simp_all add: fs_good_def ino_ok_def)
  have gd: "good s a" "a \<noteq> ind ?x" using bo bn a by (auto simp: blocks_ok_def)
  have m: "klog.more s' = klog.more s" "length (disk s') = length (disk s)" "held s' = held s"
    using s'(2) by (simp_all add: moved_def)
  note rw = rewrite_block [OF s'(1) m(1,2) gd(1) s'(3) ok(1)]
  have f: "baddr s' ?x = baddr s ?x" using s'(1) gd(2) by (intro ext) (simp add: baddr_def)
  show "fs_good j ip s'" using s'(4) ok rw m(3) f by (simp add: fs_good_def ino_ok_def)
  show "baddr s' (icache s' ! ip) bn = a" using f rw(8) a(1) by simp
  have "fdata s' ip m = ((fdata s ip)(bn := X)) m" if "m < MAXFILE" for m
  proof (cases "m = bn")
    case True
    then show ?thesis using f rw(8) a s'(1) by (simp add: fdata_def content_def)
  next
    case False
    then have "baddr s ?x m \<noteq> a" using bo bn that a by (auto simp: blocks_ok_def)
    then show ?thesis using f rw(8) False s'(1) by (simp add: fdata_def content_def)
  qed
  moreover have "others ip s s'"
    unfolding others_def
  proof (intro allI impI)
    fix c assume c: "good s c" "\<not> owns_block s ip c"
    have "c \<noteq> a" using c(2) a bn by (auto simp: owns_block_def)
    moreover have "\<not> owns_block s' ip c" using c(2) f rw(8) by (simp add: owns_block_def)
    ultimately show "good s' c \<and> \<not> owns_block s' ip c \<and> cblock s' c = cblock s c" using c(1) rw(3) s'(1) by simp
  qed
  ultimately show "wrote ip ((fdata s ip)(bn := X)) 0 s s'" using f rw by (simp add: wrote_def)
qed

lemma wrote_trans:
  assumes "wrote ip D n s s'" "wrote ip D' n' s' s''"
  shows "wrote ip D' (n + n') s s''"
  using assms grew_trans others_trans by (fastforce simp: wrote_def)

lemma mapped_wrote:
  assumes "mapped ip ((baddr s (icache s ! ip))(bn := a)) n s s'" "a \<noteq> 0"
  shows "wrote ip (fdata s ip) n s s'"
  using assms by (auto simp: mapped_def wrote_def)

lemma writei_block:
  assumes g: "fs_good (k + 6) ip s" and m: "m < MAXFILE" and free: "2 \<le> nfree s \<or> baddr s (icache s ! ip) m \<noteq> 0"
    and bs: "p + length bs \<le> BSIZE"
  obtains b s1 i s2 s3 s4 where "bmap ip m s = Ok (b, s1)" "i_dev (icache s1 ! ip) = 1" "bread 1 b s1 = Ok (i, s2)"
    "log_write i (set_data i (putn (b_data (bufs s2 ! i)) p bs) s2) = Ok s3" "brelse i s3 = Ok s4"
    "fs_good k ip s4" "wrote ip ((fdata s ip)(m := putn (fdata s ip m) p bs)) 2 s s4"
    "baddr s4 (icache s4 ! ip) m \<noteq> 0"
proof -
  have g5: "fs_good (Suc k + 5) ip s" using g by (simp add: numeral_eq_Suc)
  obtain b s1 where r: "bmap ip m s = Ok (b, s1)" "b \<noteq> 0" "fs_good (Suc k) ip s1"
    "mapped ip ((baddr s (icache s ! ip))(m := b)) 2 s s1"
    using bmap_ok [OF g5 m free] by blast
  have b: "baddr s1 (icache s1 ! ip) m = b" using r(4) m by (simp add: mapped_def)
  have ok: "fmap_ok s1" "held s1 = {}" "fsv (Suc k) s1" "good s1 b" "i_dev (icache s1 ! ip) = 1"
    using r(2,3) b m by (auto simp: fs_good_def ino_ok_def blocks_ok_def)
  have d: "unat b < length (disk s1)" "b \<notin> held s1" "card (held s1) \<le> 1" using good_disk ok by simp_all
  obtain i s2 where o: "bread 1 b s1 = Ok (i, s2)" "b_data (bufs s2 ! i) = cblock s1 b" "klog.more s2 = klog.more s1"
    "\<And>d. \<exists>s3 s4. log_write i (set_data i d s2) = Ok s3 \<and> brelse i s3 = Ok s4 \<and> fsv k s4 \<and> moved s1 s4 \<and>
       cblock s4 = (cblock s1)(b := d)"
    by (rule fs_modify [OF ok(3) d]) (rule that)
  have fd: "fdata s1 ip m = cblock s1 b" using b r(2) by (simp add: fdata_def content_def)
  let ?X = "putn (cblock s1 b) p bs"
  have X: "length ?X = BSIZE" using bs length_fdata [OF r(3) m] fd by simp
  obtain s3 s4 where w: "log_write i (set_data i ?X s2) = Ok s3" "brelse i s3 = Ok s4" "fsv k s4" "moved s1 s4"
    "cblock s4 = (cblock s1)(b := ?X)" using o(4) by blast
  note rd = rewrite_data [OF r(3) m b r(2) w(5,4) X w(3)]
  have "wrote ip ((fdata s1 ip)(m := ?X)) (2 + 0) s s4" by (rule wrote_trans [OF mapped_wrote [OF r(4,2)] rd(2)])
  then have "wrote ip ((fdata s ip)(m := putn (fdata s ip m) p bs)) 2 s s4"
    using r(4) m fd by (simp add: wrote_def mapped_def)
  then show thesis using that [OF r(1) ok(5) o(1)] w(1,2) o(2) rd(1,3) r(2) by simp
qed

definition nblk :: "nat \<Rightarrow> nat \<Rightarrow> nat" where
  "nblk off n = (if n = 0 then 0 else (off + n - 1) div BSIZE - off div BSIZE + 1)"

lemma nblk_step:
  assumes "0 < n"
  shows "nblk off n = Suc (nblk (off + chunk off n) (n - chunk off n))"
proof (cases "chunk off n = n")
  case True
  have "(off + (n - 1)) div BSIZE = off div BSIZE" by (rule within_block(1) [of _ _ n]) (use True assms in simp)
  then show ?thesis using True assms by (simp add: nblk_def)
next
  case False
  let ?c = "BSIZE - off mod BSIZE"
  have c: "chunk off n = ?c" "?c < n" using False by (auto simp: chunk_def min_def split: if_splits)
  have "off mod BSIZE < BSIZE" by (simp add: BSIZE_def)
  moreover have "(off div BSIZE + 1) * BSIZE = off div BSIZE * BSIZE + BSIZE" by simp
  ultimately have e: "off + ?c = (off div BSIZE + 1) * BSIZE" using div_mult_mod_eq [of off BSIZE] by linarith
  then have d: "(off + ?c) div BSIZE = off div BSIZE + 1" by (simp add: BSIZE_def)
  have "off + ?c \<le> off + n - 1" using c(2) by simp
  then have "off div BSIZE + 1 \<le> (off + n - 1) div BSIZE" using div_le_mono [of "off + ?c" "off + n - 1" BSIZE] d by simp
  moreover have "off + ?c + (n - ?c) - 1 = off + n - 1" using c(2) by simp
  ultimately show ?thesis using c d assms by (simp add: nblk_def)
qed

lemma chunk_position:
  assumes "0 < n"
  shows "off \<le> k \<and> k < off + chunk off n \<longleftrightarrow>
      k div BSIZE = off div BSIZE \<and> off mod BSIZE \<le> k mod BSIZE \<and> k mod BSIZE < off mod BSIZE + chunk off n"
    and "k div BSIZE = off div BSIZE \<Longrightarrow> off \<le> k \<Longrightarrow> k mod BSIZE - off mod BSIZE = k - off"
proof -
  have same: "int k - int off = int (k mod BSIZE) - int (off mod BSIZE)" if "k div BSIZE = off div BSIZE"
    using that div_mult_mod_eq [of k BSIZE] div_mult_mod_eq [of off BSIZE] by (metis add_diff_cancel_left of_nat_add)
  show "off \<le> k \<and> k < off + chunk off n \<longleftrightarrow>
      k div BSIZE = off div BSIZE \<and> off mod BSIZE \<le> k mod BSIZE \<and> k mod BSIZE < off mod BSIZE + chunk off n"
  proof
    assume a: "off \<le> k \<and> k < off + chunk off n"
    then have "k - off < chunk off n" by linarith
    from within_block(1,2) [OF this] a have "k div BSIZE = off div BSIZE" "k mod BSIZE = off mod BSIZE + (k - off)" by simp_all
    then show "k div BSIZE = off div BSIZE \<and> off mod BSIZE \<le> k mod BSIZE \<and> k mod BSIZE < off mod BSIZE + chunk off n"
      using a by linarith
  next
    assume "k div BSIZE = off div BSIZE \<and> off mod BSIZE \<le> k mod BSIZE \<and> k mod BSIZE < off mod BSIZE + chunk off n"
    then show "off \<le> k \<and> k < off + chunk off n" using same by linarith
  qed
  show "k mod BSIZE - off mod BSIZE = k - off" if "k div BSIZE = off div BSIZE" "off \<le> k"
    using same [OF that(1)] that(2) by linarith
qed

lemma wrote_chunk:
  assumes g: "fs_good k ip s" and src: "src \<noteq> []" and off: "off div BSIZE < MAXFILE"
    and w: "wrote ip ((fdata s ip)(off div BSIZE := putn (fdata s ip (off div BSIZE)) (off mod BSIZE) (take (chunk off (length src)) src))) n s s'"
    and j: "j < MAXFILE * BSIZE"
  shows "fbyte s' ip j = (if off \<le> j \<and> j < off + chunk off (length src) then src ! (j - off) else fbyte s ip j)"
proof -
  let ?c = "chunk off (length src)"
  have c: "off mod BSIZE + ?c \<le> BSIZE" "?c \<le> length src" using within_block(3) [of 0 off "length src"] src by simp_all
  have len: "length (take ?c src) = ?c" using c(2) by (metis length_take min.absorb2)
  have jm: "j mod BSIZE < BSIZE" by (simp add: BSIZE_def)
  have fd: "fdata s' ip (j div BSIZE) = ((fdata s ip)(off div BSIZE := putn (fdata s ip (off div BSIZE)) (off mod BSIZE) (take ?c src))) (j div BSIZE)"
    using w off_block [OF j] by (simp add: wrote_def)
  show ?thesis
  proof (cases "j div BSIZE = off div BSIZE")
    case True
    have "fbyte s' ip j = putn (fdata s ip (off div BSIZE)) (off mod BSIZE) (take ?c src) ! (j mod BSIZE)"
      using fd True by (simp add: fbyte_def)
    also have "\<dots> = (if off mod BSIZE \<le> j mod BSIZE \<and> j mod BSIZE < off mod BSIZE + ?c
        then take ?c src ! (j mod BSIZE - off mod BSIZE) else fdata s ip (off div BSIZE) ! (j mod BSIZE))"
      using nth_putn [of "off mod BSIZE" "take ?c src" "fdata s ip (off div BSIZE)" "j mod BSIZE", unfolded len]
        c(1) jm length_fdata [OF g off] by simp
    finally have "fbyte s' ip j = \<dots>" .
    moreover have "j mod BSIZE - off mod BSIZE = j - off" if "off \<le> j"
      by (rule chunk_position(2) [OF _ True that, of 1]) simp
    moreover have "off \<le> j \<and> j < off + ?c \<longleftrightarrow> off mod BSIZE \<le> j mod BSIZE \<and> j mod BSIZE < off mod BSIZE + ?c"
      using chunk_position(1) [of "length src" off j] src True by simp
    ultimately show ?thesis using True by (auto simp: fbyte_def)
  next
    case False
    then show ?thesis using chunk_position(1) [of "length src" off j] src fd by (auto simp: fbyte_def)
  qed
qed

lemma writei_loop_ok:
  assumes "fs_good (k + 6 * nblk off (length src)) ip s" "off + length src \<le> MAXFILE * BSIZE" "2 * nblk off (length src) \<le> nfree s"
  shows "\<exists>s' n. writei_loop ip src off s = Ok s' \<and> fs_good k ip s' \<and> wrote ip (fdata s' ip) n s s' \<and>
    (\<forall>j < MAXFILE * BSIZE. fbyte s' ip j = (if off \<le> j \<and> j < off + length src then src ! (j - off) else fbyte s ip j)) \<and>
    backed s' ip off (length src)"
  using assms
proof (induction "length src" arbitrary: src off s rule: less_induct)
  case less
  show ?case
  proof (cases "src = []")
    case True
    have "wrote ip (fdata s ip) 0 s s" by (simp add: wrote_def grew_refl others_refl)
    then show ?thesis using True less.prems by (auto simp: writei_loop.simps backed_def nblk_def)
  next
    case False
    let ?c = "chunk off (length src)" and ?m = "off div BSIZE"
    have n: "0 < length src" using False by simp
    have c: "0 < ?c" "?c \<le> length src" "off mod BSIZE + ?c \<le> BSIZE"
      using within_block(3) [of 0 off "length src"] n by simp_all
    note st = nblk_step [OF n, of off]
    have g6: "fs_good ((k + 6 * nblk (off + ?c) (length (drop ?c src))) + 6) ip s" using less.prems(1) st by (simp add: algebra_simps)
    have m: "?m < MAXFILE" by (rule off_block) (use less.prems(2) n in linarith)
    have fr: "2 \<le> nfree s \<or> baddr s (icache s ! ip) ?m \<noteq> 0" using less.prems(3) st by simp
    have bs: "off mod BSIZE + length (take ?c src) \<le> BSIZE" using c by simp
    obtain b s1 i s2 s3 s4 where r: "bmap ip ?m s = Ok (b, s1)" "i_dev (icache s1 ! ip) = 1" "bread 1 b s1 = Ok (i, s2)"
      "log_write i (set_data i (putn (b_data (bufs s2 ! i)) (off mod BSIZE) (take ?c src)) s2) = Ok s3" "brelse i s3 = Ok s4"
      "fs_good (k + 6 * nblk (off + ?c) (length (drop ?c src))) ip s4"
      "wrote ip ((fdata s ip)(?m := putn (fdata s ip ?m) (off mod BSIZE) (take ?c src))) 2 s s4"
      "baddr s4 (icache s4 ! ip) ?m \<noteq> 0"
      by (rule writei_block [OF g6 m fr bs]) (rule that)
    have "2 * nblk (off + ?c) (length (drop ?c src)) \<le> nfree s4" using less.prems(3) st r(7) by (simp add: wrote_def)
    moreover have "off + ?c + length (drop ?c src) \<le> MAXFILE * BSIZE" using less.prems(2) c(2) by simp
    moreover have "length (drop ?c src) < length src" using c(1) n by simp
    ultimately obtain s' n' where e: "writei_loop ip (drop ?c src) (off + ?c) s4 = Ok s'" "fs_good k ip s'"
      "wrote ip (fdata s' ip) n' s4 s'"
      "\<forall>j < MAXFILE * BSIZE. fbyte s' ip j = (if off + ?c \<le> j \<and> j < off + ?c + length (drop ?c src) then drop ?c src ! (j - (off + ?c)) else fbyte s4 ip j)"
      "backed s' ip (off + ?c) (length (drop ?c src))"
      using less.hyps [OF _ r(6)] by blast
    have run: "writei_loop ip src off s = Ok s'"
      by (subst writei_loop.simps) (simp add: False r(1-5) e(1) Let_def)
    have "fbyte s' ip j = (if off \<le> j \<and> j < off + length src then src ! (j - off) else fbyte s ip j)" if "j < MAXFILE * BSIZE" for j
    proof -
      have fin: "off + ?c + length (drop ?c src) = off + length src" using c(2) by simp
      have tail: "drop ?c src ! (j - (off + ?c)) = src ! (j - off)" if "off + ?c \<le> j" using that c(2) by simp
      have "j < off + ?c \<Longrightarrow> j < off + length src" using c(2) by linarith
      then show ?thesis
        using e(4) [rule_format, OF that, unfolded fin] wrote_chunk [OF less.prems(1) False m r(7) that] tail by auto
    qed
    moreover have "backed s' ip off (length src)"
    proof -
      have "baddr s' (icache s' ! ip) (j div BSIZE) \<noteq> 0" if "off \<le> j" "j < off + length src" for j
      proof (cases "j < off + ?c")
        case True
        then have "j div BSIZE = ?m" using chunk_position(1) [OF n, of off j] that by simp
        then show ?thesis using r(8) e(3) m by (simp add: wrote_def)
      next
        case False
        then show ?thesis using e(5) that c(2) by (simp add: backed_def)
      qed
      then show ?thesis using less.prems(2) by (simp add: backed_def)
    qed
    ultimately show ?thesis using run e(2) wrote_trans [OF r(7) e(3)] by blast
  qed
qed

text \<open>The disk block that holds the inode.\<close>

definition iblk :: "'a kfs_scheme \<Rightarrow> nat \<Rightarrow> uint" where
  "iblk s ip = IBLOCK (i_inum (icache s ! ip)) (sb s)"

lemma ioff_fits: "ioff n + 64 \<le> BSIZE"
proof -
  have "unat n mod 8 < 8" by simp
  then show ?thesis by (simp add: ioff_def IPB_def BSIZE_def)
qed

lemma iupdate_ok:
  assumes g: "fs_good (Suc k) ip s" and ib: "good s (iblk s ip)" "\<not> owns_block s ip (iblk s ip)"
  shows "\<exists>s'. iupdate ip s = Ok s' \<and> fs_good k ip s' \<and> moved s s' \<and> (\<forall>j < MAXFILE. fdata s' ip j = fdata s ip j) \<and>
    baddr s' (icache s ! ip) = baddr s (icache s ! ip) \<and> (\<forall>c. c \<noteq> iblk s ip \<longrightarrow> cblock s' c = cblock s c) \<and>
    good s' = good s \<and> dinode_of (cblock s' (iblk s ip)) (ioff (i_inum (icache s ! ip))) = dinode_of_inode (icache s ! ip)"
proof -
  let ?x = "icache s ! ip" and ?b = "iblk s ip"
  have ok: "fmap_ok s" "held s = {}" "fsv (Suc k) s" "i_dev ?x = 1" "length (i_addrs ?x) = Suc NDIRECT" "ip < length (icache s)"
    "blocks_ok s (baddr s ?x) (ind ?x)" using g by (simp_all add: fs_good_def ino_ok_def)
  have d: "unat ?b < length (disk s)" "?b \<notin> held s" "card (held s) \<le> 1" using good_disk [OF ok(1) ib(1)] ok(2) by simp_all
  obtain i s1 where o: "bread 1 ?b s = Ok (i, s1)" "b_data (bufs s1 ! i) = cblock s ?b" "klog.more s1 = klog.more s"
    "\<And>d. \<exists>s2 s3. log_write i (set_data i d s1) = Ok s2 \<and> brelse i s2 = Ok s3 \<and> fsv k s3 \<and> moved s s3 \<and>
       cblock s3 = (cblock s)(?b := d)"
    by (rule fs_modify [OF ok(3) d]) (rule that)
  let ?X = "putn (cblock s ?b) (ioff (i_inum ?x)) (dinode_bytes (dinode_of_inode ?x))"
  obtain s2 s3 where w: "log_write i (set_data i ?X s1) = Ok s2" "brelse i s2 = Ok s3" "fsv k s3" "moved s s3"
    "cblock s3 = (cblock s)(?b := ?X)" using o(4) by blast
  have len: "length (cblock s ?b) = BSIZE" using ok(1) d(1) by (simp add: fmap_ok_def)
  have a: "length (d_addrs (dinode_of_inode ?x)) = Suc NDIRECT" using ok(5) by (simp add: dinode_of_inode_def)
  have X: "length ?X = BSIZE" using len a ioff_fits [of "i_inum ?x"] by simp
  have m: "klog.more s3 = klog.more s" "length (disk s3) = length (disk s)" "held s3 = held s" using w(4) by (simp_all add: moved_def)
  note rw = rewrite_block [OF w(5) m(1,2) ib(1) X ok(1)]
  have f: "baddr s3 ?x = baddr s ?x"
    using w(5) ib(2) by (intro ext) (auto simp: baddr_def owns_block_def)
  have fd: "fdata s3 ip j = fdata s ip j" if "j < MAXFILE" for j
    using f rw(8) w(5) ib(2) that by (auto simp: fdata_def content_def owns_block_def)
  have "iupdate ip s = Ok s3"
    using o(1,2) w(1,2) ok(4) by (simp add: iupdate_def Let_def iblk_def [symmetric])
  moreover have "fs_good k ip s3" using w(3) rw m(3) ok f by (simp add: fs_good_def ino_ok_def)
  moreover have "dinode_of ?X (ioff (i_inum ?x)) = dinode_of_inode ?x"
    by (rule dinode_roundtrip [OF a]) (use len ioff_fits in simp)
  ultimately show ?thesis using w(4,5) f fd rw(3) by auto
qed

text \<open>A change of a field of the inode that says nothing about its blocks.\<close>

lemma set_size_view:
  fixes n :: uint
  defines "g \<equiv> (\<lambda>x. x\<lparr>i_size := n\<rparr>)"
  assumes ip: "ip < length (icache s)"
  shows "fs_good k ip (upd_inode ip g s) = fs_good k ip s" "fdata (upd_inode ip g s) ip = fdata s ip"
    "baddr (upd_inode ip g s) (icache (upd_inode ip g s) ! ip) = baddr s (icache s ! ip)"
    "owns_block (upd_inode ip g s) ip = owns_block s ip" "iblk (upd_inode ip g s) ip = iblk s ip"
proof -
  note view = upd_inode_view [where ip = ip and g = g and s = s]
  have x: "icache (upd_inode ip g s) ! ip = (icache s ! ip)\<lparr>i_size := n\<rparr>" using icache_upd_inode [OF ip] by (simp add: g_def)
  have l: "length (icache (upd_inode ip g s)) = length (icache s)" by (simp add: upd_inode_def)
  have d: "ind ((icache s ! ip)\<lparr>i_size := n\<rparr>) = ind (icache s ! ip)" by (simp add: ind_def)
  show b: "baddr (upd_inode ip g s) (icache (upd_inode ip g s) ! ip) = baddr s (icache s ! ip)"
    unfolding view x by (intro ext) (simp add: baddr_def d)
  show "fs_good k ip (upd_inode ip g s) = fs_good k ip s"
    using view l b by (simp add: fs_good_def ino_ok_def x d)
  show "fdata (upd_inode ip g s) ip = fdata s ip" by (intro ext) (simp only: fdata_def b view(7))
  show "owns_block (upd_inode ip g s) ip = owns_block s ip" by (intro ext) (unfold owns_block_def b, simp add: x d)
  show "iblk (upd_inode ip g s) ip = iblk s ip" by (simp add: iblk_def x view)
qed

text \<open>What \<^verbatim>\<open>writei\<close> does to a file: the bytes, the size, and nothing to the blocks of others.\<close>

definition stored :: "nat \<Rightarrow> nat \<Rightarrow> uchar list \<Rightarrow> 'a kfs_scheme \<Rightarrow> 'a kfs_scheme \<Rightarrow> bool" where
  "stored ip off src s s' \<longleftrightarrow>
     (\<forall>j < MAXFILE * BSIZE. fbyte s' ip j = (if off \<le> j \<and> j < off + length src then src ! (j - off) else fbyte s ip j)) \<and>
     backed s' ip off (length src) \<and> (\<forall>o' n. backed s ip o' n \<longrightarrow> backed s' ip o' n) \<and>
     unat (i_size (icache s' ! ip)) = max (unat (i_size (icache s ! ip))) (off + length src) \<and>
     i_type (icache s' ! ip) = i_type (icache s ! ip) \<and>
     (\<forall>c. good s c \<longrightarrow> \<not> owns_block s ip c \<longrightarrow> c \<noteq> iblk s ip \<longrightarrow> cblock s' c = cblock s c)"

lemma wrote_stored:
  assumes w: "wrote ip D n s s1" and bytes: "\<forall>j < MAXFILE * BSIZE. fbyte s1 ip j = (if off \<le> j \<and> j < off + length src then src ! (j - off) else fbyte s ip j)"
    and bk: "backed s1 ip off (length src)" and ip: "ip < length (icache s)"
    and fd: "\<forall>m < MAXFILE. fdata s3 ip m = fdata s1 ip m" "baddr s3 (icache s3 ! ip) = baddr s1 (icache s1 ! ip)"
      "\<forall>c. c \<noteq> iblk s ip \<longrightarrow> cblock s3 c = cblock s1 c" "i_type (icache s3 ! ip) = i_type (icache s1 ! ip)"
    and sz: "unat (i_size (icache s3 ! ip)) = max (unat (i_size (icache s ! ip))) (off + length src)"
  shows "stored ip off src s s3"
proof -
  have b3: "backed s3 ip o' m = backed s1 ip o' m" for o' m by (simp add: backed_def fd(2))
  have "backed s1 ip o' m" if "backed s ip o' m" for o' m
  proof -
    have "baddr s1 (icache s1 ! ip) (j div BSIZE) \<noteq> 0" if "o' \<le> j" "j < o' + m" for j
      using \<open>backed s ip o' m\<close> w off_block [of j] that by (simp add: backed_def wrote_def)
    then show ?thesis using that by (simp add: backed_def)
  qed
  moreover have "fbyte s3 ip j = fbyte s1 ip j" if "j < MAXFILE * BSIZE" for j
    using fd(1) off_block [OF that] by (simp add: fbyte_def)
  moreover have "i_type (icache s3 ! ip) = i_type (icache s ! ip)" using grewD(2) [of ip s s1] ip w fd(4) by (simp add: wrote_def)
  moreover have "cblock s3 c = cblock s c" if "good s c" "\<not> owns_block s ip c" "c \<noteq> iblk s ip" for c
    using that w fd(3) by (simp add: wrote_def others_def)
  ultimately show ?thesis using bytes bk sz b3 by (simp add: stored_def)
qed

lemma writei_ok:
  assumes g: "fs_good (Suc k + 6 * nblk (unat off) (length src)) ip s" and t: "i_type (icache s ! ip) \<noteq> T_DEV"
    and off: "off \<le> i_size (icache s ! ip)" and sz: "unat off + length src \<le> MAXFILE * BSIZE"
    and free: "2 * nblk (unat off) (length src) \<le> nfree s" and ib: "good s (iblk s ip)" "\<not> owns_block s ip (iblk s ip)"
  shows "\<exists>s'. writei ip src off s = Ok (IoDone (length src), s') \<and> fs_good k ip s' \<and> stored ip (unat off) src s s'"
proof -
  let ?n = "length src" and ?x = "icache s ! ip"
  have max: "MAXFILE * BSIZE = 71680" by (simp add: param_defs)
  have n: "unat (off + of_nat ?n) = unat off + ?n" "unat (of_nat ?n :: uint) = ?n"
    using sz max by (simp_all add: unat_word_ariths unat_of_nat)
  have guard: "\<not> (off > i_size ?x \<or> off + of_nat ?n < off)" "\<not> off + of_nat ?n > of_nat (MAXFILE * BSIZE)"
    using off n sz max by (simp_all add: word_less_nat_alt word_le_nat_alt)
  have ip: "ip < length (icache s)" using g by (simp add: fs_good_def ino_ok_def)
  obtain s1 m where w: "writei_loop ip src (unat off) s = Ok s1" "fs_good (Suc k) ip s1" "wrote ip (fdata s1 ip) m s s1"
    "\<forall>j < MAXFILE * BSIZE. fbyte s1 ip j = (if unat off \<le> j \<and> j < unat off + ?n then src ! (j - unat off) else fbyte s ip j)"
    "backed s1 ip (unat off) ?n"
    using writei_loop_ok [OF g sz free] by blast
  have gr: "grew ip s s1" using w(3) by (simp add: wrote_def)
  note gD = grewD [OF gr ip]
  have un: "writei ip src off s = bindR (if (of_nat ?n :: uint) > 0 \<and> off + of_nat ?n > i_size (icache s1 ! ip)
      then iupdate ip (upd_inode ip (\<lambda>x. x\<lparr>i_size := off + of_nat ?n\<rparr>) s1) else Ok s1) (\<lambda>s2. Ok (IoDone ?n, s2))"
    using t guard w(1) by (simp add: writei_def Let_def)
  show ?thesis
  proof (cases "(of_nat ?n :: uint) > 0 \<and> off + of_nat ?n > i_size (icache s1 ! ip)")
    case False
    have "unat off + ?n \<le> unat (i_size ?x)"
    proof (cases "?n = 0")
      case True
      then show ?thesis using off by (simp add: word_le_nat_alt)
    next
      case nz: False
      then have "(of_nat ?n :: uint) > 0" using n(2) by (simp add: word_less_nat_alt)
      then show ?thesis using False gD(1) n(1) by (simp add: word_less_nat_alt not_less)
    qed
    then have "stored ip (unat off) src s s1"
      by (intro wrote_stored [OF w(3-5) ip]) (use gD(1) in \<open>simp_all add: max_def\<close>)
    then show ?thesis using un False fs_good_mono [OF w(2), of k] by auto
  next
    case True
    let ?s = "upd_inode ip (\<lambda>x. x\<lparr>i_size := off + of_nat ?n\<rparr>) s1"
    have ip1: "ip < length (icache s1)" using ip gD by simp
    note sv = set_size_view [OF ip1, where n = "off + of_nat ?n"]
    have ib1: "iblk s1 ip = iblk s ip" using gD by (simp add: iblk_def)
    have o1: "good s1 (iblk s ip)" "\<not> owns_block s1 ip (iblk s ip)" using w(3) ib by (simp_all add: wrote_def others_def)
    have gs: "fs_good (Suc k) ip ?s" "good ?s (iblk ?s ip)" "\<not> owns_block ?s ip (iblk ?s ip)"
      using w(2) sv o1 ib1 by (simp_all add: upd_inode_view(5))
    obtain s3 where u: "iupdate ip ?s = Ok s3" "fs_good k ip s3" "moved ?s s3" "\<forall>j < MAXFILE. fdata s3 ip j = fdata ?s ip j"
      "baddr s3 (icache ?s ! ip) = baddr ?s (icache ?s ! ip)" "\<forall>c. c \<noteq> iblk ?s ip \<longrightarrow> cblock s3 c = cblock ?s c"
      using iupdate_ok [OF gs] by blast
    have ic: "icache s3 = icache ?s" "icache ?s ! ip = (icache s1 ! ip)\<lparr>i_size := off + of_nat ?n\<rparr>"
      using moved_kfs(2) [OF u(3)] icache_upd_inode [OF ip1] by simp_all
    have "unat (i_size ?x) < unat off + ?n" using True gD(1) n(1) by (simp add: word_less_nat_alt)
    then have "stored ip (unat off) src s s3"
    proof (intro wrote_stored [OF w(3-5) ip])
      show "\<forall>m < MAXFILE. fdata s3 ip m = fdata s1 ip m" using u(4) sv(2) by simp
      show "baddr s3 (icache s3 ! ip) = baddr s1 (icache s1 ! ip)" using u(5) sv(3) ic(1) by simp
      show "\<forall>c. c \<noteq> iblk s ip \<longrightarrow> cblock s3 c = cblock s1 c" using u(6) sv(5) ib1 by (simp add: upd_inode_view(3))
      show "i_type (icache s3 ! ip) = i_type (icache s1 ! ip)" using ic by simp
    qed (use ic n(1) in simp)
    then show ?thesis using un True u(1,2) by auto
  qed
qed

lemma readi_ok:
  assumes g: "fs_good k ip s" and t: "i_type (icache s ! ip) \<noteq> T_DEV" and sz: "unat off + unat n \<le> unat (i_size (icache s ! ip))"
    and bk: "backed s ip (unat off) (unat n)"
  shows "\<exists>s'. readi ip off n s = Ok (IoDone (map (fbyte s ip) [unat off..<unat off + unat n]), s') \<and> fs_good k ip s' \<and>
    moved s s' \<and> cblock s' = cblock s"
proof -
  have lt: "unat off + unat n < 2 ^ 32" using sz unat_uint_lt [of "i_size (icache s ! ip)"] by linarith
  then have u: "unat (off + n) = unat off + unat n" by (simp add: unat_word_ariths)
  have "\<not> (off > i_size (icache s ! ip) \<or> off + n < off)" "\<not> off + n > i_size (icache s ! ip)"
    using sz u by (simp_all add: word_less_nat_alt)
  then have "readi ip off n s = bindR (readi_loop ip (unat off) (unat n) s) (\<lambda>(bs, s1). Ok (IoDone bs, s1))"
    using t by (simp add: readi_def Let_def)
  then show ?thesis using readi_loop_ok [OF g bk] by auto
qed

section \<open>A file system as \<^verbatim>\<open>mkfs\<close> lays it out\<close>

text \<open>1000 blocks, of which 59 hold the boot block, super block, log, inodes and free map; one empty file, open.\<close>

definition demo_map :: block where
  "demo_map = replicate 7 0xFF @ [7] @ replicate 504 0"

definition demo_sb :: superblock where
  "demo_sb = \<lparr>sb_size = 1000, sb_nblocks = 941, sb_ninodes = 200, sb_nlog = 30, sb_logstart = 2,
     sb_inodestart = 32, sb_bmapstart = 58\<rparr>"

definition demo_kfs :: kfs where
  "demo_kfs = (binit (boot_kfs ((replicate 1000 (replicate BSIZE 0))[58 := demo_map])))
     \<lparr>log_start := 2, log_size := 30, log_dev := 1, log_outstanding := 1, sb := demo_sb,
      icache := (replicate NINODE zero_inode)[0 := zero_inode\<lparr>i_dev := 1, i_inum := 1, i_ref := 1,
        i_valid := True, i_type := T_FILE, i_nlink := 1\<rparr>]\<rparr>"

lemma boot_kfs_fresh: "length (bufs (boot_kfs d)) = Suc NBUF" "\<forall>j < NBUF. fresh_buf (bufs (boot_kfs d) ! j)"
proof -
  show "length (bufs (boot_kfs d)) = Suc NBUF" by (simp add: boot_kfs_def)
  have "fresh_buf zero_buf" by (simp add: fresh_buf_def zero_buf_def zero_sleeplock_def)
  then show "\<forall>j < NBUF. fresh_buf (bufs (boot_kfs d) ! j)"
    by (simp add: boot_kfs_def nth_Cons' del: replicate_Suc)
qed

lemma demo_kfs_view:
  "binv demo_kfs" "held demo_kfs = {}" "dirty demo_kfs = {}" "length (disk demo_kfs) = 1000"
  "cblock demo_kfs b = (replicate 1000 (replicate BSIZE 0))[58 := demo_map] ! unat b"
  "lh_n demo_kfs = 0" "length (lh_block demo_kfs) = LOGSIZE" "sb demo_kfs = demo_sb"
proof -
  let ?d = "(replicate 1000 (replicate BSIZE 0))[58 := demo_map]"
  let ?s = "binit (boot_kfs ?d)"
  note bi = binit_inv [OF boot_kfs_fresh [of ?d]]
  note only = only_bufsD [OF bi(5)]
  have same: "bufs demo_kfs = bufs ?s" "disk demo_kfs = disk ?s" "mypid demo_kfs = mypid ?s" by (simp_all add: demo_kfs_def)
  note v = view_cong [OF same]
  show "binv demo_kfs" "held demo_kfs = {}" "dirty demo_kfs = {}" using v bi(1-3) by auto
  show "length (disk demo_kfs) = 1000" using same(2) only(1) by (simp add: boot_kfs_def)
  show "cblock demo_kfs b = ?d ! unat b" using v(6) bi(4) [of b] by (simp add: boot_kfs_def)
  show "lh_n demo_kfs = 0" "length (lh_block demo_kfs) = LOGSIZE" "sb demo_kfs = demo_sb"
    using klog_more_cong(4,5) [OF only(5)] by (simp_all add: demo_kfs_def boot_kfs_def)
qed

lemma demo_kfs_idle: "\<not> log_committing demo_kfs"
  using klog_more_cong(7) [OF only_bufsD(5) [OF binit_inv(5) [OF boot_kfs_fresh]]]
  by (simp add: demo_kfs_def boot_kfs_def)

lemma demo_BBLOCK: "unat b < 1000 \<Longrightarrow> BBLOCK b demo_sb = 58"
proof -
  assume "unat b < 1000"
  then have "b div 4096 = 0" by (simp add: word_unat_eq_iff unat_div)
  then show ?thesis by (simp add: BBLOCK_def demo_sb_def BPB_def BSIZE_def)
qed

lemma demo_map_bit: "i < 1000 \<Longrightarrow> bit_free demo_map i \<longleftrightarrow> 59 \<le> i"
proof -
  assume i: "i < 1000"
  have m: "i mod 8 < 8" by simp
  have b8: "(0xFF :: uchar) = mask 8" and b3: "(7 :: uchar) = mask 3" by (simp_all add: mask_eq_exp_minus_1)
  consider "i div 8 < 7" | "i div 8 = 7" | "7 < i div 8" by linarith
  then show ?thesis
  proof cases
    case 1
    then have "i < 56" by linarith
    moreover have "bit (0xFF :: uchar) (i mod 8)" unfolding b8 using m by (simp add: bit_mask_iff)
    ultimately show ?thesis using 1 by (simp add: bit_free_iff demo_map_def nth_append)
  next
    case 2
    then have i: "i = 56 + i mod 8" using div_mult_mod_eq [of i 8] by simp
    have "bit (7 :: uchar) (i mod 8) \<longleftrightarrow> i mod 8 < 3" unfolding b3 using m by (simp add: bit_mask_iff)
    moreover have "bit_free demo_map i \<longleftrightarrow> \<not> bit (7 :: uchar) (i mod 8)" using 2 by (simp add: bit_free_iff demo_map_def nth_append)
    ultimately show ?thesis using i by linarith
  next
    case 3
    then have "\<not> i < 59" by linarith
    moreover have "demo_map ! (i div 8) = 0" using 3 i by (simp add: demo_map_def nth_append nth_Cons')
    ultimately show ?thesis by (simp add: bit_free_iff)
  qed
qed

lemma demo_free: "unat b < 1000 \<Longrightarrow> is_free demo_kfs b \<longleftrightarrow> 59 \<le> unat b"
proof -
  assume b: "unat b < 1000"
  then have "unat b mod BPB = unat b" by (simp add: BPB_def BSIZE_def)
  then show ?thesis using demo_map_bit [OF b] demo_BBLOCK [OF b] by (simp add: is_free_def demo_kfs_view(5,8))
qed

lemma demo_fs_good: "fs_good 27 0 demo_kfs" "2 \<le> nfree demo_kfs"
  "good demo_kfs (iblk demo_kfs 0)" "\<not> owns_block demo_kfs 0 (iblk demo_kfs 0)"
proof -
  have N: "fssize demo_kfs = 1000" by (simp add: fssize_def demo_kfs_view demo_sb_def)
  have x: "icache demo_kfs ! 0 = zero_inode\<lparr>i_dev := 1, i_inum := 1, i_ref := 1, i_valid := True, i_type := T_FILE, i_nlink := 1\<rparr>"
    and l: "0 < length (icache demo_kfs)" by (simp_all add: demo_kfs_def NINODE_def)
  have a: "i_addrs (icache demo_kfs ! 0) = replicate (Suc NDIRECT) 0" by (simp add: x zero_inode_def)
  have f: "baddr demo_kfs (icache demo_kfs ! 0) m = 0" "ind (icache demo_kfs ! 0) = 0" for m
    unfolding baddr_def ind_def a by (simp_all del: replicate_Suc)
  have v: "fsv 27 demo_kfs" using demo_kfs_view by (simp add: fsv_def logged_def param_defs demo_kfs_def)
  have len: "length (cblock demo_kfs b) = BSIZE" if "unat b < 1000" for b
    using that by (simp add: demo_kfs_view(5) nth_list_update demo_map_def BSIZE_def)
  have "\<not> is_free demo_kfs 0" "\<not> is_free demo_kfs 58" using demo_free [of 0] demo_free [of 58] by simp_all
  then have m: "fmap_ok demo_kfs"
    using len demo_BBLOCK by (simp add: fmap_ok_def N demo_kfs_view demo_sb_def [symmetric])
      (simp add: demo_sb_def BPB_def BSIZE_def)
  have "blocks_ok demo_kfs (baddr demo_kfs (icache demo_kfs ! 0)) (ind (icache demo_kfs ! 0))" by (simp add: blocks_ok_def f)
  then show "fs_good 27 0 demo_kfs"
    using v m demo_kfs_view(2) l a by (simp add: fs_good_def ino_ok_def x)
  have ib: "iblk demo_kfs 0 = 32" by (simp add: iblk_def x demo_kfs_view IBLOCK_def demo_sb_def IPB_def BSIZE_def word_unat_eq_iff unat_div)
  show "good demo_kfs (iblk demo_kfs 0)" using demo_free [of 32] demo_BBLOCK by (auto simp: ib good_def N demo_kfs_view)
  show "\<not> owns_block demo_kfs 0 (iblk demo_kfs 0)" by (simp add: owns_block_def f ib)
  have "{59, 60} \<subseteq> {c. unat c < fssize demo_kfs \<and> is_free demo_kfs c}" using demo_free [of 59] demo_free [of 60] by (simp add: N)
  then have "card {59, 60 :: uint} \<le> nfree demo_kfs" unfolding nfree_def by (intro card_mono) simp_all
  then show "2 \<le> nfree demo_kfs" by simp
qed

end
