(* ===== verification/Fs_Props.thy ===== *)
theory Fs_Props
  imports Fs_Files
begin

text \<open>
  What the file system promises: blocks are handed out and taken back by the free map, and a
  file behaves as an array of bytes; and the bound that the log puts on transactions.
\<close>

text \<open>
  C37: \<^verbatim>\<open>balloc\<close> and \<^verbatim>\<open>bfree\<close>. Inside a transaction, with a free block on the disk, \<^verbatim>\<open>balloc\<close> returns a
  block that was free, not block 0, marks exactly that block as used, fills it with zeros and
  changes no other block outside the map; \<^verbatim>\<open>bfree\<close> of it does not panic and gives back the free
  map as it was.
\<close>

theorem balloc_bfree:
  assumes "fsv 3 s" "fmap_ok s" "held s = {}" "\<exists>c. unat c < fssize s \<and> is_free s c"
  shows "\<exists>a s1 s2. balloc 1 s = Ok (a, s1) \<and> unat a < fssize s \<and> a \<noteq> 0 \<and> is_free s a \<and>
    (\<forall>c. unat c < fssize s \<longrightarrow> (is_free s1 c \<longleftrightarrow> is_free s c \<and> c \<noteq> a)) \<and> cblock s1 a = replicate BSIZE 0 \<and>
    (\<forall>c. c \<noteq> a \<longrightarrow> (\<forall>b. unat b < fssize s \<longrightarrow> BBLOCK b (sb s) \<noteq> c) \<longrightarrow> cblock s1 c = cblock s c) \<and>
    bfree 1 a s1 = Ok s2 \<and> (\<forall>c. unat c < fssize s \<longrightarrow> is_free s2 c = is_free s c)"
proof -
  have v: "fsv (Suc (Suc 1)) s" using assms(1) by (simp add: numeral_3_eq_3)
  obtain a s1 where b: "balloc 1 s = Ok (a, s1)" "took a s s1" "fsv 1 s1"
    using balloc_ok [OF v assms(2) held_ok_empty [OF assms(3)] assms(4)] by blast
  have mv: "moved s s1" and ok: "fmap_ok s1" and a: "unat a < fssize s" "a \<noteq> 0" "is_free s a"
    using b(2) by (simp_all add: took_def)
  note mk = moved_kfs [OF mv]
  have g: "good s1 a" by (rule took_good(1) [OF b(2) assms(2)])
  have h: "held_ok s1" using held_ok_empty mk(6) assms(3) by simp
  have v1: "fsv (Suc 0) s1" using b(3) by simp
  have u: "unat a < fssize s1" "\<not> is_free s1 a" "\<And>c. unat c < fssize s1 \<Longrightarrow> BBLOCK c (sb s1) \<noteq> a"
    using g by (auto simp: good_def)
  obtain s2 where r: "bfree 1 a s1 = Ok s2"
    "\<forall>c. unat c < fssize s1 \<longrightarrow> (is_free s2 c \<longleftrightarrow> is_free s1 c \<or> c = a)"
    using bfree_ok [OF v1 ok h u(1,2) a(2) u(3)] by blast
  have "is_free s2 c = is_free s c" if "unat c < fssize s" for c
    using that r(2) b(2) a(3) mk(4) by (auto simp: took_def)
  then show ?thesis using b r(1) a by (auto simp: took_def)
qed

theorem balloc_bfree_witness:
  "\<exists>a s1 s2. balloc 1 demo_kfs = Ok (a, s1) \<and> 59 \<le> unat a \<and> \<not> is_free s1 a \<and> bfree 1 a s1 = Ok s2 \<and> is_free s2 a"
proof -
  have N: "fssize demo_kfs = 1000" by (simp add: fssize_def demo_kfs_view demo_sb_def)
  have v: "fsv 3 demo_kfs" "fmap_ok demo_kfs" using demo_fs_good(1) fsv_mono [of 27 demo_kfs 3] by (simp_all add: fs_good_def)
  have "\<exists>c. unat c < fssize demo_kfs \<and> is_free demo_kfs c" using demo_fs_good(2) nfree_pos [of demo_kfs] by simp
  from balloc_bfree [OF v demo_kfs_view(2) this] show ?thesis using demo_free by (auto simp: N)
qed

text \<open>
  C35: A file is an array of bytes. Inside a transaction with room for it, \<^verbatim>\<open>writei\<close> at an offset up to the size
  stores exactly the given bytes at that offset, allocating blocks where the file has none,
  grows the size to the end of what was written, keeps every other byte of the file, and
  touches no block in use that is not the file's except the one that holds its inode.
\<close>

theorem writei_stores:
  assumes "fs_good (Suc k + 6 * nblk (unat off) (length src)) ip s" "i_type (icache s ! ip) \<noteq> T_DEV"
    "off \<le> i_size (icache s ! ip)" "unat off + length src \<le> MAXFILE * BSIZE"
    "2 * nblk (unat off) (length src) \<le> nfree s" "good s (iblk s ip)" "\<not> owns_block s ip (iblk s ip)"
  shows "\<exists>s'. writei ip src off s = Ok (IoDone (length src), s') \<and> fs_good k ip s' \<and>
    (\<forall>j < MAXFILE * BSIZE. fbyte s' ip j =
       (if unat off \<le> j \<and> j < unat off + length src then src ! (j - unat off) else fbyte s ip j)) \<and>
    unat (i_size (icache s' ! ip)) = max (unat (i_size (icache s ! ip))) (unat off + length src) \<and>
    (\<forall>c. good s c \<longrightarrow> \<not> owns_block s ip c \<longrightarrow> c \<noteq> iblk s ip \<longrightarrow> cblock s' c = cblock s c)"
  using writei_ok [OF assms] by (auto simp: stored_def)

lemma demo_inode: "i_type (icache demo_kfs ! 0) \<noteq> T_DEV" "i_size (icache demo_kfs ! 0) = 0"
  by (simp_all add: demo_kfs_def NINODE_def T_FILE_def T_DEV_def zero_inode_def)

lemma demo_blocks: "nblk 0 (Suc (Suc (Suc 0))) = 1"
  by (simp add: nblk_def BSIZE_def)

theorem writei_stores_witness:
  "\<exists>s'. writei 0 [1, 2, 3] 0 demo_kfs = Ok (IoDone 3, s') \<and> fbyte s' 0 2 = 3 \<and> i_size (icache s' ! 0) = 3"
proof -
  let ?n = "length [1, 2, 3 :: uchar]" and ?o = "unat (0 :: uint)"
  have g: "fs_good (Suc 0 + 6 * nblk ?o ?n) 0 demo_kfs"
    by (rule fs_good_mono [OF demo_fs_good(1)]) (simp add: demo_blocks)
  have h: "0 \<le> i_size (icache demo_kfs ! 0)" "?o + ?n \<le> MAXFILE * BSIZE" "2 * nblk ?o ?n \<le> nfree demo_kfs"
    using demo_fs_good(2) by (simp_all add: demo_blocks param_defs)
  from writei_stores [OF g demo_inode(1) h demo_fs_good(3,4)]
  obtain s' where s': "writei 0 [1, 2, 3] 0 demo_kfs = Ok (IoDone ?n, s')"
    "\<forall>j < MAXFILE * BSIZE. fbyte s' 0 j = (if ?o \<le> j \<and> j < ?o + ?n then [1, 2, 3] ! (j - ?o) else fbyte demo_kfs 0 j)"
    "unat (i_size (icache s' ! 0)) = max (unat (i_size (icache demo_kfs ! 0))) (?o + ?n)"
    by blast
  have "fbyte s' 0 2 = 3" using s'(2) [rule_format, of 2] by (simp add: param_defs)
  moreover have "i_size (icache s' ! 0) = 3" using s'(3) demo_inode(2) by (simp add: word_unat_eq_iff)
  ultimately show ?thesis using s'(1) by simp
qed

text \<open>
  C36: What \<^verbatim>\<open>writei\<close> wrote, \<^verbatim>\<open>readi\<close> returns: reading back the range that was written gives the bytes
  written, and a range of the file apart from it reads as it did before.
\<close>

theorem writei_readi:
  assumes "fs_good (Suc k + 6 * nblk (unat off) (length src)) ip s" "i_type (icache s ! ip) \<noteq> T_DEV"
    "off \<le> i_size (icache s ! ip)" "unat off + length src \<le> MAXFILE * BSIZE"
    "2 * nblk (unat off) (length src) \<le> nfree s" "good s (iblk s ip)" "\<not> owns_block s ip (iblk s ip)"
    and other: "unat o' + unat n \<le> unat (i_size (icache s ! ip))" "backed s ip (unat o') (unat n)"
      "unat o' + unat n \<le> unat off \<or> unat off + length src \<le> unat o'"
  shows "\<exists>s' s1 s2 t bs. writei ip src off s = Ok (IoDone (length src), s') \<and>
    readi ip off (of_nat (length src)) s' = Ok (IoDone src, s1) \<and>
    readi ip o' n s = Ok (IoDone bs, t) \<and> readi ip o' n s' = Ok (IoDone bs, s2)"
proof -
  obtain s' where w: "writei ip src off s = Ok (IoDone (length src), s')" "fs_good k ip s'" "stored ip (unat off) src s s'"
    using writei_ok [OF assms(1-7)] by blast
  have len: "unat (of_nat (length src) :: uint) = length src"
    using assms(4) by (simp add: unat_of_nat param_defs)
  have t: "i_type (icache s' ! ip) \<noteq> T_DEV" and b: "backed s' ip (unat off) (length src)" "backed s' ip (unat o') (unat n)"
    and sz: "unat (i_size (icache s' ! ip)) = max (unat (i_size (icache s ! ip))) (unat off + length src)"
    using w(3) assms(2) other(2) by (auto simp: stored_def)
  have bytes: "fbyte s' ip j = (if unat off \<le> j \<and> j < unat off + length src then src ! (j - unat off) else fbyte s ip j)"
    if "j < MAXFILE * BSIZE" for j using w(3) that by (simp add: stored_def)
  have "map (fbyte s' ip) [unat off..<unat off + length src] = src"
    by (rule nth_equalityI) (use bytes assms(4) in simp_all)
  moreover obtain s1 where "readi ip off (of_nat (length src)) s' =
      Ok (IoDone (map (fbyte s' ip) [unat off..<unat off + length src]), s1)"
    using readi_ok [OF w(2) t, of off "of_nat (length src)"] sz len b(1) by auto
  moreover have "map (fbyte s' ip) [unat o'..<unat o' + unat n] = map (fbyte s ip) [unat o'..<unat o' + unat n]"
    using bytes other(2,3) by (auto simp: backed_def)
  moreover have "unat o' + unat n \<le> unat (i_size (icache s' ! ip))" using sz other(1) by simp
  then obtain s2 where "readi ip o' n s' = Ok (IoDone (map (fbyte s' ip) [unat o'..<unat o' + unat n]), s2)"
    using readi_ok [OF w(2) t _ b(2)] by blast
  moreover obtain u where "readi ip o' n s = Ok (IoDone (map (fbyte s ip) [unat o'..<unat o' + unat n]), u)"
    using readi_ok [OF assms(1,2) other(1,2)] by blast
  ultimately show ?thesis using w(1) by metis
qed

theorem writei_readi_witness:
  "\<exists>s' s1. writei 0 [1, 2, 3] 0 demo_kfs = Ok (IoDone 3, s') \<and> readi 0 0 3 s' = Ok (IoDone [1, 2, 3], s1)"
proof -
  have "fs_good (Suc 0 + 6 * nblk (unat 0) (length [1, 2, 3 :: uchar])) 0 demo_kfs"
    by (rule fs_good_mono [OF demo_fs_good(1)]) (simp add: demo_blocks)
  from writei_readi [OF this demo_inode(1) _ _ _ demo_fs_good(3,4), of 0 0] demo_fs_good(2)
  show ?thesis by (auto simp: demo_inode demo_blocks param_defs backed_def)
qed

text \<open>
  How code inside a transaction changes a block: read it, store the new contents, log it, give
  the buffer back.
\<close>

definition log_block :: "uint \<Rightarrow> block \<Rightarrow> 'a klog_scheme \<Rightarrow> 'a klog_scheme res" where
  "log_block b d s = bindR (bread 1 b s) (\<lambda>(i, s1). bindR (log_write i (set_data i d s1)) (brelse i))"

fun log_blocks :: "(uint \<times> block) list \<Rightarrow> 'a klog_scheme \<Rightarrow> 'a klog_scheme res" where
  "log_blocks [] s = Ok s"
| "log_blocks ((b, d) # ws) s = bindR (log_block b d s) (log_blocks ws)"

text \<open>A log of the size that \<^verbatim>\<open>mkfs\<close> makes, with \<open>n\<close> blocks in the open transaction and no buffer held.\<close>

definition txn :: "nat \<Rightarrow> 'a klog_scheme \<Rightarrow> bool" where
  "txn n s \<longleftrightarrow> binv s \<and> held s = {} \<and> dirty s = set (logged s) \<and> lh_n s = int n \<and>
     length (lh_block s) = LOGSIZE \<and> log_size s = int LOGSIZE \<and> 1 \<le> log_outstanding s"

lemma txn_bread:
  assumes t: "txn n s" and n: "n < NBUF" and b: "unat b < length (disk s)"
  obtains i s1 where "bread 1 b s = Ok (i, s1)" "mine s1 i b" "binv s1" "held s1 = {b}" "dirty s1 = dirty s"
    "length (disk s1) = length (disk s)" "kio.more s1 = kio.more s"
proof -
  have v: "binv s" "held s = {}" "dirty s = set (logged s)" "lh_n s = int n" using t by (simp_all add: txn_def)
  have "card (dirty s) \<le> n" unfolding v(3) using card_length [of "logged s"] v(4) by (simp add: logged_def)
  then have "b \<in> dirty s \<or> card (held s \<union> dirty s) < NBUF" using v(2) n by simp
  moreover have "b \<notin> held s" using v(2) by simp
  ultimately obtain i s1 where r: "bread 1 b s = Ok (i, s1)" "mine s1 i b" "binv s1"
    "held s1 = insert b (held s)" "dirty s1 = dirty s" "only_bufs s s1"
    using bread_ok [OF v(1) b] by metis
  note ob = only_bufsD [OF r(6)]
  show thesis by (rule that [OF r(1-3)]) (use r(4,5) v(2) ob in simp_all)
qed

lemma txn_log_block:
  assumes t: "txn n s" and n: "n < LOGSIZE - 1" and b: "unat b < length (disk s)" "b \<notin> set (logged s)"
  obtains s' where "log_block b d s = Ok s'" "txn (Suc n) s'" "logged s' = logged s @ [b]"
    "length (disk s') = length (disk s)" "log_outstanding s' = log_outstanding s"
proof -
  obtain i s1 where r: "bread 1 b s = Ok (i, s1)" "mine s1 i b" "binv s1" "held s1 = {b}" "dirty s1 = dirty s"
    "length (disk s1) = length (disk s)" "kio.more s1 = kio.more s"
    by (rule txn_bread [OF t _ b(1)]) (use n in \<open>auto simp: param_defs\<close>)
  note st = store_ok [OF r(3,2), of d, folded set_data_def]
  let ?s2 = "set_data i d s1"
  have more: "kio.more ?s2 = kio.more s" using only_bufsD(5) [OF st(6)] r(7) by simp
  note lg = logged_cong [OF more] klog_more_cong [OF more]
  have room: "log_room ?s2" using t n unfolding log_room_def lg by (simp add: txn_def param_defs)
  have m2: "mine ?s2 i b" using st(2) r(2) by simp
  obtain s3 where w: "log_write i ?s2 = Ok s3" "binv s3" "mine s3 = mine ?s2" "held s3 = held ?s2"
    "dirty s3 = insert b (dirty ?s2)" "disk s3 = disk ?s2" "logged s3 = (if b \<in> set (logged ?s2) then logged ?s2 else logged ?s2 @ [b])"
    "lh_n s3 = (if b \<in> set (logged ?s2) then lh_n ?s2 else lh_n ?s2 + 1)" "log_size s3 = log_size ?s2"
    "log_outstanding s3 = log_outstanding ?s2" "length (lh_block s3) = LOGSIZE"
    by (rule log_write_ok [OF st(1) m2 room]) (rule that)
  have m3: "mine s3 i b" "b \<in> dirty s3" using w(3,5) m2 by simp_all
  obtain s4 where e: "brelse i s3 = Ok s4" "binv s4" "held s4 = held s3 - {b}" "dirty s4 = dirty s3" "disk s4 = disk s3"
    "kio.more s4 = kio.more s3"
    by (rule brelse_ok [OF w(2) m3(1) disjI1 [OF m3(2)]]) (rule that)
  note lg4 = logged_cong [OF e(6)] klog_more_cong [OF e(6)]
  have l: "logged s4 = logged s @ [b]" "lh_n s4 = int (Suc n)"
    unfolding lg4 w(7,8) lg using b(2) t by (simp_all add: txn_def)
  have "dirty s4 = set (logged s4)" using l(1) e(4) w(5) st(4) r(5) t by (auto simp: txn_def)
  moreover have "held s4 = {}" using e(3) w(4) st(3) r(4) by simp
  moreover have "log_size s4 = int LOGSIZE" "log_outstanding s4 = log_outstanding s" "length (lh_block s4) = LOGSIZE"
    unfolding lg4 w(9-11) lg using t by (simp_all add: txn_def)
  ultimately have "txn (Suc n) s4" using e(2) l(2) t by (simp add: txn_def)
  moreover have "log_block b d s = Ok s4" using r(1) w(1) e(1) by (simp add: log_block_def)
  moreover have "length (disk s4) = length (disk s)" using e(5) w(6) only_bufsD(1) [OF st(6)] r(6) by simp
  ultimately show thesis using that l(1) \<open>log_outstanding s4 = log_outstanding s\<close> by blast
qed

lemma txn_log_blocks:
  assumes "txn n s" "n + length ws \<le> LOGSIZE - 1" "distinct (map fst ws)"
    "\<forall>w \<in> set ws. unat (fst w) < length (disk s) \<and> fst w \<notin> set (logged s)"
  obtains s' where "log_blocks ws s = Ok s'" "txn (n + length ws) s'" "logged s' = logged s @ map fst ws"
    "length (disk s') = length (disk s)" "log_outstanding s' = log_outstanding s"
  using assms
proof (induction ws arbitrary: n s thesis)
  case Nil
  then show ?case by simp
next
  case (Cons w ws)
  obtain b d where w: "w = (b, d)" by fastforce
  obtain s1 where s1: "log_block b d s = Ok s1" "txn (Suc n) s1" "logged s1 = logged s @ [b]"
    "length (disk s1) = length (disk s)" "log_outstanding s1 = log_outstanding s"
    by (rule txn_log_block [OF Cons.prems(2), of b d]) (use Cons.prems(3,5) w in auto)
  have "\<forall>w \<in> set ws. unat (fst w) < length (disk s1) \<and> fst w \<notin> set (logged s1)"
    using Cons.prems(4,5) s1(3,4) w by force
  then obtain s2 where s2: "log_blocks ws s1 = Ok s2" "txn (Suc n + length ws) s2" "logged s2 = logged s1 @ map fst ws"
    "length (disk s2) = length (disk s1)" "log_outstanding s2 = log_outstanding s1"
    using Cons.IH [OF _ s1(2)] Cons.prems(3,4) by auto
  show ?case by (rule Cons.prems(1) [of s2]) (use s1 s2 w in simp_all)
qed

text \<open>The next block, whichever it is, is one too many.\<close>

lemma txn_full:
  assumes t: "txn (LOGSIZE - 1) s" and b: "unat b < length (disk s)"
  shows "log_block b d s = Panic ''too big a transaction''"
proof -
  obtain i s1 where r: "bread 1 b s = Ok (i, s1)" "mine s1 i b" "binv s1" "kio.more s1 = kio.more s"
    by (rule txn_bread [OF t _ b]) (auto simp: param_defs)
  have "kio.more (set_data i d s1) = kio.more s" using only_bufsD(5) [OF store_ok(6) [OF r(3,2), of d, folded set_data_def]] r(4) by simp
  note lg = klog_more_cong [OF this]
  have "lh_n (set_data i d s1) = 29" "log_size (set_data i d s1) = 30"
    unfolding lg using t by (simp_all add: txn_def param_defs)
  then show ?thesis using r(1) by (simp add: log_block_def log_write_def guardR_def)
qed

lemma txn_begin:
  assumes "binv s" "held s = {}" "dirty s = {}" "lh_n s = 0" "length (lh_block s) = LOGSIZE" "log_size s = int LOGSIZE"
  shows "txn 0 (s\<lparr>log_outstanding := 3\<rparr>)"
proof -
  let ?t = "s\<lparr>log_outstanding := 3\<rparr>"
  have "bufs ?t = bufs s" "disk ?t = disk s" "mypid ?t = mypid s" by simp_all
  note v = view_cong [OF this]
  have "binv ?t" "held ?t = {}" "dirty ?t = {}" using v assms(1-3) by simp_all
  then show ?thesis using assms(4-6) by (simp add: txn_def logged_def)
qed

text \<open>
  C38: The log that \<^verbatim>\<open>mkfs\<close> makes is one block too small for what \<^verbatim>\<open>begin_op\<close> admits. From an idle log, three
  operations may start, each with the right to \<^verbatim>\<open>MAXOPBLOCKS\<close> blocks, together 30. Let them change 30 different
  blocks in the way the code changes blocks, \<^verbatim>\<open>bread\<close>, store, \<^verbatim>\<open>log_write\<close>, \<^verbatim>\<open>brelse\<close>. The first 29 changes
  succeed and fill the log up to 29 blocks; the last one, still within what the operations reserved, stops
  the kernel in \<^verbatim>\<open>log_write\<close>.
\<close>

theorem log_write_panics_within_reservation:
  assumes "binv s" "held s = {}" "dirty s = {}"
    and "lh_n s = 0" "length (lh_block s) = LOGSIZE" "log_size s = int LOGSIZE"
    and "log_outstanding s = 0" "\<not> log_committing s"
    and "length (ws @ [(b, d)]) = 3 * MAXOPBLOCKS" "distinct (map fst (ws @ [(b, d)]))"
    and "\<forall>w \<in> set (ws @ [(b, d)]). unat (fst w) < length (disk s)"
  shows "\<exists>s1 s2. bindR (begin_op s) (\<lambda>s. bindR (begin_op s) begin_op) = Ok s1 \<and> log_outstanding s1 = 3 \<and>
    log_blocks ws s1 = Ok s2 \<and> logged s2 = map fst ws \<and> lh_n s2 = 29 \<and>
    log_block b d s2 = Panic ''too big a transaction''"
proof -
  let ?s1 = "s\<lparr>log_outstanding := 3\<rparr>"
  have l: "length ws = LOGSIZE - 1" "distinct (map fst ws)" using assms(9,10) by (simp_all add: param_defs)
  have lg: "logged ?s1 = []" using assms(4) by (simp add: logged_def)
  obtain s2 where s2: "log_blocks ws ?s1 = Ok s2" "txn (0 + length ws) s2" "logged s2 = logged ?s1 @ map fst ws"
    "length (disk s2) = length (disk ?s1)"
    by (rule txn_log_blocks [OF txn_begin [OF assms(1-6)] _ l(2)]) (use l assms(11) lg in auto)
  have "log_block b d s2 = Panic ''too big a transaction''"
    by (rule txn_full) (use s2(2,4) l assms(11) in simp_all)
  moreover have "bindR (begin_op s) (\<lambda>s. bindR (begin_op s) begin_op) = Ok ?s1"
    using assms(4,7,8) by (simp add: begin_op_def param_defs)
  moreover have "lh_n s2 = 29" using s2(2) l(1) by (simp add: txn_def param_defs)
  ultimately show ?thesis using s2(1,3) lg by (intro exI [of _ ?s1] exI [of _ s2]) simp
qed

theorem log_write_panics_within_reservation_witness:
  "\<exists>s1 s2. bindR (begin_op (demo_kfs\<lparr>log_outstanding := 0\<rparr>)) (\<lambda>s. bindR (begin_op s) begin_op) = Ok s1 \<and>
     log_blocks (map (\<lambda>k. (of_nat k, replicate BSIZE 7)) [100..<129]) s1 = Ok s2 \<and> lh_n s2 = 29 \<and>
     log_block 129 (replicate BSIZE 7) s2 = Panic ''too big a transaction''"
proof -
  let ?s = "demo_kfs\<lparr>log_outstanding := 0\<rparr>" and ?ws = "map (\<lambda>k. (of_nat k, replicate BSIZE 7)) [100..<129]"
  let ?all = "?ws @ [(129 :: uint, replicate BSIZE (7 :: uchar))]"
  have s: "binv ?s" "held ?s = {}" "dirty ?s = {}" "lh_n ?s = 0" "length (lh_block ?s) = LOGSIZE"
    "log_size ?s = int LOGSIZE" "log_outstanding ?s = 0" "\<not> log_committing ?s" "length (disk ?s) = 1000"
  proof -
    have "bufs ?s = bufs demo_kfs" "disk ?s = disk demo_kfs" "mypid ?s = mypid demo_kfs" by simp_all
    note v = view_cong [OF this]
    show "binv ?s" "held ?s = {}" "dirty ?s = {}" using v demo_kfs_view(1-3) by simp_all
    show "lh_n ?s = 0" "length (lh_block ?s) = LOGSIZE" "\<not> log_committing ?s" "length (disk ?s) = 1000"
      using demo_kfs_view demo_kfs_idle by simp_all
    show "log_size ?s = int LOGSIZE" "log_outstanding ?s = 0" by (simp_all add: demo_kfs_def param_defs)
  qed
  have f: "map fst ?all = map of_nat [100..<130]" by (simp add: upt_rec)
  have "length ?all = 3 * MAXOPBLOCKS" by (simp add: param_defs)
  moreover have "distinct (map fst ?all)" unfolding f by (simp add: upt_rec)
  moreover have "\<forall>w \<in> set ?all. unat (fst w) < length (disk ?s)" unfolding s(9) by (simp add: upt_rec)
  ultimately show ?thesis using log_write_panics_within_reservation [OF s(1-8)] by blast
qed

end
