(* ===== verification/File_Props.thy ===== *)
theory File_Props
  imports Kern_Frame Sysfile
begin

text \<open>
  The table of open files is well formed at all times: a reference count is never negative,
  and an entry that nobody refers to has no type, so that \<^verbatim>\<open>filealloc\<close> hands out blank entries.
\<close>

definition file_ok :: "file_t \<Rightarrow> bool" where
  "file_ok x \<longleftrightarrow> 0 \<le> f_ref x \<and> (f_ref x = 0 \<longrightarrow> f_type x = FD_NONE)"

definition ftable_ok :: "'a kern_scheme \<Rightarrow> bool" where
  "ftable_ok s \<longleftrightarrow> length (ftable s) = NFILE \<and> (\<forall>x \<in> set (ftable s). file_ok x)"

section \<open>What leaves the table alone\<close>

lemma ftable_upd_pipe [simp]: "ftable (upd_pipe p g s) = ftable s"
  by (simp add: upd_pipe_def)

lemma ftable_wakeup: "wakeup cfg ch s = Ok s' \<Longrightarrow> ftable s' = ftable s"
  using only_table_kern(2) [OF only_table_wakeup] by blast

lemma ftable_fs_op: "fs_op cfg cur f s = Ok (r, s') \<Longrightarrow> ftable s' = ftable s"
  using only_table_kern(2) [OF only_table_wakeups] by (fastforce simp: fs_op_def bindR_eq_Ok_iff)

lemma ftable_fs_do: "fs_do cfg cur f s = Ok s' \<Longrightarrow> ftable s' = ftable s"
  using ftable_fs_op by (fastforce simp: fs_do_def bindR_eq_Ok_iff)

lemma ftable_only_mem: "only_mem s s' \<Longrightarrow> ftable s' = ftable s"
  unfolding only_mem_def by (erule ssubst) simp

lemma ftable_kfree: "kfree kend v s = Ok s' \<Longrightarrow> ftable s' = ftable s"
  by (rule ftable_only_mem [OF only_mem_kfree])

lemma ftable_kalloc: "kalloc s = (p, s') \<Longrightarrow> ftable s' = ftable s"
  by (auto simp: kalloc_def Let_def split: if_splits)

lemma ftable_sleep_enter [simp]: "ftable (sleep_enter ch p s) = ftable s"
  by (simp add: sleep_enter_def upd_proc_def)

lemma ftable_pipeclose:
  assumes "pipeclose cfg K p w s = Ok s'"
  shows "ftable s' = ftable s"
proof -
  obtain s1 and x :: pipe where w: "(if w
            then wakeup cfg (PipeNread p) (upd_pipe p (\<lambda>x. x\<lparr>pi_writeopen := False\<rparr>) s)
            else wakeup cfg (PipeNwrite p) (upd_pipe p (\<lambda>x. x\<lparr>pi_readopen := False\<rparr>) s)) = Ok s1"
    and r: "(if \<not> pi_readopen x \<and> \<not> pi_writeopen x
             then bindR (kfree (k_end K) p s1) (\<lambda>s2. Ok (s2\<lparr>pipes := (pipes s2)(p := None)\<rparr>))
             else Ok s1) = Ok s'"
    using assms unfolding pipeclose_def bindR_eq_Ok_iff by blast
  have "ftable s1 = ftable s"
    using w by (cases w) (auto dest!: ftable_wakeup)
  moreover have "ftable s' = ftable s1"
  proof (cases "\<not> pi_readopen x \<and> \<not> pi_writeopen x")
    case True
    with r obtain s2 where "kfree (k_end K) p s1 = Ok s2" "s' = s2\<lparr>pipes := (pipes s2)(p := None)\<rparr>"
      by (auto simp: bindR_eq_Ok_iff)
    then show ?thesis using ftable_kfree by simp
  qed (use r in \<open>auto split: if_splits\<close>)
  ultimately show ?thesis by simp
qed

lemma ftable_pipewrite_loop: "pipewrite_loop cfg cur p i bs s = Ok (r, s') \<Longrightarrow> ftable s' = ftable s"
proof (induction bs arbitrary: i s)
  case Nil
  then show ?case by (auto simp: bindR_eq_Ok_iff dest: ftable_wakeup)
next
  case (Cons b bs)
  from Cons.prems obtain x where x: "(if pipe_full x
     then (if \<not> pi_readopen x \<or> p_killed (ptable s ! cur) then Ok (FDone (-1), s)
           else bindR (wakeup cfg (PipeNread p) s) (\<lambda>s1. Ok (FSleep i, sleep_enter (PipeNwrite p) cur s1)))
     else pipewrite_loop cfg cur p (Suc i) bs (upd_pipe p (pipe_put b) s)) = Ok (r, s')"
    unfolding pipewrite_loop.simps bindR_eq_Ok_iff by blast
  show ?case
  proof (cases "pipe_full x")
    case True
    then show ?thesis using x ftable_wakeup [of cfg "PipeNread p" s]
      by (cases "\<not> pi_readopen x \<or> p_killed (ptable s ! cur)") (auto simp: bindR_eq_Ok_iff)
  next
    case False
    then show ?thesis using x Cons.IH [of "Suc i" "upd_pipe p (pipe_put b) s"] by simp
  qed
qed

lemma ftable_piperead: "piperead cfg cur p n s = Ok (r, s') \<Longrightarrow> ftable s' = ftable s"
  by (auto simp: piperead_def bindR_eq_Ok_iff dest!: ftable_wakeup split: if_splits prod.splits)

section \<open>What changes an entry\<close>

lemma ftable_ok_cong: "ftable s' = ftable s \<Longrightarrow> ftable_ok s' = ftable_ok s"
  by (simp add: ftable_ok_def)

lemma ftable_ok_upd:
  assumes "ftable_ok s" "f < NFILE \<Longrightarrow> file_ok (ftable s ! f) \<Longrightarrow> file_ok (g (ftable s ! f))"
  shows "ftable_ok (upd_file f g s)"
proof (cases "f < NFILE")
  case True
  then have "file_ok (ftable s ! f)" using assms(1) by (simp add: ftable_ok_def)
  then show ?thesis using assms True set_update_subset_insert [of "ftable s" f "g (ftable s ! f)"]
    by (auto simp: ftable_ok_def upd_file_def)
next
  case False
  then show ?thesis using assms(1) by (simp add: ftable_ok_def upd_file_def not_less list_update_beyond)
qed

lemma ftable_ok_filealloc:
  assumes "ftable_ok s" "filealloc s = (r, s')"
  shows "ftable_ok s'" "r = Some f \<Longrightarrow> f < NFILE \<and> f_ref (ftable s' ! f) = 1 \<and> f_type (ftable s' ! f) = FD_NONE"
proof -
  show "ftable_ok s'"
    using assms by (auto simp: filealloc_def file_ok_def split: option.splits intro!: ftable_ok_upd)
  show "f < NFILE \<and> f_ref (ftable s' ! f) = 1 \<and> f_type (ftable s' ! f) = FD_NONE" if "r = Some f"
  proof -
    have fi: "find_index (\<lambda>x. f_ref x = 0) (ftable s) = Some f" and s': "s' = upd_file f (\<lambda>x. x\<lparr>f_ref := 1\<rparr>) s"
      using assms(2) that by (auto simp: filealloc_def split: option.splits)
    note f = find_index_SomeD(1,2) [OF fi]
    then have "file_ok (ftable s ! f)" using assms(1) by (simp add: ftable_ok_def)
    then show ?thesis using f assms(1) s' by (simp add: upd_file_def ftable_ok_def file_ok_def)
  qed
qed

lemma ftable_ok_filedup: "ftable_ok s \<Longrightarrow> filedup f s = Ok s' \<Longrightarrow> ftable_ok s'"
  by (auto simp: filedup_def bindR_eq_Ok_iff guardR_def file_ok_def split: if_splits intro!: ftable_ok_upd)

lemma ftable_ok_fileclose:
  assumes ok: "ftable_ok s" and run: "fileclose cfg K cur f s = Ok s'"
  shows "ftable_ok s'"
proof -
  let ?s1 = "upd_file f (\<lambda>x. x\<lparr>f_ref := f_ref x - 1\<rparr>) s"
  let ?s2 = "upd_file f (\<lambda>x. x\<lparr>f_ref := 0, f_type := FD_NONE\<rparr>) ?s1"
  have g: "\<not> f_ref (ftable s ! f) < 1" using run by (auto simp: fileclose_def bindR_eq_Ok_iff guardR_def split: if_splits)
  show ?thesis
  proof (cases "f_ref (ftable ?s1 ! f) > 0")
    case True
    then have "s' = ?s1" using run g by (simp add: fileclose_def guardR_def Let_def)
    moreover have "ftable_ok ?s1"
      by (rule ftable_ok_upd [OF ok]) (use True ok in \<open>auto simp: file_ok_def upd_file_def ftable_ok_def\<close>)
    ultimately show ?thesis by simp
  next
    case False
    have len: "length (ftable s) = NFILE" using ok by (simp add: ftable_ok_def)
    have s2: "ftable ?s2 = ftable (upd_file f (\<lambda>x. x\<lparr>f_ref := 0, f_type := FD_NONE\<rparr>) s)"
      using len by (cases "f < NFILE") (simp_all add: upd_file_def not_less list_update_beyond)
    have "ftable_ok (upd_file f (\<lambda>x. x\<lparr>f_ref := 0, f_type := FD_NONE\<rparr>) s)"
      by (rule ftable_ok_upd [OF ok]) (simp add: file_ok_def)
    then have "ftable_ok ?s2" using ftable_ok_cong [OF s2] by simp
    moreover have "ftable s' = ftable ?s2"
      using run g False ftable_pipeclose ftable_fs_do
      by (auto simp: fileclose_def guardR_def Let_def split: filetype.splits)
    ultimately show ?thesis using ftable_ok_cong by blast
  qed
qed

lemma ftable_ok_close_opt: "ftable_ok s \<Longrightarrow> close_opt cfg K cur f s = Ok s' \<Longrightarrow> ftable_ok s'"
  by (auto simp: close_opt_def intro: ftable_ok_fileclose split: option.splits)

section \<open>Opening\<close>

lemma ftable_ok_typed:
  assumes "ftable_ok s" "f_ref (ftable s ! f) = 1" "\<And>x. f_ref (g x) = f_ref x"
  shows "ftable_ok (upd_file f g s)"
  by (rule ftable_ok_upd [OF assms(1)]) (use assms in \<open>simp add: file_ok_def\<close>)

lemma ref_pipe_end [simp]: "f_ref (pipe_end w p x) = f_ref x"
  by (simp add: pipe_end_def)

lemma ref_open_file [simp]: "f_ref (open_file ip m x) = f_ref x"
  by (simp add: open_file_def)

lemma filealloc_keeps:
  assumes "filealloc s = (r, s')" "f_ref (ftable s ! g) = 1"
  shows "f_ref (ftable s' ! g) = 1"
proof (cases "find_index (\<lambda>f. f_ref f = 0) (ftable s)")
  case (Some f)
  then show ?thesis using assms find_index_SomeD(1) [OF Some]
    by (auto simp: filealloc_def upd_file_def nth_list_update)
qed (use assms in \<open>auto simp: filealloc_def\<close>)

lemma ftable_ok_closes:
  assumes "ftable_ok s"
    and "bindR (close_opt cfg K cur f s) (\<lambda>t. bindR (close_opt cfg K cur g t) (\<lambda>u. Ok (None, u))) = Ok (r, s')"
  shows "ftable_ok s'"
proof -
  from assms(2) obtain t where "close_opt cfg K cur f s = Ok t" "close_opt cfg K cur g t = Ok s'"
    by (auto simp: bindR_eq_Ok_iff)
  then show ?thesis using ftable_ok_close_opt [OF ftable_ok_close_opt [OF assms(1)]] by simp
qed

lemma ref_upd_file [simp]: "f_ref (ftable (upd_file f (pipe_end w p) s) ! g) = f_ref (ftable s ! g)"
  by (cases "f < length (ftable s)") (simp_all add: upd_file_def nth_list_update not_less list_update_beyond)

lemma ftable_ok_pipealloc:
  assumes ok: "ftable_ok s" and run: "pipealloc cfg K cur s = Ok (r, s')"
  shows "ftable_ok s'"
proof -
  obtain f0 s1 where a0: "filealloc s = (f0, s1)" by fastforce
  obtain f1 s2 where a1: "(if f0 = None then (None, s1) else filealloc s1) = (f1, s2)" by fastforce
  note ok1 = ftable_ok_filealloc [OF ok a0]
  have ok2: "ftable_ok s2" using ok1(1) a1 ftable_ok_filealloc(1) by (auto split: if_splits)
  show ?thesis
  proof (cases "f0 = None \<or> f1 = None")
    case True
    then show ?thesis using run a0 a1 ftable_ok_closes [OF ok2]
      by (auto simp: pipealloc_def Let_def split: option.splits)
  next
    case False
    then obtain rd wr where f: "f0 = Some rd" "f1 = Some wr" by auto
    then have a1': "filealloc s1 = (Some wr, s2)" using a1 by simp
    obtain p s3 where k: "kalloc s2 = (p, s3)" by fastforce
    have t3: "ftable s3 = ftable s2" by (rule ftable_kalloc [OF k])
    have ok3: "ftable_ok s3" using ok2 ftable_ok_cong [OF t3] by simp
    have ref: "f_ref (ftable s2 ! rd) = 1" "f_ref (ftable s2 ! wr) = 1"
      using filealloc_keeps [OF a1'] ok1(2) [OF f(1)] ftable_ok_filealloc(2) [OF ok1(1) a1' refl] by simp_all
    show ?thesis
    proof (cases "p = 0")
      case True
      then show ?thesis using run a0 a1 f k ftable_ok_closes [OF ok3] by (auto simp: pipealloc_def Let_def)
    next
      case False
      let ?t = "s3\<lparr>pipes := (pipes s3)(p \<mapsto> new_pipe (mem s3) p)\<rparr>"
      have "ftable_ok ?t" using ok3 by (simp add: ftable_ok_def)
      then have "ftable_ok (upd_file wr (pipe_end True p) (upd_file rd (pipe_end False p) ?t))"
        using ref t3 by (intro ftable_ok_typed) simp_all
      moreover have "s' = upd_file wr (pipe_end True p) (upd_file rd (pipe_end False p) ?t)"
        using run a0 a1' f k False by (simp add: pipealloc_def Let_def)
      ultimately show ?thesis by simp
    qed
  qed
qed

lemma ftable_fdalloc: "fdalloc cur f s = (r, s') \<Longrightarrow> ftable s' = ftable s"
  by (auto simp: fdalloc_def upd_proc_def split: option.splits)

lemma ftable_ok_open_fd:
  assumes ok: "ftable_ok s" and run: "open_fd cfg K cur ip om s = Ok (r, s')"
  shows "ftable_ok s'"
proof -
  obtain f s1 where a: "filealloc s = (f, s1)" by fastforce
  obtain fd s2 where b: "(case f of None \<Rightarrow> (None, s1) | Some f \<Rightarrow> fdalloc cur f s1) = (fd, s2)" by fastforce
  note ok1 = ftable_ok_filealloc [OF ok a]
  have t2: "ftable s2 = ftable s1" using b ftable_fdalloc by (auto split: option.splits)
  have ok2: "ftable_ok s2" using ok1(1) ftable_ok_cong [OF t2] by simp
  show ?thesis
  proof (cases "f = None \<or> fd = None")
    case True
    then have "bindR (close_opt cfg K cur f s2) (\<lambda>s3.
        bindR (fs_do cfg cur (\<lambda>k. bindR (iunlockput ip k) end_op) s3) (\<lambda>s4. Ok (-1, s4))) = Ok (r, s')"
      using run a b by (auto simp: open_fd_def Let_def split: option.splits)
    then obtain s3 where "close_opt cfg K cur f s2 = Ok s3"
      "fs_do cfg cur (\<lambda>k. bindR (iunlockput ip k) end_op) s3 = Ok s'" by (auto simp: bindR_eq_Ok_iff)
    then show ?thesis using ftable_ok_close_opt [OF ok2] ftable_ok_cong [OF ftable_fs_do] by blast
  next
    case False
    then obtain g d where f: "f = Some g" "fd = Some d" by auto
    then obtain s3 where s3: "fs_do cfg cur (\<lambda>k. bindR (iunlock ip k) end_op) s2 = Ok s3"
      and s': "s' = upd_file g (open_file ip om) s3"
      using run a b by (auto simp: open_fd_def Let_def bindR_eq_Ok_iff)
    have t3: "ftable s3 = ftable s1" using ftable_fs_do [OF s3] t2 by simp
    have "ftable_ok s3" "f_ref (ftable s3 ! g) = 1"
      using ok1(1) ok1(2) [OF f(1)] ftable_ok_cong [OF t3] t3 by simp_all
    then show ?thesis using s' by (simp add: ftable_ok_typed)
  qed
qed

section \<open>Reading and writing\<close>

lemma ftable_ok_advance: "ftable_ok s \<Longrightarrow> ftable_ok (file_advance f r s)"
  by (auto simp: file_advance_def file_ok_def intro!: ftable_ok_upd)

lemma ftable_ok_fs_do: "ftable_ok s \<Longrightarrow> fs_do cfg cur g s = Ok s' \<Longrightarrow> ftable_ok s'"
  using ftable_ok_cong [OF ftable_fs_do] by blast

lemma ftable_ok_fs_op: "ftable_ok s \<Longrightarrow> fs_op cfg cur g s = Ok (r, s') \<Longrightarrow> ftable_ok s'"
  by (simp add: ftable_ok_def ftable_fs_op)

lemma ftable_ok_fileread_end: "ftable_ok s \<Longrightarrow> fileread_end cfg cur f r s = Ok s' \<Longrightarrow> ftable_ok s'"
  unfolding fileread_end_def Let_def by (rule ftable_ok_fs_do [OF ftable_ok_advance])

lemma ftable_ok_filewrite_end: "ftable_ok s \<Longrightarrow> filewrite_end cfg cur f r s = Ok s' \<Longrightarrow> ftable_ok s'"
  unfolding filewrite_end_def Let_def by (rule ftable_ok_fs_do [OF ftable_ok_advance])

lemma ftable_ok_filewrite_begin: "ftable_ok s \<Longrightarrow> filewrite_begin cfg cur f bs s = Ok (r, s') \<Longrightarrow> ftable_ok s'"
  unfolding filewrite_begin_def Let_def by (rule ftable_ok_fs_op)

lemma ftable_ok_filestat: "ftable_ok s \<Longrightarrow> filestat cfg cur f s = Ok (r, s') \<Longrightarrow> ftable_ok s'"
  by (auto simp: filestat_def Let_def split: if_splits intro: ftable_ok_fs_op)

lemma ftable_ok_piperead: "ftable_ok s \<Longrightarrow> piperead cfg cur p n s = Ok (r, s') \<Longrightarrow> ftable_ok s'"
  using ftable_ok_cong [OF ftable_piperead] by blast

lemma ftable_ok_pipewrite_loop: "ftable_ok s \<Longrightarrow> pipewrite_loop cfg cur p i bs s = Ok (r, s') \<Longrightarrow> ftable_ok s'"
  using ftable_ok_cong [OF ftable_pipewrite_loop] by blast

lemma ftable_ok_sleep_exit: "ftable_ok s \<Longrightarrow> ftable_ok (sleep_exit cur s)"
  by (simp add: ftable_ok_def sleep_exit_def upd_proc_def)

lemma ftable_ok_fileread:
  assumes ok: "ftable_ok s" and run: "fileread cfg cur f n s = Ok (r, s')"
  shows "ftable_ok s'"
proof (cases "f_readable (ftable s ! f) \<and> f_type (ftable s ! f) = FD_INODE")
  case True
  let ?x = "ftable s ! f"
  obtain q s1 where q: "fs_op cfg cur (\<lambda>k. bindR (ilock (f_ip ?x) k) (readi (f_ip ?x) (f_off ?x) (of_nat n))) s = Ok (q, s1)"
    and c: "(case q of IoDev d \<Rightarrow> Ok (FDev d 0, s1)
          | IoFail \<Rightarrow> bindR (fileread_end cfg cur f (-1) s1) (\<lambda>s2. Ok (FDone None, s2))
          | IoDone bs \<Rightarrow> bindR (fileread_end cfg cur f (int (length bs)) s1) (\<lambda>s2. Ok (FDone (Some bs), s2))) = Ok (r, s')"
    using run True by (auto simp: fileread_def Let_def bindR_eq_Ok_iff simp del: io.case)
  then show ?thesis using ftable_ok_fileread_end [OF ftable_ok_fs_op [OF ok q]]
      ftable_ok_fs_op [OF ok q] by (auto simp: bindR_eq_Ok_iff split: io.splits)
next
  case False
  then show ?thesis using run ok ftable_ok_piperead [OF ok]
    by (auto simp: fileread_def Let_def split: if_splits filetype.splits)
qed

lemma ftable_ok_filewrite_loop:
  "ftable_ok s \<Longrightarrow> filewrite_loop cfg cur f i bs s = Ok (r, s') \<Longrightarrow> ftable_ok s'"
proof (induction cfg cur f i bs s rule: filewrite_loop.induct)
  case (1 cfg cur f i bs s)
  let ?n = "min (length bs - i) max_chunk"
  show ?case
  proof (cases "i < length bs")
    case True
    obtain q s1 where q: "filewrite_begin cfg cur f (take ?n (drop i bs)) s = Ok (q, s1)"
      and c: "(case q of IoDev d \<Rightarrow> Ok (FDev d i, s1)
           | IoFail \<Rightarrow> bindR (filewrite_end cfg cur f (-1) s1) (\<lambda>s2. Ok (FDone (-1), s2))
           | IoDone w \<Rightarrow> bindR (filewrite_end cfg cur f (int w) s1) (\<lambda>s2.
               if w \<noteq> ?n then Panic ''short filewrite'' else filewrite_loop cfg cur f (i + w) bs s2)) = Ok (r, s')"
      using 1(3) True by (subst (asm) filewrite_loop.simps) (auto simp: Let_def bindR_eq_Ok_iff simp del: io.case)
    note ok1 = ftable_ok_filewrite_begin [OF 1(2) q]
    show ?thesis
    proof (cases q)
      case (IoDone w)
      with c obtain s2 where e: "filewrite_end cfg cur f (int w) s1 = Ok s2" and w: "w = ?n"
        and l: "filewrite_loop cfg cur f (i + w) bs s2 = Ok (r, s')"
        by (auto simp: bindR_eq_Ok_iff split: if_splits)
      show ?thesis
        using 1(1) [OF True refl q refl IoDone e] w l ftable_ok_filewrite_end [OF ok1 e] by simp
    qed (use c ok1 ftable_ok_filewrite_end [OF ok1] in \<open>auto simp: bindR_eq_Ok_iff\<close>)
  next
    case False
    then show ?thesis using 1(2,3) by (subst (asm) filewrite_loop.simps) auto
  qed
qed

lemma ftable_ok_filewrite: "ftable_ok s \<Longrightarrow> filewrite cfg cur f bs s = Ok (r, s') \<Longrightarrow> ftable_ok s'"
  by (auto simp: filewrite_def pipewrite_def Let_def split: if_splits filetype.splits
    intro: ftable_ok_filewrite_loop ftable_ok_pipewrite_loop)

lemma ftable_ok_dev_done: "ftable_ok s \<Longrightarrow> filewrite_dev_done cfg cur f i bs n s = Ok (r, s') \<Longrightarrow> ftable_ok s'"
  by (auto simp: filewrite_dev_done_def bindR_eq_Ok_iff split: if_splits
    dest: ftable_ok_filewrite_end ftable_ok_filewrite_loop)

section \<open>All runs\<close>

text \<open>
  What happens to the table of open files, one call at a time: every function that touches an
  entry, with the second halves of the calls that sleep or wait for a device, and everything
  else the kernel does between two of them.
\<close>

inductive file_step :: "sched_policy \<Rightarrow> ksym \<Rightarrow> 'a kern_scheme \<Rightarrow> 'a kern_scheme \<Rightarrow> bool" for cfg K where
  st_alloc: "filealloc s = (r, s') \<Longrightarrow> file_step cfg K s s'"
| st_dup: "filedup f s = Ok s' \<Longrightarrow> file_step cfg K s s'"
| st_close: "fileclose cfg K cur f s = Ok s' \<Longrightarrow> file_step cfg K s s'"
| st_pipe: "pipealloc cfg K cur s = Ok (fs, s') \<Longrightarrow> file_step cfg K s s'"
| st_open: "open_fd cfg K cur ip om s = Ok (fd, s') \<Longrightarrow> file_step cfg K s s'"
| st_stat: "filestat cfg cur f s = Ok (st, s') \<Longrightarrow> file_step cfg K s s'"
| st_read: "fileread cfg cur f n s = Ok (out, s') \<Longrightarrow> file_step cfg K s s'"
| st_read_end: "fileread_end cfg cur f n' s = Ok s' \<Longrightarrow> file_step cfg K s s'"
| st_read_on: "piperead_resume cfg cur p n s = Ok (out, s') \<Longrightarrow> file_step cfg K s s'"
| st_write: "filewrite cfg cur f bs s = Ok (out', s') \<Longrightarrow> file_step cfg K s s'"
| st_write_dev: "filewrite_dev_done cfg cur f i bs n' s = Ok (out', s') \<Longrightarrow> file_step cfg K s s'"
| st_write_on: "pipewrite_resume cfg cur p i bs s = Ok (out', s') \<Longrightarrow> file_step cfg K s s'"
| st_other: "ftable s' = ftable s \<Longrightarrow> file_step cfg K s s'"

lemma ftable_ok_read_on: "ftable_ok s \<Longrightarrow> piperead_resume cfg cur p n s = Ok (r, s') \<Longrightarrow> ftable_ok s'"
  unfolding piperead_resume_def by (rule ftable_ok_piperead [OF ftable_ok_sleep_exit])

lemma ftable_ok_write_on: "ftable_ok s \<Longrightarrow> pipewrite_resume cfg cur p i bs s = Ok (r, s') \<Longrightarrow> ftable_ok s'"
  unfolding pipewrite_resume_def by (rule ftable_ok_pipewrite_loop [OF ftable_ok_sleep_exit])

lemma ftable_ok_other: "ftable_ok s \<Longrightarrow> ftable s' = ftable s \<Longrightarrow> ftable_ok s'"
  by (simp add: ftable_ok_def)

lemmas ftable_ok_calls = ftable_ok_filealloc(1) ftable_ok_filedup ftable_ok_fileclose ftable_ok_pipealloc
  ftable_ok_open_fd ftable_ok_filestat ftable_ok_fileread ftable_ok_fileread_end ftable_ok_read_on
  ftable_ok_filewrite ftable_ok_dev_done ftable_ok_write_on ftable_ok_other

lemma ftable_ok_step: "file_step cfg K s s' \<Longrightarrow> ftable_ok s \<Longrightarrow> ftable_ok s'"
  by (induction rule: file_step.induct) (rule ftable_ok_calls, assumption, assumption)+

lemma ftable_ok_run: "(file_step cfg K)\<^sup>*\<^sup>* s s' \<Longrightarrow> ftable_ok s \<Longrightarrow> ftable_ok s'"
  by (induction rule: rtranclp_induct) (assumption, rule ftable_ok_step)

lemma ftable_boot [simp]: "ftable (boot_kern d) = replicate NFILE zero_file"
  by (simp add: boot_kern_def kern.defs kproc.defs)

lemma ftable_ok_boot: "ftable_ok (boot_kern d)"
  by (auto simp: ftable_ok_def file_ok_def zero_file_def)

text \<open>
  C39: In every run of the kernel from boot, whatever is opened, duplicated, read, written and
  closed in whatever order, the table of open files is well typed: it has \<^verbatim>\<open>NFILE\<close> entries, no
  reference count is negative, and an entry without references has type \<^verbatim>\<open>FD_NONE\<close>. So a file
  that \<^verbatim>\<open>filealloc\<close> hands out is an entry of the table with exactly one reference and no
  type left over from its previous use.
\<close>

theorem ftable_well_typed:
  assumes "(file_step cfg K)\<^sup>*\<^sup>* (boot_kern d) s"
  shows "length (ftable s) = NFILE \<and>
    (\<forall>f < NFILE. 0 \<le> f_ref (ftable s ! f) \<and> (f_ref (ftable s ! f) = 0 \<longrightarrow> f_type (ftable s ! f) = FD_NONE)) \<and>
    (\<forall>f s'. filealloc s = (Some f, s') \<longrightarrow>
      f < NFILE \<and> f_ref (ftable s' ! f) = 1 \<and> f_type (ftable s' ! f) = FD_NONE)"
proof -
  have ok: "ftable_ok s" by (rule ftable_ok_run [OF assms ftable_ok_boot])
  then show ?thesis using ftable_ok_filealloc(2) [OF ok _ refl] by (simp add: ftable_ok_def file_ok_def)
qed

lemma boot_files: "ftable (boot_kern d) = zero_file # zero_file # replicate (NFILE - 2) zero_file"
proof -
  have "NFILE = Suc (Suc (NFILE - 2))" by (simp add: param_defs)
  then show ?thesis unfolding ftable_boot by (metis replicate_Suc)
qed

lemma alloc_boot: "filealloc (boot_kern d) = (Some 0, upd_file 0 (\<lambda>x. x\<lparr>f_ref := 1\<rparr>) (boot_kern d))"
  by (simp add: filealloc_def boot_files zero_file_def find_index_def del: ftable_boot)

theorem ftable_well_typed_witness:
  "let s = upd_file 0 (\<lambda>x. x\<lparr>f_ref := 1\<rparr>) (boot_kern []) in
    (file_step RR \<lparr>k_end = 0, k_data = 0, k_forkret = 0, k_trapret = 0\<rparr>)\<^sup>*\<^sup>* (boot_kern []) s \<and>
    length (ftable s) = NFILE \<and> f_ref (ftable s ! 0) = 1 \<and>
    f_ref (ftable s ! 1) = 0 \<and> f_type (ftable s ! 1) = FD_NONE"
proof -
  let ?K = "\<lparr>k_end = 0, k_data = 0, k_forkret = 0, k_trapret = 0\<rparr>" and ?s = "upd_file 0 (\<lambda>x. x\<lparr>f_ref := 1\<rparr>) (boot_kern [])"
  have run: "(file_step RR ?K)\<^sup>*\<^sup>* (boot_kern []) ?s"
    by (rule r_into_rtranclp, rule st_alloc, rule alloc_boot)
  have "ftable ?s = zero_file\<lparr>f_ref := 1\<rparr> # zero_file # replicate (NFILE - 2) zero_file"
    by (simp add: upd_file_def boot_files del: ftable_boot)
  then have "f_ref (ftable ?s ! 0) = 1" "f_ref (ftable ?s ! 1) = 0" by (simp_all add: zero_file_def)
  moreover have "1 < NFILE" by (simp add: param_defs)
  moreover note w = ftable_well_typed [OF run]
  ultimately show ?thesis unfolding Let_def
    using w [THEN conjunct2, THEN conjunct1, rule_format, of 1] by (intro conjI run w [THEN conjunct1]) simp_all
qed

end
