(* ===== verification/Grep.thy ===== *)
theory Grep
  imports Xv6_Prelude
begin

text \<open>
  The user program \<^verbatim>\<open>grep\<close> (\<^verbatim>\<open>grep.c\<close>): the matcher of regular expressions and the loop over
  the lines of a file. A C string is the list of its bytes before the NUL, so that
  \<^verbatim>\<open>re[0] == 0\<close> is the empty list. The matcher is compared with the language that the
  expression denotes.
\<close>

section \<open>The matcher\<close>

abbreviation ch_caret :: uchar where "ch_caret \<equiv> 94"
abbreviation ch_star :: uchar where "ch_star \<equiv> 42"
abbreviation ch_dollar :: uchar where "ch_dollar \<equiv> 36"
abbreviation ch_dot :: uchar where "ch_dot \<equiv> 46"
abbreviation ch_newline :: uchar where "ch_newline \<equiv> 10"

function (sequential) matchhere :: "uchar list \<Rightarrow> uchar list \<Rightarrow> bool"
  and matchstar :: "uchar \<Rightarrow> uchar list \<Rightarrow> uchar list \<Rightarrow> bool" where
  "matchhere [] tx = True"
| "matchhere (r # re) tx =
     (if re \<noteq> [] \<and> hd re = ch_star then matchstar r (tl re) tx
      else if r = ch_dollar \<and> re = [] then tx = []
      else case tx of
             [] \<Rightarrow> False
           | t # ts \<Rightarrow> (r = ch_dot \<or> r = t) \<and> matchhere re ts)"
| "matchstar c re tx =
     (matchhere re tx \<or>
      (case tx of [] \<Rightarrow> False | t # ts \<Rightarrow> (t = c \<or> c = ch_dot) \<and> matchstar c re ts))"
  by pat_completeness auto
termination
  by (relation "measure (\<lambda>x. case x of
        Inl (re, tx) \<Rightarrow> 2 * length re + length tx
      | Inr (c, re, tx) \<Rightarrow> 2 * length re + length tx + 1)")
    (auto simp: neq_Nil_conv)

declare matchhere.simps(2) [simp del] matchstar.simps [simp del]

text \<open>The loop of \<^verbatim>\<open>match\<close>, which also looks at the empty string at the end.\<close>

fun match_from :: "uchar list \<Rightarrow> uchar list \<Rightarrow> bool" where
  "match_from re [] = matchhere re []"
| "match_from re (t # ts) = (matchhere re (t # ts) \<or> match_from re ts)"

definition match :: "uchar list \<Rightarrow> uchar list \<Rightarrow> bool" where
  "match re tx =
     (if re \<noteq> [] \<and> hd re = ch_caret then matchhere (tl re) tx else match_from re tx)"

section \<open>The program\<close>

text \<open>
  The inner loop: the buffer from \<^verbatim>\<open>p\<close> on. \<^verbatim>\<open>strchr\<close> looks for a newline before the first
  NUL. The result is what is written and what \<^verbatim>\<open>p\<close> points to at the end.
\<close>

function grep_lines :: "uchar list \<Rightarrow> uchar list \<Rightarrow> uchar list \<times> uchar list" where
  "grep_lines re p =
     (if ch_newline \<in> set (takeWhile (\<lambda>c. c \<noteq> 0) p)
      then let l = takeWhile (\<lambda>c. c \<noteq> ch_newline) p;
               (out, rest) = grep_lines re (drop (Suc (length l)) p)
           in ((if match re l then l @ [ch_newline] else []) @ out, rest)
      else ([], p))"
  by pat_completeness auto
termination
  by (relation "measure (\<lambda>(re, p). length p)") (auto dest!: set_takeWhileD intro!: diff_less length_pos_if_in_set)

declare grep_lines.simps [simp del]

text \<open>
  The outer loop with the carried part of a line in the buffer. The list holds the results of the
  successive calls of \<^verbatim>\<open>read\<close>; an empty one is the end of the file or an error. The program asks for
  at most as many bytes as fit into the rest of its buffer of 1024; the definition takes any list.
\<close>

fun grep :: "uchar list \<Rightarrow> uchar list \<Rightarrow> uchar list list \<Rightarrow> uchar list" where
  "grep re b [] = []"
| "grep re b (c # cs) =
     (if c = [] then []
      else let b1 = b @ c;
               (out, p) = grep_lines re b1;
               b2 = (if length p = length b1 then [] else p)
           in out @ grep re b2 cs)"

section \<open>What an expression denotes\<close>

datatype item = One uchar | Star uchar

fun items :: "uchar list \<Rightarrow> item list" where
  "items [] = []"
| "items [c] = (if c = ch_dollar then [] else [One c])"
| "items (c # d # re) = (if d = ch_star then Star c # items re else One c # items (d # re))"

text \<open>An expression is tied to the end of the text when its last item is the dollar sign.\<close>

fun at_end :: "uchar list \<Rightarrow> bool" where
  "at_end [] = False"
| "at_end [c] = (c = ch_dollar)"
| "at_end (c # d # re) = (if d = ch_star then at_end re else at_end (d # re))"

definition fits :: "uchar \<Rightarrow> uchar \<Rightarrow> bool" where
  "fits c x \<longleftrightarrow> c = ch_dot \<or> c = x"

fun lang :: "item list \<Rightarrow> uchar list set" where
  "lang [] = {[]}"
| "lang (One c # r) = {x # w |x w. fits c x \<and> w \<in> lang r}"
| "lang (Star c # r) = {u @ w |u w. (\<forall>x \<in> set u. fits c x) \<and> w \<in> lang r}"

definition found_at_start :: "uchar list \<Rightarrow> uchar list \<Rightarrow> bool" where
  "found_at_start re tx \<longleftrightarrow> (\<exists>b c. tx = b @ c \<and> b \<in> lang (items re) \<and> (at_end re \<longrightarrow> c = []))"

definition found :: "uchar list \<Rightarrow> uchar list \<Rightarrow> bool" where
  "found re tx \<longleftrightarrow>
     (if re \<noteq> [] \<and> hd re = ch_caret then found_at_start (tl re) tx
      else \<exists>a rest. tx = a @ rest \<and> found_at_start re rest)"

section \<open>The matcher finds what the expression denotes\<close>

lemma found_one:
  assumes "re = [] \<longrightarrow> r \<noteq> ch_dollar" "re \<noteq> [] \<longrightarrow> hd re \<noteq> ch_star"
  shows "found_at_start (r # re) tx \<longleftrightarrow> (\<exists>t ts. tx = t # ts \<and> fits r t \<and> found_at_start re ts)"
proof -
  have "items (r # re) = One r # items re" "at_end (r # re) = at_end re"
    using assms by (cases re; auto)+
  then have "found_at_start (r # re) tx \<longleftrightarrow>
      (\<exists>x w c. tx = (x # w) @ c \<and> fits r x \<and> w \<in> lang (items re) \<and> (at_end re \<longrightarrow> c = []))"
    unfolding found_at_start_def by (simp only: lang.simps mem_Collect_eq) blast
  then show ?thesis unfolding found_at_start_def append_Cons by blast
qed

lemma found_star:
  "found_at_start (c # ch_star # re) tx \<longleftrightarrow>
     (\<exists>u v. tx = u @ v \<and> (\<forall>x \<in> set u. fits c x) \<and> found_at_start re v)" (is "?L \<longleftrightarrow> ?R")
proof
  assume ?L
  then obtain e d where e: "tx = e @ d" "e \<in> lang (Star c # items re)" "at_end re \<longrightarrow> d = []"
    by (auto simp: found_at_start_def simp del: lang.simps)
  then obtain u w where "tx = (u @ w) @ d" "\<forall>x \<in> set u. fits c x" "w \<in> lang (items re)" by auto
  moreover from this e(3) have "found_at_start re (w @ d)"
    unfolding found_at_start_def by blast
  ultimately show ?R by (intro exI [of _ u] exI [of _ "w @ d"]) simp
next
  assume ?R
  then obtain u w d where *: "tx = (u @ w) @ d" "\<forall>x \<in> set u. fits c x" "w \<in> lang (items re)" "at_end re \<longrightarrow> d = []"
    by (auto simp: found_at_start_def)
  then have "u @ w \<in> lang (items (c # ch_star # re))" by auto
  then show ?L unfolding found_at_start_def using * by (intro exI [of _ "u @ w"] exI [of _ d]) simp
qed

lemma star_cases:
  "(\<exists>u v. tx = u @ v \<and> (\<forall>x \<in> set u. fits c x) \<and> P v) \<longleftrightarrow>
     P tx \<or> (case tx of [] \<Rightarrow> False | t # ts \<Rightarrow> fits c t \<and> (\<exists>u v. ts = u @ v \<and> (\<forall>x \<in> set u. fits c x) \<and> P v))"
  (is "?L \<longleftrightarrow> ?R")
proof
  assume ?L
  then obtain u v where "tx = u @ v" "\<forall>x \<in> set u. fits c x" "P v" by blast
  then show ?R by (cases u) auto
next
  assume ?R
  then show ?L
  proof
    assume "P tx"
    then show ?L by (intro exI [of _ "[]"] exI [of _ tx]) simp
  next
    assume "case tx of [] \<Rightarrow> False | t # ts \<Rightarrow> fits c t \<and> (\<exists>u v. ts = u @ v \<and> (\<forall>x \<in> set u. fits c x) \<and> P v)"
    then obtain t u v where "tx = t # u @ v" "fits c t" "\<forall>x \<in> set u. fits c x" "P v"
      by (auto split: list.splits)
    then show ?L by (intro exI [of _ "t # u"] exI [of _ v]) simp
  qed
qed

lemma matchhere_spec:
  "matchhere re tx \<longleftrightarrow> found_at_start re tx"
  "matchstar c re tx \<longleftrightarrow> (\<exists>u v. tx = u @ v \<and> (\<forall>x \<in> set u. fits c x) \<and> found_at_start re v)"
proof (induction re tx and c re tx rule: matchhere_matchstar.induct)
  case (1 tx)
  then show ?case by (simp add: found_at_start_def)
next
  case (2 r re tx)
  consider "re \<noteq> [] \<and> hd re = ch_star" | "re = [] \<and> r = ch_dollar"
    | "re = [] \<longrightarrow> r \<noteq> ch_dollar" "re \<noteq> [] \<longrightarrow> hd re \<noteq> ch_star" by blast
  then show ?case
  proof cases
    case 1
    then have "re = ch_star # tl re" by (cases re) auto
    then have "found_at_start (r # re) tx = found_at_start (r # ch_star # tl re) tx" by simp
    then show ?thesis using 2(1) [OF 1] 1 unfolding found_star by (simp add: matchhere.simps(2))
  next
    case 2
    then show ?thesis by (auto simp: matchhere.simps(2) found_at_start_def)
  next
    case 3
    have "\<not> (re \<noteq> [] \<and> hd re = ch_star)" "\<not> (r = ch_dollar \<and> re = [])" using 3 by blast+
    then show ?thesis using 2(2) unfolding found_one [OF 3]
      by (cases tx) (auto simp: matchhere.simps(2) fits_def)
  qed
next
  case (3 c re tx)
  show ?case
    unfolding matchstar.simps [of c re tx] star_cases [of tx c "found_at_start re"]
    using 3 by (cases tx) (auto simp: fits_def)
qed

lemma match_from_spec: "match_from re tx \<longleftrightarrow> (\<exists>a rest. tx = a @ rest \<and> found_at_start re rest)"
proof (induction tx)
  case (Cons t ts)
  have "(\<exists>a rest. t # ts = a @ rest \<and> P rest) \<longleftrightarrow> P (t # ts) \<or> (\<exists>a rest. ts = a @ rest \<and> P rest)" for P
    by (auto simp: Cons_eq_append_conv)
  then show ?case using Cons by (simp add: matchhere_spec(1))
qed (simp add: matchhere_spec(1))

lemma match_spec: "match re tx = found re tx"
  by (simp add: match_def found_def matchhere_spec(1) match_from_spec)

section \<open>What the program prints\<close>

text \<open>The complete lines of a text, without their newlines.\<close>

fun lines_from :: "uchar list \<Rightarrow> uchar list \<Rightarrow> uchar list list" where
  "lines_from l [] = []"
| "lines_from l (c # cs) = (if c = ch_newline then l # lines_from [] cs else lines_from (l @ [c]) cs)"

text \<open>What is left of the text after its last newline.\<close>

definition unfinished :: "uchar list \<Rightarrow> uchar list" where
  "unfinished p = rev (takeWhile (\<lambda>c. c \<noteq> ch_newline) (rev p))"

definition selected :: "uchar list \<Rightarrow> uchar list list \<Rightarrow> uchar list" where
  "selected re ls = concat (map (\<lambda>l. l @ [ch_newline]) (filter (found re) ls))"

lemma lines_from_append:
  "ch_newline \<notin> set p \<Longrightarrow> lines_from l (p @ q) = lines_from (l @ p) q"
  by (induction p arbitrary: l) auto

lemma lines_none: "ch_newline \<notin> set p \<Longrightarrow> lines_from l p = []"
  using lines_from_append [of p l "[]"] by simp

lemma line_split:
  assumes "ch_newline \<in> set p"
  obtains l q where "p = l @ ch_newline # q" "ch_newline \<notin> set l"
    "takeWhile (\<lambda>c. c \<noteq> ch_newline) p = l" "drop (Suc (length l)) p = q"
proof -
  from split_list_first [OF assms] obtain l q where lq: "p = l @ ch_newline # q" "ch_newline \<notin> set l" by blast
  then have "takeWhile (\<lambda>c. c \<noteq> ch_newline) p = l" by (subst lq(1), subst takeWhile_append2) auto
  with lq show ?thesis by (intro that) simp_all
qed

lemma takeWhile_no_nul: "0 \<notin> set p \<Longrightarrow> takeWhile (\<lambda>c. c \<noteq> (0 :: uchar)) p = p"
  by (auto simp: takeWhile_eq_all_conv)

lemma unfinished_split: "unfinished (l @ ch_newline # q) = unfinished q"
  by (auto simp: unfinished_def takeWhile_append takeWhile_eq_all_conv [THEN iffD2])

lemma unfinished_none: "ch_newline \<notin> set p \<Longrightarrow> unfinished p = p"
  by (auto simp: unfinished_def takeWhile_eq_all_conv rev_swap)

lemma grep_lines_spec:
  "0 \<notin> set p \<Longrightarrow> grep_lines re p = (selected re (lines_from [] p), unfinished p)"
proof (induction re p rule: grep_lines.induct)
  case (1 re p)
  note nul = takeWhile_no_nul [OF 1(2)]
  show ?case
  proof (cases "ch_newline \<in> set p")
    case True
    then obtain l q where s: "p = l @ ch_newline # q" "ch_newline \<notin> set l"
      "takeWhile (\<lambda>c. c \<noteq> ch_newline) p = l" "drop (Suc (length l)) p = q" by (rule line_split)
    have nl: "ch_newline \<in> set (takeWhile (\<lambda>c. c \<noteq> 0) p)" using True by (simp only: nul)
    have "0 \<notin> set q" using 1(2) s(1) by simp
    then have IH: "grep_lines re q = (selected re (lines_from [] q), unfinished q)"
      using 1(1) [OF nl s(3) [symmetric]] s(4) by simp
    have "lines_from [] p = l # lines_from [] q" using lines_from_append [OF s(2)] by (simp add: s(1))
    then show ?thesis
      using True s(3,4) IH unfinished_split [of l q]
      by (simp add: nul grep_lines.simps [of re p] s(1) [symmetric] selected_def match_spec)
  next
    case False
    then show ?thesis by (simp add: nul grep_lines.simps [of re p] lines_none selected_def unfinished_none)
  qed
qed

lemma unfinished_set: "set (unfinished p) \<subseteq> set p" "ch_newline \<notin> set (unfinished p)"
  unfolding unfinished_def by (auto dest: set_takeWhileD)

lemma unfinished_shorter:
  assumes "ch_newline \<in> set p"
  shows "length (unfinished p) \<noteq> length p"
proof
  assume "length (unfinished p) = length p"
  then have "length (takeWhile (\<lambda>c. c \<noteq> ch_newline) (rev p)) = length (rev p)" by (simp add: unfinished_def)
  then have "takeWhile (\<lambda>c. c \<noteq> ch_newline) (rev p) = rev p"
    by (metis takeWhile_eq_take take_all order_refl)
  then show False using assms by (auto simp: takeWhile_eq_all_conv)
qed

lemma lines_join: "lines_from [] (p @ q) = lines_from [] p @ lines_from [] (unfinished p @ q)"
proof (induction "length p" arbitrary: p rule: less_induct)
  case less
  show ?case
  proof (cases "ch_newline \<in> set p")
    case True
    then obtain l r where s: "p = l @ ch_newline # r" "ch_newline \<notin> set l" by (rule line_split)
    have "lines_from [] (r @ q) = lines_from [] r @ lines_from [] (unfinished r @ q)"
      by (rule less) (simp add: s(1))
    then show ?thesis by (simp add: s(1) lines_from_append [OF s(2)] unfinished_split)
  qed (simp add: lines_none unfinished_none)
qed

lemma selected_append: "selected re (xs @ ys) = selected re xs @ selected re ys"
  by (simp add: selected_def)

lemma grep_carries:
  assumes "\<forall>c \<in> set cs. ch_newline \<in> set c \<and> 0 \<notin> set c" "0 \<notin> set b" "ch_newline \<notin> set b"
  shows "grep re b cs = selected re (lines_from [] (b @ concat cs))"
  using assms
proof (induction cs arbitrary: b)
  case Nil
  then show ?case by (simp add: lines_none selected_def)
next
  case (Cons c cs)
  let ?b = "b @ c"
  have c: "ch_newline \<in> set ?b" "0 \<notin> set ?b" "c \<noteq> []" using Cons.prems by auto
  have IH: "grep re (unfinished ?b) cs = selected re (lines_from [] (unfinished ?b @ concat cs))"
    using c Cons.prems unfinished_set [of ?b] by (intro Cons.IH) auto
  have "grep re b (c # cs) = selected re (lines_from [] ?b) @ grep re (unfinished ?b) cs"
    using c(3) unfinished_shorter [OF c(1)] by (simp add: grep_lines_spec [OF c(2)] Let_def)
  then show ?case using IH lines_join [of ?b "concat cs"] by (simp add: selected_append)
qed

text \<open>
  A call of \<^verbatim>\<open>read\<close> that ends before the first newline of the buffer loses what the buffer
  holds, because \<^verbatim>\<open>p == buf\<close> is taken to mean that the buffer is full.
\<close>

lemma grep_forgets:
  assumes "c \<noteq> []" "ch_newline \<notin> set (b @ c)" "0 \<notin> set (b @ c)"
  shows "grep re b (c # cs) = grep re [] cs"
  using assms(1) grep_lines_spec [OF assms(3), of re] unfinished_none [OF assms(2)] lines_none [OF assms(2)]
  by (simp add: selected_def Let_def)

text \<open>
  C40: The matcher of \<^verbatim>\<open>grep\<close>, with its two mutually recursive loops, returns on every pattern
  and every text and decides exactly what the pattern denotes: the text has a part that
  is a word of the pattern's language, where \<^verbatim>\<open>c*\<close> is any number of bytes that fit \<^verbatim>\<open>c\<close>, a dot
  fits every byte, a leading \<^verbatim>\<open>^\<close> ties the part to the start and a final dollar to the end.
  The program prints exactly the matching lines, in order, when every call of \<^verbatim>\<open>read\<close> returns at
  least one newline and no NUL.
\<close>

theorem grep_prints_matches:
  "(match re l \<longleftrightarrow> found re l) \<and>
   ((\<forall>c \<in> set cs. ch_newline \<in> set c \<and> 0 \<notin> set c) \<longrightarrow>
      grep re [] cs = concat (map (\<lambda>l. l @ [ch_newline]) (filter (found re) (lines_from [] (concat cs)))))"
  using grep_carries [of cs "[]" re] by (simp add: match_spec selected_def)

theorem grep_prints_matches_witness:
  "match [97, ch_star, 98, ch_dollar] [120, 97, 97, 98] \<and> found [97, ch_star, 98, ch_dollar] [120, 97, 97, 98] \<and>
   grep [ch_caret, 98] [] [[97, 98, 10, 98], [99, 10]] = [98, 99, 10] \<and>
   concat (map (\<lambda>l. l @ [ch_newline]) (filter (found [ch_caret, 98]) (lines_from [] [97, 98, 10, 98, 99, 10]))) =
     [98, 99, 10]"
proof -
  have m: "match [97, ch_star, 98, ch_dollar] [120, 97, 97, 98]"
    by (simp add: match_def matchhere.simps(2) matchstar.simps)
  have g: "grep [ch_caret, 98] [] [[97, 98, 10, 98], [99, 10]] = [98, 99, 10]"
    by (simp add: grep_lines.simps match_def matchhere.simps(2))
  show ?thesis
    using m g grep_prints_matches [of "[97, ch_star, 98, ch_dollar]" "[120, 97, 97, 98]" "[]"]
      grep_prints_matches [of "[ch_caret, 98]" "[]" "[[97, 98, 10, 98], [99, 10]]"]
    by (simp del: grep.simps lines_from.simps)
qed

end
