(* ===== verification/Spec2Isabelle.thy ===== *)
theory Spec2Isabelle
  imports Proc_Props Log_Crash Pipe_Props Console_Props Path_Props Syscall_Props Vm_Props Fs_Props
    File_Props Grep
begin

text \<open>
  A verification of the modified xv6 kernel: a Unix-like kernel in C with four schedulers (round
  robin, first come first served, priorities, multi-level feedback queues), one of which is
  chosen when the kernel is compiled. The development models the kernel from the spin locks up to the
  trap handler, and one user program, and proves what its parts promise.

  \<^bold>\<open>The parts of the program and their theories.\<close> File names are those under \<^verbatim>\<open>src/\<close>; definitions
  keep the names of the C functions, and loops of a function have its name with a suffix.

  \<^item> \<^verbatim>\<open>Xv6_Prelude\<close>: the types of \<^verbatim>\<open>types.h\<close>, the constants of \<^verbatim>\<open>param.h\<close>, the result type of kernel
    code, generic lemmas. \<^verbatim>\<open>Ring\<close>: ring buffers with wrapping indices.
  \<^item> \<^verbatim>\<open>Spinlock\<close>: \<^verbatim>\<open>spinlock.c\<close> and the processor records of \<^verbatim>\<open>proc.h\<close>. \<^verbatim>\<open>Sleeplock\<close>: \<^verbatim>\<open>sleeplock.c\<close>.
  \<^item> \<^verbatim>\<open>Kstring\<close>: memory as bytes and \<^verbatim>\<open>string.c\<close>. \<^verbatim>\<open>Kalloc\<close>: \<^verbatim>\<open>kalloc.c\<close>, its free list threaded
    through the free pages. \<^verbatim>\<open>Vm\<close>: \<^verbatim>\<open>vm.c\<close>, page tables in the same memory.
  \<^item> \<^verbatim>\<open>Mlfq_Queue\<close>: the arrays of the five run queues of \<^verbatim>\<open>proc.c\<close>. \<^verbatim>\<open>Proc\<close>: the process table.
    \<^verbatim>\<open>Sched\<close>: the schedulers, \<^verbatim>\<open>sched\<close>, the timer part of \<^verbatim>\<open>trap.c\<close>. \<^verbatim>\<open>Proc_Life\<close>: \<^verbatim>\<open>userinit\<close>,
    \<^verbatim>\<open>fork\<close>, \<^verbatim>\<open>exit\<close>, \<^verbatim>\<open>growproc\<close>.
  \<^item> \<^verbatim>\<open>Bio\<close>: \<^verbatim>\<open>bio.c\<close> over the driver \<^verbatim>\<open>memide.c\<close>. \<^verbatim>\<open>Disk_Layout\<close>: \<^verbatim>\<open>fs.h\<close>. \<^verbatim>\<open>Log\<close>: \<^verbatim>\<open>log.c\<close>.
    \<^verbatim>\<open>Fs\<close>: \<^verbatim>\<open>fs.c\<close>. \<^verbatim>\<open>File\<close>: \<^verbatim>\<open>file.c\<close> and \<^verbatim>\<open>pipe.c\<close>.
  \<^item> \<^verbatim>\<open>Syscall_Args\<close>, \<^verbatim>\<open>Exec\<close>, \<^verbatim>\<open>Sysfile\<close>, \<^verbatim>\<open>Syscall\<close>, \<^verbatim>\<open>Trap\<close>: the argument fetching and
    the table of \<^verbatim>\<open>syscall.c\<close>, \<^verbatim>\<open>exec.c\<close>, \<^verbatim>\<open>sysfile.c\<close>, \<^verbatim>\<open>sysproc.c\<close> and \<^verbatim>\<open>trap.c\<close>.
  \<^item> \<^verbatim>\<open>Console\<close>, \<^verbatim>\<open>Kbd\<close>: \<^verbatim>\<open>console.c\<close>, the serial port of \<^verbatim>\<open>uart.c\<close>, \<^verbatim>\<open>kbd.c\<close>.
  \<^item> \<^verbatim>\<open>Grep\<close>: the user program \<^verbatim>\<open>grep.c\<close>.

  \<^bold>\<open>State.\<close> The state of the kernel is a chain of records, each theory adding the global variables of its
  source file, and operations work on every extension of the record they need. The process side is
  \<^verbatim>\<open>kmem\<close> (memory and free list), \<^verbatim>\<open>mlfq\<close> (run queues), \<^verbatim>\<open>kproc\<close> (process table, ticks, current process and
  page table register), \<^verbatim>\<open>kern\<close> (open files, pipes, and the storage side as one field), \<^verbatim>\<open>kcon\<close> (console). The
  storage side is \<^verbatim>\<open>kio\<close> (disk and buffer cache), \<^verbatim>\<open>klog\<close> (log), \<^verbatim>\<open>kfs\<close> (super block, inode cache); \<^verbatim>\<open>fs_op\<close> runs
  storage code inside the kernel and hands its wakeups to the process table. Pointers into
  the kernel's tables are indices, pointers into memory are addresses.

  \<^bold>\<open>Outcomes.\<close> An operation returns \<^term>\<open>Ok\<close> with its result, \<^term>\<open>Panic\<close> with the message of
  the C code, \<^term>\<open>Undef\<close> where C leaves the behaviour undefined, or \<^term>\<open>Sleeps\<close> where the process has to wait
  and will run the call again. A call that sleeps in the middle returns its progress and has a second
  definition that goes on from there. So every panic and early return of the source is a branch of the model.

  \<^bold>\<open>What is shown.\<close>
  \<^item> Scheduling (\<^verbatim>\<open>Mlfq_Inv\<close>, \<^verbatim>\<open>Mlfq_Sched\<close>, \<^verbatim>\<open>Mlfq_System\<close>, \<^verbatim>\<open>Proc_Props\<close>): in every reachable state the run
    queues agree with the process table, no operation panics or leaves the arrays, aging and
    demotion are functions on lists, each policy runs the process it chooses and which one that is,
    wakeup, exit, kill and waitx act as described, with the flaws of \<^verbatim>\<open>kill(0)\<close> and \<^verbatim>\<open>waitx\<close>.
  \<^item> Locks (\<^verbatim>\<open>Spinlock\<close>): mutual exclusion under all interleavings.
  \<^item> Memory (\<^verbatim>\<open>Kstring\<close>, \<^verbatim>\<open>Kalloc\<close>, \<^verbatim>\<open>Vm_Props\<close>): \<^verbatim>\<open>memmove\<close> on overlapping ranges; the allocator
    hands out every page once; \<^verbatim>\<open>mappages\<close> and \<^verbatim>\<open>allocuvm\<close> make the translations they promise and no other,
    and \<^verbatim>\<open>deallocuvm\<close> gives back the pages it unmaps.
  \<^item> Storage (\<^verbatim>\<open>Bio\<close>, \<^verbatim>\<open>Log_Crash\<close>, \<^verbatim>\<open>Fs_Blocks\<close>, \<^verbatim>\<open>Fs_Files\<close>, \<^verbatim>\<open>Fs_Props\<close>, \<^verbatim>\<open>Path_Props\<close>): the cache is transparent, a
    commit is atomic under a crash at any write, a file is an array of bytes for \<^verbatim>\<open>readi\<close> and
    \<^verbatim>\<open>writei\<close>, the block allocator keeps its free map, paths are cut at their slashes; and three operations that
    \<^verbatim>\<open>begin_op\<close> admits can overfill the log.
  \<^item> Files, pipes and console (\<^verbatim>\<open>File_Props\<close>, \<^verbatim>\<open>Pipe_Props\<close>, \<^verbatim>\<open>Console_Props\<close>): the file table is well typed
    in every run; a pipe delivers what was written, in order, and its
    readers and writers are woken when they can go on, as long as no killed writer fills it (that case is
    shown to go wrong); the console refines a line editor and writes inside the screen.
  \<^item> The boundary to user code (\<^verbatim>\<open>Syscall_Props\<close>): arguments are accepted only from the memory of the
    process, the trap handler does not return to user mode for a process that is marked as killed, provided that a switch
    away comes back to the same process, and \<^verbatim>\<open>sbrk\<close> of minus the whole size frees the memory yet fails.
  \<^item> \<^verbatim>\<open>Grep\<close>: the matcher decides the language of its pattern.

  \<^bold>\<open>Interfaces.\<close> The locale \<^verbatim>\<open>page_allocator\<close> (theory \<^verbatim>\<open>Kalloc\<close>) is what the users of \<^verbatim>\<open>kalloc\<close> and \<^verbatim>\<open>kfree\<close> rely
  on, \<^verbatim>\<open>run_queues\<close> (theory \<^verbatim>\<open>Mlfq_Queue\<close>) what the process operations rely on in the queue loops; both are
  interpreted on the definitions that model the code. \<^verbatim>\<open>Kern_Frame\<close> says what the process
  operations leave alone in the rest of the kernel.

  \<^bold>\<open>Concurrency.\<close> Code under a spin lock is one step; the runs of \<^verbatim>\<open>Mlfq_System\<close>, \<^verbatim>\<open>Pipe_Props\<close> and
  \<^verbatim>\<open>File_Props\<close> are sequences of such steps in any order. Only \<^verbatim>\<open>Spinlock\<close> goes below that, to the atomic
  exchange. The context switch is an argument of the schedulers and of the trap handler, and what other processors
  do between the unlocking and the last reads of \<^verbatim>\<open>waitx\<close> is an argument of it; theorems name what they
  ask of a switch.

  \<^bold>\<open>Bounds and fuel.\<close> Loops are structural or come with a termination proof. Two use a counter: the
  walk of the buffer list takes at most \<^verbatim>\<open>NBUF + 1\<close> tests, which is enough for the ring that the
  cache invariant describes (proved in \<^verbatim>\<open>Bio\<close>), and a write to the console takes at most one piece per byte. Running out is
  \<^term>\<open>Undef\<close>. Unsigned integers are words of their width.

  \<^bold>\<open>Not modelled.\<close> The IDE driver and the interrupt controllers (device registers), the boot code,
  context switch and trap entries (assembly), \<^verbatim>\<open>seginit\<close>, \<^verbatim>\<open>tvinit\<close> and \<^verbatim>\<open>idtinit\<close> (processor tables), \<^verbatim>\<open>mkfs.c\<close> (a host
  program), the shell, the user library and the other user programs, which are not part of the kernel, and
  \<^verbatim>\<open>k.c\<close>, an old copy of \<^verbatim>\<open>proc.c\<close> that is not compiled.
\<close>

end
